(* ===== verification/Xv6Prelude.thy ===== *)
theory Xv6Prelude
  imports Main "HOL-Library.Word"
begin

text \<open>
  Shared vocabulary of the development: the outcome type of a kernel call, C's machine
  integers, byte-addressed memory with little-endian words, and the first-match table scan that
  xv6 writes as a \<open>for\<close> loop over a static array.  The component theories declare their
  rewriting rules in the collections \<open>res_simps\<close> (sequencing of outcomes) and
  \<open>mem_simps\<close> (memory reads after writes).
\<close>

named_theorems res_simps
named_theorems mem_simps

unbundle bit_operations_syntax

section \<open>Machine types\<close>

type_synonym byte = "8 word"
type_synonym u16 = "16 word"
type_synonym u32 = "32 word"
type_synonym addr = "32 word"
type_synonym memory = "addr \<Rightarrow> byte"

text \<open>C's signed 32-bit \<open>int\<close>, with the wrap-around written out.\<close>

definition s32 :: "int \<Rightarrow> int" where
  "s32 x = (x + 2 ^ 31) mod 2 ^ 32 - 2 ^ 31"

lemma s32_id: "- (2 ^ 31) \<le> x \<Longrightarrow> x < 2 ^ 31 \<Longrightarrow> s32 x = x"
  by (simp add: s32_def)

lemma s32_bounds: "- (2 ^ 31) \<le> s32 x" "s32 x < 2 ^ 31"
proof -
  have "0 \<le> (x + 2 ^ 31) mod 2 ^ 32" and "(x + 2 ^ 31) mod 2 ^ 32 < (2 ^ 32 :: int)"
    by simp_all
  then show "- (2 ^ 31) \<le> s32 x" and "s32 x < 2 ^ 31"
    by (simp_all add: s32_def)
qed

lemma unat_u32_lt: "unat (a :: u32) < 2 ^ 32"
  using unsigned_less [of a] by simp

lemma unat_add_u32:
  fixes a b :: u32
  shows "unat a + unat b < 2 ^ 32 \<Longrightarrow> unat (a + b) = unat a + unat b"
  by (simp add: unat_word_ariths)

lemma sint_small:
  assumes "unat (k :: u32) < 2 ^ 31"
  shows "sint k = int (unat k)"
proof -
  have "0 \<le> uint k" "uint k < 2 ^ 31" using assms nat_less_iff [of "uint k" "2 ^ 31"] by (simp_all flip: unat_eq_nat_uint)
  then have "signed_take_bit 31 (uint k) = uint k" by (intro signed_take_bit_int_eq_self) (linarith, simp)
  then have "sint k = uint k" by (simp add: sint_uint)
  then show ?thesis by simp
qed

section \<open>Outcomes of a kernel call\<close>

text \<open>
  A call either returns a value in a new state, panics (the machine stops with a message), gives
  up the CPU by switching to the scheduler, or spins on a lock that another CPU holds.  The code
  that runs after a switch is a definition of its own (suffix \<open>_resume\<close>).
\<close>

datatype ('a, 's) res = Ok 'a 's | Panic string | Swtch 's | Spin 's

fun bindR :: "('a, 's) res \<Rightarrow> ('a \<Rightarrow> 's \<Rightarrow> ('b, 's) res) \<Rightarrow> ('b, 's) res" where
  "bindR (Ok x s) f = f x s"
| "bindR (Panic m) f = Panic m"
| "bindR (Swtch s) f = Swtch s"
| "bindR (Spin s) f = Spin s"

declare bindR.simps [res_simps]

fun is_ok :: "('a, 's) res \<Rightarrow> bool" where
  "is_ok (Ok x s) = True"
| "is_ok _ = False"

fun is_panic :: "('a, 's) res \<Rightarrow> bool" where
  "is_panic (Panic m) = True"
| "is_panic _ = False"

lemma bindR_Ok_iff:
  "bindR m f = Ok y t \<longleftrightarrow> (\<exists>x s. m = Ok x s \<and> f x s = Ok y t)"
  by (cases m) auto

lemma bindR_OkE:
  assumes "bindR m f = Ok y t"
  obtains x s where "m = Ok x s" and "f x s = Ok y t"
  using assms by (auto simp: bindR_Ok_iff)

lemma bindR_assoc: "bindR (bindR m f) g = bindR m (\<lambda>x s. bindR (f x s) g)"
  by (cases m) auto

lemma bindR_cong [fundef_cong]:
  assumes "m = m'" and "\<And>x s. m' = Ok x s \<Longrightarrow> f x s = f' x s"
  shows "bindR m f = bindR m' f'"
  using assms by (cases m') auto

section \<open>Byte memory\<close>

definition load32 :: "memory \<Rightarrow> addr \<Rightarrow> u32" where
  "load32 m a = ucast (m a) OR push_bit 8 (ucast (m (a + 1)))
     OR push_bit 16 (ucast (m (a + 2))) OR push_bit 24 (ucast (m (a + 3)))"

definition store32 :: "memory \<Rightarrow> addr \<Rightarrow> u32 \<Rightarrow> memory" where
  "store32 m a v = m(a := ucast v, a + 1 := ucast (drop_bit 8 v),
     a + 2 := ucast (drop_bit 16 v), a + 3 := ucast (drop_bit 24 v))"

lemma word32_bytes:
  fixes v :: u32
  shows "(ucast (ucast v :: byte) :: u32) OR push_bit 8 (ucast (ucast (drop_bit 8 v) :: byte))
     OR push_bit 16 (ucast (ucast (drop_bit 16 v) :: byte))
     OR push_bit 24 (ucast (ucast (drop_bit 24 v) :: byte)) = v" (is "?l = v")
proof (rule bit_word_eqI)
  fix n assume "n < LENGTH(32)"
  then consider "n < 8" | "8 \<le> n" "n < 16" | "16 \<le> n" "n < 24" | "24 \<le> n" "n < 32"
    by fastforce
  then show "bit ?l n = bit v n"
    by cases (auto simp: bit_simps)
qed

lemma load32_store32 [mem_simps]: "load32 (store32 m a v) a = v"
  by (simp add: load32_def store32_def word32_bytes)

definition aligned4 :: "addr \<Rightarrow> bool" where
  "aligned4 a \<longleftrightarrow> unat a mod 4 = 0"

lemma aligned4_unat_add:
  assumes "aligned4 a" and "i < 4"
  shows "unat (a + of_nat i) = unat a + i"
proof -
  have "unat a mod 4 = 0" using assms by (simp add: aligned4_def)
  moreover have "unat a < 4294967296"
    using unsigned_less [of a] by simp
  ultimately have "unat a + i < 4294967296"
    using assms(2) by presburger
  then show ?thesis
    using assms(2) by (simp add: unat_word_ariths unat_of_nat)
qed

lemma aligned4_offset_neq:
  assumes "aligned4 a" and "aligned4 b" and "a \<noteq> b" and "i < 4" and "j < 4"
  shows "a + of_nat i \<noteq> b + of_nat j"
proof
  assume "a + of_nat i = b + of_nat j"
  then have "unat (a + of_nat i) = unat (b + of_nat j)" by simp
  then have "unat a + i = unat b + j"
    using assms by (simp add: aligned4_unat_add)
  moreover have "unat a mod 4 = 0" "unat b mod 4 = 0"
    using assms by (auto simp: aligned4_def)
  ultimately have "unat a = unat b" using assms(4,5) by presburger
  then show False using assms(3) by (simp add: word_unat_eq_iff)
qed

lemma load32_store32_other [mem_simps]:
  assumes "aligned4 a" and "aligned4 b" and "a \<noteq> b"
  shows "load32 (store32 m a v) b = load32 m b"
proof -
  have n: "b + of_nat j \<noteq> a + of_nat i" if "i < 4" "j < 4" for i j :: nat
    using aligned4_offset_neq [OF assms(1,2,3) that] by metis
  have e: "b \<noteq> a" "b \<noteq> a + 1" "b \<noteq> a + 2" "b \<noteq> a + 3"
    "b + 1 \<noteq> a" "b + 2 \<noteq> a" "b + 3 \<noteq> a"
    using n [of 0 0] n [of 1 0] n [of 2 0] n [of 3 0] n [of 0 1] n [of 0 2] n [of 0 3]
    by simp_all
  have f: "b + 1 \<noteq> a + 1" "b + 1 \<noteq> a + 2" "b + 1 \<noteq> a + 3" "b + 2 \<noteq> a + 1" "b + 2 \<noteq> a + 2"
    "b + 2 \<noteq> a + 3" "b + 3 \<noteq> a + 1" "b + 3 \<noteq> a + 2" "b + 3 \<noteq> a + 3"
    using n [of 1 1] n [of 2 1] n [of 3 1] n [of 1 2] n [of 2 2] n [of 3 2]
      n [of 1 3] n [of 2 3] n [of 3 3] by simp_all
  show ?thesis
    using e f by (simp add: load32_def store32_def)
qed

section \<open>Scanning a table for the first match\<close>

text \<open>
  The loop \<^verbatim>\<open>for(p = table; p < &table[N]; p++) if(cond(p)) goto found;\<close>: the index of the
  first entry that satisfies the condition.
\<close>

fun first_idx_from :: "nat \<Rightarrow> ('a \<Rightarrow> bool) \<Rightarrow> 'a list \<Rightarrow> nat option" where
  "first_idx_from k P [] = None"
| "first_idx_from k P (x # xs) = (if P x then Some k else first_idx_from (Suc k) P xs)"

definition first_idx :: "('a \<Rightarrow> bool) \<Rightarrow> 'a list \<Rightarrow> nat option" where
  "first_idx P xs = first_idx_from 0 P xs"

lemma first_idx_from_None: "first_idx_from k P xs = None \<longleftrightarrow> (\<forall>x\<in>set xs. \<not> P x)"
  by (induction xs arbitrary: k) auto

lemma first_idx_from_Some:
  "first_idx_from k P xs = Some i \<longleftrightarrow>
     k \<le> i \<and> i - k < length xs \<and> P (xs ! (i - k)) \<and> (\<forall>j < i - k. \<not> P (xs ! j))"
proof (induction xs arbitrary: k)
  case Nil
  then show ?case by simp
next
  case (Cons x xs)
  show ?case
  proof (cases "P x")
    case True
    then show ?thesis by (auto simp: nth_Cons split: nat.splits)
  next
    case False
    have "first_idx_from k P (x # xs) = Some i \<longleftrightarrow> first_idx_from (Suc k) P xs = Some i"
      using False by simp
    also have "\<dots> \<longleftrightarrow> Suc k \<le> i \<and> i - Suc k < length xs \<and> P (xs ! (i - Suc k)) \<and>
        (\<forall>j < i - Suc k. \<not> P (xs ! j))"
      by (rule Cons.IH)
    also have "\<dots> \<longleftrightarrow> k \<le> i \<and> i - k < length (x # xs) \<and> P ((x # xs) ! (i - k)) \<and>
        (\<forall>j < i - k. \<not> P ((x # xs) ! j))"
    proof (cases "Suc k \<le> i")
      case True
      then have s: "i - k = Suc (i - Suc k)" by simp
      have "(\<forall>j < i - k. \<not> P ((x # xs) ! j)) \<longleftrightarrow> (\<forall>j < i - Suc k. \<not> P (xs ! j))"
        unfolding s using False by (auto simp: nth_Cons less_Suc_eq_0_disj split: nat.splits)
      with True s show ?thesis by auto
    next
      case False2: False
      then show ?thesis using \<open>\<not> P x\<close> by (cases "i = k") auto
    qed
    finally show ?thesis .
  qed
qed

lemma first_idx_None: "first_idx P xs = None \<longleftrightarrow> (\<forall>x\<in>set xs. \<not> P x)"
  by (simp add: first_idx_def first_idx_from_None)

lemma first_idx_Some:
  "first_idx P xs = Some i \<longleftrightarrow> i < length xs \<and> P (xs ! i) \<and> (\<forall>j < i. \<not> P (xs ! j))"
  by (simp add: first_idx_def first_idx_from_Some)

lemma first_idx_SomeD:
  assumes "first_idx P xs = Some i"
  shows "i < length xs" and "P (xs ! i)" and "j < i \<Longrightarrow> \<not> P (xs ! j)"
  using assms by (auto simp: first_idx_Some)

section \<open>Updating one entry of a table\<close>

definition upd_nth :: "nat \<Rightarrow> ('a \<Rightarrow> 'a) \<Rightarrow> 'a list \<Rightarrow> 'a list" where
  "upd_nth i f xs = xs[i := f (xs ! i)]"

lemma length_upd_nth [simp]: "length (upd_nth i f xs) = length xs"
  by (simp add: upd_nth_def)

lemma nth_upd_nth: "j < length xs \<Longrightarrow> upd_nth i f xs ! j = (if i = j then f (xs ! j) else xs ! j)"
  by (simp add: upd_nth_def)

lemma nth_upd_nth_same [simp]: "i < length xs \<Longrightarrow> upd_nth i f xs ! i = f (xs ! i)"
  by (simp add: upd_nth_def)

lemma nth_upd_nth_other [simp]: "i \<noteq> j \<Longrightarrow> upd_nth i f xs ! j = xs ! j"
  by (simp add: upd_nth_def)

lemma map_upd_nth_same: "i < length xs \<Longrightarrow> g (f (xs ! i)) = g (xs ! i) \<Longrightarrow> map g (upd_nth i f xs) = map g xs"
  by (rule nth_equalityI) (auto simp: nth_upd_nth)

end
