(* ===== verification/Spinlock.thy ===== *)
theory Spinlock
  imports Xv6Prelude
begin

text \<open>
  The machine the kernel runs on and the spin locks of \<^verbatim>\<open>spinlock.c\<close>: per-CPU state
  (\<^verbatim>\<open>struct cpu\<close> in \<^verbatim>\<open>proc.h\<close>), the interrupt flag and page-table register of every CPU,
  physical memory behind the kernel's direct map, and every \<^verbatim>\<open>struct spinlock\<close>.  Nested
  \<open>pushcli\<close>/\<open>popcli\<close> restore the interrupt flag, \<open>acquire\<close> returns only on a free lock, and a
  lock held by one CPU makes every other CPU spin.
\<close>

section \<open>State\<close>

record segdesc =
  lim_15_0 :: u16
  base_15_0 :: u16
  base_23_16 :: byte
  seg_type :: "4 word"
  seg_s :: bool
  seg_dpl :: "2 word"
  seg_p :: bool
  lim_19_16 :: "4 word"
  seg_avl :: bool
  seg_rsv1 :: bool
  seg_db :: bool
  seg_g :: bool
  base_31_24 :: byte

record cpu =
  apicid :: int
  gdt :: "segdesc list"
  ts_esp0 :: u32
  ts_ss0 :: u16
  ts_iomb :: u16
  ts_addr :: addr
  started :: bool
  ncli :: int
  intena :: bool
  c_proc :: "nat option"

datatype lockid = L_ptable | L_kmem | L_cons | L_ticks | L_bcache | L_log | L_icache | L_ftable
  | L_ide | L_pipe addr | L_bufsleep nat | L_inodesleep nat

record spinlock =
  lk_locked :: bool
  lk_name :: string
  lk_cpu :: "nat option"

record mach =
  lapic_id :: int
  eflags_IF :: "int \<Rightarrow> bool"
  cr3 :: "int \<Rightarrow> u32"
  tr :: "int \<Rightarrow> u16"
  cpus :: "cpu list"
  ncpu :: nat
  locks :: "lockid \<Rightarrow> spinlock"
  mem :: memory

definition NCPU :: nat where "NCPU = 8"

definition upd_cpu :: "nat \<Rightarrow> (cpu \<Rightarrow> cpu) \<Rightarrow> 'z mach_scheme \<Rightarrow> 'z mach_scheme" where
  "upd_cpu i f s = s\<lparr>cpus := upd_nth i f (cpus s)\<rparr>"

definition upd_lock :: "lockid \<Rightarrow> (spinlock \<Rightarrow> spinlock) \<Rightarrow> 'z mach_scheme \<Rightarrow> 'z mach_scheme" where
  "upd_lock l f s = s\<lparr>locks := (locks s)(l := f (locks s l))\<rparr>"

section \<open>Interrupt flag and the current CPU\<close>

definition readeflags_IF :: "'z mach_scheme \<Rightarrow> bool" where
  "readeflags_IF s = eflags_IF s (lapic_id s)"

definition cli :: "'z mach_scheme \<Rightarrow> 'z mach_scheme" where
  "cli s = s\<lparr>eflags_IF := (eflags_IF s)(lapic_id s := False)\<rparr>"

definition sti :: "'z mach_scheme \<Rightarrow> 'z mach_scheme" where
  "sti s = s\<lparr>eflags_IF := (eflags_IF s)(lapic_id s := True)\<rparr>"

definition mycpu :: "'z mach_scheme \<Rightarrow> (nat, 'z mach_scheme) res" where
  "mycpu s =
     (if readeflags_IF s then Panic (''mycpu called with interrupts enabled'' @ [CHR 0x0A])
      else case first_idx (\<lambda>c. apicid c = lapic_id s) (take (ncpu s) (cpus s)) of
        Some i \<Rightarrow> Ok i s
      | None \<Rightarrow> Panic (''unknown apicid'' @ [CHR 0x0A]))"

definition cpuid :: "'z mach_scheme \<Rightarrow> (nat, 'z mach_scheme) res" where
  "cpuid s = mycpu s"

definition pushcli :: "'z mach_scheme \<Rightarrow> (unit, 'z mach_scheme) res" where
  "pushcli s =
     (let eflags = readeflags_IF s in
      bindR (mycpu (cli s)) (\<lambda>i s.
        let s = (if ncli (cpus s ! i) = 0 then upd_cpu i (\<lambda>c. c\<lparr>intena := eflags\<rparr>) s else s) in
        Ok () (upd_cpu i (\<lambda>c. c\<lparr>ncli := s32 (ncli c + 1)\<rparr>) s)))"

definition popcli :: "'z mach_scheme \<Rightarrow> (unit, 'z mach_scheme) res" where
  "popcli s =
     (if readeflags_IF s then Panic ''popcli - interruptible''
      else bindR (mycpu s) (\<lambda>i s.
        let s = upd_cpu i (\<lambda>c. c\<lparr>ncli := s32 (ncli c - 1)\<rparr>) s in
        if ncli (cpus s ! i) < 0 then Panic ''popcli''
        else if ncli (cpus s ! i) = 0 \<and> intena (cpus s ! i) then Ok () (sti s)
        else Ok () s))"

section \<open>Spin locks\<close>

definition initlock :: "lockid \<Rightarrow> string \<Rightarrow> 'z mach_scheme \<Rightarrow> 'z mach_scheme" where
  "initlock l name s = upd_lock l (\<lambda>k. k\<lparr>lk_name := name, lk_locked := False, lk_cpu := None\<rparr>) s"

definition holding :: "lockid \<Rightarrow> 'z mach_scheme \<Rightarrow> (bool, 'z mach_scheme) res" where
  "holding l s =
     bindR (pushcli s) (\<lambda>_ s.
     bindR (mycpu s) (\<lambda>i s.
       let r = (lk_locked (locks s l) \<and> lk_cpu (locks s l) = Some i) in
     bindR (popcli s) (\<lambda>_ s. Ok r s)))"

definition acquire :: "lockid \<Rightarrow> 'z mach_scheme \<Rightarrow> (unit, 'z mach_scheme) res" where
  "acquire l s =
     bindR (pushcli s) (\<lambda>_ s.
     bindR (holding l s) (\<lambda>h s.
       if h then Panic ''acquire''
       else if lk_locked (locks s l) then Spin s
       else let s = upd_lock l (\<lambda>k. k\<lparr>lk_locked := True\<rparr>) s in
         bindR (mycpu s) (\<lambda>i s. Ok () (upd_lock l (\<lambda>k. k\<lparr>lk_cpu := Some i\<rparr>) s))))"

definition release :: "lockid \<Rightarrow> 'z mach_scheme \<Rightarrow> (unit, 'z mach_scheme) res" where
  "release l s =
     bindR (holding l s) (\<lambda>h s.
       if \<not> h then Panic ''release''
       else let s = upd_lock l (\<lambda>k. k\<lparr>lk_cpu := None\<rparr>) s;
                s = upd_lock l (\<lambda>k. k\<lparr>lk_locked := False\<rparr>) s in
         popcli s)"

definition KERNBASE :: u32 where "KERNBASE = 0x80000000"

fun getcallerpcs_from :: "nat \<Rightarrow> memory \<Rightarrow> addr \<Rightarrow> u32 list" where
  "getcallerpcs_from 0 m ebp = []"
| "getcallerpcs_from (Suc n) m ebp =
     (if ebp = 0 \<or> ebp < KERNBASE \<or> ebp = 0xffffffff then replicate (Suc n) 0
      else load32 m (ebp + 4) # getcallerpcs_from n m (load32 m ebp))"

definition getcallerpcs :: "memory \<Rightarrow> addr \<Rightarrow> u32 list" where
  "getcallerpcs m v = getcallerpcs_from 10 m (v - 8)"

section \<open>Reasoning about the current CPU\<close>

text \<open>
  \<open>on_cpu s i\<close>: the running CPU is entry \<open>i\<close> of \<^verbatim>\<open>cpus[]\<close>.  \<open>int_ok s i\<close> adds the
  bookkeeping that \<open>pushcli\<close> and \<open>popcli\<close> maintain: while the nesting depth is positive,
  interrupts are off.  The depth is a 32-bit integer: \<open>int_lvl k s i\<close> leaves \<open>k\<close> more levels below
  its wrap-around, \<open>int_ok s i\<close> the two levels that \<open>acquire\<close> uses.
\<close>

definition on_cpu :: "'z mach_scheme \<Rightarrow> nat \<Rightarrow> bool" where
  "on_cpu s i \<longleftrightarrow> first_idx (\<lambda>c. apicid c = lapic_id s) (take (ncpu s) (cpus s)) = Some i"

definition int_ok :: "'z mach_scheme \<Rightarrow> nat \<Rightarrow> bool" where
  "int_ok s i \<longleftrightarrow> on_cpu s i \<and> 0 \<le> ncli (cpus s ! i) \<and> ncli (cpus s ! i) < 2 ^ 31 - 2 \<and>
     (0 < ncli (cpus s ! i) \<longrightarrow> \<not> eflags_IF s (lapic_id s))"

definition int_lvl :: "nat \<Rightarrow> 'z mach_scheme \<Rightarrow> nat \<Rightarrow> bool" where
  "int_lvl k s i \<longleftrightarrow> on_cpu s i \<and> 0 \<le> ncli (cpus s ! i) \<and> ncli (cpus s ! i) + int k < 2 ^ 31 \<and>
     (0 < ncli (cpus s ! i) \<longrightarrow> \<not> eflags_IF s (lapic_id s))"

lemma int_ok_lvl: "int_ok s i \<longleftrightarrow> int_lvl 2 s i"
  by (auto simp: int_ok_def int_lvl_def)

lemma int_lvl_mono: "int_lvl k s i \<Longrightarrow> j \<le> k \<Longrightarrow> int_lvl j s i"
  by (simp add: int_lvl_def)

lemma int_ok_levels: "int_ok s i \<Longrightarrow> int_lvl (Suc 0) s i" "int_ok s i \<Longrightarrow> int_lvl 0 s i"
  using int_lvl_mono [of 2 s i] by (simp_all add: int_ok_lvl)

lemma on_cpu_bound: "on_cpu s i \<Longrightarrow> i < length (cpus s)"
  by (auto simp: on_cpu_def first_idx_Some)

lemma on_cpu_apicid: "on_cpu s i \<Longrightarrow> apicid (cpus s ! i) = lapic_id s"
  by (auto simp: on_cpu_def first_idx_Some)

lemma int_ok_on_cpu: "int_ok s i \<Longrightarrow> on_cpu s i"
  by (simp add: int_ok_def)

lemma first_idx_cong:
  assumes "length xs = length ys" and "\<And>i. i < length xs \<Longrightarrow> P (xs ! i) = Q (ys ! i)"
  shows "first_idx P xs = first_idx Q ys"
proof (cases "first_idx Q ys")
  case None
  then have "\<forall>y\<in>set ys. \<not> Q y" by (simp add: first_idx_None)
  then have "\<forall>x\<in>set xs. \<not> P x" using assms by (metis in_set_conv_nth)
  with None show ?thesis by (simp add: first_idx_None [symmetric])
next
  case (Some i)
  then have "first_idx P xs = Some i"
    using assms by (auto simp: first_idx_Some)
  with Some show ?thesis by simp
qed

text \<open>
  Which CPU runs depends only on the APIC id, the number of CPUs and the \<^verbatim>\<open>apicid\<close> fields.
\<close>

lemma on_cpu_cong:
  assumes "lapic_id t = lapic_id s" and "ncpu t = ncpu s" and "map apicid (cpus t) = map apicid (cpus s)"
  shows "on_cpu t i = on_cpu s i"
proof -
  have len: "length (cpus t) = length (cpus s)"
    using assms(3) by (metis length_map)
  have nth: "apicid (cpus t ! j) = apicid (cpus s ! j)" if "j < length (cpus t)" for j
    using assms(3) that len by (metis nth_map)
  have "first_idx (\<lambda>c. apicid c = lapic_id t) (take (ncpu t) (cpus t)) =
        first_idx (\<lambda>c. apicid c = lapic_id s) (take (ncpu s) (cpus s))"
    by (rule first_idx_cong) (use assms len nth in auto)
  then show ?thesis by (simp add: on_cpu_def)
qed

lemma mycpu_ok: "on_cpu s i \<Longrightarrow> \<not> eflags_IF s (lapic_id s) \<Longrightarrow> mycpu s = Ok i s"
  by (simp add: mycpu_def readeflags_IF_def on_cpu_def)

lemma on_cpu_cli: "on_cpu (cli s) i = on_cpu s i"
  by (rule on_cpu_cong) (simp_all add: cli_def)

lemma map_apicid_upd:
  "(\<And>c. apicid (f c) = apicid c) \<Longrightarrow> map apicid (upd_nth i f cs) = map apicid cs"
  by (rule nth_equalityI) (auto simp: nth_upd_nth)

lemma on_cpu_upd_cpu: "(\<And>c. apicid (f c) = apicid c) \<Longrightarrow> on_cpu (upd_cpu k f s) i = on_cpu s i"
  by (rule on_cpu_cong) (simp_all add: upd_cpu_def map_apicid_upd)

text \<open>The state after \<open>pushcli\<close>, written as one record update.\<close>

definition pushed :: "nat \<Rightarrow> 'z mach_scheme \<Rightarrow> 'z mach_scheme" where
  "pushed i s = s\<lparr>eflags_IF := (eflags_IF s)(lapic_id s := False),
     cpus := upd_nth i (\<lambda>c. c\<lparr>intena := (if ncli c = 0 then eflags_IF s (lapic_id s) else intena c),
       ncli := ncli c + 1\<rparr>) (cpus s)\<rparr>"

lemma pushed_sel [simp]:
  "lapic_id (pushed i s) = lapic_id s" "cr3 (pushed i s) = cr3 s" "tr (pushed i s) = tr s"
  "ncpu (pushed i s) = ncpu s" "locks (pushed i s) = locks s" "mem (pushed i s) = mem s"
  "eflags_IF (pushed i s) = (eflags_IF s)(lapic_id s := False)"
  by (simp_all add: pushed_def)

lemma upd_nth_upd_nth: "i < length xs \<Longrightarrow> upd_nth i f (upd_nth i g xs) = upd_nth i (\<lambda>x. f (g x)) xs"
  by (simp add: upd_nth_def)

lemma upd_nth_cong: "i < length xs \<Longrightarrow> f (xs ! i) = g (xs ! i) \<Longrightarrow> upd_nth i f xs = upd_nth i g xs"
  by (simp add: upd_nth_def)

lemma upd_nth_id: "f (xs ! i) = xs ! i \<Longrightarrow> upd_nth i f xs = xs"
  by (simp add: upd_nth_def)

lemma pushcli_lvl:
  assumes "int_lvl (Suc k) s i"
  shows "pushcli s = Ok () (pushed i s)"
proof -
  have on: "on_cpu s i" and i: "i < length (cpus s)" and w: "s32 (ncli (cpus s ! i) + 1) = ncli (cpus s ! i) + 1"
    using assms by (auto simp: int_lvl_def dest: on_cpu_bound intro!: s32_id)
  have m: "mycpu (cli s) = Ok i (cli s)"
    using on on_cpu_cli by (intro mycpu_ok) (auto simp: cli_def on_cpu_def)
  show ?thesis
    using i w unfolding pushcli_def Let_def m
    by (auto simp: upd_cpu_def pushed_def cli_def readeflags_IF_def upd_nth_def)
qed

lemma int_lvl_pushed: "int_lvl (Suc k) s i \<Longrightarrow> int_lvl k (pushed i s) i"
proof -
  assume a: "int_lvl (Suc k) s i"
  then have i: "i < length (cpus s)" by (auto simp: int_lvl_def dest: on_cpu_bound)
  have "on_cpu (pushed i s) i = on_cpu s i"
    by (rule on_cpu_cong) (simp_all add: pushed_def map_apicid_upd)
  with a i show ?thesis by (simp add: int_lvl_def pushed_def)
qed

lemma popcli_lvl:
  assumes "int_lvl 0 s i" and "0 < ncli (cpus s ! i)"
  shows "popcli s = Ok () (s\<lparr>cpus := upd_nth i (\<lambda>c. c\<lparr>ncli := ncli c - 1\<rparr>) (cpus s),
    eflags_IF := (eflags_IF s)(lapic_id s := (ncli (cpus s ! i) = 1 \<and> intena (cpus s ! i)))\<rparr>)"
proof -
  have on: "on_cpu s i" and i: "i < length (cpus s)" and off: "\<not> eflags_IF s (lapic_id s)"
    and w: "s32 (ncli (cpus s ! i) - 1) = ncli (cpus s ! i) - 1"
    using assms by (auto simp: int_lvl_def dest: on_cpu_bound intro!: s32_id)
  have m: "mycpu s = Ok i s" using on off by (rule mycpu_ok)
  have u: "upd_nth i (\<lambda>c. c\<lparr>ncli := s32 (ncli c - 1)\<rparr>) (cpus s) = upd_nth i (\<lambda>c. c\<lparr>ncli := ncli c - 1\<rparr>) (cpus s)"
    using i w by (intro upd_nth_cong) simp_all
  have e: "(eflags_IF s)(lapic_id s := False) = eflags_IF s" using off by (simp add: fun_upd_idem)
  show ?thesis
    using i off assms(2) unfolding popcli_def m
    by (auto simp: Let_def readeflags_IF_def upd_cpu_def sti_def e u)
qed

text \<open>
  \<open>popcli\<close> after \<open>pushcli\<close>: everything is as before except the saved \<^verbatim>\<open>intena\<close>, which
  an outermost pair overwrites.
\<close>

definition pushpop :: "nat \<Rightarrow> 'z mach_scheme \<Rightarrow> 'z mach_scheme" where
  "pushpop i s = s\<lparr>cpus := upd_nth i (\<lambda>c. c\<lparr>intena :=
     (if ncli c = 0 then eflags_IF s (lapic_id s) else intena c)\<rparr>) (cpus s)\<rparr>"

lemma popcli_pushed_lvl:
  assumes "int_lvl (Suc k) s i"
  shows "popcli (pushed i s) = Ok () (pushpop i s)"
proof -
  have i: "i < length (cpus s)" and pos: "0 < ncli (cpus (pushed i s) ! i)"
    using assms by (auto simp: int_lvl_def pushed_def dest: on_cpu_bound)
  have p: "cpus (pushed i s) ! i = (cpus s ! i)\<lparr>
       intena := (if ncli (cpus s ! i) = 0 then eflags_IF s (lapic_id s) else intena (cpus s ! i)),
       ncli := ncli (cpus s ! i) + 1\<rparr>"
    using i by (simp add: pushed_def)
  have e: "(eflags_IF s)(lapic_id s := (ncli (cpus s ! i) = 0 \<and> intena (cpus (pushed i s) ! i))) = eflags_IF s"
    using assms p by (auto simp: int_lvl_def fun_upd_idem_iff)
  show ?thesis
    unfolding popcli_lvl [OF int_lvl_mono [OF int_lvl_pushed [OF assms] le0] pos]
    using i p e by (simp add: pushpop_def) (simp add: pushed_def upd_nth_def)
qed

lemma pushpop_nested: "0 < ncli (cpus s ! i) \<Longrightarrow> pushpop i s = s"
  by (simp add: pushpop_def upd_nth_id)

lemma int_ok_pushpop: "int_ok s i \<Longrightarrow> int_ok (pushpop i s) i"
proof -
  assume a: "int_ok s i"
  then have i: "i < length (cpus s)" by (auto simp: int_ok_def dest: on_cpu_bound)
  have "on_cpu (pushpop i s) i = on_cpu s i"
    by (rule on_cpu_cong) (simp_all add: pushpop_def map_apicid_upd)
  with a i show ?thesis by (simp add: int_ok_def pushpop_def)
qed

lemma holding_lvl:
  assumes "int_lvl (Suc k) s i"
  shows "holding l s = Ok (lk_locked (locks s l) \<and> lk_cpu (locks s l) = Some i) (pushpop i s)"
proof -
  have m: "mycpu (pushed i s) = Ok i (pushed i s)"
    using int_lvl_pushed [OF assms] by (intro mycpu_ok) (auto simp: int_lvl_def pushed_def)
  show ?thesis
    by (simp add: holding_def pushcli_lvl [OF assms] m popcli_pushed_lvl [OF assms])
qed

lemmas pushcli_ok = pushcli_lvl [OF int_ok_levels(1)]
  and popcli_ok = popcli_lvl [OF int_ok_levels(2)]
  and popcli_pushed = popcli_pushed_lvl [OF int_ok_levels(1)]
  and holding_ok = holding_lvl [OF int_ok_levels(1)]

definition acquired :: "lockid \<Rightarrow> nat \<Rightarrow> 'z mach_scheme \<Rightarrow> 'z mach_scheme" where
  "acquired l i s = (pushed i s)\<lparr>locks := (locks s)(l := (locks s l)\<lparr>lk_locked := True, lk_cpu := Some i\<rparr>)\<rparr>"

lemma holding_nested:
  assumes "int_lvl (Suc k) s i" and "0 < ncli (cpus s ! i)"
  shows "holding l s = Ok (lk_locked (locks s l) \<and> lk_cpu (locks s l) = Some i) s"
  by (simp add: holding_lvl [OF assms(1)] pushpop_nested [of s i] assms(2))

lemma pushed_ncli_lvl: "int_lvl k s i \<Longrightarrow> ncli (cpus (pushed i s) ! i) = ncli (cpus s ! i) + 1"
  by (auto simp: pushed_def int_lvl_def dest: on_cpu_bound)

lemma pushed_ncli: "int_ok s i \<Longrightarrow> ncli (cpus (pushed i s) ! i) = ncli (cpus s ! i) + 1"
  by (auto simp: pushed_def int_ok_def dest: on_cpu_bound)

lemma acquire_cases:
  assumes "int_ok s i"
  shows "acquire l s =
    (if lk_locked (locks s l)
     then (if lk_cpu (locks s l) = Some i then Panic ''acquire'' else Spin (pushed i s))
     else Ok () (acquired l i s))"
proof -
  have two: "int_lvl (Suc (Suc 0)) s i" using assms by (simp add: int_ok_lvl numeral_2_eq_2)
  have pos: "0 < ncli (cpus (pushed i s) ! i)"
    using assms pushed_ncli [OF assms] by (simp add: int_ok_def)
  have h: "holding l (pushed i s) = Ok (lk_locked (locks s l) \<and> lk_cpu (locks s l) = Some i) (pushed i s)"
    by (simp add: holding_nested [OF int_lvl_pushed [OF two] pos])
  let ?t = "upd_lock l (\<lambda>k. k\<lparr>lk_locked := True\<rparr>) (pushed i s)"
  have "on_cpu ?t i = on_cpu (pushed i s) i"
    by (rule on_cpu_cong) (simp_all add: upd_lock_def)
  then have m: "mycpu ?t = Ok i ?t"
    using int_lvl_pushed [OF two] by (intro mycpu_ok) (auto simp: int_lvl_def pushed_def upd_lock_def)
  show ?thesis
    unfolding acquire_def pushcli_ok [OF assms] bindR.simps h Let_def m
    by (simp add: upd_lock_def acquired_def)
qed

lemma acquire_free:
  assumes "int_ok s i" and "\<not> lk_locked (locks s l)"
  shows "acquire l s = Ok () (acquired l i s)"
  using assms by (simp add: acquire_cases)

lemma int_lvl_acquired: "int_lvl (Suc k) s i \<Longrightarrow> int_lvl k (acquired l i s) i"
proof -
  assume a: "int_lvl (Suc k) s i"
  have "on_cpu (acquired l i s) i = on_cpu (pushed i s) i"
    by (rule on_cpu_cong) (simp_all add: acquired_def)
  with int_lvl_pushed [OF a] show ?thesis by (simp add: int_lvl_def acquired_def pushed_def)
qed

lemma int_ok_acquired: "int_ok s i \<Longrightarrow> ncli (cpus s ! i) < 2 ^ 31 - 3 \<Longrightarrow> int_ok (acquired l i s) i"
  using int_lvl_acquired [of 2 s i l] by (simp add: int_ok_lvl) (simp add: int_lvl_def)

definition released :: "lockid \<Rightarrow> nat \<Rightarrow> 'z mach_scheme \<Rightarrow> 'z mach_scheme" where
  "released l i s = s\<lparr>locks := (locks s)(l := (locks s l)\<lparr>lk_cpu := None, lk_locked := False\<rparr>),
     cpus := upd_nth i (\<lambda>c. c\<lparr>ncli := ncli c - 1\<rparr>) (cpus s),
     eflags_IF := (eflags_IF s)(lapic_id s := (ncli (cpus s ! i) = 1 \<and> intena (cpus s ! i)))\<rparr>"

lemma release_lvl:
  assumes "int_lvl (Suc k) s i" and "0 < ncli (cpus s ! i)"
    and "lk_locked (locks s l)" and "lk_cpu (locks s l) = Some i"
  shows "release l s = Ok () (released l i s)"
proof -
  let ?t = "s\<lparr>locks := (locks s)(l := (locks s l)\<lparr>lk_cpu := None, lk_locked := False\<rparr>)\<rparr>"
  have "on_cpu ?t i = on_cpu s i" by (rule on_cpu_cong) simp_all
  then have ok: "int_lvl 0 ?t i" using assms by (simp add: int_lvl_def)
  have "release l s = popcli ?t"
    by (simp add: release_def holding_nested [OF assms(1,2)] assms(3,4) upd_lock_def)
  then show ?thesis
    by (simp add: popcli_lvl [OF ok] assms(2) released_def)
qed

lemmas release_ok = release_lvl [OF int_ok_levels(1)]

lemma release_not_held:
  assumes "int_ok s i" and "\<not> (lk_locked (locks s l) \<and> lk_cpu (locks s l) = Some i)"
  shows "release l s = Panic ''release''"
  using assms(2) by (simp add: release_def holding_ok [OF assms(1)])

text \<open>
  A critical section seen from outside: the lock is free again, the interrupt flag and the nesting
  depth are back, and only the saved \<^verbatim>\<open>intena\<close> of an outermost section has changed.
\<close>

definition lock_free :: "'z mach_scheme \<Rightarrow> lockid \<Rightarrow> bool" where
  "lock_free s l \<longleftrightarrow> \<not> lk_locked (locks s l) \<and> lk_cpu (locks s l) = None"

lemma int_ok_cong:
  assumes "lapic_id t = lapic_id s" "ncpu t = ncpu s" "cpus t = cpus s" "eflags_IF t = eflags_IF s"
  shows "int_ok t i = int_ok s i"
proof -
  have "on_cpu t i = on_cpu s i" by (rule on_cpu_cong) (simp_all add: assms)
  then show ?thesis by (simp add: int_ok_def assms)
qed

lemma acquired_sel [simp]:
  "lapic_id (acquired l i s) = lapic_id s" "cr3 (acquired l i s) = cr3 s" "tr (acquired l i s) = tr s"
  "ncpu (acquired l i s) = ncpu s" "mem (acquired l i s) = mem s"
  "eflags_IF (acquired l i s) = (eflags_IF s)(lapic_id s := False)"
  "cpus (acquired l i s) = cpus (pushed i s)"
  by (simp_all add: acquired_def)

lemma acquire_lock_free:
  "int_ok s i \<Longrightarrow> lock_free s l \<Longrightarrow> acquire l s = Ok () (acquired l i s)"
  by (simp add: acquire_free lock_free_def)

lemma spinlock_restore:
  "lk_cpu k = None \<Longrightarrow> \<not> lk_locked k \<Longrightarrow>
     k\<lparr>lk_locked := True, lk_cpu := Some i, lk_cpu := None, lk_locked := False\<rparr> = k"
  by (cases k) simp

lemma release_section:
  assumes ok: "int_ok s i" and free: "lock_free s l"
    and t: "lapic_id t = lapic_id s" "ncpu t = ncpu s" "cpus t = cpus (acquired l i s)"
      "eflags_IF t = eflags_IF (acquired l i s)" "locks t = locks (acquired l i s)"
  shows "release l t = Ok () (t\<lparr>locks := locks s, cpus := cpus (pushpop i s), eflags_IF := eflags_IF s\<rparr>)"
proof -
  have i: "i < length (cpus s)" using ok by (auto simp: int_ok_def dest: on_cpu_bound)
  have "on_cpu t i = on_cpu (acquired l i s) i" by (rule on_cpu_cong) (simp_all add: t)
  then have okt: "int_lvl 1 t i"
    using int_lvl_acquired [of 1 s i l] ok t unfolding int_ok_lvl by (simp add: int_lvl_def)
  have c: "cpus t ! i = (cpus s ! i)\<lparr>
       intena := (if ncli (cpus s ! i) = 0 then eflags_IF s (lapic_id s) else intena (cpus s ! i)),
       ncli := ncli (cpus s ! i) + 1\<rparr>"
    using i t by (simp add: pushed_def)
  have pos: "0 < ncli (cpus t ! i)" using ok c by (simp add: int_ok_def)
  have l: "locks t l = (locks s l)\<lparr>lk_locked := True, lk_cpu := Some i\<rparr>"
    using t by (simp add: acquired_def)
  have ll: "(locks t)(l := (locks t l)\<lparr>lk_cpu := None, lk_locked := False\<rparr>) = locks s"
    using free spinlock_restore [of "locks s l" i] by (auto simp: t acquired_def lock_free_def)
  have ef: "(eflags_IF t)(lapic_id t := (ncli (cpus t ! i) = 1 \<and> intena (cpus t ! i))) = eflags_IF s"
    unfolding c using ok t(1,4) by (auto simp: int_ok_def fun_eq_iff)
  have cp: "upd_nth i (\<lambda>c. c\<lparr>ncli := ncli c - 1\<rparr>) (cpus t) = cpus (pushpop i s)"
    using i t by (simp add: pushed_def pushpop_def upd_nth_def)
  have "release l t = Ok () (released l i t)"
    by (rule release_lvl [OF okt [unfolded One_nat_def] pos]) (simp_all add: l)
  then show ?thesis by (simp add: released_def ll ef cp)
qed

lemma pushpop_sel [simp]:
  "lapic_id (pushpop i s) = lapic_id s" "cr3 (pushpop i s) = cr3 s" "tr (pushpop i s) = tr s"
  "ncpu (pushpop i s) = ncpu s" "mem (pushpop i s) = mem s"
  "eflags_IF (pushpop i s) = eflags_IF s" "locks (pushpop i s) = locks s"
  by (simp_all add: pushpop_def)

lemma pushpop_pushpop [simp]: "int_ok s i \<Longrightarrow> pushpop i (pushpop i s) = pushpop i s"
  by (auto simp: pushpop_def upd_nth_def int_ok_def dest!: on_cpu_bound)

section \<open>Properties\<close>

text \<open>
  C22. Mutual exclusion.  When \<open>acquire\<close> returns on CPU \<open>i\<close>, that CPU holds the lock with interrupts off.  As
  long as the lock is not changed, in any later state no CPU's \<open>acquire\<close> of it returns: another CPU
  spins, CPU \<open>i\<close> itself panics; and a \<open>release\<close> by another CPU panics.  A \<open>release\<close> by CPU \<open>i\<close> frees the
  lock.
\<close>

theorem spinlock_mutual_exclusion:
  fixes s :: "'z mach_scheme"
  assumes "int_ok s i" and "acquire l s = Ok () t"
  shows "\<not> lk_locked (locks s l) \<and> holding l t = Ok True t \<and> \<not> readeflags_IF t \<and>
    (\<forall>(u :: 'z mach_scheme) j. int_ok u j \<and> locks u l = locks t l \<longrightarrow>
       acquire l u = (if j = i then Panic ''acquire'' else Spin (pushed j u)) \<and>
       (j \<noteq> i \<longrightarrow> release l u = Panic ''release'') \<and>
       (j = i \<and> 0 < ncli (cpus u ! i) \<longrightarrow> (\<exists>v. release l u = Ok () v \<and> lock_free v l)))"
proof -
  have free: "\<not> lk_locked (locks s l)" and t: "t = acquired l i s"
    using assms acquire_cases [OF assms(1), of l] by (auto split: if_splits)
  have l: "lk_locked (locks t l)" "lk_cpu (locks t l) = Some i" by (simp_all add: t acquired_def)
  have ok: "int_lvl (Suc 0) t i"
    unfolding t using assms(1) by (intro int_lvl_acquired) (simp add: int_ok_lvl numeral_2_eq_2)
  have pos: "0 < ncli (cpus t ! i)"
    using pushed_ncli [OF assms(1)] assms(1) by (simp add: t int_ok_def)
  have "acquire l u = (if j = i then Panic ''acquire'' else Spin (pushed j u)) \<and>
       (j \<noteq> i \<longrightarrow> release l u = Panic ''release'') \<and>
       (j = i \<and> 0 < ncli (cpus u ! i) \<longrightarrow> (\<exists>v. release l u = Ok () v \<and> lock_free v l))"
    if "int_ok u j" "locks u l = locks t l" for u :: "'z mach_scheme" and j
    using acquire_cases [OF that(1), of l] release_not_held [OF that(1), of l] release_ok [OF that(1), of l] that(2) l
    by (auto simp: lock_free_def released_def)
  moreover have "\<not> readeflags_IF t" by (simp add: t readeflags_IF_def)
  moreover have "holding l t = Ok True t" using l by (simp add: holding_nested [OF ok pos])
  ultimately show ?thesis using free by blast
qed

definition demo_mach :: mach where
  "demo_mach = \<lparr>lapic_id = 0, eflags_IF = (\<lambda>_. True), cr3 = (\<lambda>_. 0), tr = (\<lambda>_. 0),
     cpus = map (\<lambda>k. \<lparr>apicid = int k, gdt = [], ts_esp0 = 0, ts_ss0 = 0, ts_iomb = 0, ts_addr = 0, started = True,
       ncli = 0, intena = True, c_proc = None\<rparr>) [0..<2], ncpu = 2,
     locks = (\<lambda>_. \<lparr>lk_locked = False, lk_name = [], lk_cpu = None\<rparr>), mem = (\<lambda>_. 0)\<rparr>"

lemma demo_mach_ok: "int_ok demo_mach 0" "int_ok (demo_mach\<lparr>lapic_id := 1\<rparr>) 1"
  by (simp_all add: int_ok_def on_cpu_def demo_mach_def first_idx_def upt_rec)

theorem spinlock_mutual_exclusion_witness:
  "\<exists>t v. acquire L_kmem demo_mach = Ok () t \<and> acquire L_kmem (t\<lparr>lapic_id := 1\<rparr>) = Spin v"
proof -
  have a: "acquire L_kmem demo_mach = Ok () (acquired L_kmem 0 demo_mach)"
    by (rule acquire_free [OF demo_mach_ok(1)]) (simp add: demo_mach_def)
  let ?u = "(acquired L_kmem 0 demo_mach)\<lparr>lapic_id := 1\<rparr>"
  have "int_ok ?u 1" 
    by (simp add: int_ok_def on_cpu_def demo_mach_def first_idx_def upt_rec acquired_def pushed_def upd_nth_def)
  then have "acquire L_kmem ?u = Spin (pushed 1 ?u)"
    using spinlock_mutual_exclusion [OF demo_mach_ok(1) a] by simp
  with a show ?thesis by blast
qed

fun pushes :: "nat \<Rightarrow> 'z mach_scheme \<Rightarrow> (unit, 'z mach_scheme) res" where
  "pushes 0 s = Ok () s"
| "pushes (Suc n) s = bindR (pushcli s) (\<lambda>_ s. pushes n s)"

fun pops :: "nat \<Rightarrow> 'z mach_scheme \<Rightarrow> (unit, 'z mach_scheme) res" where
  "pops 0 s = Ok () s"
| "pops (Suc n) s = bindR (popcli s) (\<lambda>_ s. pops n s)"

lemma pops_Suc: "pops (Suc n) s = bindR (pops n s) (\<lambda>_ s. popcli s)"
proof (induction n arbitrary: s)
  case 0
  then show ?case by (cases "popcli s") auto
next
  case (Suc n)
  have "pops (Suc (Suc n)) s = bindR (popcli s) (\<lambda>_ t. pops (Suc n) t)" by (rule pops.simps(2))
  also have "\<dots> = bindR (popcli s) (\<lambda>_ t. bindR (pops n t) (\<lambda>_. popcli))" unfolding Suc.IH ..
  finally show ?case by (simp add: bindR_assoc)
qed

lemma pushes_pops_nested:
  "int_lvl n s i \<Longrightarrow> 0 < ncli (cpus s ! i) \<Longrightarrow> \<exists>t. pushes n s = Ok () t \<and> int_lvl 0 t i \<and> 0 < ncli (cpus t ! i) \<and>
     ncli (cpus t ! i) = ncli (cpus s ! i) + int n \<and> pops n t = Ok () s"
proof (induction n arbitrary: s)
  case (Suc n)
  have "int_lvl n (pushed i s) i" "0 < ncli (cpus (pushed i s) ! i)"
    using Suc.prems int_lvl_pushed [OF Suc.prems(1)] pushed_ncli_lvl [OF Suc.prems(1)] by simp_all
  then obtain t where "pushes n (pushed i s) = Ok () t" "int_lvl 0 t i" "0 < ncli (cpus t ! i)"
      "ncli (cpus t ! i) = ncli (cpus (pushed i s) ! i) + int n" "pops n t = Ok () (pushed i s)"
    using Suc.IH by blast
  then show ?case
    using Suc.prems pushed_ncli_lvl [OF Suc.prems(1)] by (simp add: pushcli_lvl pops_Suc popcli_pushed_lvl pushpop_nested del: pops.simps)
qed simp

lemma popcli_unmatched:
  assumes "int_lvl 0 u i" "ncli (cpus u ! i) = 0"
  shows "is_panic (popcli u)"
proof (cases "readeflags_IF u")
  case False
  then have "mycpu u = Ok i u" using assms(1) by (intro mycpu_ok) (auto simp: int_lvl_def readeflags_IF_def)
  moreover have "i < length (cpus u)" using assms(1) by (auto simp: int_lvl_def dest: on_cpu_bound)
  ultimately show ?thesis using False assms(2) by (simp add: popcli_def upd_cpu_def s32_def)
qed (simp add: popcli_def)

text \<open>Beyond the range of a 32-bit integer the depth wraps around.\<close>

lemma pushcli_wraps:
  assumes "on_cpu s i" and "ncli (cpus s ! i) = 2 ^ 31 - 1"
  shows "\<exists>t. pushcli s = Ok () t \<and> ncli (cpus t ! i) = - (2 ^ 31)"
proof -
  have "mycpu (cli s) = Ok i (cli s)"
    using assms(1) on_cpu_cli by (intro mycpu_ok) (auto simp: cli_def on_cpu_def)
  then show ?thesis using assms on_cpu_bound [OF assms(1)] by (simp add: pushcli_def upd_cpu_def cli_def s32_def)
qed

text \<open>
  C27. Nested critical sections.  As long as the depth stays within a 32-bit integer, \<open>n\<close> calls of \<open>pushcli\<close> raise it by \<open>n\<close>
  and turn interrupts off, and as many of \<open>popcli\<close> afterwards leave the interrupt flag and the nesting depth as they were;
  one \<open>popcli\<close> more than matches panics.
\<close>

theorem cli_nesting:
  assumes "on_cpu s i" and "0 \<le> ncli (cpus s ! i)" and "ncli (cpus s ! i) + int n < 2 ^ 31"
    and "ncli (cpus s ! i) = 0 \<or> \<not> readeflags_IF s"
  shows "\<exists>t u. pushes n s = Ok () t \<and> (0 < n \<longrightarrow> \<not> readeflags_IF t) \<and> ncli (cpus t ! i) = ncli (cpus s ! i) + int n \<and>
    pops n t = Ok () u \<and> readeflags_IF u = readeflags_IF s \<and> ncli (cpus u ! i) = ncli (cpus s ! i) \<and> locks u = locks s \<and>
    (ncli (cpus s ! i) = 0 \<longrightarrow> is_panic (pops (Suc n) t))"
proof (cases n)
  case 0
  have "int_lvl 0 s i" using assms 0 by (auto simp: int_lvl_def readeflags_IF_def)
  then have "is_panic (bindR (popcli s) (\<lambda>_. pops 0))" if "ncli (cpus s ! i) = 0"
    using popcli_unmatched that by (cases "popcli s") force+
  then show ?thesis using 0 by simp
next
  case (Suc m)
  have ok: "int_lvl (Suc m) s i" using assms Suc by (auto simp: int_lvl_def readeflags_IF_def)
  have i: "i < length (cpus s)" using assms(1) by (rule on_cpu_bound)
  note nc = pushed_ncli_lvl [OF ok]
  have "0 < ncli (cpus (pushed i s) ! i)" using nc assms(2) by simp
  then obtain t where t: "pushes m (pushed i s) = Ok () t" "int_lvl 0 t i" "0 < ncli (cpus t ! i)"
      "ncli (cpus t ! i) = ncli (cpus (pushed i s) ! i) + int m" "pops m t = Ok () (pushed i s)"
    using pushes_pops_nested [OF int_lvl_pushed [OF ok]] by blast
  have p: "pushes n s = Ok () t" "pops n t = Ok () (pushpop i s)"
    using t Suc ok by (simp_all add: pushcli_lvl pops_Suc popcli_pushed_lvl del: pops.simps)
  have "on_cpu (pushpop i s) i = on_cpu s i" by (rule on_cpu_cong) (simp_all add: pushpop_def map_apicid_upd)
  then have okp: "int_lvl 0 (pushpop i s) i" using ok i by (simp add: int_lvl_def pushpop_def)
  have "\<not> readeflags_IF t" using t(2,3) by (simp add: int_lvl_def readeflags_IF_def)
  moreover have "is_panic (pops (Suc n) t)" if "ncli (cpus s ! i) = 0"
    unfolding pops_Suc p(2) using popcli_unmatched [OF okp] that i by (simp add: pushpop_def)
  ultimately show ?thesis using p i t(4) nc Suc by (simp add: readeflags_IF_def pushpop_def)
qed

theorem cli_nesting_witness:
  "\<exists>t u. pushes 3 demo_mach = Ok () t \<and> \<not> readeflags_IF t \<and> ncli (cpus t ! 0) = 3 \<and> pops 3 t = Ok () u \<and> readeflags_IF u"
proof -
  have "on_cpu demo_mach 0" "ncli (cpus demo_mach ! 0) = 0" "readeflags_IF demo_mach"
    using demo_mach_ok(1) by (simp_all add: int_ok_def demo_mach_def readeflags_IF_def upt_rec)
  then show ?thesis using cli_nesting [of demo_mach 0 3] by auto
qed

end
