(* ===== verification/Mmu.thy ===== *)
theory Mmu
  imports Spinlock
begin

text \<open>
  The address arithmetic of \<^verbatim>\<open>mmu.h\<close> and \<^verbatim>\<open>memlayout.h\<close>: page rounding, the split of a
  virtual address into page-directory index, page-table index and offset, page-table entries, and
  the kernel's direct map.  The lemmas restate each bit mask as arithmetic on \<open>unat\<close>.
\<close>

section \<open>Constants and macros\<close>

definition PGSIZE :: u32 where "PGSIZE = 4096"
definition NPDENTRIES :: nat where "NPDENTRIES = 1024"
definition NPTENTRIES :: nat where "NPTENTRIES = 1024"
definition PTXSHIFT :: nat where "PTXSHIFT = 12"
definition PDXSHIFT :: nat where "PDXSHIFT = 22"
definition KSTACKSIZE :: u32 where "KSTACKSIZE = 4096"

definition EXTMEM :: u32 where "EXTMEM = 0x100000"
definition PHYSTOP :: u32 where "PHYSTOP = 0xE000000"
definition DEVSPACE :: u32 where "DEVSPACE = 0xFE000000"
definition KERNLINK :: u32 where "KERNLINK = KERNBASE + EXTMEM"

definition V2P :: "addr \<Rightarrow> u32" where "V2P a = a - KERNBASE"
definition P2V :: "u32 \<Rightarrow> addr" where "P2V a = a + KERNBASE"

definition PDX :: "addr \<Rightarrow> u32" where "PDX va = drop_bit PDXSHIFT va AND 0x3FF"
definition PTX :: "addr \<Rightarrow> u32" where "PTX va = drop_bit PTXSHIFT va AND 0x3FF"
definition PGADDR :: "u32 \<Rightarrow> u32 \<Rightarrow> u32 \<Rightarrow> addr" where
  "PGADDR d t off = push_bit PDXSHIFT d OR push_bit PTXSHIFT t OR off"

definition PGROUNDUP :: "u32 \<Rightarrow> u32" where "PGROUNDUP sz = (sz + PGSIZE - 1) AND NOT (PGSIZE - 1)"
definition PGROUNDDOWN :: "u32 \<Rightarrow> u32" where "PGROUNDDOWN a = a AND NOT (PGSIZE - 1)"

definition PTE_P :: u32 where "PTE_P = 0x001"
definition PTE_W :: u32 where "PTE_W = 0x002"
definition PTE_U :: u32 where "PTE_U = 0x004"
definition PTE_PS :: u32 where "PTE_PS = 0x080"

definition PTE_ADDR :: "u32 \<Rightarrow> u32" where "PTE_ADDR pte = pte AND NOT 0xFFF"
definition PTE_FLAGS :: "u32 \<Rightarrow> u32" where "PTE_FLAGS pte = pte AND 0xFFF"

definition SEG_KCODE :: nat where "SEG_KCODE = 1"
definition SEG_KDATA :: nat where "SEG_KDATA = 2"
definition SEG_UCODE :: nat where "SEG_UCODE = 3"
definition SEG_UDATA :: nat where "SEG_UDATA = 4"
definition SEG_TSS :: nat where "SEG_TSS = 5"
definition NSEGS :: nat where "NSEGS = 6"
definition DPL_USER :: "2 word" where "DPL_USER = 3"
definition STA_X :: "4 word" where "STA_X = 0x8"
definition STA_W :: "4 word" where "STA_W = 0x2"
definition STA_R :: "4 word" where "STA_R = 0x2"
definition STS_T32A :: "4 word" where "STS_T32A = 0x9"
definition STS_IG32 :: "4 word" where "STS_IG32 = 0xE"
definition STS_TG32 :: "4 word" where "STS_TG32 = 0xF"

definition SEG :: "4 word \<Rightarrow> u32 \<Rightarrow> u32 \<Rightarrow> 2 word \<Rightarrow> segdesc" where
  "SEG ty base lim dpl =
     \<lparr>lim_15_0 = ucast (drop_bit 12 lim AND 0xffff), base_15_0 = ucast (base AND 0xffff),
      base_23_16 = ucast (drop_bit 16 base AND 0xff), seg_type = ty, seg_s = True, seg_dpl = dpl,
      seg_p = True, lim_19_16 = ucast (drop_bit 28 lim), seg_avl = False, seg_rsv1 = False,
      seg_db = True, seg_g = True, base_31_24 = ucast (drop_bit 24 base)\<rparr>"

definition SEG16 :: "4 word \<Rightarrow> u32 \<Rightarrow> u32 \<Rightarrow> 2 word \<Rightarrow> segdesc" where
  "SEG16 ty base lim dpl =
     \<lparr>lim_15_0 = ucast (lim AND 0xffff), base_15_0 = ucast (base AND 0xffff),
      base_23_16 = ucast (drop_bit 16 base AND 0xff), seg_type = ty, seg_s = True, seg_dpl = dpl,
      seg_p = True, lim_19_16 = ucast (drop_bit 16 lim), seg_avl = False, seg_rsv1 = False,
      seg_db = True, seg_g = False, base_31_24 = ucast (drop_bit 24 base)\<rparr>"

section \<open>Masks as arithmetic\<close>

lemma unat_take_bit: "unat (take_bit n a) = unat a mod 2 ^ n"
  unfolding unsigned_take_bit_eq by (rule take_bit_eq_mod)

lemma unat_drop_bit: "unat (drop_bit n a) = unat a div 2 ^ n"
  unfolding unat_drop_bit_eq by (rule drop_bit_eq_div)

lemma and_not_mask:
  fixes a :: u32
  shows "unat (a AND NOT (mask n)) = unat a - unat a mod 2 ^ n"
proof -
  have z: "NOT a AND take_bit n a = 0"
    by (rule bit_word_eqI) (simp add: bit_simps)
  have "a AND NOT (mask n) = a AND NOT (take_bit n a)"
    by (rule bit_word_eqI) (auto simp: bit_simps)
  also have "\<dots> = a - take_bit n a"
    using disjunctive_diff_eq_and_not [OF z] by simp
  finally have e: "a AND NOT (mask n) = a - take_bit n a" .
  have "take_bit n a \<le> a" by (simp add: word_le_nat_alt unat_take_bit)
  then show ?thesis by (simp add: e unat_take_bit unat_sub)
qed

lemma and_mask_unat:
  fixes a :: u32
  shows "unat (a AND mask n) = unat a mod 2 ^ n"
  by (simp add: take_bit_eq_mask [symmetric] unat_take_bit)

lemma pg_mask: "PGSIZE - 1 = mask 12" "(0xFFF :: u32) = mask 12" "(0x3FF :: u32) = mask 10"
  by (simp_all add: PGSIZE_def mask_eq_exp_minus_1)

lemma unat_PGROUNDDOWN: "unat (PGROUNDDOWN a) = 4096 * (unat a div 4096)"
proof -
  have "unat (PGROUNDDOWN a) = unat a - unat a mod 4096"
    unfolding PGROUNDDOWN_def pg_mask and_not_mask by simp
  then show ?thesis by (simp add: minus_mod_eq_mult_div)
qed

lemma unat_PGROUNDUP:
  assumes "unat sz + 4095 < 2 ^ 32"
  shows "unat (PGROUNDUP sz) = 4096 * ((unat sz + 4095) div 4096)"
proof -
  have "unat (sz + 4095) = unat sz + 4095"
    using assms by (simp add: unat_word_ariths)
  moreover have "sz + PGSIZE - 1 = sz + 4095" unfolding PGSIZE_def by simp
  ultimately have "unat (PGROUNDUP sz) = (unat sz + 4095) - (unat sz + 4095) mod 4096"
    unfolding PGROUNDUP_def pg_mask(1) and_not_mask by (simp only:) simp
  then show ?thesis by (simp add: minus_mod_eq_mult_div)
qed

lemma unat_PDX: "unat (PDX va) = unat va div 2 ^ 22"
proof -
  have "unat va div 2 ^ 22 < 2 ^ 10" using unat_u32_lt [of va] by simp
  then show ?thesis
    unfolding PDX_def pg_mask and_mask_unat
    unfolding PDXSHIFT_def unat_drop_bit by simp
qed

lemma unat_PTX: "unat (PTX va) = (unat va div 2 ^ 12) mod 2 ^ 10"
  unfolding PTX_def pg_mask and_mask_unat
  unfolding PTXSHIFT_def unat_drop_bit ..

lemma PDX_bound: "unat (PDX va) < NPDENTRIES"
  using unat_u32_lt [of va] by (simp add: unat_PDX NPDENTRIES_def)

lemma PTX_bound: "unat (PTX va) < NPTENTRIES"
  by (simp add: unat_PTX NPTENTRIES_def)

lemma PGADDR_split: "PGADDR (PDX va) (PTX va) (va AND 0xFFF) = va"
proof (rule bit_word_eqI)
  fix n assume "n < LENGTH(32)"
  then consider "n < 12" | "12 \<le> n" "n < 22" | "22 \<le> n" "n < 32" by fastforce
  then show "bit (PGADDR (PDX va) (PTX va) (va AND 0xFFF)) n = bit va n"
    unfolding PGADDR_def PDX_def PTX_def PDXSHIFT_def PTXSHIFT_def pg_mask
    by cases (auto simp: bit_simps)
qed

text \<open>Two addresses of the same page-table slot lie in the same page.\<close>

lemma PDX_PTX_inj:
  assumes "PDX a = PDX b" and "PTX a = PTX b"
  shows "PGROUNDDOWN a = PGROUNDDOWN b"
proof -
  have d: "unat a div 2 ^ 22 = unat b div 2 ^ 22"
    using arg_cong [OF assms(1), of unat] by (simp only: unat_PDX)
  have t: "(unat a div 2 ^ 12) mod 2 ^ 10 = (unat b div 2 ^ 12) mod 2 ^ 10"
    using arg_cong [OF assms(2), of unat] by (simp only: unat_PTX)
  have split: "x div 4096 = 1024 * (x div 2 ^ 22) + (x div 2 ^ 12) mod 2 ^ 10" for x :: nat
  proof -
    have "x div 2 ^ 22 = x div 4096 div 1024" by (simp add: div_mult2_eq [symmetric])
    then show ?thesis by simp
  qed
  have "unat a div 4096 = unat b div 4096"
    unfolding split [of "unat a"] split [of "unat b"] d t ..
  then show ?thesis by (simp add: word_unat_eq_iff unat_PGROUNDDOWN)
qed

section \<open>Pages\<close>

definition page_aligned :: "addr \<Rightarrow> bool" where
  "page_aligned a \<longleftrightarrow> unat a mod 4096 = 0"

lemma page_aligned_PGROUNDDOWN: "page_aligned (PGROUNDDOWN a)"
  by (simp add: page_aligned_def unat_PGROUNDDOWN)

lemma PGROUNDDOWN_aligned: "page_aligned a \<Longrightarrow> PGROUNDDOWN a = a"
  using mult_div_mod_eq [of 4096 "unat a"]
  by (simp add: word_unat_eq_iff unat_PGROUNDDOWN page_aligned_def)

lemma page_aligned4: "page_aligned a \<Longrightarrow> aligned4 a"
  using mod_mod_cancel [of 4 4096 "unat a"] by (simp add: page_aligned_def aligned4_def)

lemma P2V_V2P [simp]: "P2V (V2P a) = a" and V2P_P2V [simp]: "V2P (P2V a) = a"
  by (simp_all add: P2V_def V2P_def)

lemma page_aligned_P2V: "page_aligned (P2V a) \<longleftrightarrow> page_aligned a"
proof -
  have "unat (P2V a) = (unat a + 4096 * 524288) mod (4096 * 1048576)"
    by (simp add: P2V_def KERNBASE_def unat_word_ariths)
  then have "unat (P2V a) mod 4096 = (unat a + 4096 * 524288) mod (4096 * 1048576) mod 4096"
    by (rule arg_cong)
  also have "\<dots> = (unat a + 4096 * 524288) mod 4096"
    by (rule mod_mod_cancel) simp
  also have "\<dots> = unat a mod 4096"
    by (rule mod_mult_self2)
  finally show ?thesis by (simp add: page_aligned_def)
qed

lemma page_aligned_V2P: "page_aligned (V2P a) \<longleftrightarrow> page_aligned a"
  using page_aligned_P2V [of "V2P a"] by simp

text \<open>A page-table entry keeps the page address and the flags apart.\<close>

lemma PTE_ADDR_or:
  assumes "page_aligned pa" and "unat fl < 4096"
  shows "PTE_ADDR (pa OR fl) = pa" and "PTE_FLAGS (pa OR fl) = fl"
proof -
  have pa: "pa AND mask 12 = 0"
    using assms(1) and_mask_unat [of pa 12] by (simp add: page_aligned_def word_unat_eq_iff)
  have fl: "fl AND mask 12 = fl"
    using assms(2) and_mask_unat [of fl 12] by (simp add: word_unat_eq_iff)
  have pan: "pa AND NOT (mask 12) = pa"
    using assms(1) and_not_mask [of pa 12] by (simp add: page_aligned_def word_unat_eq_iff)
  have fln: "fl AND NOT (mask 12) = 0"
    using assms(2) and_not_mask [of fl 12] by (simp add: word_unat_eq_iff)
  show "PTE_ADDR (pa OR fl) = pa"
    unfolding PTE_ADDR_def pg_mask using pan fln by (simp add: bit.conj_disj_distrib2)
  show "PTE_FLAGS (pa OR fl) = fl"
    unfolding PTE_FLAGS_def pg_mask using pa fl by (simp add: bit.conj_disj_distrib2)
qed

end
