(* ===== verification/CString.thy ===== *)
theory CString
  imports Xv6Prelude
begin

text \<open>
  The memory and string routines of \<^verbatim>\<open>string.c\<close>.  \<open>memset\<close> and \<open>memmove\<close> act on byte
  memory through addresses, because their alignment and overlap cases are what they are about;
  the string routines see a C pointer as the function that gives the byte at each offset from it.
  The lemmas give each routine its closed form: the aligned fast path of \<open>memset\<close> writes what
  the byte loop writes, and \<open>memmove\<close> copies correctly when the regions overlap.
\<close>

section \<open>String instructions\<close>

text \<open>\<^verbatim>\<open>rep stosb\<close> and \<^verbatim>\<open>rep stosl\<close> (\<^verbatim>\<open>x86.h\<close>): \<open>cnt\<close> stores at increasing addresses.\<close>

fun stosb :: "memory \<Rightarrow> addr \<Rightarrow> u32 \<Rightarrow> nat \<Rightarrow> memory" where
  "stosb m a v 0 = m"
| "stosb m a v (Suc n) = stosb (m(a := ucast v)) (a + 1) v n"

fun stosl :: "memory \<Rightarrow> addr \<Rightarrow> u32 \<Rightarrow> nat \<Rightarrow> memory" where
  "stosl m a v 0 = m"
| "stosl m a v (Suc n) = stosl (store32 m a v) (a + 4) v n"

section \<open>Memory routines\<close>

definition memset :: "memory \<Rightarrow> addr \<Rightarrow> u32 \<Rightarrow> u32 \<Rightarrow> memory" where
  "memset m dst c n =
     (if unat dst mod 4 = 0 \<and> unat n mod 4 = 0
      then let c = c AND 0xFF in
        stosl m dst (push_bit 24 c OR push_bit 16 c OR push_bit 8 c OR c) (unat n div 4)
      else stosb m dst c (unat n))"

fun memcmp :: "memory \<Rightarrow> addr \<Rightarrow> addr \<Rightarrow> nat \<Rightarrow> int" where
  "memcmp m s1 s2 0 = 0"
| "memcmp m s1 s2 (Suc n) =
     (if m s1 \<noteq> m s2 then uint (m s1) - uint (m s2) else memcmp m (s1 + 1) (s2 + 1) n)"

fun copy_down :: "memory \<Rightarrow> addr \<Rightarrow> addr \<Rightarrow> nat \<Rightarrow> memory" where
  "copy_down m d s 0 = m"
| "copy_down m d s (Suc n) = copy_down (m(d - 1 := m (s - 1))) (d - 1) (s - 1) n"

fun copy_up :: "memory \<Rightarrow> addr \<Rightarrow> addr \<Rightarrow> nat \<Rightarrow> memory" where
  "copy_up m d s 0 = m"
| "copy_up m d s (Suc n) = copy_up (m(d := m s)) (d + 1) (s + 1) n"

definition memmove :: "memory \<Rightarrow> addr \<Rightarrow> addr \<Rightarrow> u32 \<Rightarrow> memory" where
  "memmove m dst src n =
     (if src < dst \<and> dst < src + n then copy_down m (dst + n) (src + n) (unat n)
      else copy_up m dst src (unat n))"

definition memcpy :: "memory \<Rightarrow> addr \<Rightarrow> addr \<Rightarrow> u32 \<Rightarrow> memory" where
  "memcpy m dst src n = memmove m dst src n"

section \<open>String routines\<close>

type_synonym cptr = "nat \<Rightarrow> byte"

definition advance :: "cptr \<Rightarrow> cptr" where
  "advance p = (\<lambda>i. p (Suc i))"

fun strncmp :: "cptr \<Rightarrow> cptr \<Rightarrow> nat \<Rightarrow> int" where
  "strncmp p q 0 = 0"
| "strncmp p q (Suc n) =
     (if p 0 \<noteq> 0 \<and> p 0 = q 0 then strncmp (advance p) (advance q) n
      else uint (p 0) - uint (q 0))"

text \<open>
  \<open>strncpy\<close> and \<open>safestrcpy\<close> return the bytes they write, in order, from the start of the
  destination; the rest of the destination is unchanged.
\<close>

fun strncpy :: "cptr \<Rightarrow> nat \<Rightarrow> byte list" where
  "strncpy t 0 = []"
| "strncpy t (Suc n) = t 0 # (if t 0 \<noteq> 0 then strncpy (advance t) n else replicate n 0)"

fun safestrcpy_from :: "cptr \<Rightarrow> nat \<Rightarrow> byte list" where
  "safestrcpy_from t 0 = [0]"
| "safestrcpy_from t (Suc n) =
     (if t 0 \<noteq> 0 then t 0 # safestrcpy_from (advance t) n else [0, 0])"

definition safestrcpy :: "cptr \<Rightarrow> int \<Rightarrow> byte list" where
  "safestrcpy t n = (if n \<le> 0 then [] else safestrcpy_from t (nat n - 1))"

definition write_prefix :: "byte list \<Rightarrow> byte list \<Rightarrow> byte list" where
  "write_prefix new old = new @ drop (length new) old"

partial_function (option) strlen_from :: "cptr \<Rightarrow> nat \<Rightarrow> nat option" where
  "strlen_from s n = (if s n = 0 then Some n else strlen_from s (Suc n))"

definition strlen :: "cptr \<Rightarrow> nat option" where
  "strlen s = strlen_from s 0"

section \<open>Closed forms\<close>

lemma addr_sub_lt:
  fixes x a :: addr
  shows "unat (x - a) < Suc n \<longleftrightarrow> x = a \<or> (x \<noteq> a \<and> unat (x - (a + 1)) < n)"
proof (cases "x = a")
  case True
  then show ?thesis by simp
next
  case False
  then have "x - a \<noteq> 0" by simp
  then have "unat (x - a) \<noteq> 0" by (simp add: unat_eq_zero)
  moreover have "x - (a + 1) = (x - a) - 1" by simp
  moreover have "unat ((x - a) - 1) = unat (x - a) - 1"
    using \<open>x - a \<noteq> 0\<close> by (simp add: unat_minus_one)
  ultimately show ?thesis using False by (metis Suc_diff_1 Suc_less_eq diff_Suc_1 neq0_conv One_nat_def)
qed

lemma stosb_eq:
  "n \<le> 2 ^ 32 \<Longrightarrow> stosb m a v n = (\<lambda>x. if unat (x - a) < n then ucast v else m x)"
proof (induction n arbitrary: m a)
  case 0
  then show ?case by simp
next
  case (Suc n)
  then show ?case
    by (auto simp: fun_eq_iff addr_sub_lt)
qed

lemma stosl_eq:
  assumes "(ucast v :: byte) = b" "ucast (drop_bit 8 v) = b" "ucast (drop_bit 16 v) = b"
    "ucast (drop_bit 24 v) = b"
  shows "stosl m a v n = (\<lambda>x. if unat (x - a) < 4 * n then b else m x)"
proof (induction n arbitrary: m a)
  case 0
  then show ?case by simp
next
  case (Suc n)
  have "store32 m a v = (\<lambda>x. if x = a \<or> x = a + 1 \<or> x = a + 2 \<or> x = a + 3 then b else m x)"
    using assms by (auto simp: store32_def)
  moreover have "unat (x - a) < 4 * Suc n \<longleftrightarrow>
      (x = a \<or> x = a + 1 \<or> x = a + 2 \<or> x = a + 3) \<or> unat (x - (a + 4)) < 4 * n" for x
  proof -
    have "4 * Suc n = Suc (Suc (Suc (Suc (4 * n))))" by simp
    moreover have "a + 1 + 1 = a + 2" "a + 2 + 1 = a + 3" "a + 3 + 1 = a + 4" by simp_all
    ultimately show ?thesis by (metis addr_sub_lt)
  qed
  ultimately show ?case
    using Suc.IH by (auto simp: fun_eq_iff)
qed

lemma byte_fill:
  fixes c :: u32
  defines "w \<equiv> push_bit 24 (c AND 0xFF) OR push_bit 16 (c AND 0xFF) OR push_bit 8 (c AND 0xFF) OR (c AND 0xFF)"
  shows "(ucast w :: byte) = ucast c" "(ucast (drop_bit 8 w) :: byte) = ucast c"
    "(ucast (drop_bit 16 w) :: byte) = ucast c" "(ucast (drop_bit 24 w) :: byte) = ucast c"
proof -
  have ff: "(0xFF :: u32) = mask 8" by (simp add: mask_eq_exp_minus_1)
  show "(ucast w :: byte) = ucast c" "(ucast (drop_bit 8 w) :: byte) = ucast c"
    "(ucast (drop_bit 16 w) :: byte) = ucast c" "(ucast (drop_bit 24 w) :: byte) = ucast c"
    unfolding w_def ff by (rule bit_word_eqI, auto simp: bit_simps)+
qed

lemma memset_eq:
  "memset m dst c n = (\<lambda>x. if unat (x - dst) < unat n then ucast c else m x)"
proof (cases "unat dst mod 4 = 0 \<and> unat n mod 4 = 0")
  case True
  then have "4 * (unat n div 4) = unat n" by presburger
  then show ?thesis
    using True unfolding memset_def Let_def stosl_eq [OF byte_fill] by (simp only: if_True simp_thms)
next
  case False
  have "unat n \<le> 2 ^ 32" using unat_u32_lt [of n] by simp
  then show ?thesis
    using False by (auto simp: memset_def stosb_eq)
qed

text \<open>
  Without address wrap-around, the upward loop copies correctly unless the destination starts
  inside the source, and the downward loop unless the source starts inside the destination.
\<close>

lemma copy_up_eq:
  assumes "unat d + n \<le> 2 ^ 32" and "unat s + n \<le> 2 ^ 32"
    and "unat d \<le> unat s \<or> unat s + n \<le> unat d"
  shows "copy_up m d s n = (\<lambda>x. if unat (x - d) < n then m (s + (x - d)) else m x)"
  using assms
proof (induction n arbitrary: m d s)
  case 0
  then show ?case by simp
next
  case (Suc n)
  show ?case
  proof (cases n)
    case 0
    then show ?thesis by (auto simp: fun_eq_iff unat_eq_zero)
  next
    case n: (Suc k)
    have d1: "unat (d + 1) = unat d + 1" and s1: "unat (s + 1) = unat s + 1"
      using Suc.prems n by (simp_all add: unat_word_ariths)
    have IH: "copy_up (m(d := m s)) (d + 1) (s + 1) n =
        (\<lambda>x. if unat (x - (d + 1)) < n then (m(d := m s)) (s + 1 + (x - (d + 1))) else (m(d := m s)) x)"
      by (rule Suc.IH) (use Suc.prems d1 s1 in auto)
    have ne: "s + 1 + (x - (d + 1)) \<noteq> d" if "unat (x - (d + 1)) < n" for x
    proof
      assume eq: "s + 1 + (x - (d + 1)) = d"
      have "unat (s + 1 + (x - (d + 1))) = unat s + 1 + unat (x - (d + 1))"
        using Suc.prems s1 that unat_add_u32 [of "s + 1" "x - (d + 1)"] by linarith
      with arg_cong [OF eq, of unat] have "unat d = unat s + 1 + unat (x - (d + 1))" by linarith
      with Suc.prems(3) that show False by auto
    qed
    have sh: "s + 1 + (x - (d + 1)) = s + (x - d)" for x by simp
    show ?thesis
      unfolding copy_up.simps IH
      using ne sh by (auto simp: fun_eq_iff addr_sub_lt)
  qed
qed

lemma copy_down_eq:
  assumes "unat d + n \<le> 2 ^ 32" and "unat s + n \<le> 2 ^ 32" and "unat s < unat d"
  shows "copy_down m (d + of_nat n) (s + of_nat n) n =
    (\<lambda>x. if unat (x - d) < n then m (s + (x - d)) else m x)"
  using assms
proof (induction n arbitrary: m)
  case 0
  then show ?case by simp
next
  case (Suc n)
  let ?m = "m(d + of_nat n := m (s + of_nat n))"
  have dn: "unat (d + of_nat n) = unat d + n" and un: "unat (of_nat n :: addr) = n"
    using Suc.prems by (simp_all add: unat_word_ariths unat_of_nat)
  have IH: "copy_down ?m (d + of_nat n) (s + of_nat n) n =
      (\<lambda>x. if unat (x - d) < n then ?m (s + (x - d)) else ?m x)"
    by (rule Suc.IH) (use Suc.prems in auto)
  have ne: "s + (x - d) \<noteq> d + of_nat n" if "unat (x - d) < n" for x
  proof
    assume eq: "s + (x - d) = d + of_nat n"
    have "unat (s + (x - d)) = unat s + unat (x - d)"
      using Suc.prems that by (intro unat_add_u32) simp
    with arg_cong [OF eq, of unat] dn Suc.prems(3) that show False by linarith
  qed
  have last: "unat (x - d) < Suc n \<longleftrightarrow> x = d + of_nat n \<or> unat (x - d) < n" for x
  proof -
    have "unat (x - d) = n \<longleftrightarrow> x - d = of_nat n"
      using un by (simp add: word_unat_eq_iff)
    then show ?thesis by (auto simp: less_Suc_eq algebra_simps)
  qed
  have e: "d + of_nat (Suc n) - 1 = d + of_nat n" "s + of_nat (Suc n) - 1 = s + of_nat n"
    by simp_all
  have self: "\<not> unat (d + of_nat n - d) < n" using un by simp
  show ?case
    unfolding copy_down.simps e IH
    using ne last self by (auto simp: fun_eq_iff)
qed

lemma memmove_eq:
  assumes "unat dst + unat n \<le> 2 ^ 32" and "unat src + unat n < 2 ^ 32"
  shows "memmove m dst src n = (\<lambda>x. if unat (x - dst) < unat n then m (src + (x - dst)) else m x)"
proof -
  have sn: "unat (src + n) = unat src + unat n"
    using assms(2) by (simp add: unat_word_ariths)
  have nn: "of_nat (unat n) = n" by simp
  show ?thesis
  proof (cases "src < dst \<and> dst < src + n")
    case True
    then have "unat src < unat dst" by (simp add: word_less_nat_alt)
    then show ?thesis
      using True assms copy_down_eq [of dst "unat n" src m] by (simp add: memmove_def nn)
  next
    case False
    then have "unat dst \<le> unat src \<or> unat src + unat n \<le> unat dst"
      using sn by (auto simp: word_less_nat_alt)
    then show ?thesis
      using False assms by (auto simp: memmove_def copy_up_eq)
  qed
qed

text \<open>The string routines: what they write and what a comparison decides.\<close>

lemma length_strncpy [simp]: "length (strncpy t n) = n"
  by (induction t n rule: strncpy.induct) auto

lemma strncpy_nth:
  "i < n \<Longrightarrow> strncpy t n ! i = (if \<exists>j < i. t j = 0 then 0 else t i)"
proof (induction t n arbitrary: i rule: strncpy.induct)
  case (1 t)
  then show ?case by simp
next
  case (2 t n)
  show ?case
  proof (cases i)
    case 0
    then show ?thesis by simp
  next
    case (Suc k)
    have ex: "(\<exists>j < Suc k. t j = 0) \<longleftrightarrow> t 0 = 0 \<or> (\<exists>j < k. advance t j = 0)"
      by (auto simp: advance_def less_Suc_eq_0_disj)
    show ?thesis
      using 2 Suc ex by (auto simp: advance_def)
  qed
qed

lemma strncmp_eq_0:
  "strncmp p q n = 0 \<longleftrightarrow> (\<forall>i < n. (\<forall>j < i. p j \<noteq> 0) \<longrightarrow> p i = q i)"
proof (induction p q n rule: strncmp.induct)
  case (1 p q)
  then show ?case by simp
next
  case (2 p q n)
  have all: "(\<forall>i < Suc n. (\<forall>j < i. p j \<noteq> 0) \<longrightarrow> p i = q i) \<longleftrightarrow>
      p 0 = q 0 \<and> (p 0 \<noteq> 0 \<longrightarrow> (\<forall>i < n. (\<forall>j < i. advance p j \<noteq> 0) \<longrightarrow> advance p i = advance q i))"
    by (auto simp: advance_def All_less_Suc2)
  show ?case
    unfolding all using 2 by (auto simp: word_uint_eq_iff)
qed

lemma safestrcpy_from_shape:
  "\<exists>k \<le> n. (\<forall>i < k. t i \<noteq> 0) \<and>
     (safestrcpy_from t n = map t [0..<k] @ [0] \<and> k = n \<or>
      safestrcpy_from t n = map t [0..<k] @ [0, 0] \<and> k < n \<and> t k = 0)"
proof (induction t n rule: safestrcpy_from.induct)
  case (1 t)
  then show ?case by simp
next
  case (2 t n)
  show ?case
  proof (cases "t 0 = 0")
    case True
    then show ?thesis by (intro exI [of _ 0]) simp
  next
    case False
    then obtain k where k: "k \<le> n" "\<forall>i < k. advance t i \<noteq> 0"
      "safestrcpy_from (advance t) n = map (advance t) [0..<k] @ [0] \<and> k = n \<or>
       safestrcpy_from (advance t) n = map (advance t) [0..<k] @ [0, 0] \<and> k < n \<and> advance t k = 0"
      using 2 by blast
    have m: "map t [0..<Suc k] = t 0 # map (advance t) [0..<k]"
      by (simp add: upt_conv_Cons map_Suc_upt [symmetric] advance_def del: upt_Suc)
    show ?thesis
    proof (intro exI [of _ "Suc k"] conjI)
      show "\<forall>i < Suc k. t i \<noteq> 0"
        using False k(2) by (auto simp: advance_def less_Suc_eq_0_disj)
    qed (use False k m in \<open>auto simp: advance_def\<close>)
  qed
qed

lemma strlen_from_eq:
  "(\<forall>i < k. s (n + i) \<noteq> 0) \<Longrightarrow> s (n + k) = 0 \<Longrightarrow> strlen_from s n = Some (n + k)"
proof (induction k arbitrary: n)
  case 0
  then show ?case by (simp add: strlen_from.simps)
next
  case (Suc k)
  have "s n \<noteq> 0" using Suc.prems(1) by force
  moreover have "strlen_from s (Suc n) = Some (Suc n + k)"
  proof (rule Suc.IH)
    show "\<forall>i < k. s (Suc n + i) \<noteq> 0"
      using Suc.prems(1) by (metis Suc_mono add_Suc_shift)
    show "s (Suc n + k) = 0" using Suc.prems(2) by simp
  qed
  ultimately show ?case by (simp add: strlen_from.simps [of s n])
qed

section \<open>Properties\<close>

text \<open>
  C28. The aligned fast path of \<open>memset\<close>, which stores words, writes exactly what the byte loop
  writes, whatever the address, the length and the fill value.
\<close>

theorem memset_fast_path: "memset m dst c n = stosb m dst c (unat n)"
  using unat_u32_lt [of n] by (simp add: memset_eq stosb_eq)

text \<open>
  C29. \<open>memmove\<close> copies correctly when source and destination overlap in either direction: every
  destination byte gets the value its source byte had before the call, and no other byte changes.
\<close>

theorem memmove_correct:
  assumes "unat dst + unat n \<le> 2 ^ 32" and "unat src + unat n < 2 ^ 32"
  shows "(\<forall>k < unat n. memmove m dst src n (dst + of_nat k) = m (src + of_nat k)) \<and>
    (\<forall>x. \<not> unat (x - dst) < unat n \<longrightarrow> memmove m dst src n x = m x)"
proof -
  have "unat (of_nat k :: addr) = k" if "k < unat n" for k
    using that unat_u32_lt [of n] by (simp add: unat_of_nat)
  then show ?thesis by (simp add: memmove_eq [OF assms])
qed

theorem memmove_correct_witness:
  "memmove (\<lambda>a. ucast a) 0x101 0x100 4 0x104 = 3"
proof -
  have "memmove (\<lambda>a. ucast a) 0x101 0x100 4 (0x101 + of_nat 3) = ucast (0x100 + of_nat 3 :: addr)"
    using memmove_correct [of "0x101" 4 "0x100" "\<lambda>a. ucast a"] by (auto dest: spec [of _ 3])
  then show ?thesis by simp
qed

text \<open>
  C30. \<open>safestrcpy\<close> into a buffer of \<open>n\<close> bytes writes at most \<open>n\<close> bytes, always terminates the
  string, and the string it leaves is the source string cut to \<open>n - 1\<close> characters.
\<close>

theorem safestrcpy_bounded:
  assumes "0 < n"
  shows "length (safestrcpy t n) \<le> nat n \<and> 0 \<in> set (safestrcpy t n) \<and>
    takeWhile (\<lambda>b. b \<noteq> 0) (safestrcpy t n) = takeWhile (\<lambda>b. b \<noteq> 0) (map t [0..<nat n - 1])"
proof -
  obtain k where k: "k \<le> nat n - 1" "\<forall>i < k. t i \<noteq> 0"
    "safestrcpy_from t (nat n - 1) = map t [0..<k] @ [0] \<and> k = nat n - 1 \<or>
     safestrcpy_from t (nat n - 1) = map t [0..<k] @ [0, 0] \<and> k < nat n - 1 \<and> t k = 0"
    using safestrcpy_from_shape [of "nat n - 1" t] by blast
  have tw: "takeWhile (\<lambda>b. b \<noteq> 0) (map t [0..<k] @ xs) = map t [0..<k] @ takeWhile (\<lambda>b. b \<noteq> 0) xs" for xs
    using k(2) by (intro takeWhile_append2) auto
  have "map t [0..<nat n - 1] = map t [0..<k] @ t k # map t [Suc k..<nat n - 1]" if "k < nat n - 1"
    using that upt_add_eq_append [of 0 k "nat n - 1 - k"] by (simp add: upt_conv_Cons)
  moreover have "takeWhile (\<lambda>b. b \<noteq> 0) (xs @ [0]) = takeWhile (\<lambda>b. b \<noteq> 0) xs" for xs :: "byte list"
    by (induction xs) auto
  ultimately show ?thesis
    using k assms tw by (cases "k = nat n - 1") (auto simp: safestrcpy_def)
qed

theorem safestrcpy_bounded_witness:
  "takeWhile (\<lambda>b. b \<noteq> 0) (safestrcpy (\<lambda>i. of_nat (i + 65)) 4) = [65, 66, 67]"
proof -
  have "[0..<3] = [0, 1, 2 :: nat]" by (simp add: upt_rec)
  then show ?thesis using safestrcpy_bounded [of 4 "\<lambda>i. of_nat (i + 65)"] by simp
qed

end
