(* ===== verification/Kalloc.thy ===== *)
theory Kalloc
  imports Mmu CString
begin

text \<open>
  The physical page allocator of \<^verbatim>\<open>kalloc.c\<close>.  The free list is kept where the code keeps it:
  the first word of each free page holds the address of the next one, so the model walks byte
  memory.  \<open>flist\<close> relates that chain to the list of its pages; \<open>kalloc\<close> pops the list and
  \<open>kfree\<close> pushes, and a page is never handed out twice.  The contract that the rest of the
  kernel relies on is the locale \<open>page_pool\<close>, interpreted on \<open>kalloc\<close> and \<open>kfree\<close>.
\<close>

section \<open>State and operations\<close>

record kmem_state = mach +
  use_lock :: bool
  freelist :: addr
  kend :: addr

definition kmem_lock :: "'z kmem_state_scheme \<Rightarrow> (unit, 'z kmem_state_scheme) res" where
  "kmem_lock s = (if use_lock s then acquire L_kmem s else Ok () s)"

definition kmem_unlock :: "'z kmem_state_scheme \<Rightarrow> (unit, 'z kmem_state_scheme) res" where
  "kmem_unlock s = (if use_lock s then release L_kmem s else Ok () s)"

definition kfree :: "addr \<Rightarrow> 'z kmem_state_scheme \<Rightarrow> (unit, 'z kmem_state_scheme) res" where
  "kfree v s =
     (if unat v mod unat PGSIZE \<noteq> 0 \<or> v < kend s \<or> V2P v \<ge> PHYSTOP then Panic ''kfree''
      else let s = s\<lparr>mem := memset (mem s) v 1 PGSIZE\<rparr> in
        bindR (kmem_lock s) (\<lambda>_ s.
          let s = s\<lparr>mem := store32 (mem s) v (freelist s)\<rparr>; s = s\<lparr>freelist := v\<rparr> in
          kmem_unlock s))"

definition kalloc :: "'z kmem_state_scheme \<Rightarrow> (addr, 'z kmem_state_scheme) res" where
  "kalloc s =
     bindR (kmem_lock s) (\<lambda>_ s.
       let r = freelist s; s = (if r \<noteq> 0 then s\<lparr>freelist := load32 (mem s) r\<rparr> else s) in
       bindR (kmem_unlock s) (\<lambda>_ s. Ok r s))"

lemma kfree_Ok_range: "kfree p s = Ok x t \<Longrightarrow> V2P p < PHYSTOP"
  by (auto simp: kfree_def split: if_splits)

lemma V2P_PHYSTOP_step:
  assumes "V2P p < PHYSTOP"
  shows "unat (p + PGSIZE) = unat p + 4096"
proof -
  have v: "unat (V2P p) < 234881024"
    using assms by (simp add: word_less_nat_alt PHYSTOP_def)
  have "unat (V2P p + KERNBASE) = unat (V2P p) + 2147483648"
    using v by (subst unat_add_u32) (simp_all add: KERNBASE_def)
  then have "unat p = unat (V2P p) + 2147483648" by (simp add: V2P_def)
  with v show ?thesis
    by (subst unat_add_u32) (simp_all add: PGSIZE_def)
qed

function freerange_from :: "addr \<Rightarrow> addr \<Rightarrow> 'z kmem_state_scheme \<Rightarrow> (unit, 'z kmem_state_scheme) res" where
  "freerange_from p vend s =
     (if p + PGSIZE \<le> vend
      then bindR (kfree p s) (\<lambda>_ s. freerange_from (p + PGSIZE) vend s)
      else Ok () s)"
  by pat_completeness auto
termination
proof (relation "measure (\<lambda>(p, vend, s). 2 ^ 32 - unat p)")
  fix p vend and s t :: "'z kmem_state_scheme" and x
  assume "kfree p s = Ok x t"
  then have "unat (p + PGSIZE) = unat p + 4096"
    by (intro V2P_PHYSTOP_step kfree_Ok_range)
  then show "((p + PGSIZE, vend, t), p, vend, s) \<in> measure (\<lambda>(p, vend, s). 2 ^ 32 - unat p)"
    using unat_u32_lt [of "p + PGSIZE"] by simp
qed simp

declare freerange_from.simps [simp del]

definition freerange :: "addr \<Rightarrow> addr \<Rightarrow> 'z kmem_state_scheme \<Rightarrow> (unit, 'z kmem_state_scheme) res" where
  "freerange vstart vend s = freerange_from (PGROUNDUP vstart) vend s"

definition kinit1 :: "addr \<Rightarrow> addr \<Rightarrow> 'z kmem_state_scheme \<Rightarrow> (unit, 'z kmem_state_scheme) res" where
  "kinit1 vstart vend s =
     (let s = initlock L_kmem ''kmem'' s; s = s\<lparr>use_lock := False\<rparr> in freerange vstart vend s)"

definition kinit2 :: "addr \<Rightarrow> addr \<Rightarrow> 'z kmem_state_scheme \<Rightarrow> (unit, 'z kmem_state_scheme) res" where
  "kinit2 vstart vend s =
     bindR (freerange vstart vend s) (\<lambda>_ s. Ok () (s\<lparr>use_lock := True\<rparr>))"

section \<open>The chain of free pages\<close>

definition valid_page :: "'z kmem_state_scheme \<Rightarrow> addr \<Rightarrow> bool" where
  "valid_page s v \<longleftrightarrow> page_aligned v \<and> kend s \<le> v \<and> V2P v < PHYSTOP"

fun flist :: "memory \<Rightarrow> addr \<Rightarrow> addr list \<Rightarrow> bool" where
  "flist m a [] \<longleftrightarrow> a = 0"
| "flist m a (x # xs) \<longleftrightarrow> a = x \<and> a \<noteq> 0 \<and> flist m (load32 m a) xs"

definition in_page :: "addr \<Rightarrow> addr \<Rightarrow> bool" where
  "in_page v x \<longleftrightarrow> unat (x - v) < 4096"

definition kmem_ready :: "'z kmem_state_scheme \<Rightarrow> nat \<Rightarrow> bool" where
  "kmem_ready s i \<longleftrightarrow> (use_lock s \<longrightarrow> int_ok s i \<and> lock_free s L_kmem)"

definition kmem_pool :: "'z kmem_state_scheme \<Rightarrow> addr list \<Rightarrow> bool" where
  "kmem_pool s ps \<longleftrightarrow> (\<exists>i. kmem_ready s i) \<and> flist (mem s) (freelist s) ps \<and> distinct ps \<and>
     (\<forall>p\<in>set ps. valid_page s p)"

definition kquiet :: "nat \<Rightarrow> 'z kmem_state_scheme \<Rightarrow> 'z kmem_state_scheme" where
  "kquiet i s = (if use_lock s then pushpop i s else s)"

lemma flist_cong: "(\<And>x. x \<in> set xs \<Longrightarrow> load32 m' x = load32 m x) \<Longrightarrow> flist m' a xs = flist m a xs"
  by (induction xs arbitrary: a) auto

lemma valid_page_nonzero: "valid_page s v \<Longrightarrow> v \<noteq> 0"
  by (auto simp: valid_page_def V2P_def PHYSTOP_def KERNBASE_def word_less_nat_alt)

lemma unat_diff_ge:
  fixes a b :: addr
  assumes "unat a < unat b"
  shows "unat (a - b) = 2 ^ 32 - (unat b - unat a)"
proof -
  have "unat (a - b) = unat a + 2 ^ 32 - unat b"
    using assms by (simp add: unat_sub_if_size word_size)
  then show ?thesis using assms by simp
qed

text \<open>An address of one page is in no other page, up to the three bytes after a word address.\<close>

lemma pages_disjoint:
  assumes "page_aligned p" and "page_aligned q" and "p \<noteq> q" and "k < 4096"
  shows "\<not> in_page q (p + of_nat k)"
proof -
  have kk: "unat (of_nat k :: addr) = k" using assms(4) by (simp add: unat_of_nat)
  obtain a where a: "unat p = 4096 * a" using assms(1) by (auto simp: page_aligned_def)
  obtain b where b: "unat q = 4096 * b" using assms(2) by (auto simp: page_aligned_def)
  have ab: "a \<noteq> b" using assms(3) a b by (auto simp: word_unat_eq_iff)
  have pl: "4096 * a < 2 ^ 32" and ql: "4096 * b < 2 ^ 32"
    using unat_u32_lt [of p] unat_u32_lt [of q] a b by simp_all
  have pk: "unat (p + of_nat k) = 4096 * a + k"
    using assms(4) pl a kk by (subst unat_add_u32) simp_all
  show ?thesis
  proof (cases "b < a")
    case True
    then have "unat (p + of_nat k - q) = 4096 * a + k - 4096 * b"
      using pk b by (simp add: unat_sub_if_size word_size)
    then show ?thesis using True by (simp add: in_page_def)
  next
    case False
    then have lt: "a < b" using ab by simp
    then have "unat (p + of_nat k) < unat q" using pk b assms(4) by linarith
    then have "unat (p + of_nat k - q) = 2 ^ 32 - (4096 * b - (4096 * a + k))"
      using unat_diff_ge pk b by metis
    moreover have "4096 * b - (4096 * a + k) \<le> 4096 * b" by simp
    ultimately show ?thesis using ql by (simp add: in_page_def)
  qed
qed

lemma load32_in_page:
  assumes "page_aligned p" and "page_aligned q" and "p \<noteq> q"
    and "\<And>x. \<not> in_page q x \<Longrightarrow> m' x = m x"
  shows "load32 m' p = load32 m p"
proof -
  have "m' (p + of_nat k) = m (p + of_nat k)" if "k < 4" for k
    using pages_disjoint [OF assms(1,2,3), of k] that assms(4) by simp
  from this [of 0] this [of 1] this [of 2] this [of 3] show ?thesis
    by (simp add: load32_def)
qed

section \<open>The operations in closed form\<close>

lemma acquired_kmem [simp]:
  "use_lock (acquired l i s) = use_lock s" "freelist (acquired l i s) = freelist s"
  "kend (acquired l i s) = kend s"
  by (simp_all add: acquired_def pushed_def)

lemma pushpop_kmem [simp]:
  "use_lock (pushpop i s) = use_lock s" "freelist (pushpop i s) = freelist s"
  "kend (pushpop i s) = kend s"
  by (simp_all add: pushpop_def)

lemma release_kmem_freelist:
  assumes "kmem_ready s i" and "use_lock s"
  shows "release L_kmem ((acquired L_kmem i s)\<lparr>freelist := f\<rparr>) = Ok () ((pushpop i s)\<lparr>freelist := f\<rparr>)"
    and "release L_kmem (acquired L_kmem i s) = Ok () (pushpop i s)"
proof -
  let ?t = "(acquired L_kmem i s)\<lparr>freelist := f\<rparr>" and ?u = "acquired L_kmem i s"
  have "release L_kmem ?t = Ok () (?t\<lparr>locks := locks s, cpus := cpus (pushpop i s), eflags_IF := eflags_IF s\<rparr>)"
    and u: "release L_kmem ?u = Ok () (?u\<lparr>locks := locks s, cpus := cpus (pushpop i s), eflags_IF := eflags_IF s\<rparr>)"
    by (rule release_section; use assms in \<open>auto simp: kmem_ready_def\<close>)+
  then show "release L_kmem ?t = Ok () ((pushpop i s)\<lparr>freelist := f\<rparr>)"
    by (simp add: acquired_def pushed_def pushpop_def)
  show "release L_kmem ?u = Ok () (pushpop i s)"
    unfolding u by (simp add: acquired_def pushed_def pushpop_def)
qed

lemma kalloc_eq:
  assumes "kmem_ready s i"
  shows "kalloc s = Ok (freelist s)
    ((kquiet i s)\<lparr>freelist := (if freelist s \<noteq> 0 then load32 (mem s) (freelist s) else freelist s)\<rparr>)"
proof -
  have a: "use_lock s \<Longrightarrow> acquire L_kmem s = Ok () (acquired L_kmem i s)"
    using assms by (auto simp: kmem_ready_def intro: acquire_lock_free)
  have id: "(kquiet i s)\<lparr>freelist := freelist s\<rparr> = kquiet i s"
    by (simp add: kquiet_def pushpop_def)
  show ?thesis
    by (cases "use_lock s"; cases "freelist s = 0")
      (auto simp: kalloc_def kmem_lock_def kmem_unlock_def kquiet_def Let_def a id
        release_kmem_freelist [OF assms] pushpop_def)
qed

definition freed_mem :: "'z kmem_state_scheme \<Rightarrow> addr \<Rightarrow> memory" where
  "freed_mem s v = store32 (memset (mem s) v 1 PGSIZE) v (freelist s)"

lemma kfree_eq:
  assumes "kmem_ready s i" and "valid_page s v"
  shows "kfree v s = Ok () ((kquiet i s)\<lparr>mem := freed_mem s v, freelist := v\<rparr>)"
proof -
  have g: "\<not> (unat v mod unat PGSIZE \<noteq> 0 \<or> v < kend s \<or> V2P v \<ge> PHYSTOP)"
    using assms(2) by (auto simp: valid_page_def page_aligned_def PGSIZE_def)
  let ?u = "s\<lparr>mem := memset (mem s) v 1 PGSIZE\<rparr>"
  show ?thesis
  proof (cases "use_lock s")
    case False
    then show ?thesis
      using g by (simp add: kfree_def kmem_lock_def kmem_unlock_def kquiet_def freed_mem_def)
  next
    case True
    have ready: "int_ok ?u i" "lock_free ?u L_kmem"
      using assms(1) True int_ok_cong [of ?u s i] by (simp_all add: kmem_ready_def lock_free_def)
    let ?t = "(acquired L_kmem i ?u)\<lparr>mem := freed_mem s v, freelist := v\<rparr>"
    have "release L_kmem ?t = Ok () (?t\<lparr>locks := locks ?u, cpus := cpus (pushpop i ?u), eflags_IF := eflags_IF ?u\<rparr>)"
      by (rule release_section) (use ready in auto)
    moreover have "?t\<lparr>locks := locks ?u, cpus := cpus (pushpop i ?u), eflags_IF := eflags_IF ?u\<rparr> =
        (pushpop i s)\<lparr>mem := freed_mem s v, freelist := v\<rparr>"
      by (rule kmem_state.equality) (simp_all add: acquired_def pushed_def pushpop_def cong: if_cong)
    ultimately show ?thesis
      using True g by (simp add: kfree_def kmem_lock_def kmem_unlock_def acquire_lock_free [OF ready]
          kquiet_def Let_def freed_mem_def)
  qed
qed

lemma kfree_invalid: "\<not> valid_page s v \<Longrightarrow> kfree v s = Panic ''kfree''"
  by (auto simp: kfree_def valid_page_def page_aligned_def PGSIZE_def)

lemma store32_in_page:
  assumes "page_aligned v" and "\<not> in_page v x"
  shows "store32 m v w x = m x"
proof -
  have "unat (of_nat k :: addr) = k" if "k < 4" for k :: nat
    using that by (simp add: unat_of_nat)
  then have "in_page v (v + of_nat k)" if "k < 4" for k :: nat
    using that by (simp add: in_page_def)
  from this [of 0] this [of 1] this [of 2] this [of 3] have
    "in_page v v" "in_page v (v + 1)" "in_page v (v + 2)" "in_page v (v + 3)" by simp_all
  with assms(2) show ?thesis by (auto simp: store32_def)
qed

lemma freed_mem_outside: "page_aligned v \<Longrightarrow> \<not> in_page v x \<Longrightarrow> freed_mem s v x = mem s x"
  by (simp add: freed_mem_def store32_in_page memset_eq in_page_def PGSIZE_def)

lemma freed_mem_next: "load32 (freed_mem s v) v = freelist s"
  by (simp add: freed_mem_def mem_simps)

lemma freed_mem_junk:
  assumes "page_aligned v" and "4 \<le> k" and "k < 4096"
  shows "freed_mem s v (v + of_nat k) = 1"
proof -
  have k: "unat (of_nat k :: addr) = k" using assms(3) by (simp add: unat_of_nat)
  have ne: "v + of_nat k \<noteq> v + of_nat j" if "j < 4" for j :: nat
  proof
    assume "v + of_nat k = v + of_nat j"
    then have "unat (of_nat k :: addr) = unat (of_nat j :: addr)" by simp
    then show False using k that assms(2) by (simp add: unat_of_nat)
  qed
  have ne': "v + of_nat k \<noteq> v" "v + of_nat k \<noteq> v + 1" "v + of_nat k \<noteq> v + 2" "v + of_nat k \<noteq> v + 3"
    using ne [of 0] ne [of 1] ne [of 2] ne [of 3] by (simp_all del: add_left_cancel)
  have "freed_mem s v (v + of_nat k) = memset (mem s) v 1 PGSIZE (v + of_nat k)"
    unfolding freed_mem_def store32_def using ne' by (simp only: fun_upd_apply if_False)
  also have "\<dots> = 1"
    using k assms(3) by (simp add: memset_eq PGSIZE_def)
  finally show ?thesis .
qed

section \<open>The pool of free pages\<close>

lemma kmem_ready_update:
  assumes "kmem_ready s i"
  shows "kmem_ready ((kquiet i s)\<lparr>mem := m, freelist := f\<rparr>) i"
    and "kmem_ready ((kquiet i s)\<lparr>freelist := f\<rparr>) i"
  using assms int_ok_pushpop [of s i]
    int_ok_cong [of "(pushpop i s)\<lparr>mem := m, freelist := f\<rparr>" "pushpop i s" i]
    int_ok_cong [of "(pushpop i s)\<lparr>freelist := f\<rparr>" "pushpop i s" i]
    int_ok_cong [of "s\<lparr>mem := m, freelist := f\<rparr>" s i] int_ok_cong [of "s\<lparr>freelist := f\<rparr>" s i]
  by (auto simp: kmem_ready_def kquiet_def lock_free_def)

lemma kquiet_sel [simp]:
  "kend (kquiet i s) = kend s" "mem (kquiet i s) = mem s" "freelist (kquiet i s) = freelist s"
  by (simp_all add: kquiet_def)

lemma kalloc_pool_Nil:
  assumes "kmem_pool s []"
  shows "\<exists>t. kalloc s = Ok 0 t \<and> kmem_pool t [] \<and> mem t = mem s"
proof -
  obtain i where i: "kmem_ready s i" using assms by (auto simp: kmem_pool_def)
  have "freelist s = 0" using assms by (simp add: kmem_pool_def)
  then show ?thesis
    using kalloc_eq [OF i] kmem_ready_update(2) [OF i, of 0] by (auto simp: kmem_pool_def)
qed

lemma kalloc_pool_Cons:
  assumes "kmem_pool s (p # ps)"
  shows "\<exists>t. kalloc s = Ok p t \<and> kmem_pool t ps \<and> mem t = mem s \<and> p \<noteq> 0"
proof -
  obtain i where i: "kmem_ready s i" using assms by (auto simp: kmem_pool_def)
  have p: "freelist s = p" "p \<noteq> 0" using assms by (auto simp: kmem_pool_def)
  let ?t = "(kquiet i s)\<lparr>freelist := load32 (mem s) p\<rparr>"
  have "kalloc s = Ok p ?t" using kalloc_eq [OF i] p by simp
  moreover have "kmem_pool ?t ps"
    using assms p kmem_ready_update(2) [OF i] by (auto simp: kmem_pool_def valid_page_def)
  ultimately show ?thesis using p by auto
qed

lemma kfree_pool:
  assumes "kmem_pool s ps" and "valid_page s p" and "p \<notin> set ps"
  shows "\<exists>t. kfree p s = Ok () t \<and> kmem_pool t (p # ps) \<and> (\<forall>x. \<not> in_page p x \<longrightarrow> mem t x = mem s x)"
proof -
  obtain i where i: "kmem_ready s i" using assms by (auto simp: kmem_pool_def)
  let ?t = "(kquiet i s)\<lparr>mem := freed_mem s p, freelist := p\<rparr>"
  have al: "page_aligned p" using assms(2) by (simp add: valid_page_def)
  have "load32 (freed_mem s p) x = load32 (mem s) x" if "x \<in> set ps" for x
  proof (rule load32_in_page)
    show "page_aligned x" using assms(1) that by (auto simp: kmem_pool_def valid_page_def)
    show "page_aligned p" by (rule al)
    show "x \<noteq> p" using assms(3) that by auto
  qed (simp add: freed_mem_outside al)
  then have "flist (freed_mem s p) (freelist s) ps"
    using assms(1) flist_cong [of ps "freed_mem s p" "mem s"] by (simp add: kmem_pool_def)
  then have "kmem_pool ?t (p # ps)"
    using assms valid_page_nonzero [OF assms(2)] kmem_ready_update(1) [OF i] freed_mem_next [of s p]
    by (auto simp: kmem_pool_def valid_page_def)
  then show ?thesis
    using kfree_eq [OF i assms(2)] freed_mem_outside [OF al] by auto
qed

text \<open>\<open>freerange\<close> pushes every whole page between its bounds, lowest address first.\<close>

definition page_run :: "addr \<Rightarrow> nat \<Rightarrow> addr list" where
  "page_run p n = map (\<lambda>k. p + of_nat (4096 * k)) [0..<n]"

lemma page_run_Suc: "page_run p (Suc n) = p # page_run (p + PGSIZE) n"
proof -
  have "page_run p (Suc n) = p # map (\<lambda>k. p + of_nat (4096 * Suc k)) [0..<n]"
    by (simp add: page_run_def upt_conv_Cons map_Suc_upt [symmetric] del: upt_Suc)
  also have "map (\<lambda>k. p + of_nat (4096 * Suc k)) [0..<n] = page_run (p + PGSIZE) n"
    by (simp add: page_run_def PGSIZE_def algebra_simps)
  finally show ?thesis .
qed

lemma freerange_from_pool:
  assumes "kmem_pool s ps" and "unat p + 4096 * n \<le> unat vend" and "unat vend < unat p + 4096 * Suc n"
    and "unat vend + 4096 < 2 ^ 32"
    and "\<forall>q \<in> set (page_run p n). valid_page s q" and "set (page_run p n) \<inter> set ps = {}"
    and "distinct (page_run p n)"
  shows "\<exists>t. freerange_from p vend s = Ok () t \<and> kmem_pool t (rev (page_run p n) @ ps) \<and>
    kend t = kend s \<and> use_lock t = use_lock s"
  using assms
proof (induction n arbitrary: s ps p)
  case 0
  have "unat (p + PGSIZE) = unat p + 4096"
    using "0.prems" by (subst unat_add_u32) (simp_all add: PGSIZE_def)
  then have "\<not> p + PGSIZE \<le> vend" using "0.prems" by (simp add: word_le_nat_alt)
  then show ?case using "0.prems" by (simp add: freerange_from.simps page_run_def)
next
  case (Suc n)
  have up: "unat (p + PGSIZE) = unat p + 4096"
    using Suc.prems(2,4) by (subst unat_add_u32) (simp_all add: PGSIZE_def)
  then have le: "p + PGSIZE \<le> vend" using Suc.prems(2) by (simp add: word_le_nat_alt)
  have vp: "valid_page s p" "p \<notin> set ps" "p \<notin> set (page_run (p + PGSIZE) n)"
    using Suc.prems(5,6,7) by (auto simp: page_run_Suc)
  obtain i where i: "kmem_ready s i" using Suc.prems(1) by (auto simp: kmem_pool_def)
  obtain t where t: "kfree p s = Ok () t" "kmem_pool t (p # ps)"
    using kfree_pool [OF Suc.prems(1) vp(1,2)] by blast
  have kt: "kend t = kend s" "use_lock t = use_lock s"
    using kfree_eq [OF i vp(1)] t(1) by (auto simp: kquiet_def)
  have "\<exists>u. freerange_from (p + PGSIZE) vend t = Ok () u \<and>
      kmem_pool u (rev (page_run (p + PGSIZE) n) @ p # ps) \<and> kend u = kend t \<and> use_lock u = use_lock t"
    by (rule Suc.IH [OF t(2)]) (use Suc.prems up vp kt in \<open>auto simp: page_run_Suc valid_page_def\<close>)
  then show ?case
    using le t(1) kt by (subst freerange_from.simps) (simp add: page_run_Suc)
qed

section \<open>The allocator's contract\<close>

text \<open>
  What the kernel relies on when it allocates pages: an allocation takes a page out of the pool or
  reports an empty pool with the null pointer, a free returns the page to the pool, and the pool
  holds each page once.
\<close>

locale page_pool =
  fixes alloc :: "'s \<Rightarrow> (addr, 's) res"
    and free :: "addr \<Rightarrow> 's \<Rightarrow> (unit, 's) res"
    and pool :: "'s \<Rightarrow> addr list \<Rightarrow> bool"
    and freeable :: "'s \<Rightarrow> addr \<Rightarrow> bool"
  assumes alloc_Nil: "pool s [] \<Longrightarrow> \<exists>t. alloc s = Ok 0 t \<and> pool t []"
    and alloc_Cons: "pool s (p # ps) \<Longrightarrow> \<exists>t. alloc s = Ok p t \<and> pool t ps"
    and free_pool: "pool s ps \<Longrightarrow> freeable s p \<Longrightarrow> p \<notin> set ps \<Longrightarrow> \<exists>t. free p s = Ok () t \<and> pool t (p # ps)"
    and pool_distinct: "pool s ps \<Longrightarrow> distinct ps"
    and pool_nonnull: "pool s ps \<Longrightarrow> 0 \<notin> set ps"
begin

fun alloc_n :: "nat \<Rightarrow> 's \<Rightarrow> (addr list, 's) res" where
  "alloc_n 0 s = Ok [] s"
| "alloc_n (Suc n) s = bindR (alloc s) (\<lambda>p s. bindR (alloc_n n s) (\<lambda>ps s. Ok (p # ps) s))"

lemma alloc_n_enough:
  "pool s ps \<Longrightarrow> n \<le> length ps \<Longrightarrow> \<exists>t. alloc_n n s = Ok (take n ps) t \<and> pool t (drop n ps)"
proof (induction n arbitrary: s ps)
  case 0
  then show ?case by simp
next
  case (Suc n)
  then obtain p qs where ps: "ps = p # qs" by (cases ps) auto
  with Suc.prems obtain t where "alloc s = Ok p t" "pool t qs" using alloc_Cons by blast
  moreover from this obtain u where "alloc_n n t = Ok (take n qs) u" "pool u (drop n qs)"
    using Suc.IH [of t qs] Suc.prems ps by auto
  ultimately show ?case by (simp add: ps)
qed

lemma alloc_n_fresh:
  assumes "pool s ps" and "n \<le> length ps"
  shows "\<exists>qs t. alloc_n n s = Ok qs t \<and> length qs = n \<and> distinct qs \<and> 0 \<notin> set qs \<and>
    (\<exists>rs. pool t rs \<and> set qs \<inter> set rs = {} \<and> set qs \<union> set rs = set ps)"
proof -
  obtain t where t: "alloc_n n s = Ok (take n ps) t" "pool t (drop n ps)"
    using alloc_n_enough [OF assms] by blast
  have d: "distinct ps" and z: "0 \<notin> set ps"
    using pool_distinct [OF assms(1)] pool_nonnull [OF assms(1)] .
  have len: "length (take n ps) = n" using assms(2) by simp
  have dis: "distinct (take n ps)" using d by (rule distinct_take)
  have nz: "0 \<notin> set (take n ps)" using z in_set_takeD by fast
  have sep: "set (take n ps) \<inter> set (drop n ps) = {}"
    using d by (rule set_take_disj_set_drop_if_distinct) simp
  have un: "set (take n ps) \<union> set (drop n ps) = set ps"
    by (simp flip: set_append)
  show ?thesis using t len dis nz sep un by blast
qed

lemma alloc_free_id:
  assumes "pool s (p # ps)" and "\<And>t. alloc s = Ok p t \<Longrightarrow> freeable t p"
  shows "\<exists>t u. alloc s = Ok p t \<and> free p t = Ok () u \<and> pool u (p # ps)"
proof -
  obtain t where t: "alloc s = Ok p t" "pool t ps" using alloc_Cons [OF assms(1)] by blast
  moreover have "p \<notin> set ps" using pool_distinct [OF assms(1)] by simp
  ultimately show ?thesis using free_pool [OF t(2) assms(2) [OF t(1)]] by blast
qed

end

interpretation kmem: page_pool kalloc kfree kmem_pool valid_page
proof unfold_locales
  fix s :: "'z kmem_state_scheme" and p ps
  show "kmem_pool s [] \<Longrightarrow> \<exists>t. kalloc s = Ok 0 t \<and> kmem_pool t []"
    using kalloc_pool_Nil by blast
  show "kmem_pool s (p # ps) \<Longrightarrow> \<exists>t. kalloc s = Ok p t \<and> kmem_pool t ps"
    using kalloc_pool_Cons by blast
  show "kmem_pool s ps \<Longrightarrow> valid_page s p \<Longrightarrow> p \<notin> set ps \<Longrightarrow> \<exists>t. kfree p s = Ok () t \<and> kmem_pool t (p # ps)"
    using kfree_pool by blast
  show "kmem_pool s ps \<Longrightarrow> distinct ps" by (simp add: kmem_pool_def)
  show "kmem_pool s ps \<Longrightarrow> 0 \<notin> set ps"
    using valid_page_nonzero by (auto simp: kmem_pool_def)
qed

section \<open>Pages in use\<close>

text \<open>
  The pages handed out and not yet returned, over any run of allocations, frees and writes to
  pages in use, starting from the pool \<open>P\<close>.
\<close>

inductive kmem_use :: "addr set \<Rightarrow> 'z kmem_state_scheme \<Rightarrow> addr set \<Rightarrow> bool" for P where
  start: "kmem_pool s ps \<Longrightarrow> set ps = P \<Longrightarrow> kmem_use P s {}"
| alloc: "kmem_use P s U \<Longrightarrow> kalloc s = Ok p t \<Longrightarrow> kmem_use P t (if p = 0 then U else insert p U)"
| free: "kmem_use P s U \<Longrightarrow> p \<in> U \<Longrightarrow> kfree p s = Ok () t \<Longrightarrow> kmem_use P t (U - {p})"
| store: "kmem_use P s U \<Longrightarrow> (\<forall>x. m x \<noteq> mem s x \<longrightarrow> (\<exists>p\<in>U. in_page p x)) \<Longrightarrow> kmem_use P (s\<lparr>mem := m\<rparr>) U"

definition use_inv :: "addr set \<Rightarrow> 'z kmem_state_scheme \<Rightarrow> addr set \<Rightarrow> addr list \<Rightarrow> bool" where
  "use_inv P s U ps \<longleftrightarrow> kmem_pool s ps \<and> set ps \<inter> U = {} \<and> set ps \<union> U = P \<and> (\<forall>p\<in>U. valid_page s p)"

lemma kalloc_kend: "kmem_pool s ps \<Longrightarrow> kalloc s = Ok p t \<Longrightarrow> kend t = kend s"
  by (auto simp: kmem_pool_def kalloc_eq)

lemma kfree_kend: "kmem_pool s ps \<Longrightarrow> valid_page s p \<Longrightarrow> kfree p s = Ok x t \<Longrightarrow> kend t = kend s"
  by (auto simp: kmem_pool_def kfree_eq)

lemma use_inv_alloc:
  assumes inv: "use_inv P s U ps" and a: "kalloc s = Ok p t"
  shows "use_inv P t (if p = 0 then U else insert p U) (tl ps) \<and> p \<notin> U \<and> (p = 0 \<longleftrightarrow> U = P)"
proof -
  have pool: "kmem_pool s ps" and nz: "0 \<notin> U" "0 \<notin> set ps"
    using inv valid_page_nonzero [of s 0] kmem.pool_nonnull [of s ps] by (auto simp: use_inv_def)
  have ke: "kend t = kend s" by (rule kalloc_kend [OF pool a])
  show ?thesis
  proof (cases ps)
    case Nil
    then have "p = 0" "kmem_pool t []" using kmem.alloc_Nil [of s] pool a by auto
    then show ?thesis
      using inv Nil nz ke by (auto simp: use_inv_def valid_page_def)
  next
    case (Cons q qs)
    then have p: "p = q" "kmem_pool t qs" using kmem.alloc_Cons [of s q qs] pool a by auto
    then have "p \<noteq> 0" "p \<notin> set qs" "valid_page s p"
      using Cons nz pool kmem.pool_distinct [OF pool] by (auto simp: kmem_pool_def)
    then show ?thesis
      using inv Cons p ke by (auto simp: use_inv_def valid_page_def)
  qed
qed

lemma use_inv_free:
  assumes inv: "use_inv P s U ps" and p: "p \<in> U" and f: "kfree p s = Ok () t"
  shows "use_inv P t (U - {p}) (p # ps)"
proof -
  have pool: "kmem_pool s ps" and v: "valid_page s p" "p \<notin> set ps" using inv p by (auto simp: use_inv_def)
  then have "kmem_pool t (p # ps)" using kfree_pool [of s ps p] f by auto
  then show ?thesis using inv p kfree_kend [OF pool v(1) f] by (auto simp: use_inv_def valid_page_def)
qed

lemma use_inv_store:
  assumes inv: "use_inv P s U ps" and w: "\<forall>x. m x \<noteq> mem s x \<longrightarrow> (\<exists>p\<in>U. in_page p x)"
  shows "use_inv P (s\<lparr>mem := m\<rparr>) U ps"
proof -
  have al: "page_aligned q" if "q \<in> set ps \<union> U" for q
    using inv that by (auto simp: use_inv_def kmem_pool_def valid_page_def)
  have "load32 m q = load32 (mem s) q" if q: "q \<in> set ps" for q
  proof -
    have "m (q + of_nat k) = mem s (q + of_nat k)" if k: "k < 4" for k
    proof (rule ccontr)
      assume "m (q + of_nat k) \<noteq> mem s (q + of_nat k)"
      then obtain p where p: "p \<in> U" "in_page p (q + of_nat k)" using w by blast
      moreover have "q \<noteq> p" using inv p q by (auto simp: use_inv_def)
      ultimately show False using pages_disjoint [of q p k] al q k by auto
    qed
    from this [of 0] this [of 1] this [of 2] this [of 3] show ?thesis by (simp add: load32_def)
  qed
  then have "flist m (freelist s) ps" using inv flist_cong [of ps m "mem s"] by (simp add: use_inv_def kmem_pool_def)
  moreover have "kmem_ready (s\<lparr>mem := m\<rparr>) i = kmem_ready s i" for i
    using int_ok_cong [of "s\<lparr>mem := m\<rparr>" s i] by (simp add: kmem_ready_def lock_free_def)
  ultimately show ?thesis using inv by (simp add: use_inv_def kmem_pool_def valid_page_def)
qed

text \<open>
  C21. No page is ever lost or handed out twice.  After any run of \<open>kalloc\<close>, \<open>kfree\<close> and writes to pages
  in use, the free list and the pages in use partition the initial pool, every page in use can be
  freed without a panic, and the next \<open>kalloc\<close> returns a page that is not in use, or null exactly when all
  pages are in use.
\<close>

theorem kmem_no_double_use:
  assumes "kmem_use P s U"
  shows "(\<exists>ps. kmem_pool s ps \<and> set ps \<inter> U = {} \<and> set ps \<union> U = P) \<and>
    (\<forall>p\<in>U. is_ok (kfree p s)) \<and> (\<exists>p t. kalloc s = Ok p t \<and> p \<notin> U \<and> (p = 0 \<longleftrightarrow> U = P))"
proof -
  have "\<exists>ps. use_inv P s U ps"
    using assms
  proof (induction rule: kmem_use.induct)
    case (start s ps)
    then show ?case by (auto simp: use_inv_def)
  next
    case (alloc s U p t)
    then show ?case using use_inv_alloc by blast
  next
    case (free s U p t)
    then show ?case using use_inv_free by blast
  next
    case (store s U m)
    then show ?case using use_inv_store by blast
  qed
  then obtain ps where inv: "use_inv P s U ps" by blast
  have "is_ok (kfree p s)" if "p \<in> U" for p
  proof -
    have "kmem_pool s ps" "valid_page s p" "p \<notin> set ps" using inv that by (auto simp: use_inv_def)
    then show ?thesis using kfree_pool [of s ps p] by auto
  qed
  moreover obtain p t where "kalloc s = Ok p t"
    using inv by (auto simp: use_inv_def kmem_pool_def kalloc_eq)
  ultimately show ?thesis using use_inv_alloc [OF inv] inv by (auto simp: use_inv_def)
qed

definition demo_kmem :: kmem_state where
  "demo_kmem = \<lparr>lapic_id = 0, eflags_IF = (\<lambda>_. True), cr3 = (\<lambda>_. 0), tr = (\<lambda>_. 0), cpus = [], ncpu = 0,
     locks = (\<lambda>_. \<lparr>lk_locked = False, lk_name = [], lk_cpu = None\<rparr>), mem = (\<lambda>_. 0),
     use_lock = False, freelist = 0x80400000, kend = 0x80100000\<rparr>"

lemma demo_kmem_pool: "kmem_pool demo_kmem [0x80400000]"
  by (simp add: kmem_pool_def kmem_ready_def demo_kmem_def valid_page_def page_aligned_def load32_def V2P_def
      KERNBASE_def PHYSTOP_def)

theorem kmem_no_double_use_witness:
  "\<exists>t u. kalloc demo_kmem = Ok 0x80400000 t \<and> kalloc t = Ok 0 u"
proof -
  obtain t where t: "kalloc demo_kmem = Ok 0x80400000 t" using kmem.alloc_Cons [OF demo_kmem_pool] by blast
  have "kmem_use {0x80400000} demo_kmem {}" by (rule kmem_use.start [OF demo_kmem_pool]) simp
  from kmem_use.alloc [OF this t] have "kmem_use {0x80400000} t {0x80400000}" by simp
  from kmem_no_double_use [OF this] t show ?thesis by auto
qed

end
