(* ===== verification/ProcTable.thy ===== *)
theory ProcTable
  imports Kalloc
begin

text \<open>
  The process table of \<^verbatim>\<open>proc.c\<close> and the operations that need only it: slot allocation, the
  per-CPU scheduler, \<open>sched\<close>, \<open>yield\<close>, \<open>sleep\<close>, \<open>wakeup\<close>, \<open>kill\<close>, and the niceness
  system calls this repository adds (\<open>setnice\<close>, \<open>getnice\<close>).  Pointers into the table are
  indices, a null pointer is \<open>None\<close>.  A context switch away from a process is the outcome
  \<open>Swtch\<close>; what the code does after it is the definition with suffix \<open>_resume\<close>.  Trap
  frames and saved contexts live on kernel stacks and are kept as typed heaps indexed by their
  address.
\<close>

section \<open>State\<close>

datatype procstate = UNUSED | EMBRYO | SLEEPING | RUNNABLE | RUNNING | ZOMBIE

record cfsstate =
  nice :: int
  timeslice :: int
  runtime :: u32
  vruntime :: u32

text \<open>Sleep channels: addresses of kernel objects, so distinct objects are distinct channels.\<close>

datatype chan = Ch_proc nat | Ch_ticks | Ch_buf nat | Ch_log | Ch_pipe_nread addr
  | Ch_pipe_nwrite addr | Ch_input | Ch_sleeplock lockid

record trapframe =
  tf_edi :: u32
  tf_esi :: u32
  tf_ebp :: u32
  tf_oesp :: u32
  tf_ebx :: u32
  tf_edx :: u32
  tf_ecx :: u32
  tf_eax :: u32
  tf_gs :: u16
  tf_fs :: u16
  tf_es :: u16
  tf_ds :: u16
  tf_trapno :: u32
  tf_err :: u32
  tf_eip :: u32
  tf_cs :: u16
  tf_eflags :: u32
  tf_esp :: u32
  tf_ss :: u16

record kcontext =
  cx_edi :: u32
  cx_esi :: u32
  cx_ebx :: u32
  cx_ebp :: u32
  cx_eip :: u32

record proc =
  p_sz :: u32
  p_pgdir :: addr
  p_kstack :: addr
  p_state :: procstate
  p_pid :: int
  p_schedstate :: cfsstate
  p_parent :: "nat option"
  p_tf :: addr
  p_context :: addr
  p_chan :: "chan option"
  p_killed :: int
  p_ofile :: "nat option list"
  p_cwd :: "nat option"
  p_name :: "byte list"

record pstate = kmem_state +
  ptable :: "proc list"
  initproc :: "nat option"
  nextpid :: int
  tframes :: "addr \<Rightarrow> trapframe"
  contexts :: "addr \<Rightarrow> kcontext"
  saved_intena :: "nat \<Rightarrow> bool"
  kpgdir :: addr
  trapret_addr :: addr
  forkret_addr :: addr

definition NPROC :: nat where "NPROC = 64"
definition NOFILE :: nat where "NOFILE = 16"

definition sizeof_trapframe :: u32 where "sizeof_trapframe = 76"
definition sizeof_context :: u32 where "sizeof_context = 20"
definition sizeof_taskstate :: u32 where "sizeof_taskstate = 104"

definition upd_proc :: "nat \<Rightarrow> (proc \<Rightarrow> proc) \<Rightarrow> 'z pstate_scheme \<Rightarrow> 'z pstate_scheme" where
  "upd_proc p f s = s\<lparr>ptable := upd_nth p f (ptable s)\<rparr>"

abbreviation proc_at :: "'z pstate_scheme \<Rightarrow> nat \<Rightarrow> proc" where
  "proc_at s p \<equiv> ptable s ! p"

section \<open>Current process and slot allocation\<close>

definition pinit :: "'z pstate_scheme \<Rightarrow> 'z pstate_scheme" where
  "pinit s = initlock L_ptable ''ptable'' s"

definition myproc :: "'z pstate_scheme \<Rightarrow> (nat option, 'z pstate_scheme) res" where
  "myproc s =
     bindR (pushcli s) (\<lambda>_ s.
     bindR (mycpu s) (\<lambda>c s.
       let p = c_proc (cpus s ! c) in
     bindR (popcli s) (\<lambda>_ s. Ok p s)))"

definition zero_context :: kcontext where
  "zero_context = \<lparr>cx_edi = 0, cx_esi = 0, cx_ebx = 0, cx_ebp = 0, cx_eip = 0\<rparr>"

definition allocproc_stack :: "nat \<Rightarrow> addr \<Rightarrow> 'z pstate_scheme \<Rightarrow> 'z pstate_scheme" where
  "allocproc_stack p k s =
     (let sp = k + KSTACKSIZE;
          sp = sp - sizeof_trapframe;
          s = upd_proc p (\<lambda>q. q\<lparr>p_tf := sp\<rparr>) s;
          sp = sp - 4;
          s = s\<lparr>mem := store32 (mem s) sp (trapret_addr s)\<rparr>;
          sp = sp - sizeof_context;
          s = upd_proc p (\<lambda>q. q\<lparr>p_context := sp\<rparr>) s
      in s\<lparr>contexts := (contexts s)(sp := zero_context\<lparr>cx_eip := forkret_addr s\<rparr>)\<rparr>)"

definition allocproc :: "'z pstate_scheme \<Rightarrow> (nat option, 'z pstate_scheme) res" where
  "allocproc s =
     bindR (acquire L_ptable s) (\<lambda>_ s.
       case first_idx (\<lambda>q. p_state q = UNUSED) (ptable s) of
         None \<Rightarrow> bindR (release L_ptable s) (\<lambda>_ s. Ok None s)
       | Some p \<Rightarrow>
           let s = upd_proc p (\<lambda>q. q\<lparr>p_state := EMBRYO, p_pid := nextpid s\<rparr>) s;
               s = s\<lparr>nextpid := s32 (nextpid s + 1)\<rparr> in
           bindR (release L_ptable s) (\<lambda>_ s.
           bindR (kalloc s) (\<lambda>k s.
             let s = upd_proc p (\<lambda>q. q\<lparr>p_kstack := k\<rparr>) s in
             if k = 0 then Ok None (upd_proc p (\<lambda>q. q\<lparr>p_state := UNUSED\<rparr>) s)
             else Ok (Some p) (allocproc_stack p k s))))"

section \<open>Address-space switches\<close>

definition switchkvm :: "'z pstate_scheme \<Rightarrow> 'z pstate_scheme" where
  "switchkvm s = s\<lparr>cr3 := (cr3 s)(lapic_id s := V2P (kpgdir s))\<rparr>"

definition tss_of :: "addr \<Rightarrow> cpu \<Rightarrow> cpu" where
  "tss_of kstack c = c\<lparr>
     gdt := (gdt c)[SEG_TSS := (SEG16 STS_T32A (ts_addr c) (sizeof_taskstate - 1) 0)\<lparr>seg_s := False\<rparr>],
     ts_esp0 := kstack + KSTACKSIZE, ts_ss0 := of_nat (8 * SEG_KDATA), ts_iomb := 0xFFFF\<rparr>"

definition switchuvm :: "nat option \<Rightarrow> 'z pstate_scheme \<Rightarrow> (unit, 'z pstate_scheme) res" where
  "switchuvm po s =
     (case po of None \<Rightarrow> Panic ''switchuvm: no process''
      | Some p \<Rightarrow>
        if p_kstack (proc_at s p) = 0 then Panic ''switchuvm: no kstack''
        else if p_pgdir (proc_at s p) = 0 then Panic ''switchuvm: no pgdir''
        else bindR (pushcli s) (\<lambda>_ s.
          bindR (mycpu s) (\<lambda>c s.
            let s = upd_cpu c (tss_of (p_kstack (proc_at s p))) s;
                s = s\<lparr>tr := (tr s)(lapic_id s := of_nat (8 * SEG_TSS))\<rparr>;
                s = s\<lparr>cr3 := (cr3 s)(lapic_id s := V2P (p_pgdir (proc_at s p)))\<rparr> in
          popcli s)))"

section \<open>Scheduling\<close>

text \<open>
  \<open>sched\<close> checks its preconditions, saves \<^verbatim>\<open>intena\<close> in a local of the process's kernel stack
  (\<open>saved_intena\<close>) and switches to the CPU's scheduler; \<open>sched_resume\<close> is its last line, run
  when the process is switched to again.
\<close>

definition sched :: "'z pstate_scheme \<Rightarrow> (unit, 'z pstate_scheme) res" where
  "sched s =
     bindR (myproc s) (\<lambda>po s.
     bindR (holding L_ptable s) (\<lambda>h s.
       if \<not> h then Panic ''sched ptable.lock'' else
     bindR (mycpu s) (\<lambda>c s.
       if ncli (cpus s ! c) \<noteq> 1 then Panic ''sched locks'' else
       case po of None \<Rightarrow> Panic ''sched: null process''
       | Some p \<Rightarrow>
         if p_state (proc_at s p) = RUNNING then Panic ''sched running''
         else if readeflags_IF s then Panic ''sched interruptible''
         else Swtch (s\<lparr>saved_intena := (saved_intena s)(p := intena (cpus s ! c))\<rparr>))))"

definition sched_resume :: "nat \<Rightarrow> 'z pstate_scheme \<Rightarrow> (unit, 'z pstate_scheme) res" where
  "sched_resume p s =
     bindR (mycpu s) (\<lambda>c s. Ok () (upd_cpu c (\<lambda>k. k\<lparr>intena := saved_intena s p\<rparr>) s))"

definition yield :: "'z pstate_scheme \<Rightarrow> (unit, 'z pstate_scheme) res" where
  "yield s =
     bindR (acquire L_ptable s) (\<lambda>_ s.
     bindR (myproc s) (\<lambda>po s.
       case po of None \<Rightarrow> Panic ''yield: null process''
       | Some p \<Rightarrow> sched (upd_proc p (\<lambda>q. q\<lparr>p_state := RUNNABLE\<rparr>) s)))"

definition yield_resume :: "nat \<Rightarrow> 'z pstate_scheme \<Rightarrow> (unit, 'z pstate_scheme) res" where
  "yield_resume p s = bindR (sched_resume p s) (\<lambda>_ s. release L_ptable s)"

definition sleep :: "chan \<Rightarrow> lockid \<Rightarrow> 'z pstate_scheme \<Rightarrow> (unit, 'z pstate_scheme) res" where
  "sleep ch lk s =
     bindR (myproc s) (\<lambda>po s.
       case po of None \<Rightarrow> Panic ''sleep''
       | Some p \<Rightarrow>
         bindR (if lk \<noteq> L_ptable then bindR (acquire L_ptable s) (\<lambda>_ s. release lk s) else Ok () s)
           (\<lambda>_ s.
             let s = upd_proc p (\<lambda>q. q\<lparr>p_chan := Some ch\<rparr>) s;
                 s = upd_proc p (\<lambda>q. q\<lparr>p_state := SLEEPING\<rparr>) s in
             sched s))"

definition sleep_resume :: "nat \<Rightarrow> lockid \<Rightarrow> 'z pstate_scheme \<Rightarrow> (unit, 'z pstate_scheme) res" where
  "sleep_resume p lk s =
     bindR (sched_resume p s) (\<lambda>_ s.
       let s = upd_proc p (\<lambda>q. q\<lparr>p_chan := None\<rparr>) s in
       if lk \<noteq> L_ptable then bindR (release L_ptable s) (\<lambda>_ s. acquire lk s) else Ok () s)"

text \<open>
  One pass of the scheduler's inner loop from slot \<open>k\<close>: the slot it switches to, or \<open>None\<close>
  when the pass is over and the lock released.  \<open>scheduler_back\<close> is what the loop body does when
  the process has switched back.
\<close>

definition scheduler_start :: "'z pstate_scheme \<Rightarrow> (nat, 'z pstate_scheme) res" where
  "scheduler_start s =
     bindR (mycpu s) (\<lambda>c s. Ok c (upd_cpu c (\<lambda>k. k\<lparr>c_proc := None\<rparr>) s))"

definition scheduler_enter :: "'z pstate_scheme \<Rightarrow> (unit, 'z pstate_scheme) res" where
  "scheduler_enter s = acquire L_ptable (sti s)"

function scheduler_scan :: "nat \<Rightarrow> nat \<Rightarrow> 'z pstate_scheme \<Rightarrow> (nat option, 'z pstate_scheme) res" where
  "scheduler_scan c k s =
     (if k \<ge> NPROC then bindR (release L_ptable s) (\<lambda>_ s. Ok None s)
      else if p_state (proc_at s k) \<noteq> RUNNABLE then scheduler_scan c (Suc k) s
      else let s = upd_cpu c (\<lambda>d. d\<lparr>c_proc := Some k\<rparr>) s in
        bindR (switchuvm (Some k) s) (\<lambda>_ s.
          Ok (Some k) (upd_proc k (\<lambda>q. q\<lparr>p_state := RUNNING\<rparr>) s)))"
  by pat_completeness auto
termination
  by (relation "measure (\<lambda>(c, k, s). NPROC - k)") auto

declare scheduler_scan.simps [simp del]

definition scheduler_back :: "nat \<Rightarrow> 'z pstate_scheme \<Rightarrow> 'z pstate_scheme" where
  "scheduler_back c s = upd_cpu c (\<lambda>d. d\<lparr>c_proc := None\<rparr>) (switchkvm s)"

section \<open>Wakeup and kill\<close>

definition wakeup1 :: "chan option \<Rightarrow> 'z pstate_scheme \<Rightarrow> 'z pstate_scheme" where
  "wakeup1 ch s = s\<lparr>ptable :=
     map (\<lambda>q. if p_state q = SLEEPING \<and> p_chan q = ch then q\<lparr>p_state := RUNNABLE\<rparr> else q) (ptable s)\<rparr>"

definition wakeup :: "chan \<Rightarrow> 'z pstate_scheme \<Rightarrow> (unit, 'z pstate_scheme) res" where
  "wakeup ch s =
     bindR (acquire L_ptable s) (\<lambda>_ s. release L_ptable (wakeup1 (Some ch) s))"

definition kill :: "int \<Rightarrow> 'z pstate_scheme \<Rightarrow> (int, 'z pstate_scheme) res" where
  "kill pid s =
     bindR (acquire L_ptable s) (\<lambda>_ s.
       case first_idx (\<lambda>q. p_pid q = pid) (ptable s) of
         Some p \<Rightarrow>
           let s = upd_proc p (\<lambda>q. q\<lparr>p_killed := 1\<rparr>) s;
               s = (if p_state (proc_at s p) = SLEEPING
                    then upd_proc p (\<lambda>q. q\<lparr>p_state := RUNNABLE\<rparr>) s else s) in
           bindR (release L_ptable s) (\<lambda>_ s. Ok 0 s)
       | None \<Rightarrow> bindR (release L_ptable s) (\<lambda>_ s. Ok (- 1) s))"

section \<open>Niceness\<close>

definition setnice :: "int \<Rightarrow> int \<Rightarrow> 'z pstate_scheme \<Rightarrow> (int, 'z pstate_scheme) res" where
  "setnice pid n s =
     (if n < 0 \<or> n > 39 then Ok (- 1) s
      else bindR (acquire L_ptable s) (\<lambda>_ s.
        case first_idx (\<lambda>q. pid = p_pid q \<and> pid \<noteq> 0) (ptable s) of
          Some p \<Rightarrow>
            let s = upd_proc p (\<lambda>q. q\<lparr>p_schedstate := (p_schedstate q)\<lparr>nice := n\<rparr>\<rparr>) s in
            bindR (release L_ptable s) (\<lambda>_ s. Ok 0 s)
        | None \<Rightarrow> bindR (release L_ptable s) (\<lambda>_ s. Ok (- 1) s)))"

definition getnice :: "int \<Rightarrow> 'z pstate_scheme \<Rightarrow> (int, 'z pstate_scheme) res" where
  "getnice pid s =
     bindR (acquire L_ptable s) (\<lambda>_ s.
       case first_idx (\<lambda>q. pid = p_pid q \<and> pid \<noteq> 0) (ptable s) of
         Some p \<Rightarrow>
           let n = nice (p_schedstate (proc_at s p)) in
           bindR (release L_ptable s) (\<lambda>_ s. Ok n s)
       | None \<Rightarrow> bindR (release L_ptable s) (\<lambda>_ s. Ok (- 1) s))"

section \<open>Locked sections of the process table\<close>

definition pt_ready :: "'z pstate_scheme \<Rightarrow> nat \<Rightarrow> bool" where
  "pt_ready s i \<longleftrightarrow> int_ok s i \<and> lock_free s L_ptable"

lemma acquired_pstate [simp]:
  "ptable (acquired l i s) = ptable s" "initproc (acquired l i s) = initproc s"
  "nextpid (acquired l i s) = nextpid s" "tframes (acquired l i s) = tframes s"
  "contexts (acquired l i s) = contexts s" "saved_intena (acquired l i s) = saved_intena s"
  "kpgdir (acquired l i s) = kpgdir s" "trapret_addr (acquired l i s) = trapret_addr s"
  "forkret_addr (acquired l i s) = forkret_addr s"
  by (simp_all add: acquired_def pushed_def)

lemma pushpop_pstate [simp]:
  "ptable (pushpop i s) = ptable s" "initproc (pushpop i s) = initproc s"
  "nextpid (pushpop i s) = nextpid s" "tframes (pushpop i s) = tframes s"
  "contexts (pushpop i s) = contexts s" "saved_intena (pushpop i s) = saved_intena s"
  "kpgdir (pushpop i s) = kpgdir s" "trapret_addr (pushpop i s) = trapret_addr s"
  "forkret_addr (pushpop i s) = forkret_addr s"
  by (simp_all add: pushpop_def)

lemma acquire_ptable: "pt_ready s i \<Longrightarrow> acquire L_ptable s = Ok () (acquired L_ptable i s)"
  by (simp add: pt_ready_def acquire_lock_free)

lemma release_ptable:
  assumes "pt_ready s i"
  shows "release L_ptable ((acquired L_ptable i s)\<lparr>ptable := f\<rparr>) = Ok () ((pushpop i s)\<lparr>ptable := f\<rparr>)"
    and "release L_ptable (acquired L_ptable i s) = Ok () (pushpop i s)"
    and "release L_ptable ((acquired L_ptable i s)\<lparr>ptable := f, nextpid := n\<rparr>) =
      Ok () ((pushpop i s)\<lparr>ptable := f, nextpid := n\<rparr>)"
proof -
  have r: "release L_ptable t = Ok () (t\<lparr>locks := locks s, cpus := cpus (pushpop i s), eflags_IF := eflags_IF s\<rparr>)"
    if "lapic_id t = lapic_id s" "ncpu t = ncpu s" "cpus t = cpus (acquired L_ptable i s)"
      "eflags_IF t = eflags_IF (acquired L_ptable i s)" "locks t = locks (acquired L_ptable i s)"
    for t :: "'z pstate_scheme"
    using assms that by (intro release_section) (simp_all add: pt_ready_def)
  show "release L_ptable ((acquired L_ptable i s)\<lparr>ptable := f\<rparr>) = Ok () ((pushpop i s)\<lparr>ptable := f\<rparr>)"
    by (subst r) (simp_all add: acquired_def pushed_def pushpop_def)
  show "release L_ptable (acquired L_ptable i s) = Ok () (pushpop i s)"
    by (subst r) (simp_all add: acquired_def pushed_def pushpop_def)
  show "release L_ptable ((acquired L_ptable i s)\<lparr>ptable := f, nextpid := n\<rparr>) =
      Ok () ((pushpop i s)\<lparr>ptable := f, nextpid := n\<rparr>)"
    by (subst r) (simp_all add: acquired_def pushed_def pushpop_def)
qed

lemmas ptable_section = acquire_ptable release_ptable

text \<open>The table after each operation, as a function of the table before it.\<close>

definition setnice_at :: "nat \<Rightarrow> int \<Rightarrow> proc list \<Rightarrow> proc list" where
  "setnice_at p n = upd_nth p (\<lambda>q. q\<lparr>p_schedstate := (p_schedstate q)\<lparr>nice := n\<rparr>\<rparr>)"

lemma setnice_eq:
  assumes "pt_ready s i"
  shows "setnice pid n s =
    (if n < 0 \<or> n > 39 then Ok (- 1) s
     else case first_idx (\<lambda>q. pid = p_pid q \<and> pid \<noteq> 0) (ptable s) of
       Some p \<Rightarrow> Ok 0 ((pushpop i s)\<lparr>ptable := setnice_at p n (ptable s)\<rparr>)
     | None \<Rightarrow> Ok (- 1) (pushpop i s))"
  by (auto simp: setnice_def ptable_section [OF assms] upd_proc_def setnice_at_def
      split: option.splits)

lemma getnice_eq:
  assumes "pt_ready s i"
  shows "getnice pid s =
    (case first_idx (\<lambda>q. pid = p_pid q \<and> pid \<noteq> 0) (ptable s) of
       Some p \<Rightarrow> Ok (nice (p_schedstate (proc_at s p))) (pushpop i s)
     | None \<Rightarrow> Ok (- 1) (pushpop i s))"
  by (auto simp: getnice_def ptable_section [OF assms] split: option.splits)

definition kill_at :: "nat \<Rightarrow> proc list \<Rightarrow> proc list" where
  "kill_at p = upd_nth p (\<lambda>q. q\<lparr>p_killed := 1, p_state :=
     (if p_state q = SLEEPING then RUNNABLE else p_state q)\<rparr>)"

lemma kill_eq:
  assumes "pt_ready s i"
  shows "kill pid s =
    (case first_idx (\<lambda>q. p_pid q = pid) (ptable s) of
       Some p \<Rightarrow> Ok 0 ((pushpop i s)\<lparr>ptable := kill_at p (ptable s)\<rparr>)
     | None \<Rightarrow> Ok (- 1) (pushpop i s))"
proof (cases "first_idx (\<lambda>q. p_pid q = pid) (ptable s)")
  case None
  then show ?thesis by (simp add: kill_def ptable_section [OF assms])
next
  case (Some p)
  then have "p < length (ptable s)" by (simp add: first_idx_Some)
  then show ?thesis
    using Some by (cases "p_state (proc_at s p) = SLEEPING")
      (simp_all add: kill_def ptable_section [OF assms] upd_proc_def kill_at_def upd_nth_def)
qed

definition wake_tab :: "chan option \<Rightarrow> proc list \<Rightarrow> proc list" where
  "wake_tab ch =
     map (\<lambda>q. if p_state q = SLEEPING \<and> p_chan q = ch then q\<lparr>p_state := RUNNABLE\<rparr> else q)"

lemma wakeup1_eq: "wakeup1 ch s = s\<lparr>ptable := wake_tab ch (ptable s)\<rparr>"
  by (simp add: wakeup1_def wake_tab_def)

lemma wakeup_eq:
  "pt_ready s i \<Longrightarrow> wakeup ch s = Ok () ((pushpop i s)\<lparr>ptable := wake_tab (Some ch) (ptable s)\<rparr>)"
  by (simp add: wakeup_def ptable_section wakeup1_eq)

lemma myproc_ok: "int_ok s i \<Longrightarrow> myproc s = Ok (c_proc (cpus s ! i)) (pushpop i s)"
proof -
  assume a: "int_ok s i"
  have m: "mycpu (pushed i s) = Ok i (pushed i s)"
    using int_lvl_pushed [OF int_ok_levels(1) [OF a]] by (intro mycpu_ok) (auto simp: int_lvl_def)
  have "i < length (cpus s)" using a by (auto simp: int_ok_def dest: on_cpu_bound)
  then show ?thesis
    by (simp add: myproc_def pushcli_ok [OF a] m popcli_pushed [OF a]) (simp add: pushed_def)
qed

lemma pt_ready_pushpop:
  assumes "pt_ready s i"
  shows "pt_ready (pushpop i s) i" and "pt_ready ((pushpop i s)\<lparr>ptable := f\<rparr>) i"
    and "pt_ready ((pushpop i s)\<lparr>ptable := f, nextpid := n\<rparr>) i"
  using assms int_ok_pushpop [of s i] int_ok_cong [of "(pushpop i s)\<lparr>ptable := f\<rparr>" "pushpop i s" i]
    int_ok_cong [of "(pushpop i s)\<lparr>ptable := f, nextpid := n\<rparr>" "pushpop i s" i]
  by (simp_all add: pt_ready_def lock_free_def)

section \<open>Table invariant\<close>

text \<open>
  What every operation keeps of the table: its size, process ids below \<^verbatim>\<open>nextpid\<close> and distinct
  unless zero, a nonzero id in every slot in use, and niceness in the range that \<open>setnice\<close>
  accepts.
\<close>

definition pids_ok :: "int \<Rightarrow> proc list \<Rightarrow> bool" where
  "pids_ok n ps \<longleftrightarrow> 1 \<le> n \<and>
     (\<forall>i < length ps. 0 \<le> p_pid (ps ! i) \<and> p_pid (ps ! i) < n) \<and>
     (\<forall>i < length ps. p_state (ps ! i) \<noteq> UNUSED \<longrightarrow> p_pid (ps ! i) \<noteq> 0) \<and>
     (\<forall>i < length ps. \<forall>j < length ps. p_pid (ps ! i) = p_pid (ps ! j) \<longrightarrow> p_pid (ps ! i) \<noteq> 0 \<longrightarrow> i = j)"

definition nice_ok :: "proc list \<Rightarrow> bool" where
  "nice_ok ps \<longleftrightarrow> (\<forall>i < length ps. 0 \<le> nice (p_schedstate (ps ! i)) \<and> nice (p_schedstate (ps ! i)) \<le> 39)"

definition ptable_inv :: "'z pstate_scheme \<Rightarrow> bool" where
  "ptable_inv s \<longleftrightarrow> length (ptable s) = NPROC \<and> pids_ok (nextpid s) (ptable s) \<and> nice_ok (ptable s)"

lemma pids_ok_same:
  assumes "pids_ok n ps" and "length qs = length ps"
    and "\<And>i. i < length ps \<Longrightarrow> p_pid (qs ! i) = p_pid (ps ! i)"
    and "\<And>i. i < length ps \<Longrightarrow> p_state (ps ! i) = UNUSED \<Longrightarrow> p_state (qs ! i) = UNUSED"
  shows "pids_ok n qs"
  using assms unfolding pids_ok_def by metis

lemma pids_ok_fresh:
  assumes "pids_ok n ps" and "i < length ps" and "p_pid (f (ps ! i)) = n"
  shows "pids_ok (n + 1) (upd_nth i f ps)"
  using assms unfolding pids_ok_def by (auto simp: nth_upd_nth)

lemma pids_ok_clear:
  assumes "pids_ok n ps" and "p_pid (f (ps ! i)) = 0" and "p_state (f (ps ! i)) = UNUSED"
  shows "pids_ok n (upd_nth i f ps)"
proof (cases "i < length ps")
  case True
  show ?thesis
    unfolding pids_ok_def
  proof (intro conjI allI impI)
    show "1 \<le> n" using assms(1) by (simp add: pids_ok_def)
  next
    fix k assume "k < length (upd_nth i f ps)"
    then show "0 \<le> p_pid (upd_nth i f ps ! k)" and "p_pid (upd_nth i f ps ! k) < n"
      using assms by (auto simp: pids_ok_def nth_upd_nth)
  next
    fix k assume "k < length (upd_nth i f ps)" "p_state (upd_nth i f ps ! k) \<noteq> UNUSED"
    then show "p_pid (upd_nth i f ps ! k) \<noteq> 0"
      using assms by (auto simp: pids_ok_def nth_upd_nth split: if_splits)
  next
    fix j k assume "j < length (upd_nth i f ps)" "k < length (upd_nth i f ps)"
      "p_pid (upd_nth i f ps ! j) = p_pid (upd_nth i f ps ! k)" "p_pid (upd_nth i f ps ! j) \<noteq> 0"
    then show "j = k"
      using assms by (auto simp: pids_ok_def nth_upd_nth split: if_splits)
  qed
next
  case False
  then show ?thesis using assms(1) by (simp add: upd_nth_def list_update_beyond)
qed

lemma nice_ok_same:
  assumes "nice_ok ps" and "length qs = length ps"
    and "\<And>i. i < length ps \<Longrightarrow> nice (p_schedstate (qs ! i)) = nice (p_schedstate (ps ! i))"
  shows "nice_ok qs"
  using assms by (simp add: nice_ok_def)

lemma ptable_inv_upd:
  assumes "ptable_inv s" and "ptable t = upd_nth p f (ptable s)" and "nextpid t = nextpid s"
    and "\<And>q. p_pid (f q) = p_pid q" and "\<And>q. p_state q = UNUSED \<Longrightarrow> p_state (f q) = UNUSED"
    and "\<And>q. nice (p_schedstate (f q)) = nice (p_schedstate q)"
  shows "ptable_inv t"
proof -
  have "pids_ok (nextpid s) (ptable t)"
    by (rule pids_ok_same [of _ "ptable s"]) (use assms in \<open>auto simp: ptable_inv_def nth_upd_nth\<close>)
  moreover have "nice_ok (ptable t)"
    by (rule nice_ok_same [of "ptable s"]) (use assms in \<open>auto simp: ptable_inv_def nth_upd_nth\<close>)
  ultimately show ?thesis using assms by (simp add: ptable_inv_def)
qed

lemma ptable_inv_setnice:
  assumes "ptable_inv s" and "0 \<le> n" and "n \<le> 39"
    and "ptable t = setnice_at p n (ptable s)" and "nextpid t = nextpid s"
  shows "ptable_inv t"
proof -
  have "pids_ok (nextpid s) (ptable t)"
    by (rule pids_ok_same [of _ "ptable s"])
      (use assms in \<open>auto simp: ptable_inv_def nth_upd_nth setnice_at_def\<close>)
  moreover have "nice_ok (ptable t)"
    using assms by (auto simp: ptable_inv_def nice_ok_def setnice_at_def nth_upd_nth)
  ultimately show ?thesis using assms by (simp add: ptable_inv_def setnice_at_def)
qed

lemma ptable_inv_wake:
  assumes "ptable_inv s" and "ptable t = wake_tab ch (ptable s)" and "nextpid t = nextpid s"
  shows "ptable_inv t"
proof -
  have "pids_ok (nextpid s) (ptable t)"
    by (rule pids_ok_same [of _ "ptable s"])
      (use assms in \<open>auto simp: ptable_inv_def wake_tab_def\<close>)
  moreover have "nice_ok (ptable t)"
    by (rule nice_ok_same [of "ptable s"]) (use assms in \<open>auto simp: ptable_inv_def wake_tab_def\<close>)
  ultimately show ?thesis using assms by (simp add: ptable_inv_def wake_tab_def)
qed

text \<open>Two lookups by process id, seen from outside the table.\<close>

lemma find_pid_setnice:
  assumes "first_idx (\<lambda>q. pid = p_pid q \<and> pid \<noteq> 0) ps = Some p"
  shows "first_idx (\<lambda>q. pid' = p_pid q \<and> pid' \<noteq> 0) (setnice_at p n ps) =
    first_idx (\<lambda>q. pid' = p_pid q \<and> pid' \<noteq> 0) ps"
  by (rule first_idx_cong) (auto simp: setnice_at_def nth_upd_nth)

section \<open>A concrete state\<close>

text \<open>
  One CPU with interrupts on, every lock free, and a table of three processes: init (pid 1,
  running), a sleeper (pid 2) and a free slot.
\<close>

definition demo_cpu :: cpu where
  "demo_cpu = \<lparr>apicid = 0, gdt = replicate 6 (SEG 0 0 0 0), ts_esp0 = 0, ts_ss0 = 0, ts_iomb = 0,
     ts_addr = 0x80112000, started = True, ncli = 0, intena = False, c_proc = Some 0\<rparr>"

definition demo_proc :: "procstate \<Rightarrow> int \<Rightarrow> chan option \<Rightarrow> proc" where
  "demo_proc st pid ch = \<lparr>p_sz = 4096, p_pgdir = 0x80400000, p_kstack = 0x80401000, p_state = st,
     p_pid = pid, p_schedstate = \<lparr>nice = 0, timeslice = 0, runtime = 0, vruntime = 0\<rparr>,
     p_parent = (if pid = 2 then Some 0 else None), p_tf = 0, p_context = 0, p_chan = ch, p_killed = 0,
     p_ofile = replicate 16 None, p_cwd = None, p_name = []\<rparr>"

definition demo_tf :: trapframe where
  "demo_tf = \<lparr>tf_edi = 0, tf_esi = 0, tf_ebp = 0, tf_oesp = 0, tf_ebx = 0, tf_edx = 0, tf_ecx = 0,
     tf_eax = 0, tf_gs = 0, tf_fs = 0, tf_es = 0, tf_ds = 0, tf_trapno = 0, tf_err = 0, tf_eip = 0,
     tf_cs = 0, tf_eflags = 0, tf_esp = 0, tf_ss = 0\<rparr>"

definition demo_pstate :: pstate where
  "demo_pstate = \<lparr>lapic_id = 0, eflags_IF = (\<lambda>_. True), cr3 = (\<lambda>_. 0), tr = (\<lambda>_. 0),
     cpus = [demo_cpu], ncpu = 1, locks = (\<lambda>_. \<lparr>lk_locked = False, lk_name = [], lk_cpu = None\<rparr>),
     mem = (\<lambda>_. 0), use_lock = True, freelist = 0, kend = 0x80115000,
     ptable = [demo_proc RUNNING 1 None, demo_proc SLEEPING 2 (Some Ch_ticks), demo_proc UNUSED 0 None],
     initproc = Some 0, nextpid = 3, tframes = (\<lambda>_. demo_tf), contexts = (\<lambda>_. zero_context),
     saved_intena = (\<lambda>_. False), kpgdir = 0x803ff000, trapret_addr = 0x80105000,
     forkret_addr = 0x80103000\<rparr>"

lemma demo_pt_ready: "pt_ready demo_pstate 0"
  by (simp add: pt_ready_def int_ok_def on_cpu_def first_idx_def lock_free_def demo_pstate_def demo_cpu_def)

section \<open>Properties\<close>

text \<open>
  C16. \<open>setnice\<close> succeeds exactly when the niceness is between 0 and 39 and some slot holds the
  nonzero process id; then a following \<open>getnice\<close> of that id returns the value set, every other
  process id reads as before, and apart from the interrupt bookkeeping of the locked section only
  that one slot's niceness has changed.  Otherwise it returns -1 and the table is unchanged.
\<close>

theorem setnice_getnice:
  assumes "pt_ready s i"
  shows "\<exists>r t. setnice pid n s = Ok r t \<and>
    (r = 0 \<longleftrightarrow> 0 \<le> n \<and> n \<le> 39 \<and> pid \<noteq> 0 \<and> (\<exists>q\<in>set (ptable s). p_pid q = pid)) \<and>
    (r \<noteq> 0 \<longrightarrow> r = - 1 \<and> ptable t = ptable s) \<and>
    (r = 0 \<longrightarrow> (\<exists>u. getnice pid t = Ok n u) \<and>
       (\<exists>p. ptable t = setnice_at p n (ptable s) \<and> p_pid (proc_at s p) = pid)) \<and>
    (\<forall>pid'. pid' \<noteq> pid \<longrightarrow> (\<exists>v u u'. getnice pid' s = Ok v u \<and> getnice pid' t = Ok v u'))"
proof -
  let ?f = "\<lambda>pid. first_idx (\<lambda>q. pid = p_pid q \<and> pid \<noteq> 0) (ptable s)"
  have other: "\<exists>v u u'. getnice pid' s = Ok v u \<and> getnice pid' t = Ok v u'"
    if t: "pt_ready t i" and tab: "ptable t = ptable s" for t pid'
    by (simp add: getnice_eq [OF assms] getnice_eq [OF t] tab split: option.split)
  show ?thesis
  proof (cases "0 \<le> n \<and> n \<le> 39")
    case False
    then have "setnice pid n s = Ok (- 1) s" using setnice_eq [OF assms] by auto
    with False other [OF assms] show ?thesis by auto
  next
    case range: True
    show ?thesis
    proof (cases "?f pid")
      case None
      then have "setnice pid n s = Ok (- 1) (pushpop i s)"
        using setnice_eq [OF assms] range by auto
      with None other [OF pt_ready_pushpop(1) [OF assms]] show ?thesis
        by (auto simp: first_idx_None)
    next
      case (Some p)
      let ?t = "(pushpop i s)\<lparr>ptable := setnice_at p n (ptable s)\<rparr>"
      have p: "p < length (ptable s)" "p_pid (proc_at s p) = pid" "pid \<noteq> 0"
        using Some by (auto simp: first_idx_Some)
      have ready: "pt_ready ?t i" using pt_ready_pushpop(2) [OF assms] .
      have call: "setnice pid n s = Ok 0 ?t"
        using setnice_eq [OF assms] range Some by auto
      have find: "first_idx (\<lambda>q. pid' = p_pid q \<and> pid' \<noteq> 0) (ptable ?t) = ?f pid'" for pid'
        using find_pid_setnice [OF Some] by simp
      have get: "\<exists>u. getnice pid ?t = Ok n u"
        unfolding getnice_eq [OF ready] find Some using p by (simp add: setnice_at_def)
      have rest: "\<exists>v u u'. getnice pid' s = Ok v u \<and> getnice pid' ?t = Ok v u'" if "pid' \<noteq> pid" for pid'
      proof (cases "?f pid'")
        case None
        then show ?thesis
          unfolding getnice_eq [OF ready] find by (simp add: getnice_eq [OF assms])
      next
        case (Some k)
        then have "p_pid (proc_at s k) = pid'" by (simp add: first_idx_Some)
        then have "k \<noteq> p" using p that by auto
        with Some show ?thesis
          unfolding getnice_eq [OF ready] find by (simp add: getnice_eq [OF assms] setnice_at_def)
      qed
      have "\<exists>q\<in>set (ptable s). p_pid q = pid" using p nth_mem by blast
      with call get rest range p show ?thesis by (intro exI [of _ 0] exI [of _ ?t]) auto
    qed
  qed
qed

theorem setnice_getnice_witness:
  "\<exists>t u. setnice 2 7 demo_pstate = Ok 0 t \<and> getnice 2 t = Ok 7 u"
proof -
  have "p_pid (demo_proc SLEEPING 2 (Some Ch_ticks)) = 2"
    and "demo_proc SLEEPING 2 (Some Ch_ticks) \<in> set (ptable demo_pstate)"
    by (simp_all add: demo_proc_def demo_pstate_def)
  then show ?thesis
    using setnice_getnice [OF demo_pt_ready, of 2 7] by fastforce
qed

text \<open>
  C17. \<open>kill\<close> fails exactly when no slot has the process id; otherwise it marks the first slot with
  that id as killed, makes it runnable if it was sleeping, and changes no other slot and no other
  field.
\<close>

theorem kill_correct:
  assumes "pt_ready s i"
  shows "case first_idx (\<lambda>q. p_pid q = pid) (ptable s) of
      None \<Rightarrow> kill pid s = Ok (- 1) (pushpop i s)
    | Some p \<Rightarrow> \<exists>t. kill pid s = Ok 0 t \<and>
        proc_at t p = (proc_at s p)\<lparr>p_killed := 1,
          p_state := (if p_state (proc_at s p) = SLEEPING then RUNNABLE else p_state (proc_at s p))\<rparr> \<and>
        (\<forall>k. k \<noteq> p \<longrightarrow> proc_at t k = proc_at s k) \<and> t = (pushpop i s)\<lparr>ptable := ptable t\<rparr>"
proof (cases "first_idx (\<lambda>q. p_pid q = pid) (ptable s)")
  case None
  then show ?thesis by (simp add: kill_eq [OF assms])
next
  case (Some p)
  then have "p < length (ptable s)" by (simp add: first_idx_Some)
  with Some show ?thesis by (simp add: kill_eq [OF assms] kill_at_def)
qed

theorem kill_correct_witness:
  "\<exists>t. kill 2 demo_pstate = Ok 0 t \<and> p_killed (proc_at t 1) = 1 \<and> p_state (proc_at t 1) \<noteq> SLEEPING"
  using kill_correct [OF demo_pt_ready, of 2]
  by (auto simp: demo_pstate_def demo_proc_def first_idx_def)

end
