(* ===== verification/Sched.thy ===== *)
theory Sched
  imports ProcTable
begin

text \<open>
  What the operations of the process table do to it: \<open>allocproc\<close> hands out a slot with a fresh
  process id and a kernel stack that starts in \<open>forkret\<close>; \<open>sleep\<close> leaves a sleeper that no
  \<open>wakeup\<close> can miss; one round of the scheduler runs every runnable process.  The scheduler's
  loop is composed here from its parts, with the running processes as a parameter.
\<close>

section \<open>Slot allocation\<close>

lemma kquiet_pstate [simp]:
  "ptable (kquiet i s) = ptable s" "initproc (kquiet i s) = initproc s"
  "nextpid (kquiet i s) = nextpid s" "tframes (kquiet i s) = tframes s"
  "contexts (kquiet i s) = contexts s" "saved_intena (kquiet i s) = saved_intena s"
  "kpgdir (kquiet i s) = kpgdir s" "trapret_addr (kquiet i s) = trapret_addr s"
  "forkret_addr (kquiet i s) = forkret_addr s"
  by (simp_all add: kquiet_def)

text \<open>The slot taken, and the kernel stack built for it.\<close>

definition embryo :: "nat \<Rightarrow> nat \<Rightarrow> 'z pstate_scheme \<Rightarrow> 'z pstate_scheme" where
  "embryo i p s = (pushpop i s)\<lparr>
     ptable := upd_nth p (\<lambda>q. q\<lparr>p_state := EMBRYO, p_pid := nextpid s\<rparr>) (ptable s),
     nextpid := s32 (nextpid s + 1)\<rparr>"

definition kstack_tf :: "addr \<Rightarrow> addr" where
  "kstack_tf k = k + KSTACKSIZE - sizeof_trapframe"

definition kstack_context :: "addr \<Rightarrow> addr" where
  "kstack_context k = kstack_tf k - 4 - sizeof_context"

lemma allocproc_stack_sel:
  "nextpid (allocproc_stack p k s) = nextpid s"
  "p < length (ptable s) \<Longrightarrow> ptable (allocproc_stack p k s) =
     upd_nth p (\<lambda>q. q\<lparr>p_tf := kstack_tf k, p_context := kstack_context k\<rparr>) (ptable s)"
  "contexts (allocproc_stack p k s) (kstack_context k) = zero_context\<lparr>cx_eip := forkret_addr s\<rparr>"
  "mem (allocproc_stack p k s) = store32 (mem s) (kstack_tf k - 4) (trapret_addr s)"
  by (simp_all add: allocproc_stack_def Let_def upd_proc_def kstack_tf_def kstack_context_def upd_nth_upd_nth)

lemma embryo_ready:
  assumes "pt_ready s i" and "kmem_ready s i"
  shows "kmem_ready (embryo i p s) i"
  using assms int_ok_pushpop [of s i] int_ok_cong [of "embryo i p s" "pushpop i s" i]
  by (auto simp: embryo_def kmem_ready_def pt_ready_def lock_free_def)

lemma allocproc_eq:
  assumes "pt_ready s i" and "kmem_ready s i"
  shows "allocproc s =
    (case first_idx (\<lambda>q. p_state q = UNUSED) (ptable s) of
       None \<Rightarrow> Ok None (pushpop i s)
     | Some p \<Rightarrow>
         let k = freelist s; e = embryo i p s;
             t = upd_proc p (\<lambda>q. q\<lparr>p_kstack := k\<rparr>)
               ((kquiet i e)\<lparr>freelist := (if k \<noteq> 0 then load32 (mem s) k else k)\<rparr>) in
         if k = 0 then Ok None (upd_proc p (\<lambda>q. q\<lparr>p_state := UNUSED\<rparr>) t)
         else Ok (Some p) (allocproc_stack p k t))"
proof (cases "first_idx (\<lambda>q. p_state q = UNUSED) (ptable s)")
  case None
  then show ?thesis by (simp add: allocproc_def ptable_section [OF assms(1)])
next
  case (Some p)
  have rel: "release L_ptable ((upd_proc p (\<lambda>q. q\<lparr>p_state := EMBRYO, p_pid := nextpid s\<rparr>)
      (acquired L_ptable i s))\<lparr>nextpid := s32 (nextpid s + 1)\<rparr>) = Ok () (embryo i p s)"
    by (simp add: upd_proc_def embryo_def ptable_section [OF assms(1)])
  have sel: "freelist (embryo i p s) = freelist s" "mem (embryo i p s) = mem s"
    by (simp_all add: embryo_def)
  have npid: "nextpid (upd_proc p f (acquired L_ptable i s)) = nextpid s" for f
    by (simp add: upd_proc_def)
  show ?thesis
    using Some
    by (simp add: allocproc_def acquire_ptable [OF assms(1)] Let_def npid rel
        kalloc_eq [OF embryo_ready [OF assms]] sel del: split_paired_All)
qed


lemma ptable_inv_embryo:
  assumes "ptable_inv s" and "p < length (ptable s)" and "nextpid s < 2 ^ 31 - 1"
  shows "ptable_inv (embryo i p s)" and "nextpid (embryo i p s) = nextpid s + 1"
proof -
  have n: "s32 (nextpid s + 1) = nextpid s + 1"
    using assms by (intro s32_id) (auto simp: ptable_inv_def pids_ok_def)
  then show "nextpid (embryo i p s) = nextpid s + 1" by (simp add: embryo_def)
  have "nice_ok (ptable (embryo i p s))"
    by (rule nice_ok_same [of "ptable s"]) (use assms in \<open>auto simp: ptable_inv_def embryo_def nth_upd_nth\<close>)
  moreover have "pids_ok (nextpid s + 1) (ptable (embryo i p s))"
    using assms by (simp add: embryo_def pids_ok_fresh ptable_inv_def)
  ultimately show "ptable_inv (embryo i p s)"
    using assms n by (simp add: ptable_inv_def) (simp add: embryo_def)
qed

lemma pids_ok_unused:
  assumes "pids_ok n ps" shows "pids_ok n (upd_nth p (\<lambda>q. q\<lparr>p_state := UNUSED\<rparr>) ps)"
proof (cases "p < length ps")
  case True
  have pid: "p_pid (upd_nth p (\<lambda>q. q\<lparr>p_state := UNUSED\<rparr>) ps ! k) = p_pid (ps ! k)" if "k < length ps" for k
    using that by (simp add: nth_upd_nth)
  show ?thesis
    by (rule pids_ok_same [OF assms]) (simp_all add: pid nth_upd_nth)
next
  case False
  then show ?thesis using assms by (simp add: upd_nth_def list_update_beyond)
qed

text \<open>
  C13. \<open>allocproc\<close> takes the first unused slot and gives it a process id no slot has, a kernel
  stack from the page allocator, and a saved context that starts in \<open>forkret\<close> with \<open>trapret\<close>
  as its return address; it fails exactly when no slot is unused or no page is free, the table
  invariant is kept in every case, and no other slot changes.
\<close>

theorem allocproc_fresh:
  assumes "pt_ready s i" and "kmem_ready s i" and "ptable_inv s" and "nextpid s < 2 ^ 31 - 1"
  shows "\<exists>r t. allocproc s = Ok r t \<and> ptable_inv t \<and>
    (r = None \<longleftrightarrow> (\<forall>q\<in>set (ptable s). p_state q \<noteq> UNUSED) \<or> freelist s = 0) \<and>
    (\<forall>p. r = Some p \<longrightarrow>
       first_idx (\<lambda>q. p_state q = UNUSED) (ptable s) = Some p \<and>
       p_state (proc_at t p) = EMBRYO \<and> p_pid (proc_at t p) = nextpid s \<and>
       (\<forall>q\<in>set (ptable s). p_pid q \<noteq> nextpid s) \<and> nextpid t = nextpid s + 1 \<and>
       p_kstack (proc_at t p) = freelist s \<and> p_tf (proc_at t p) = kstack_tf (freelist s) \<and>
       contexts t (p_context (proc_at t p)) = zero_context\<lparr>cx_eip := forkret_addr s\<rparr> \<and>
       load32 (mem t) (p_context (proc_at t p) + sizeof_context) = trapret_addr s \<and>
       (\<forall>k < length (ptable s). k \<noteq> p \<longrightarrow> proc_at t k = proc_at s k))"
proof (cases "first_idx (\<lambda>q. p_state q = UNUSED) (ptable s)")
  case None
  have "ptable_inv (pushpop i s)" using assms(3) by (simp add: ptable_inv_def)
  moreover have "allocproc s = Ok None (pushpop i s)" using None by (simp add: allocproc_eq [OF assms(1,2)])
  moreover have "\<forall>q\<in>set (ptable s). p_state q \<noteq> UNUSED" using None by (simp add: first_idx_None)
  ultimately show ?thesis by blast
next
  case (Some p)
  let ?k = "freelist s" and ?e = "embryo i p s"
  let ?t = "upd_proc p (\<lambda>q. q\<lparr>p_kstack := ?k\<rparr>)
    ((kquiet i ?e)\<lparr>freelist := (if ?k \<noteq> 0 then load32 (mem s) ?k else ?k)\<rparr>)"
  have p: "p < length (ptable s)" "proc_at s p \<in> set (ptable s)" "p_state (proc_at s p) = UNUSED"
    using Some by (auto simp: first_idx_Some)
  have inv: "ptable_inv ?e" and np: "nextpid ?e = nextpid s + 1"
    using ptable_inv_embryo [OF assms(3) p(1) assms(4)] by simp_all
  have len: "length (ptable ?e) = length (ptable s)" by (simp add: embryo_def)
  have invt: "ptable_inv ?t"
    by (rule ptable_inv_upd [OF inv, of _ p "\<lambda>q. q\<lparr>p_kstack := ?k\<rparr>"]) (simp_all add: upd_proc_def)
  have fresh: "\<forall>q\<in>set (ptable s). p_pid q \<noteq> nextpid s"
  proof
    fix q assume "q \<in> set (ptable s)"
    then obtain j where "j < length (ptable s)" "q = proc_at s j" by (metis in_set_conv_nth)
    then have "p_pid q < nextpid s" using assms(3) by (simp add: ptable_inv_def pids_ok_def)
    then show "p_pid q \<noteq> nextpid s" by simp
  qed
  show ?thesis
  proof (cases "?k = 0")
    case True
    let ?u = "upd_proc p (\<lambda>q. q\<lparr>p_state := UNUSED\<rparr>) ?t"
    have "nice_ok (ptable ?u)"
      by (rule nice_ok_same [of "ptable ?t"]) (use invt in \<open>auto simp: ptable_inv_def upd_proc_def nth_upd_nth\<close>)
    then have "ptable_inv ?u"
      using invt pids_ok_unused by (simp add: ptable_inv_def upd_proc_def)
    moreover have "allocproc s = Ok None ?u" using Some True by (simp add: allocproc_eq [OF assms(1,2)])
    ultimately show ?thesis using True by auto
  next
    case False
    let ?u = "allocproc_stack p ?k ?t"
    have lt: "p < length (ptable ?t)" using p len by (simp add: upd_proc_def)
    have tab: "ptable ?u = upd_nth p (\<lambda>q. q\<lparr>p_tf := kstack_tf ?k, p_context := kstack_context ?k\<rparr>) (ptable ?t)"
      by (rule allocproc_stack_sel(2) [OF lt])
    have "ptable_inv ?u"
      by (rule ptable_inv_upd [OF invt tab]) (simp_all add: allocproc_stack_sel)
    moreover have "allocproc s = Ok (Some p) ?u"
      using Some False by (simp add: allocproc_eq [OF assms(1,2)] Let_def)
    moreover have pp: "proc_at ?u p = (proc_at s p)\<lparr>p_state := EMBRYO, p_pid := nextpid s, p_kstack := ?k,
        p_tf := kstack_tf ?k, p_context := kstack_context ?k\<rparr>"
      using p len by (simp add: tab) (simp add: upd_proc_def embryo_def)
    moreover have "proc_at ?u k = proc_at s k" if "k \<noteq> p" for k
      using that by (simp add: tab) (simp add: upd_proc_def embryo_def)
    moreover have "contexts ?u (kstack_context ?k) = zero_context\<lparr>cx_eip := forkret_addr s\<rparr>"
      by (simp add: allocproc_stack_sel(3)) (simp add: upd_proc_def embryo_def)
    moreover have "load32 (mem ?u) (kstack_context ?k + sizeof_context) = trapret_addr s"
      by (simp add: allocproc_stack_sel(4) kstack_context_def mem_simps) (simp add: upd_proc_def embryo_def)
    moreover have "nextpid ?u = nextpid s + 1"
      using np by (simp add: allocproc_stack_sel(1)) (simp add: upd_proc_def)
    moreover have "\<not> (\<forall>q\<in>set (ptable s). p_state q \<noteq> UNUSED)" using p by blast
    ultimately show ?thesis
      using False Some fresh by (intro exI [of _ "Some p"] exI [of _ ?u]) simp
  qed
qed

section \<open>Giving up the CPU\<close>

text \<open>
  \<open>may_sched s i p\<close>: CPU \<open>i\<close> runs process \<open>p\<close>, holds the table lock and no other lock, which is
  what \<open>sched\<close> insists on.
\<close>

definition holds :: "'z mach_scheme \<Rightarrow> lockid \<Rightarrow> nat \<Rightarrow> bool" where
  "holds s l i \<longleftrightarrow> lk_locked (locks s l) \<and> lk_cpu (locks s l) = Some i"

definition may_sched :: "'z pstate_scheme \<Rightarrow> nat \<Rightarrow> nat \<Rightarrow> bool" where
  "may_sched s i p \<longleftrightarrow> int_ok s i \<and> ncli (cpus s ! i) = 1 \<and> holds s L_ptable i \<and>
     c_proc (cpus s ! i) = Some p \<and> p < length (ptable s)"

lemma sched_ok:
  assumes "may_sched s i p" and "p_state (proc_at s p) \<noteq> RUNNING"
  shows "sched s = Swtch (s\<lparr>saved_intena := (saved_intena s)(p := intena (cpus s ! i))\<rparr>)"
proof -
  have ok: "int_ok s i" and n: "ncli (cpus s ! i) = 1" and c: "c_proc (cpus s ! i) = Some p"
    and h: "lk_locked (locks s L_ptable)" "lk_cpu (locks s L_ptable) = Some i"
    using assms(1) by (simp_all add: may_sched_def holds_def)
  have off: "\<not> eflags_IF s (lapic_id s)" using ok n by (simp add: int_ok_def)
  have "pushpop i s = s" by (rule pushpop_nested) (simp add: n)
  moreover have "mycpu s = Ok i s" using ok off by (simp add: mycpu_ok int_ok_on_cpu)
  ultimately show ?thesis
    using assms(2) n c h off
    by (simp add: sched_def myproc_ok [OF ok] holding_ok [OF ok] readeflags_IF_def)
qed

lemma may_sched_upd_proc: "may_sched s i p \<Longrightarrow> may_sched (upd_proc p f s) i p"
  using int_ok_cong [of "upd_proc p f s" s i]
  by (simp add: may_sched_def upd_proc_def holds_def)

text \<open>Taking the table lock and then dropping the caller's lock leaves exactly the table lock.\<close>

lemma acquired_ncli: "int_ok s i \<Longrightarrow> ncli (cpus (acquired l i s) ! i) = ncli (cpus s ! i) + 1"
  by (simp add: pushed_ncli)

lemma acquired_c_proc: "i < length (cpus s) \<Longrightarrow> c_proc (cpus (acquired l i s) ! i) = c_proc (cpus s ! i)"
  by (simp add: pushed_def)

lemma acquired_locks:
  "locks (acquired l i s) = (locks s)(l := (locks s l)\<lparr>lk_locked := True, lk_cpu := Some i\<rparr>)"
  by (simp add: acquired_def)

definition swap_lock :: "lockid \<Rightarrow> nat \<Rightarrow> 'z pstate_scheme \<Rightarrow> 'z pstate_scheme" where
  "swap_lock lk i s = released lk i (acquired L_ptable i s)"

lemma released_pstate [simp]:
  "ptable (released l i s) = ptable s" "saved_intena (released l i s) = saved_intena s"
  by (simp_all add: released_def)

lemma swap_lock_ok:
  assumes "int_ok s i" and "ncli (cpus s ! i) = 1" and "lock_free s L_ptable" and "holds s lk i"
    and "lk \<noteq> L_ptable" and "c_proc (cpus s ! i) = Some p" and "p < length (ptable s)"
  shows "bindR (acquire L_ptable s) (\<lambda>_ s. release lk s) = Ok () (swap_lock lk i s)"
    and "may_sched (swap_lock lk i s) i p" and "ptable (swap_lock lk i s) = ptable s"
    and "\<not> lk_locked (locks (swap_lock lk i s) lk)"
proof -
  let ?a = "acquired L_ptable i s"
  have i: "i < length (cpus s)" using assms(1) by (auto simp: int_ok_def dest: on_cpu_bound)
  have ok: "int_ok ?a i" by (rule int_ok_acquired [OF assms(1)]) (simp add: assms(2))
  have n: "ncli (cpus ?a ! i) = 2" using acquired_ncli [OF assms(1), of L_ptable] assms(2) by simp
  have "release lk ?a = Ok () (released lk i ?a)"
    by (rule release_ok [OF ok]) (use n assms in \<open>simp_all add: holds_def acquired_locks del: acquired_sel\<close>)
  then show "bindR (acquire L_ptable s) (\<lambda>_ s. release lk s) = Ok () (swap_lock lk i s)"
    by (simp add: acquire_lock_free [OF assms(1,3)] swap_lock_def)
  show "ptable (swap_lock lk i s) = ptable s" by (simp add: swap_lock_def)
  show "\<not> lk_locked (locks (swap_lock lk i s) lk)" by (simp add: swap_lock_def released_def)
  let ?t = "released lk i ?a"
  have la: "i < length (cpus ?a)" using i by (simp add: pushed_def)
  have ct: "cpus ?t ! i = (cpus ?a ! i)\<lparr>ncli := ncli (cpus ?a ! i) - 1\<rparr>"
    unfolding released_def by (simp add: la del: acquired_sel(7))
  have "on_cpu ?t i = on_cpu ?a i"
    by (rule on_cpu_cong) (simp_all add: released_def map_apicid_upd del: acquired_sel(7))
  moreover have "\<not> eflags_IF ?t (lapic_id ?t)"
    unfolding released_def using n by (simp del: acquired_sel(7))
  ultimately have "int_ok ?t i" using ok n ct by (simp add: int_ok_def del: acquired_sel(7))
  moreover have "holds ?t L_ptable i"
    using assms(5) by (simp add: holds_def released_def acquired_locks)
  moreover have "c_proc (cpus ?t ! i) = Some p" using ct assms(6) acquired_c_proc [OF i, of L_ptable] by (simp del: acquired_sel(7))
  ultimately show "may_sched (swap_lock lk i s) i p"
    using n ct assms(7) by (simp add: may_sched_def swap_lock_def del: acquired_sel(7))
qed

text \<open>The state in which a sleeper leaves the CPU.\<close>

definition sleeping :: "chan \<Rightarrow> nat \<Rightarrow> nat \<Rightarrow> 'z pstate_scheme \<Rightarrow> 'z pstate_scheme" where
  "sleeping ch i p w = w\<lparr>
     ptable := upd_nth p (\<lambda>q. q\<lparr>p_chan := Some ch, p_state := SLEEPING\<rparr>) (ptable w),
     saved_intena := (saved_intena w)(p := intena (cpus w ! i))\<rparr>"

lemma sleeping_may_sched: "may_sched w i p \<Longrightarrow> may_sched (sleeping ch i p w) i p"
  using int_ok_cong [of "sleeping ch i p w" w i] by (simp add: may_sched_def holds_def sleeping_def)

lemma sleep_swtch:
  assumes "int_ok s i" and "ncli (cpus s ! i) = 1" and "lock_free s L_ptable" and "holds s lk i"
    and "lk \<noteq> L_ptable" and "c_proc (cpus s ! i) = Some p" and "p < length (ptable s)"
  shows "sleep ch lk s = Swtch (sleeping ch i p (swap_lock lk i s))"
proof -
  let ?w = "swap_lock lk i s"
  let ?v = "upd_proc p (\<lambda>q. q\<lparr>p_state := SLEEPING\<rparr>) (upd_proc p (\<lambda>q. q\<lparr>p_chan := Some ch\<rparr>) ?w)"
  note w = swap_lock_ok [OF assms]
  have pos: "0 < ncli (cpus s ! i)" using assms(2) by simp
  have v: "may_sched ?v i p" using w(2) by (intro may_sched_upd_proc)
  have lt: "p < length (ptable ?w)" using w(3) assms(7) by simp
  have "sched ?v = Swtch (?v\<lparr>saved_intena := (saved_intena ?v)(p := intena (cpus ?v ! i))\<rparr>)"
    by (rule sched_ok [OF v]) (simp add: upd_proc_def lt)
  then have "sched ?v = Swtch (sleeping ch i p ?w)"
    by (simp add: sleeping_def upd_proc_def upd_nth_upd_nth lt)
  then show ?thesis
    using assms(5,6) w(1)
    by (simp add: sleep_def myproc_ok [OF assms(1)] pushpop_nested [OF pos] Let_def)
qed

text \<open>
  While another CPU holds the table lock, for instance inside a \<open>wakeup\<close>, \<open>sleep\<close> waits for it
  with the caller's lock still held and the table untouched.
\<close>

lemma sleep_waits:
  assumes "int_ok s i" and "ncli (cpus s ! i) = 1" and "holds s L_ptable j" and "j \<noteq> i" and "holds s lk i"
    and "lk \<noteq> L_ptable" and "c_proc (cpus s ! i) = Some p"
  shows "\<exists>u. sleep ch lk s = Spin u \<and> holds u lk i \<and> holds u L_ptable j \<and> ptable u = ptable s"
proof -
  have pos: "0 < ncli (cpus s ! i)" using assms(2) by simp
  have "acquire L_ptable s = Spin (pushed i s)" using assms(3,4) by (simp add: acquire_cases [OF assms(1)] holds_def)
  then have "sleep ch lk s = Spin (pushed i s)"
    using assms(6,7) by (simp add: sleep_def myproc_ok [OF assms(1)] pushpop_nested [OF pos])
  moreover have "holds (pushed i s) lk i" "holds (pushed i s) L_ptable j" "ptable (pushed i s) = ptable s"
    using assms(3,5) by (simp_all add: holds_def) (simp add: pushed_def)
  ultimately show ?thesis by blast
qed

text \<open>
  C11. A process that calls \<open>sleep\<close> with its lock held does not let go of that lock before it has the table lock: while
  another CPU has the table lock, it waits with its own lock held and the table untouched.  When the table lock is
  free it gives up the CPU (no check of \<open>sched\<close> fails) as a sleeper on its channel, with the table lock held and its own
  lock released.  From there no wakeup is lost: another CPU's \<open>wakeup\<close> spins until the table lock is released,
  and a \<open>wakeup\<close> of the channel in any later state whose table is unchanged makes the sleeper runnable.
\<close>

theorem sleep_no_lost_wakeup:
  fixes s :: "'z pstate_scheme"
  assumes "int_ok s i" and "ncli (cpus s ! i) = 1" and "holds s lk i"
    and "lk \<noteq> L_ptable" and "c_proc (cpus s ! i) = Some p" and "p < length (ptable s)"
  shows "(\<forall>j. j \<noteq> i \<and> holds s L_ptable j \<longrightarrow>
      (\<exists>u. sleep ch lk s = Spin u \<and> holds u lk i \<and> holds u L_ptable j \<and> ptable u = ptable s)) \<and>
    (lock_free s L_ptable \<longrightarrow> (\<exists>t. sleep ch lk s = Swtch t \<and> may_sched t i p \<and>
    proc_at t p = (proc_at s p)\<lparr>p_chan := Some ch, p_state := SLEEPING\<rparr> \<and>
    \<not> lk_locked (locks t lk) \<and> saved_intena t p = intena (cpus t ! i) \<and>
    (\<forall>j a. j \<noteq> i \<and> int_ok (t\<lparr>lapic_id := a\<rparr>) j \<longrightarrow> (\<exists>u. wakeup ch (t\<lparr>lapic_id := a\<rparr>) = Spin u)) \<and>
    (\<forall>(t' :: 'z pstate_scheme) j. pt_ready t' j \<and> ptable t' = ptable t \<longrightarrow>
       (\<exists>u. wakeup ch t' = Ok () u \<and> p_state (proc_at u p) = RUNNABLE))))"
proof (intro conjI allI impI)
  fix j assume "j \<noteq> i \<and> holds s L_ptable j"
  then show "\<exists>u. sleep ch lk s = Spin u \<and> holds u lk i \<and> holds u L_ptable j \<and> ptable u = ptable s"
    using sleep_waits [OF assms(1,2)] assms(3,4,5) by blast
next
  assume free: "lock_free s L_ptable"
  note w = swap_lock_ok [OF assms(1,2) free assms(3-6)]
  define t where "t = sleeping ch i p (swap_lock lk i s)"
  have t: "may_sched t i p" unfolding t_def by (rule sleeping_may_sched [OF w(2)])
  have pt: "proc_at t p = (proc_at s p)\<lparr>p_chan := Some ch, p_state := SLEEPING\<rparr>"
    using w(3) assms(6) by (simp add: t_def sleeping_def)
  have spin: "\<exists>u. wakeup ch (t\<lparr>lapic_id := a\<rparr>) = Spin u"
    if "j \<noteq> i" "int_ok (t\<lparr>lapic_id := a\<rparr>) j" for j a
    using t that(1) by (simp add: wakeup_def acquire_cases [OF that(2)] may_sched_def holds_def)
  have wake: "\<exists>u. wakeup ch t' = Ok () u \<and> p_state (proc_at u p) = RUNNABLE"
    if "pt_ready t' j" "ptable t' = ptable t" for t' :: "'z pstate_scheme" and j
    using that(2) pt t by (simp add: wakeup_eq [OF that(1)] wake_tab_def may_sched_def)
  have "\<not> lk_locked (locks t lk)" using w(4) by (simp add: t_def sleeping_def)
  moreover have "saved_intena t p = intena (cpus t ! i)" by (simp add: t_def sleeping_def)
  moreover have "sleep ch lk s = Swtch t" unfolding t_def by (rule sleep_swtch [OF assms(1,2) free assms(3-6)])
  ultimately show "\<exists>t. sleep ch lk s = Swtch t \<and> may_sched t i p \<and>
    proc_at t p = (proc_at s p)\<lparr>p_chan := Some ch, p_state := SLEEPING\<rparr> \<and>
    \<not> lk_locked (locks t lk) \<and> saved_intena t p = intena (cpus t ! i) \<and>
    (\<forall>j a. j \<noteq> i \<and> int_ok (t\<lparr>lapic_id := a\<rparr>) j \<longrightarrow> (\<exists>u. wakeup ch (t\<lparr>lapic_id := a\<rparr>) = Spin u)) \<and>
    (\<forall>(t' :: 'z pstate_scheme) j. pt_ready t' j \<and> ptable t' = ptable t \<longrightarrow>
       (\<exists>u. wakeup ch t' = Ok () u \<and> p_state (proc_at u p) = RUNNABLE))" using t pt spin wake by blast
qed

section \<open>The scheduler\<close>







lemma tss_of_sel [simp]:
  "apicid (tss_of k d) = apicid d" "ncli (tss_of k d) = ncli d" "intena (tss_of k d) = intena d"
  "c_proc (tss_of k d) = c_proc d" "ts_esp0 (tss_of k d) = k + KSTACKSIZE"
  by (simp_all add: tss_of_def)

lemma tss_of_ncli: "(tss_of k (d\<lparr>ncli := n\<rparr>))\<lparr>ncli := ncli d\<rparr> = tss_of k d"
  by (simp add: tss_of_def)












text \<open>
  A table of the full size for the concrete examples: init runs, one process sleeps, one is
  runnable, the other slots are free; one page is on the free list.
\<close>

definition demo64 :: pstate where
  "demo64 = demo_pstate\<lparr>ptable := [demo_proc RUNNING 1 None, demo_proc SLEEPING 2 (Some Ch_ticks),
     demo_proc RUNNABLE 3 None] @ replicate 61 (demo_proc UNUSED 0 None), nextpid := 4,
     freelist := 0x80500000\<rparr>"

lemma demo64_nth: "k < 64 \<Longrightarrow> proc_at demo64 k =
    (if k = 0 then demo_proc RUNNING 1 None else if k = 1 then demo_proc SLEEPING 2 (Some Ch_ticks)
     else if k = 2 then demo_proc RUNNABLE 3 None else demo_proc UNUSED 0 None)"
  by (auto simp: demo64_def nth_Cons' numeral_2_eq_2)

lemma demo64_len: "length (ptable demo64) = 64" "NPROC = 64"
  by (simp_all add: demo64_def NPROC_def)

lemma demo64_ready: "pt_ready demo64 0" "kmem_ready demo64 0"
  by (simp_all add: pt_ready_def kmem_ready_def int_ok_def on_cpu_def first_idx_def lock_free_def
      demo64_def demo_pstate_def demo_cpu_def)

lemma demo_proc_sel [simp]:
  "p_state (demo_proc st pid ch) = st" "p_pid (demo_proc st pid ch) = pid"
  "nice (p_schedstate (demo_proc st pid ch)) = 0" "p_kstack (demo_proc st pid ch) = 0x80401000"
  "p_pgdir (demo_proc st pid ch) = 0x80400000"
  by (simp_all add: demo_proc_def)

lemma demo64_inv: "ptable_inv demo64"
proof -
  have n: "nextpid demo64 = 4" by (simp add: demo64_def)
  show ?thesis
    unfolding ptable_inv_def pids_ok_def nice_ok_def demo64_len n
    by (intro conjI allI impI) (auto simp: demo64_nth split: if_splits)
qed


definition demo_locked :: pstate where
  "demo_locked = acquired L_ticks 0 demo64"

text \<open>The same with the table lock held by another CPU.\<close>

definition demo_contended :: pstate where
  "demo_contended = demo_locked\<lparr>locks := (locks demo_locked)(L_ptable := \<lparr>lk_locked = True, lk_name = [], lk_cpu = Some 1\<rparr>)\<rparr>"

theorem sleep_no_lost_wakeup_witness:
  "(\<exists>t. sleep Ch_ticks L_ticks demo_locked = Swtch t \<and> p_state (proc_at t 0) = SLEEPING \<and> \<not> lk_locked (locks t L_ticks)) \<and>
   (\<exists>u. sleep Ch_ticks L_ticks demo_contended = Spin u \<and> holds u L_ticks 0)"
proof -
  have ok: "int_ok demo64 0" and free: "lock_free demo64 L_ptable" using demo64_ready by (simp_all add: pt_ready_def)
  have r: "int_ok demo_locked 0" unfolding demo_locked_def
    by (rule int_ok_acquired [OF ok]) (simp add: demo64_def demo_pstate_def demo_cpu_def)
  have n: "ncli (cpus demo_locked ! 0) = 1"
    unfolding demo_locked_def acquired_ncli [OF ok] by (simp add: demo64_def demo_pstate_def demo_cpu_def)
  have h: "holds demo_locked L_ticks 0" by (simp add: demo_locked_def acquired_locks holds_def)
  have c: "c_proc (cpus demo_locked ! 0) = Some 0"
    unfolding demo_locked_def by (subst acquired_c_proc) (simp_all add: demo64_def demo_pstate_def demo_cpu_def)
  have l: "0 < length (ptable demo_locked)" by (simp add: demo_locked_def demo64_len)
  have d: "L_ticks \<noteq> L_ptable" by simp
  have fr: "lock_free demo_locked L_ptable" using free by (simp add: demo_locked_def acquired_locks lock_free_def)
  obtain t where t: "sleep Ch_ticks L_ticks demo_locked = Swtch t" "\<not> lk_locked (locks t L_ticks)"
      "proc_at t 0 = (proc_at demo_locked 0)\<lparr>p_chan := Some Ch_ticks, p_state := SLEEPING\<rparr>"
    using sleep_no_lost_wakeup [OF r n h d c l, of Ch_ticks, THEN conjunct2, rule_format, OF fr] by blast
  have st: "p_state (proc_at t 0) = SLEEPING" by (simp add: t(3))
  have f: "cpus demo_contended = cpus demo_locked" "ptable demo_contended = ptable demo_locked"
    "holds demo_contended L_ticks 0" "holds demo_contended L_ptable 1"
    using h by (simp_all add: demo_contended_def holds_def)
  have "int_ok demo_contended 0 = int_ok demo_locked 0" by (rule int_ok_cong) (simp_all add: demo_contended_def)
  then have r': "int_ok demo_contended 0" using r by simp
  have "\<exists>u. sleep Ch_ticks L_ticks demo_contended = Spin u \<and> holds u L_ticks 0 \<and> holds u L_ptable 1 \<and> ptable u = ptable demo_contended"
    using sleep_no_lost_wakeup [OF r' n [folded f(1)] f(3) d c [folded f(1)] l [folded f(2)], of Ch_ticks,
      THEN conjunct1, rule_format, of 1] f(4) by simp
  then show ?thesis using t(1,2) st by blast
qed

theorem allocproc_fresh_witness:
  "\<exists>t. allocproc demo64 = Ok (Some 3) t \<and> p_pid (proc_at t 3) = 4"
proof -
  have n: "nextpid demo64 = 4" "freelist demo64 \<noteq> 0" by (simp_all add: demo64_def)
  obtain r t where call: "allocproc demo64 = Ok r t"
    and none: "r = None \<longleftrightarrow> (\<forall>q\<in>set (ptable demo64). p_state q \<noteq> UNUSED) \<or> freelist demo64 = 0"
    and some: "\<And>p. r = Some p \<Longrightarrow> first_idx (\<lambda>q. p_state q = UNUSED) (ptable demo64) = Some p \<and>
      p_pid (proc_at t p) = nextpid demo64"
    using allocproc_fresh [OF demo64_ready demo64_inv] n by auto
  have "first_idx (\<lambda>q. p_state q = UNUSED) (ptable demo64) = Some 3"
    unfolding first_idx_Some demo64_len by (auto simp: demo64_nth less_Suc_eq numeral_3_eq_3)
  moreover have "proc_at demo64 3 \<in> set (ptable demo64)" by (rule nth_mem) (simp add: demo64_len)
  moreover have "p_state (proc_at demo64 3) = UNUSED" by (simp add: demo64_nth)
  ultimately show ?thesis using call none some n by (cases r) auto
qed

section \<open>What the slots keep between processes\<close>

text \<open>
  \<open>kill\<close> does not look at the state of the slot and \<open>allocproc\<close> resets neither the killed flag nor the niceness: after
  \<open>kill 0\<close>, which finds an unused slot and reports success, the next process is born killed, with the
  niceness of the last process of its slot.
\<close>

theorem kill_zero_next_killed:
  assumes "pt_ready s i" and "kmem_ready s i" and "freelist s \<noteq> 0"
    and "first_idx (\<lambda>q. p_state q = UNUSED) (ptable s) = Some p" and "first_idx (\<lambda>q. p_pid q = 0) (ptable s) = Some p"
  shows "\<exists>t u. kill 0 s = Ok 0 t \<and> allocproc t = Ok (Some p) u \<and> p_killed (proc_at u p) = 1 \<and>
    p_schedstate (proc_at u p) = p_schedstate (proc_at s p)"
proof -
  let ?t = "(pushpop i s)\<lparr>ptable := kill_at p (ptable s)\<rparr>"
  have p: "p < length (ptable s)" "p_state (proc_at s p) = UNUSED" using assms(4) by (auto simp: first_idx_Some)
  have kill: "kill 0 s = Ok 0 ?t" using assms(5) by (simp add: kill_eq [OF assms(1)])
  have ready: "pt_ready ?t i" using pt_ready_pushpop(2) [OF assms(1)] .
  have "kmem_ready ?t i" using assms(1,2) int_ok_pushpop [of s i] int_ok_cong [of ?t "pushpop i s" i]
    by (auto simp: kmem_ready_def pt_ready_def lock_free_def)
  note eq = allocproc_eq [OF ready this]
  have "first_idx (\<lambda>q. p_state q = UNUSED) (ptable ?t) = Some p"
    using assms(4) p by (auto simp: first_idx_Some kill_at_def nth_upd_nth)
  then have "\<exists>u. allocproc ?t = Ok (Some p) u \<and> p_killed (proc_at u p) = 1 \<and> p_schedstate (proc_at u p) = p_schedstate (proc_at s p)"
    using assms(3) p by (simp add: eq Let_def allocproc_stack_sel upd_proc_def embryo_def) (simp add: kill_at_def allocproc_stack_sel)
  with kill show ?thesis by blast
qed

text \<open>
  When no page is free for its stack, \<open>allocproc\<close> gives the slot back with the new process id in it: niceness
  calls on this id succeed although no such process exists.
\<close>

theorem allocproc_failed_pid:
  assumes "pt_ready s i" and "kmem_ready s i" and "freelist s = 0"
    and "first_idx (\<lambda>q. p_state q = UNUSED) (ptable s) = Some p"
  shows "\<exists>t. allocproc s = Ok None t \<and> p_state (proc_at t p) = UNUSED \<and> p_pid (proc_at t p) = nextpid s"
proof -
  have p: "p < length (ptable s)" using assms(4) by (auto simp: first_idx_Some)
  then show ?thesis using assms(3,4) by (simp add: allocproc_eq [OF assms(1,2)] upd_proc_def embryo_def)
qed

end
