(* ===== verification/Calm.thy ===== *)
theory Calm
  imports Sched
begin

text \<open>
  Locked sections as seen by the components above the process table.  In a \<open>calm\<close> state the CPU
  holds no spin lock; there a section that takes a lock, changes data and releases the lock is
  just the change of the data.  \<open>running s i p\<close> adds that CPU \<open>i\<close> runs process \<open>p\<close>.  \<open>runs m Q\<close>
  is total correctness: the call returns, and its result and final state satisfy \<open>Q\<close>.
\<close>

section \<open>Total correctness of a call\<close>

fun runs :: "('a, 's) res \<Rightarrow> ('a \<Rightarrow> 's \<Rightarrow> bool) \<Rightarrow> bool" where
  "runs (Ok x s) Q = Q x s"
| "runs (Panic m) Q = False"
| "runs (Swtch s) Q = False"
| "runs (Spin s) Q = False"

lemma runs_iff: "runs m Q \<longleftrightarrow> (\<exists>x s. m = Ok x s \<and> Q x s)"
  by (cases m) auto

lemma runs_bind: "runs (bindR m f) Q \<longleftrightarrow> runs m (\<lambda>x s. runs (f x s) Q)"
  by (cases m) auto

lemma runs_conseq: "runs m P \<Longrightarrow> (\<And>x s. P x s \<Longrightarrow> Q x s) \<Longrightarrow> runs m Q"
  by (cases m) auto

lemma runs_bindI:
  assumes "runs m P" and "\<And>x s. P x s \<Longrightarrow> runs (f x s) Q"
  shows "runs (bindR m f) Q"
  using assms by (auto simp: runs_iff)

lemma runsE:
  assumes "runs m Q"
  obtains x s where "m = Ok x s" and "Q x s"
  using assms by (auto simp: runs_iff)

section \<open>Calm states\<close>

definition calm :: "'z mach_scheme \<Rightarrow> nat \<Rightarrow> bool" where
  "calm s i \<longleftrightarrow> int_ok s i \<and> ncli (cpus s ! i) < 2 ^ 30 \<and> (\<forall>l. lock_free s l) \<and>
     (ncli (cpus s ! i) = 0 \<longrightarrow> intena (cpus s ! i) = eflags_IF s (lapic_id s))"

definition running :: "'z pstate_scheme \<Rightarrow> nat \<Rightarrow> nat \<Rightarrow> bool" where
  "running s i p \<longleftrightarrow> calm s i \<and> c_proc (cpus s ! i) = Some p \<and> p < length (ptable s)"

lemma calm_cong:
  assumes "lapic_id t = lapic_id s" "ncpu t = ncpu s" "cpus t = cpus s" "eflags_IF t = eflags_IF s"
    "locks t = locks s"
  shows "calm t i = calm s i"
  using int_ok_cong [OF assms(1-4), of i] assms by (simp add: calm_def lock_free_def)

lemma running_cong:
  assumes "lapic_id t = lapic_id s" "ncpu t = ncpu s" "cpus t = cpus s" "eflags_IF t = eflags_IF s"
    "locks t = locks s" "length (ptable t) = length (ptable s)"
  shows "running t i p = running s i p"
  using calm_cong [OF assms(1-5), of i] assms by (simp add: running_def)

lemma calm_pushpop: "calm s i \<Longrightarrow> pushpop i s = s"
  by (simp add: calm_def pushpop_def upd_nth_id)

lemma calm_int_ok: "calm s i \<Longrightarrow> int_ok s i"
  and calm_lock_free: "calm s i \<Longrightarrow> lock_free s l"
  by (simp_all add: calm_def)

lemma calm_acquired: "calm s i \<Longrightarrow> int_ok (acquired l i s) i"
  by (rule int_ok_acquired) (simp_all add: calm_def)

lemma running_calm: "running s i p \<Longrightarrow> calm s i"
  by (simp add: running_def)

lemma acquire_calm: "calm s i \<Longrightarrow> acquire l s = Ok () (acquired l i s)"
  by (simp add: calm_def acquire_lock_free)

lemma release_calm:
  assumes "calm s i" and "lapic_id t = lapic_id s" "ncpu t = ncpu s" "cpus t = cpus (acquired l i s)"
    "eflags_IF t = eflags_IF (acquired l i s)" "locks t = locks (acquired l i s)"
  shows "release l t = Ok () (t\<lparr>locks := locks s, cpus := cpus s, eflags_IF := eflags_IF s\<rparr>)"
  using release_section [of s i l t] assms calm_pushpop [OF assms(1)] by (simp add: calm_def)

lemma myproc_running: "running s i p \<Longrightarrow> myproc s = Ok (Some p) s"
  by (auto simp: running_def myproc_ok [of s i] calm_int_ok calm_pushpop)

lemma myproc_acquired:
  assumes "running s i p" and "lapic_id t = lapic_id s" "ncpu t = ncpu s"
    "cpus t = cpus (acquired l i s)" "eflags_IF t = eflags_IF (acquired l i s)"
  shows "myproc t = Ok (Some p) t"
proof -
  have ok: "int_ok s i" and c: "c_proc (cpus s ! i) = Some p" and i: "i < length (cpus s)"
    using assms(1) by (auto simp: running_def calm_def int_ok_def dest: on_cpu_bound)
  have okt: "int_ok t i"
    using calm_acquired [OF running_calm [OF assms(1)], of l] int_ok_cong [of t "acquired l i s" i] assms by simp
  have "ncli (cpus t ! i) = ncli (cpus s ! i) + 1"
    using acquired_ncli [OF ok, of l] assms(4) by simp
  then have "pushpop i t = t" using ok by (intro pushpop_nested) (simp add: int_ok_def)
  moreover have "c_proc (cpus t ! i) = Some p"
    using acquired_c_proc [OF i, of l] assms(4) c by simp
  ultimately show ?thesis by (simp add: myproc_ok [OF okt])
qed

lemma wakeup_calm: "calm s i \<Longrightarrow> wakeup ch s = Ok () (s\<lparr>ptable := wake_tab (Some ch) (ptable s)\<rparr>)"
  by (simp add: wakeup_eq [of s i] pt_ready_def calm_int_ok calm_lock_free calm_pushpop)

lemma wakeup_acquired:
  assumes "calm s i" and "l \<noteq> L_ptable" and "lapic_id t = lapic_id s" "ncpu t = ncpu s"
    "cpus t = cpus (acquired l i s)" "eflags_IF t = eflags_IF (acquired l i s)"
    "locks t = locks (acquired l i s)"
  shows "wakeup ch t = Ok () (t\<lparr>ptable := wake_tab (Some ch) (ptable t)\<rparr>)"
proof -
  have ok: "int_ok s i" by (rule calm_int_ok [OF assms(1)])
  have okt: "int_ok t i"
    using calm_acquired [OF assms(1), of l] int_ok_cong [of t "acquired l i s" i] assms by simp
  have "ncli (cpus t ! i) = ncli (cpus s ! i) + 1"
    using acquired_ncli [OF ok, of l] assms(5) by simp
  then have "pushpop i t = t" using ok by (intro pushpop_nested) (simp add: int_ok_def)
  moreover have "lock_free t L_ptable"
    using calm_lock_free [OF assms(1), of L_ptable] assms(2,7) by (simp add: lock_free_def acquired_locks)
  ultimately show ?thesis using okt by (simp add: wakeup_eq [of t i] pt_ready_def)
qed

lemma length_wake_tab [simp]: "length (wake_tab ch ps) = length ps"
  by (simp add: wake_tab_def)

lemma wake_tab_sel [simp]:
  "k < length ps \<Longrightarrow> p_pid (wake_tab ch ps ! k) = p_pid (ps ! k)"
  "k < length ps \<Longrightarrow> p_killed (wake_tab ch ps ! k) = p_killed (ps ! k)"
  "k < length ps \<Longrightarrow> p_ofile (wake_tab ch ps ! k) = p_ofile (ps ! k)"
  "k < length ps \<Longrightarrow> p_cwd (wake_tab ch ps ! k) = p_cwd (ps ! k)"
  "k < length ps \<Longrightarrow> p_pgdir (wake_tab ch ps ! k) = p_pgdir (ps ! k)"
  "k < length ps \<Longrightarrow> p_sz (wake_tab ch ps ! k) = p_sz (ps ! k)"
  by (simp_all add: wake_tab_def)

lemma sleep_running:
  assumes run: "running s i p" and n: "ncli (cpus s ! i) = 0" and l: "l \<noteq> L_ptable"
  shows "sleep ch l (acquired l i s) = Swtch (sleeping ch i p (swap_lock l i (acquired l i s)))"
proof (rule sleep_swtch [OF _ _ _ _ l])
  have ok: "int_ok s i" and free: "lock_free s L_ptable" using run by (simp_all add: running_def calm_def)
  show "int_ok (acquired l i s) i" by (rule calm_acquired [OF running_calm [OF run]])
  show "ncli (cpus (acquired l i s) ! i) = 1" unfolding acquired_ncli [OF ok] by (simp add: n)
  show "lock_free (acquired l i s) L_ptable" using free l by (simp add: acquired_locks lock_free_def)
  show "holds (acquired l i s) l i" by (simp add: acquired_locks holds_def)
  show "c_proc (cpus (acquired l i s) ! i) = Some p" "p < length (ptable (acquired l i s))"
    using run by (subst acquired_c_proc | simp add: running_def calm_def int_ok_def on_cpu_bound)+
qed

section \<open>Waking up\<close>

text \<open>
  \<open>switched_to s i p\<close>: the scheduler of CPU \<open>i\<close> has just switched to process \<open>p\<close>, holding the table
  lock and no other.  From there \<open>sleep_resume\<close> returns with the sleeper's lock held in a state
  that is otherwise calm again.
\<close>

definition switched_to :: "'z pstate_scheme \<Rightarrow> nat \<Rightarrow> nat \<Rightarrow> bool" where
  "switched_to s i p \<longleftrightarrow> may_sched s i p \<and> (\<forall>l. l \<noteq> L_ptable \<longrightarrow> lock_free s l)"

definition resumed :: "nat \<Rightarrow> nat \<Rightarrow> 'z pstate_scheme \<Rightarrow> 'z pstate_scheme" where
  "resumed i p s = released L_ptable i (upd_proc p (\<lambda>q. q\<lparr>p_chan := None\<rparr>)
     (upd_cpu i (\<lambda>k. k\<lparr>intena := saved_intena s p\<rparr>) s))"

lemma resumed_cpus:
  assumes "switched_to s i p"
  shows "cpus (resumed i p s) ! i = (cpus s ! i)\<lparr>intena := saved_intena s p, ncli := 0\<rparr>"
    and "eflags_IF (resumed i p s) = (eflags_IF s)(lapic_id s := saved_intena s p)"
proof -
  have i: "i < length (cpus s)" and n: "ncli (cpus s ! i) = 1"
    using assms by (auto simp: switched_to_def may_sched_def int_ok_def dest: on_cpu_bound)
  show "cpus (resumed i p s) ! i = (cpus s ! i)\<lparr>intena := saved_intena s p, ncli := 0\<rparr>"
    and "eflags_IF (resumed i p s) = (eflags_IF s)(lapic_id s := saved_intena s p)"
    using i n by (simp_all add: resumed_def released_def upd_proc_def upd_cpu_def)
qed

lemma resumed_running:
  assumes "switched_to s i p"
  shows "running (resumed i p s) i p" and "ncli (cpus (resumed i p s) ! i) = 0"
proof -
  note c = resumed_cpus [OF assms]
  have ok: "int_ok s i" and p: "p < length (ptable s)" "c_proc (cpus s ! i) = Some p"
    using assms by (auto simp: switched_to_def may_sched_def)
  have "on_cpu (resumed i p s) i = on_cpu s i"
    by (rule on_cpu_cong) (simp_all add: resumed_def released_def upd_proc_def upd_cpu_def map_apicid_upd)
  then have "int_ok (resumed i p s) i" using ok c by (simp add: int_ok_def)
  moreover have "lock_free (resumed i p s) l" for l
    using assms by (cases "l = L_ptable")
      (simp_all add: switched_to_def lock_free_def resumed_def released_def upd_proc_def upd_cpu_def)
  moreover have "lapic_id (resumed i p s) = lapic_id s" "length (ptable (resumed i p s)) = length (ptable s)"
    by (simp_all add: resumed_def released_def upd_proc_def upd_cpu_def)
  ultimately show "running (resumed i p s) i p" and "ncli (cpus (resumed i p s) ! i) = 0"
    using c p by (simp_all add: running_def calm_def)
qed

lemma sleep_resume_ok:
  assumes sw: "switched_to s i p" and l: "l \<noteq> L_ptable"
  shows "sleep_resume p l s = Ok () (acquired l i (resumed i p s))"
proof -
  let ?u = "upd_cpu i (\<lambda>k. k\<lparr>intena := saved_intena s p\<rparr>) s"
  let ?v = "upd_proc p (\<lambda>q. q\<lparr>p_chan := None\<rparr>) ?u"
  have ok: "int_ok s i" and n: "ncli (cpus s ! i) = 1" and h: "holds s L_ptable i" and i: "i < length (cpus s)"
    using sw by (auto simp: switched_to_def may_sched_def int_ok_def dest: on_cpu_bound)
  have off: "\<not> eflags_IF s (lapic_id s)" using ok n by (simp add: int_ok_def)
  have "on_cpu ?v i = on_cpu s i"
    by (rule on_cpu_cong) (simp_all add: upd_proc_def upd_cpu_def map_apicid_upd)
  then have okv: "int_ok ?v i" using ok n i off by (simp add: int_ok_def upd_proc_def upd_cpu_def)
  have "release L_ptable ?v = Ok () (resumed i p s)"
    unfolding resumed_def using i n h
    by (intro release_ok [OF okv]) (simp_all add: upd_proc_def upd_cpu_def holds_def)
  moreover have "sched_resume p s = Ok () ?u"
    by (simp add: sched_resume_def mycpu_ok [OF int_ok_on_cpu [OF ok] off])
  ultimately show ?thesis
    using l acquire_calm [OF running_calm [OF resumed_running(1) [OF sw]]]
    by (simp add: sleep_resume_def Let_def)
qed

section \<open>Locked sections that commute with data\<close>

lemma release_acquired: "calm s i \<Longrightarrow> release l (acquired l i s) = Ok () s"
  by (subst release_calm [of s i "acquired l i s" l]) (simp_all add: acquired_def pushed_def)

lemma acquired_ptable: "(acquired l i s)\<lparr>ptable := T\<rparr> = acquired l i (s\<lparr>ptable := T\<rparr>)"
  by (rule pstate.equality) (simp_all add: acquired_def pushed_def cong: if_cong)

lemma wakeup_section:
  "calm s i \<Longrightarrow> l \<noteq> L_ptable \<Longrightarrow>
   wakeup ch (acquired l i s) = Ok () (acquired l i (s\<lparr>ptable := wake_tab (Some ch) (ptable s)\<rparr>))"
  by (subst wakeup_acquired [of s i l]) (simp_all flip: acquired_ptable)

lemma calm_ptable [simp]: "calm (s\<lparr>ptable := T\<rparr>) i = calm s i"
  by (rule calm_cong) simp_all

lemma running_wake [simp]: "running (s\<lparr>ptable := wake_tab ch (ptable s)\<rparr>) i q = running s i q"
  by (rule running_cong) simp_all

end
