(* ===== verification/Sleeplock.thy ===== *)
theory Sleeplock
  imports Calm
begin

text \<open>
  The sleep locks of \<^verbatim>\<open>sleeplock.c\<close>.  Each one is named by the \<open>lockid\<close> of the spin lock inside
  it; \<open>slocks\<close> holds the other fields.  A process that finds the lock taken goes to sleep on it
  (outcome \<open>Swtch\<close>), and \<open>acquiresleep_resume\<close> is the rest of its \<open>acquiresleep\<close> once it is
  switched to again.
\<close>

record sleeplock =
  sl_locked :: bool
  sl_name :: string
  sl_pid :: int

record sstate = pstate +
  slocks :: "lockid \<Rightarrow> sleeplock"

definition upd_slock :: "lockid \<Rightarrow> (sleeplock \<Rightarrow> sleeplock) \<Rightarrow> 'z sstate_scheme \<Rightarrow> 'z sstate_scheme" where
  "upd_slock l f s = s\<lparr>slocks := (slocks s)(l := f (slocks s l))\<rparr>"

definition initsleeplock :: "lockid \<Rightarrow> string \<Rightarrow> 'z sstate_scheme \<Rightarrow> 'z sstate_scheme" where
  "initsleeplock l name s =
     upd_slock l (\<lambda>k. k\<lparr>sl_name := name, sl_locked := False, sl_pid := 0\<rparr>) (initlock l ''sleep lock'' s)"

text \<open>The pid of the running process, which the code reads through the pointer \<^verbatim>\<open>myproc()\<close>.\<close>

definition mypid :: "'z pstate_scheme \<Rightarrow> (int, 'z pstate_scheme) res" where
  "mypid s = bindR (myproc s) (\<lambda>po s.
     case po of None \<Rightarrow> Panic ''null myproc'' | Some p \<Rightarrow> Ok (p_pid (proc_at s p)) s)"

definition acquiresleep_loop :: "lockid \<Rightarrow> 'z sstate_scheme \<Rightarrow> (unit, 'z sstate_scheme) res" where
  "acquiresleep_loop l s =
     (if sl_locked (slocks s l) then sleep (Ch_sleeplock l) l s
      else let s = upd_slock l (\<lambda>k. k\<lparr>sl_locked := True\<rparr>) s in
        bindR (mypid s) (\<lambda>pid s.
          release l (upd_slock l (\<lambda>k. k\<lparr>sl_pid := pid\<rparr>) s)))"

definition acquiresleep :: "lockid \<Rightarrow> 'z sstate_scheme \<Rightarrow> (unit, 'z sstate_scheme) res" where
  "acquiresleep l s = bindR (acquire l s) (\<lambda>_ s. acquiresleep_loop l s)"

definition acquiresleep_resume :: "nat \<Rightarrow> lockid \<Rightarrow> 'z sstate_scheme \<Rightarrow> (unit, 'z sstate_scheme) res" where
  "acquiresleep_resume p l s = bindR (sleep_resume p l s) (\<lambda>_ s. acquiresleep_loop l s)"

definition releasesleep :: "lockid \<Rightarrow> 'z sstate_scheme \<Rightarrow> (unit, 'z sstate_scheme) res" where
  "releasesleep l s =
     bindR (acquire l s) (\<lambda>_ s.
       let s = upd_slock l (\<lambda>k. k\<lparr>sl_locked := False\<rparr>) s;
           s = upd_slock l (\<lambda>k. k\<lparr>sl_pid := 0\<rparr>) s in
       bindR (wakeup (Ch_sleeplock l) s) (\<lambda>_ s. release l s))"

definition holdingsleep :: "lockid \<Rightarrow> 'z sstate_scheme \<Rightarrow> (bool, 'z sstate_scheme) res" where
  "holdingsleep l s =
     bindR (acquire l s) (\<lambda>_ s.
       bindR (if sl_locked (slocks s l) then bindR (mypid s) (\<lambda>pid s. Ok (sl_pid (slocks s l) = pid) s)
              else Ok False s) (\<lambda>r s.
       bindR (release l s) (\<lambda>_ s. Ok r s)))"

section \<open>Closed forms\<close>

lemma acquired_slocks [simp]: "slocks (acquired l i s) = slocks s"
  by (simp add: acquired_def pushed_def)

lemma mypid_running: "running s i p \<Longrightarrow> mypid s = Ok (p_pid (proc_at s p)) s"
  by (simp add: mypid_def myproc_running)

lemma mypid_acquired:
  assumes "running s i p" and "lapic_id t = lapic_id s" "ncpu t = ncpu s"
    "cpus t = cpus (acquired l i s)" "eflags_IF t = eflags_IF (acquired l i s)" "ptable t = ptable s"
  shows "mypid t = Ok (p_pid (proc_at s p)) t"
  using myproc_acquired [OF assms(1-5)] assms(6) by (simp add: mypid_def)

lemma acquiresleep_taken:
  assumes "running s i p" and "sl_locked (slocks s l)"
  shows "acquiresleep l s = sleep (Ch_sleeplock l) l (acquired l i s)"
  using assms by (simp add: acquiresleep_def acquire_calm [OF running_calm] acquiresleep_loop_def)

lemma acquiresleep_free:
  assumes "running s i p" and "\<not> sl_locked (slocks s l)"
  shows "acquiresleep l s = Ok () (s\<lparr>slocks := (slocks s)(l := (slocks s l)\<lparr>
    sl_locked := True, sl_pid := p_pid (proc_at s p)\<rparr>)\<rparr>)"
proof -
  have c: "calm s i" by (rule running_calm [OF assms(1)])
  let ?t = "upd_slock l (\<lambda>k. k\<lparr>sl_locked := True\<rparr>) (acquired l i s)"
  have m: "mypid ?t = Ok (p_pid (proc_at s p)) ?t"
    by (rule mypid_acquired [OF assms(1)]) (simp_all add: upd_slock_def)
  let ?u = "upd_slock l (\<lambda>k. k\<lparr>sl_pid := p_pid (proc_at s p)\<rparr>) ?t"
  have "release l ?u = Ok () (?u\<lparr>locks := locks s, cpus := cpus s, eflags_IF := eflags_IF s\<rparr>)"
    by (rule release_calm [OF c]) (simp_all add: upd_slock_def)
  moreover have "?u\<lparr>locks := locks s, cpus := cpus s, eflags_IF := eflags_IF s\<rparr> =
      s\<lparr>slocks := (slocks s)(l := (slocks s l)\<lparr>sl_locked := True, sl_pid := p_pid (proc_at s p)\<rparr>)\<rparr>"
    by (simp add: upd_slock_def acquired_def pushed_def)
  ultimately show ?thesis
    using assms(2) by (simp add: acquiresleep_def acquire_calm [OF c] acquiresleep_loop_def m)
qed

lemma releasesleep_ok:
  assumes "running s i p" and "l \<noteq> L_ptable"
  shows "releasesleep l s = Ok () (s\<lparr>ptable := wake_tab (Some (Ch_sleeplock l)) (ptable s),
    slocks := (slocks s)(l := (slocks s l)\<lparr>sl_locked := False, sl_pid := 0\<rparr>)\<rparr>)"
proof -
  have c: "calm s i" by (rule running_calm [OF assms(1)])
  let ?t = "upd_slock l (\<lambda>k. k\<lparr>sl_pid := 0\<rparr>) (upd_slock l (\<lambda>k. k\<lparr>sl_locked := False\<rparr>) (acquired l i s))"
  have w: "wakeup (Ch_sleeplock l) ?t = Ok () (?t\<lparr>ptable := wake_tab (Some (Ch_sleeplock l)) (ptable ?t)\<rparr>)"
    by (rule wakeup_acquired [OF c assms(2)]) (simp_all add: upd_slock_def)
  let ?u = "?t\<lparr>ptable := wake_tab (Some (Ch_sleeplock l)) (ptable ?t)\<rparr>"
  have "release l ?u = Ok () (?u\<lparr>locks := locks s, cpus := cpus s, eflags_IF := eflags_IF s\<rparr>)"
    by (rule release_calm [OF c]) (simp_all add: upd_slock_def)
  moreover have "?u\<lparr>locks := locks s, cpus := cpus s, eflags_IF := eflags_IF s\<rparr> =
      s\<lparr>ptable := wake_tab (Some (Ch_sleeplock l)) (ptable s),
        slocks := (slocks s)(l := (slocks s l)\<lparr>sl_locked := False, sl_pid := 0\<rparr>)\<rparr>"
    by (rule sstate.equality) (simp_all add: upd_slock_def acquired_def pushed_def)
  ultimately show ?thesis by (simp add: releasesleep_def acquire_calm [OF c] w)
qed

lemma holdingsleep_ok:
  assumes "running s i p"
  shows "holdingsleep l s =
    Ok (sl_locked (slocks s l) \<and> sl_pid (slocks s l) = p_pid (proc_at s p)) s"
proof -
  have c: "calm s i" by (rule running_calm [OF assms(1)])
  let ?t = "acquired l i s"
  have m: "mypid ?t = Ok (p_pid (proc_at s p)) ?t"
    by (rule mypid_acquired [OF assms(1)]) simp_all
  have "release l ?t = Ok () (?t\<lparr>locks := locks s, cpus := cpus s, eflags_IF := eflags_IF s\<rparr>)"
    by (rule release_calm [OF c]) simp_all
  moreover have "?t\<lparr>locks := locks s, cpus := cpus s, eflags_IF := eflags_IF s\<rparr> = s"
    by (simp add: acquired_def pushed_def)
  ultimately show ?thesis by (cases "sl_locked (slocks s l)") (auto simp: holdingsleep_def acquire_calm [OF c] m)
qed

end
