(* ===== verification/Dll.thy ===== *)
theory Dll
  imports Main
begin

text \<open>
  Circular doubly linked lists, as \<^verbatim>\<open>bio.c\<close> keeps its buffers: \<open>nseg f a xs c\<close> says that
  following the links \<open>f\<close> from \<open>a\<close> visits \<open>xs\<close> and then reaches \<open>c\<close>, and \<open>dll\<close> relates the two
  link functions of a list with head \<open>h\<close> to the list of its nodes.
\<close>

fun nseg :: "('a \<Rightarrow> 'a) \<Rightarrow> 'a \<Rightarrow> 'a list \<Rightarrow> 'a \<Rightarrow> bool" where
  "nseg f a [] c \<longleftrightarrow> f a = c"
| "nseg f a (x # xs) c \<longleftrightarrow> f a = x \<and> nseg f x xs c"

definition dll :: "('a \<Rightarrow> 'a) \<Rightarrow> ('a \<Rightarrow> 'a) \<Rightarrow> 'a \<Rightarrow> 'a list \<Rightarrow> bool" where
  "dll nx pv h xs \<longleftrightarrow> nseg nx h xs h \<and> nseg pv h (rev xs) h \<and> distinct (h # xs)"

lemma nseg_append: "nseg f a (xs @ y # ys) c \<longleftrightarrow> nseg f a xs y \<and> nseg f y ys c"
  by (induction xs arbitrary: a) auto

lemma nseg_frame: "(\<And>x. x \<in> set (a # xs) \<Longrightarrow> g x = f x) \<Longrightarrow> nseg f a xs c \<Longrightarrow> nseg g a xs c"
  by (induction xs arbitrary: a) auto

lemma nseg_first: "nseg f a xs c \<Longrightarrow> f a = hd (xs @ [c])"
  by (cases xs) auto

lemma nseg_retarget: "nseg f a xs c \<Longrightarrow> distinct (a # xs) \<Longrightarrow> nseg (f(last (a # xs) := d)) a xs d"
proof (induction xs arbitrary: a)
  case (Cons x xs)
  have "last (a # x # xs) = last (x # xs)" by simp
  moreover have "last (x # xs) \<in> set (x # xs)" by (rule last_in_set) simp
  with Cons.prems(2) have "last (x # xs) \<noteq> a" by auto
  ultimately show ?case using Cons by simp
qed simp

lemma nseg_remove:
  assumes "nseg f h (ys @ b # zs) h" and "distinct (h # ys @ b # zs)"
  shows "nseg (f(last (h # ys) := f b)) h (ys @ zs) h"
proof -
  let ?g = "f(last (h # ys) := f b)"
  have s: "nseg f h ys b" "nseg f b zs h" using assms(1) by (simp_all add: nseg_append)
  have l: "last (h # ys) \<in> set (h # ys)" by (rule last_in_set) simp
  have g: "nseg ?g h ys (f b)" by (rule nseg_retarget [OF s(1)]) (use assms(2) in simp)
  show ?thesis
  proof (cases zs)
    case Nil
    then show ?thesis using g s by simp
  next
    case (Cons z zs')
    then have "f b = z" "nseg f z zs' h" using s(2) by simp_all
    moreover have "nseg ?g z zs' h"
      by (rule nseg_frame [OF _ calculation(2)]) (use assms(2) l Cons in auto)
    ultimately show ?thesis using g Cons by (simp add: nseg_append)
  qed
qed

lemma dll_links:
  assumes "dll nx pv h (ys @ b # zs)"
  shows "nx b = hd (zs @ [h])" and "pv b = last (h # ys)"
proof -
  have "nseg nx b zs h" and "nseg pv b (rev ys) h" using assms by (auto simp: dll_def nseg_append)
  from nseg_first [OF this(1)] nseg_first [OF this(2)]
  show "nx b = hd (zs @ [h])" and "pv b = last (h # ys)" by (auto simp: last_rev [symmetric])
qed

lemma dll_step_mem:
  assumes "dll nx pv h xs" and "a \<in> set (h # xs)"
  shows "nx a \<in> set (h # xs)" and "pv a \<in> set (h # xs)"
proof -
  have "nx a \<in> set (h # xs) \<and> pv a \<in> set (h # xs)"
  proof (cases "a = h")
    case True
    have "nx h = hd (xs @ [h])" "pv h = hd (rev xs @ [h])"
      using nseg_first [of nx h xs h] nseg_first [of pv h "rev xs" h] assms(1) by (simp_all add: dll_def)
    moreover have "hd (xs @ [h]) \<in> set (xs @ [h])" "hd (rev xs @ [h]) \<in> set (rev xs @ [h])"
      using hd_in_set [of "xs @ [h]"] hd_in_set [of "rev xs @ [h]"] by blast+
    ultimately have "nx h \<in> set (xs @ [h])" "pv h \<in> set (rev xs @ [h])" by metis+
    with True show ?thesis by simp
  next
    case False
    then obtain ys zs where xs: "xs = ys @ a # zs" using assms(2) by (metis set_ConsD split_list)
    have "nx a = hd (zs @ [h])" "pv a = last (h # ys)"
      using dll_links [of nx pv h ys a zs] assms(1) xs by simp_all
    moreover have "hd (zs @ [h]) \<in> set (zs @ [h])" by (rule hd_in_set) simp
    moreover have "last (h # ys) \<in> set (h # ys)" by (rule last_in_set) simp
    ultimately have "nx a \<in> set (zs @ [h])" "pv a \<in> set (h # ys)" by metis+
    with xs show ?thesis by auto
  qed
  then show "nx a \<in> set (h # xs)" and "pv a \<in> set (h # xs)" by simp_all
qed

text \<open>Unlinking a node, and inserting one after the head.\<close>

lemma dll_remove:
  assumes "dll nx pv h (ys @ b # zs)"
  shows "dll (nx(pv b := nx b)) (pv(nx b := pv b)) h (ys @ zs)"
proof -
  have n: "nx b = last (h # rev zs)" and p: "pv b = last (h # ys)"
    using dll_links [OF assms] by (cases zs; simp)+
  have d: "distinct (h # ys @ b # zs)" using assms by (simp add: dll_def)
  have "nseg (nx(pv b := nx b)) h (ys @ zs) h"
    unfolding p by (rule nseg_remove) (use assms d in \<open>simp_all add: dll_def\<close>)
  moreover have "nseg (pv(nx b := pv b)) h (rev zs @ rev ys) h"
    unfolding n by (rule nseg_remove) (use assms d in \<open>auto simp: dll_def\<close>)
  ultimately show ?thesis using d by (simp add: dll_def)
qed

lemma dll_insert:
  assumes "dll nx pv h xs" and "b \<notin> set (h # xs)"
  shows "dll (nx(b := nx h, h := b)) (pv(b := h, nx h := b)) h (b # xs)"
proof -
  let ?nx = "nx(b := nx h, h := b)" and ?pv = "pv(b := h, nx h := b)"
  have f: "nx h = hd (xs @ [h])" using nseg_first [of nx h xs h] assms(1) by (simp add: dll_def)
  have nb: "nx h \<noteq> b" unfolding f using assms(2) by (cases xs) auto
  have "nseg ?nx b xs h"
  proof (cases xs)
    case Nil
    then show ?thesis using assms f by auto
  next
    case (Cons x xs')
    then have "nseg nx x xs' h" using assms(1) by (simp add: dll_def)
    then have "nseg ?nx x xs' h" by (rule nseg_frame [rotated]) (use assms Cons in \<open>auto simp: dll_def\<close>)
    then show ?thesis using Cons f assms(2) by auto
  qed
  moreover have "nseg ?pv h (rev xs) b"
  proof -
    have l: "last (h # rev xs) = nx h" unfolding f by (cases xs) auto
    have "nseg (pv(last (h # rev xs) := b)) h (rev xs) b"
      by (rule nseg_retarget) (use assms in \<open>auto simp: dll_def\<close>)
    then have "nseg (pv(nx h := b)) h (rev xs) b" by (simp only: l)
    then show ?thesis by (rule nseg_frame [rotated]) (use assms(2) in auto)
  qed
  ultimately show ?thesis using assms nb by (auto simp: dll_def nseg_append)
qed

end
