(* ===== verification/Bio.thy ===== *)
theory Bio
  imports Sleeplock Dll
begin

text \<open>
  The buffer cache of \<^verbatim>\<open>bio.c\<close> over the synchronous disk driver of \<^verbatim>\<open>memide.c\<close>.  A pointer to
  a buffer is its index in \<^verbatim>\<open>bcache.buf\<close>, and \<open>NBUF\<close> stands for the list head
  \<^verbatim>\<open>bcache.head\<close>, so the doubly linked recency list is kept by its links as in the code.  The two
  bits of \<^verbatim>\<open>flags\<close> are booleans.  \<open>dwrites\<close> is the history of block writes the disk has seen.
\<close>

section \<open>State\<close>

record buf =
  b_valid :: bool
  b_dirty :: bool
  b_dev :: nat
  b_blockno :: nat
  b_refcnt :: u32
  b_prev :: nat
  b_next :: nat
  b_data :: "byte list"

record bstate = sstate +
  bufs :: "buf list"
  bhead_prev :: nat
  bhead_next :: nat
  disk :: "nat \<Rightarrow> byte list"
  disksize :: nat
  dwrites :: "(nat \<times> byte list) list"

definition BSIZE :: nat where "BSIZE = 512"
definition MAXOPBLOCKS :: nat where "MAXOPBLOCKS = 10"
definition LOGSIZE :: nat where "LOGSIZE = MAXOPBLOCKS * 3"
definition NBUF :: nat where "NBUF = MAXOPBLOCKS * 3"
definition ROOTDEV :: nat where "ROOTDEV = 1"

definition upd_buf :: "nat \<Rightarrow> (buf \<Rightarrow> buf) \<Rightarrow> 'z bstate_scheme \<Rightarrow> 'z bstate_scheme" where
  "upd_buf b f s = s\<lparr>bufs := upd_nth b f (bufs s)\<rparr>"

abbreviation buf_at :: "'z bstate_scheme \<Rightarrow> nat \<Rightarrow> buf" where
  "buf_at s b \<equiv> bufs s ! b"

text \<open>Reading and writing the links of a buffer or of the list head.\<close>

definition bnext :: "'z bstate_scheme \<Rightarrow> nat \<Rightarrow> nat" where
  "bnext s b = (if b = NBUF then bhead_next s else b_next (buf_at s b))"

definition bprev :: "'z bstate_scheme \<Rightarrow> nat \<Rightarrow> nat" where
  "bprev s b = (if b = NBUF then bhead_prev s else b_prev (buf_at s b))"

definition set_bnext :: "nat \<Rightarrow> nat \<Rightarrow> 'z bstate_scheme \<Rightarrow> 'z bstate_scheme" where
  "set_bnext b v s = (if b = NBUF then s\<lparr>bhead_next := v\<rparr> else upd_buf b (\<lambda>x. x\<lparr>b_next := v\<rparr>) s)"

definition set_bprev :: "nat \<Rightarrow> nat \<Rightarrow> 'z bstate_scheme \<Rightarrow> 'z bstate_scheme" where
  "set_bprev b v s = (if b = NBUF then s\<lparr>bhead_prev := v\<rparr> else upd_buf b (\<lambda>x. x\<lparr>b_prev := v\<rparr>) s)"

section \<open>The driver\<close>

definition iderw :: "nat \<Rightarrow> 'z bstate_scheme \<Rightarrow> (unit, 'z bstate_scheme) res" where
  "iderw b s =
     bindR (holdingsleep (L_bufsleep b) s) (\<lambda>h s.
       if \<not> h then Panic ''iderw: buf not locked''
       else if b_valid (buf_at s b) \<and> \<not> b_dirty (buf_at s b) then Panic ''iderw: nothing to do''
       else if b_dev (buf_at s b) \<noteq> 1 then Panic ''iderw: request not for disk 1''
       else if b_blockno (buf_at s b) \<ge> disksize s then Panic ''iderw: block out of range''
       else let n = b_blockno (buf_at s b);
         s = (if b_dirty (buf_at s b)
              then let s = upd_buf b (\<lambda>x. x\<lparr>b_dirty := False\<rparr>) s; d = b_data (buf_at s b) in
                s\<lparr>disk := (disk s)(n := d), dwrites := dwrites s @ [(n, d)]\<rparr>
              else upd_buf b (\<lambda>x. x\<lparr>b_data := disk s n\<rparr>) s) in
         Ok () (upd_buf b (\<lambda>x. x\<lparr>b_valid := True\<rparr>) s))"

section \<open>The cache\<close>

definition binsert :: "nat \<Rightarrow> 'z bstate_scheme \<Rightarrow> 'z bstate_scheme" where
  "binsert b s =
     (let s = set_bnext b (bhead_next s) s;
          s = set_bprev b NBUF s;
          s = set_bprev (bhead_next s) b s
      in s\<lparr>bhead_next := b\<rparr>)"

definition binit_step :: "nat \<Rightarrow> 'z bstate_scheme \<Rightarrow> 'z bstate_scheme" where
  "binit_step b s =
     (let s = set_bnext b (bhead_next s) s;
          s = set_bprev b NBUF s;
          s = initsleeplock (L_bufsleep b) ''buffer'' s;
          s = set_bprev (bhead_next s) b s
      in s\<lparr>bhead_next := b\<rparr>)"

definition binit :: "'z bstate_scheme \<Rightarrow> 'z bstate_scheme" where
  "binit s =
     (let s = initlock L_bcache ''bcache'' s;
          s = s\<lparr>bhead_prev := NBUF\<rparr>;
          s = s\<lparr>bhead_next := NBUF\<rparr>
      in fold binit_step [0..<NBUF] s)"

text \<open>
  The two loops of \<open>bget\<close> over the recency list: \<open>None\<close> if a loop does not end, otherwise the
  buffer it stops at, or \<open>Some None\<close> when it has come back to the head.
\<close>

partial_function (option) scan_next :: "(buf \<Rightarrow> bool) \<Rightarrow> buf list \<Rightarrow> nat \<Rightarrow> nat option option" where
  "scan_next P bs b =
     (if b = NBUF then Some None else if P (bs ! b) then Some (Some b) else scan_next P bs (b_next (bs ! b)))"

partial_function (option) scan_prev :: "(buf \<Rightarrow> bool) \<Rightarrow> buf list \<Rightarrow> nat \<Rightarrow> nat option option" where
  "scan_prev P bs b =
     (if b = NBUF then Some None else if P (bs ! b) then Some (Some b) else scan_prev P bs (b_prev (bs ! b)))"

definition bget_locked :: "nat \<Rightarrow> 'z bstate_scheme \<Rightarrow> (nat, 'z bstate_scheme) res" where
  "bget_locked b s =
     bindR (release L_bcache s) (\<lambda>_ s. bindR (acquiresleep (L_bufsleep b) s) (\<lambda>_ s. Ok b s))"

definition bget :: "nat \<Rightarrow> nat \<Rightarrow> 'z bstate_scheme \<Rightarrow> (nat, 'z bstate_scheme) res" where
  "bget dev blockno s =
     bindR (acquire L_bcache s) (\<lambda>_ s.
       case scan_next (\<lambda>x. b_dev x = dev \<and> b_blockno x = blockno) (bufs s) (bhead_next s) of
         None \<Rightarrow> Spin s
       | Some (Some b) \<Rightarrow> bget_locked b (upd_buf b (\<lambda>x. x\<lparr>b_refcnt := b_refcnt x + 1\<rparr>) s)
       | Some None \<Rightarrow>
         (case scan_prev (\<lambda>x. b_refcnt x = 0 \<and> \<not> b_dirty x) (bufs s) (bhead_prev s) of
            None \<Rightarrow> Spin s
          | Some (Some b) \<Rightarrow> bget_locked b (upd_buf b (\<lambda>x. x\<lparr>b_dev := dev, b_blockno := blockno,
              b_valid := False, b_dirty := False, b_refcnt := 1\<rparr>) s)
          | Some None \<Rightarrow> Panic ''bget: no buffers''))"

definition bread :: "nat \<Rightarrow> nat \<Rightarrow> 'z bstate_scheme \<Rightarrow> (nat, 'z bstate_scheme) res" where
  "bread dev blockno s =
     bindR (bget dev blockno s) (\<lambda>b s.
       bindR (if \<not> b_valid (buf_at s b) then iderw b s else Ok () s) (\<lambda>_ s. Ok b s))"

definition bwrite :: "nat \<Rightarrow> 'z bstate_scheme \<Rightarrow> (unit, 'z bstate_scheme) res" where
  "bwrite b s =
     bindR (holdingsleep (L_bufsleep b) s) (\<lambda>h s.
       if \<not> h then Panic ''bwrite''
       else iderw b (upd_buf b (\<lambda>x. x\<lparr>b_dirty := True\<rparr>) s))"

text \<open>The section of \<open>brelse\<close> under the cache lock.\<close>

definition brelse_lru :: "nat \<Rightarrow> 'z bstate_scheme \<Rightarrow> 'z bstate_scheme" where
  "brelse_lru b s =
     (let s = upd_buf b (\<lambda>x. x\<lparr>b_refcnt := b_refcnt x - 1\<rparr>) s in
      if b_refcnt (buf_at s b) = 0
      then let s = set_bprev (bnext s b) (bprev s b) s;
               s = set_bnext (bprev s b) (bnext s b) s in
        binsert b s
      else s)"

definition brelse :: "nat \<Rightarrow> 'z bstate_scheme \<Rightarrow> (unit, 'z bstate_scheme) res" where
  "brelse b s =
     bindR (holdingsleep (L_bufsleep b) s) (\<lambda>h s.
       if \<not> h then Panic ''brelse''
       else bindR (releasesleep (L_bufsleep b) s) (\<lambda>_ s.
         bindR (acquire L_bcache s) (\<lambda>_ s. release L_bcache (brelse_lru b s))))"

section \<open>The recency list\<close>

definition lru :: "'z bstate_scheme \<Rightarrow> nat list \<Rightarrow> bool" where
  "lru s xs \<longleftrightarrow> dll (bnext s) (bprev s) NBUF xs \<and> set xs = {..<NBUF} \<and> length (bufs s) = NBUF"

lemma link_simps:
  assumes "length (bufs s) = NBUF" and "a \<le> NBUF"
  shows "bnext (set_bnext a v s) = (bnext s)(a := v)" "bprev (set_bnext a v s) = bprev s"
    "bprev (set_bprev a v s) = (bprev s)(a := v)" "bnext (set_bprev a v s) = bnext s"
    "length (bufs (set_bnext a v s)) = NBUF" "length (bufs (set_bprev a v s)) = NBUF"
  using assms
  by (auto simp: fun_eq_iff bnext_def bprev_def set_bnext_def set_bprev_def upd_buf_def upd_nth_def
      nth_list_update)

lemma upd_nth_field: "(\<And>x. g (f x) = g x) \<Longrightarrow> g (upd_nth b f xs ! x) = g (xs ! x)"
  by (cases "b < length xs"; cases "b = x") (auto simp: upd_nth_def list_update_beyond)

lemma link_upd_buf:
  assumes "\<And>x. b_next (f x) = b_next x" and "\<And>x. b_prev (f x) = b_prev x"
  shows "bnext (upd_buf b f s) = bnext s" "bprev (upd_buf b f s) = bprev s"
  using assms by (auto simp: fun_eq_iff bnext_def bprev_def upd_buf_def upd_nth_field)

lemma bhead_next_bnext: "bhead_next s = bnext s NBUF"
  by (simp add: bnext_def)

lemma lru_upd_buf:
  assumes "\<And>x. b_next (f x) = b_next x" and "\<And>x. b_prev (f x) = b_prev x"
  shows "lru (upd_buf b f s) xs = lru s xs"
  by (simp add: lru_def link_upd_buf [OF assms]) (simp add: upd_buf_def)

lemma binsert_lru:
  assumes "dll (bnext s) (bprev s) NBUF xs" and "b < NBUF" and "b \<notin> set xs" and "length (bufs s) = NBUF"
    and "bnext s NBUF \<le> NBUF"
  shows "dll (bnext (binsert b s)) (bprev (binsert b s)) NBUF (b # xs)"
    and "length (bufs (binsert b s)) = NBUF"
proof -
  let ?s1 = "set_bnext b (bhead_next s) s"
  let ?s2 = "set_bprev b NBUF ?s1"
  let ?s3 = "set_bprev (bhead_next ?s2) b ?s2"
  have b: "b \<le> NBUF" "b \<noteq> NBUF" using assms(2) by auto
  have l1: "length (bufs ?s1) = NBUF" "bnext ?s1 = (bnext s)(b := bnext s NBUF)" "bprev ?s1 = bprev s"
    using link_simps [OF assms(4) b(1)] by (simp_all add: bhead_next_bnext)
  have l2: "length (bufs ?s2) = NBUF" "bnext ?s2 = (bnext s)(b := bnext s NBUF)" "bprev ?s2 = (bprev s)(b := NBUF)"
    using link_simps [OF l1(1) b(1)] l1 by simp_all
  have h: "bhead_next ?s2 = bnext s NBUF" using l2(2) b by (simp add: bhead_next_bnext)
  have l3: "length (bufs ?s3) = NBUF" "bnext ?s3 = (bnext s)(b := bnext s NBUF)"
    "bprev ?s3 = (bprev s)(b := NBUF, bnext s NBUF := b)"
    using link_simps [OF l2(1) assms(5)] l2 h by simp_all
  have e: "binsert b s = ?s3\<lparr>bhead_next := b\<rparr>" by (simp add: binsert_def Let_def)
  have "bnext (?s3\<lparr>bhead_next := b\<rparr>) = (bnext ?s3)(NBUF := b)" "bprev (?s3\<lparr>bhead_next := b\<rparr>) = bprev ?s3"
    by (auto simp: fun_eq_iff bnext_def bprev_def)
  then show "dll (bnext (binsert b s)) (bprev (binsert b s)) NBUF (b # xs)"
    unfolding e l3 using dll_insert [OF assms(1), of b] assms(2,3) by simp
  show "length (bufs (binsert b s)) = NBUF" unfolding e using l3(1) by simp
qed

lemma brelse_lru_front:
  assumes "lru s xs" and "b < NBUF" and "b_refcnt (buf_at s b) = 1"
  shows "lru (brelse_lru b s) (b # remove1 b xs)"
proof -
  define u where "u = upd_buf b (\<lambda>x. x\<lparr>b_refcnt := b_refcnt x - 1\<rparr>) s"
  define v where "v = set_bprev (bnext u b) (bprev u b) u"
  define w where "w = set_bnext (bprev v b) (bnext v b) v"
  have u: "lru u xs" using assms(1) by (simp add: u_def lru_upd_buf)
  then have len: "length (bufs u) = NBUF" and d: "dll (bnext u) (bprev u) NBUF xs" and set: "set xs = {..<NBUF}"
    by (simp_all add: lru_def)
  have r: "b_refcnt (buf_at u b) = 0"
    using assms len by (simp add: u_def upd_buf_def)
  have bx: "b \<in> set xs" using assms(2) set by simp
  then obtain ys zs where xs: "xs = ys @ b # zs" by (meson split_list)
  have "b \<in> set (NBUF # xs)" using bx by simp
  from dll_step_mem [OF d this] have "bnext u b = NBUF \<or> bnext u b < NBUF" "bprev u b = NBUF \<or> bprev u b < NBUF"
    unfolding list.set insert_iff set lessThan_iff .
  then have nb: "bnext u b \<le> NBUF" "bprev u b \<le> NBUF" by (simp_all add: le_less disj_commute)
  have bn: "b \<notin> set (ys @ zs)" using d xs by (auto simp: dll_def)
  have ne: "bnext u b \<noteq> b"
  proof
    assume eq: "bnext u b = b"
    have "bnext u b = hd (zs @ [NBUF])" by (rule dll_links(1) [OF d [unfolded xs]])
    then have "b \<in> set (zs @ [NBUF])" using eq hd_in_set [of "zs @ [NBUF]"] by simp
    then show False using bn assms(2) by simp
  qed
  have v: "length (bufs v) = NBUF" "bnext v = bnext u" "bprev v = (bprev u)(bnext u b := bprev u b)"
    unfolding v_def by (rule link_simps [OF len nb(1)])+
  have pv: "bprev v b = bprev u b" using v(3) ne by simp
  have w: "length (bufs w) = NBUF" "bnext w = (bnext u)(bprev u b := bnext u b)"
    "bprev w = (bprev u)(bnext u b := bprev u b)"
    unfolding w_def pv using link_simps [OF v(1) nb(2)] by (simp_all add: v)
  have dw: "dll (bnext w) (bprev w) NBUF (ys @ zs)"
    unfolding w(2,3) by (rule dll_remove [OF d [unfolded xs]])
  have rm: "remove1 b xs = ys @ zs" using bn xs by (simp add: remove1_append)
  have "bnext w NBUF \<in> set (NBUF # ys @ zs)" by (rule dll_step_mem(1) [OF dw]) simp
  moreover have "set (ys @ zs) \<subseteq> {..<NBUF}" using set xs by auto
  ultimately have "bnext w NBUF \<le> NBUF" by auto
  note ins = binsert_lru [OF dw assms(2) bn w(1) this]
  have "brelse_lru b s = binsert b w"
    using r by (simp add: brelse_lru_def Let_def u_def [symmetric] v_def [symmetric] w_def [symmetric])
  moreover have "set (b # ys @ zs) = {..<NBUF}" using set xs by auto
  ultimately show ?thesis using ins rm by (simp only: lru_def)
qed

end
