(* ===== verification/Bcache.thy ===== *)
theory Bcache
  imports Bio
begin

text \<open>
  Correctness of the buffer cache.  \<open>blk s n\<close> is the content of block \<open>n\<close> as a reader sees it:
  the cached copy if there is one, the disk's otherwise.  \<open>binv s i p H\<close> is the invariant of the
  cache while process \<open>p\<close> runs on CPU \<open>i\<close> and holds the buffers \<open>H\<close>.  Under it \<open>bread\<close>,
  \<open>bwrite\<close> and \<open>brelse\<close> return and leave \<open>blk\<close> unchanged, so only a caller that writes into a
  buffer it holds changes the content of a block.
\<close>

section \<open>Definitions\<close>

definition blk :: "'z bstate_scheme \<Rightarrow> nat \<Rightarrow> byte list" where
  "blk s n = (case first_idx (\<lambda>x. b_valid x \<and> b_dev x = ROOTDEV \<and> b_blockno x = n) (bufs s) of
     Some b \<Rightarrow> b_data (buf_at s b) | None \<Rightarrow> disk s n)"

definition buf_ok :: "'z bstate_scheme \<Rightarrow> int \<Rightarrow> nat set \<Rightarrow> nat \<Rightarrow> bool" where
  "buf_ok s pid H b \<longleftrightarrow>
     length (b_data (buf_at s b)) = BSIZE \<and> (b_dirty (buf_at s b) \<longrightarrow> b_valid (buf_at s b)) \<and>
     (b_valid (buf_at s b) \<longrightarrow> b_dev (buf_at s b) = ROOTDEV \<and> b_blockno (buf_at s b) < disksize s) \<and>
     (b \<in> H \<longrightarrow> b_refcnt (buf_at s b) = 1 \<and> b_valid (buf_at s b) \<and>
        sl_locked (slocks s (L_bufsleep b)) \<and> sl_pid (slocks s (L_bufsleep b)) = pid) \<and>
     (b \<notin> H \<longrightarrow> b_refcnt (buf_at s b) = 0 \<and> \<not> sl_locked (slocks s (L_bufsleep b)) \<and>
        (b_valid (buf_at s b) \<and> \<not> b_dirty (buf_at s b) \<longrightarrow>
           b_data (buf_at s b) = disk s (b_blockno (buf_at s b))))"

definition buf_uniq :: "buf list \<Rightarrow> bool" where
  "buf_uniq bs \<longleftrightarrow> (\<forall>a < NBUF. \<forall>b < NBUF. b_dev (bs ! a) = ROOTDEV \<longrightarrow> b_dev (bs ! b) = ROOTDEV \<longrightarrow>
     b_blockno (bs ! a) = b_blockno (bs ! b) \<longrightarrow> a = b)"

definition binv :: "'z bstate_scheme \<Rightarrow> nat \<Rightarrow> nat \<Rightarrow> nat set \<Rightarrow> bool" where
  "binv s i p H \<longleftrightarrow> running s i p \<and> (\<exists>xs. lru s xs) \<and> H \<subseteq> {..<NBUF} \<and>
     (\<forall>b < NBUF. buf_ok s (p_pid (proc_at s p)) H b) \<and> buf_uniq (bufs s) \<and> (\<forall>n. length (disk s n) = BSIZE)"

definition dirtyb :: "'z bstate_scheme \<Rightarrow> nat set" where
  "dirtyb s = {b. b < NBUF \<and> b_dirty (buf_at s b)}"

definition dirty_blocks :: "'z bstate_scheme \<Rightarrow> nat set" where
  "dirty_blocks s = (\<lambda>b. b_blockno (buf_at s b)) ` dirtyb s"

definition ptab_sim :: "proc list \<Rightarrow> proc list \<Rightarrow> bool" where
  "ptab_sim ps qs \<longleftrightarrow> length qs = length ps \<and>
     (\<forall>k < length ps. qs ! k = (ps ! k)\<lparr>p_state := p_state (qs ! k)\<rparr>)"

definition cupd :: "'z bstate_scheme \<Rightarrow> 'z bstate_scheme \<Rightarrow> 'z bstate_scheme" where
  "cupd s t = s\<lparr>ptable := ptable t, slocks := slocks t, bufs := bufs t, bhead_prev := bhead_prev t,
     bhead_next := bhead_next t, disk := disk t, dwrites := dwrites t\<rparr>"

definition cframe :: "'z bstate_scheme \<Rightarrow> 'z bstate_scheme \<Rightarrow> bool" where
  "cframe s t \<longleftrightarrow> ptab_sim (ptable s) (ptable t) \<and> t = cupd s t"

section \<open>Frames\<close>

lemma ptab_sim_refl [simp]: "ptab_sim ps ps"
  by (simp add: ptab_sim_def)

lemma ptab_sim_trans: "ptab_sim ps qs \<Longrightarrow> ptab_sim qs rs \<Longrightarrow> ptab_sim ps rs"
  unfolding ptab_sim_def
proof (intro conjI allI impI; elim conjE)
  fix k
  assume a: "\<forall>k<length ps. qs ! k = (ps ! k)\<lparr>p_state := p_state (qs ! k)\<rparr>" "length qs = length ps"
    "\<forall>k<length qs. rs ! k = (qs ! k)\<lparr>p_state := p_state (rs ! k)\<rparr>" "k < length ps"
  then have q: "qs ! k = (ps ! k)\<lparr>p_state := p_state (qs ! k)\<rparr>" and r: "rs ! k = (qs ! k)\<lparr>p_state := p_state (rs ! k)\<rparr>"
    by simp_all
  show "rs ! k = (ps ! k)\<lparr>p_state := p_state (rs ! k)\<rparr>"
    by (subst r, subst q) simp
qed simp

lemma ptab_sim_wake [simp]: "ptab_sim ps (wake_tab ch ps)"
  by (simp add: ptab_sim_def wake_tab_def)

lemma ptab_sim_sel:
  assumes "ptab_sim ps qs" and "k < length ps"
  shows "p_pid (qs ! k) = p_pid (ps ! k)" "p_pgdir (qs ! k) = p_pgdir (ps ! k)" "p_sz (qs ! k) = p_sz (ps ! k)"
    "p_ofile (qs ! k) = p_ofile (ps ! k)" "p_cwd (qs ! k) = p_cwd (ps ! k)" "p_killed (qs ! k) = p_killed (ps ! k)"
proof -
  have e: "qs ! k = (ps ! k)\<lparr>p_state := p_state (qs ! k)\<rparr>" using assms by (simp add: ptab_sim_def)
  show "p_pid (qs ! k) = p_pid (ps ! k)" "p_pgdir (qs ! k) = p_pgdir (ps ! k)" "p_sz (qs ! k) = p_sz (ps ! k)"
    "p_ofile (qs ! k) = p_ofile (ps ! k)" "p_cwd (qs ! k) = p_cwd (ps ! k)" "p_killed (qs ! k) = p_killed (ps ! k)"
    by (subst e, simp)+
qed

lemma cframe_refl [simp]: "cframe s s"
  by (simp add: cframe_def cupd_def)

lemma cframe_trans:
  assumes "cframe s t" and "cframe t u"
  shows "cframe s u"
proof -
  have t: "t = cupd s t" and u: "u = cupd t u" using assms by (simp_all add: cframe_def)
  have "u = cupd (cupd s t) u" by (subst t [symmetric]) (rule u)
  also have "\<dots> = cupd s u" by (simp add: cupd_def)
  finally show ?thesis using assms ptab_sim_trans by (auto simp: cframe_def)
qed

lemma cframe_sel:
  assumes "cframe s t"
  shows "lapic_id t = lapic_id s" "ncpu t = ncpu s" "cpus t = cpus s" "eflags_IF t = eflags_IF s"
    "locks t = locks s" "mem t = mem s" "disksize t = disksize s" "length (ptable t) = length (ptable s)"
    "bstate.more t = bstate.more s"
proof -
  have e: "t = cupd s t" using assms by (simp add: cframe_def)
  show "lapic_id t = lapic_id s" "ncpu t = ncpu s" "cpus t = cpus s" "eflags_IF t = eflags_IF s"
    "locks t = locks s" "mem t = mem s" "disksize t = disksize s" "bstate.more t = bstate.more s"
    by (subst e, simp add: cupd_def)+
  show "length (ptable t) = length (ptable s)" using assms by (simp add: cframe_def ptab_sim_def)
qed

lemma cframe_running: "cframe s t \<Longrightarrow> running s i p \<Longrightarrow> running t i p"
  using running_cong [of t s i p] cframe_sel [of s t] by simp

lemma cframe_pid: "cframe s t \<Longrightarrow> p < length (ptable s) \<Longrightarrow> p_pid (proc_at t p) = p_pid (proc_at s p)"
  by (auto simp: cframe_def intro: ptab_sim_sel)

section \<open>Block contents\<close>

lemma blk_cached:
  assumes "buf_uniq (bufs s)" and "length (bufs s) = NBUF" and "b < NBUF" and "b_valid (buf_at s b)"
    and "b_dev (buf_at s b) = ROOTDEV"
  shows "blk s (b_blockno (buf_at s b)) = b_data (buf_at s b)"
proof -
  have "first_idx (\<lambda>x. b_valid x \<and> b_dev x = ROOTDEV \<and> b_blockno x = b_blockno (buf_at s b)) (bufs s) = Some b"
    unfolding first_idx_Some
  proof (intro conjI allI impI notI)
    fix j assume "j < b" and "b_valid (buf_at s j) \<and> b_dev (buf_at s j) = ROOTDEV \<and>
      b_blockno (buf_at s j) = b_blockno (buf_at s b)"
    then have "j = b" using assms unfolding buf_uniq_def by (metis order_less_trans)
    with \<open>j < b\<close> show False by simp
  qed (use assms in auto)
  then show ?thesis by (simp add: blk_def)
qed

lemma blk_uncached:
  assumes "length (bufs s) = NBUF"
    and "\<And>b. b < NBUF \<Longrightarrow> b_valid (buf_at s b) \<Longrightarrow> b_dev (buf_at s b) = ROOTDEV \<Longrightarrow> b_blockno (buf_at s b) \<noteq> n"
  shows "blk s n = disk s n"
proof -
  have "first_idx (\<lambda>x. b_valid x \<and> b_dev x = ROOTDEV \<and> b_blockno x = n) (bufs s) = None"
    using assms unfolding first_idx_None by (metis in_set_conv_nth)
  then show ?thesis by (simp add: blk_def)
qed


text \<open>
  The content of every block is unchanged by a step that keeps the valid buffers' contents, apart
  from buffers whose content is the disk's.
\<close>

lemma blk_same:
  assumes "buf_uniq (bufs s)" "buf_uniq (bufs t)" "length (bufs s) = NBUF" "length (bufs t) = NBUF"
    and "disk t = disk s"
    and st: "\<And>b. b < NBUF \<Longrightarrow> b_valid (buf_at s b) \<Longrightarrow> b_dev (buf_at s b) = ROOTDEV \<Longrightarrow>
      (b_valid (buf_at t b) \<and> b_dev (buf_at t b) = ROOTDEV \<and> b_blockno (buf_at t b) = b_blockno (buf_at s b) \<and>
        b_data (buf_at t b) = b_data (buf_at s b)) \<or> b_data (buf_at s b) = disk s (b_blockno (buf_at s b))"
    and ts: "\<And>b. b < NBUF \<Longrightarrow> b_valid (buf_at t b) \<Longrightarrow> b_dev (buf_at t b) = ROOTDEV \<Longrightarrow>
      (b_valid (buf_at s b) \<and> b_dev (buf_at s b) = ROOTDEV \<and> b_blockno (buf_at t b) = b_blockno (buf_at s b) \<and>
        b_data (buf_at t b) = b_data (buf_at s b)) \<or> b_data (buf_at t b) = disk s (b_blockno (buf_at t b))"
  shows "blk t = blk s"
proof
  fix n
  let ?c = "\<lambda>u b. b < NBUF \<and> b_valid (buf_at u b) \<and> b_dev (buf_at u b) = ROOTDEV \<and> b_blockno (buf_at u b) = n"
  have s1: "blk s n = b_data (buf_at s b)" if "?c s b" for b using blk_cached [of s b] assms(1,3) that by auto
  have t1: "blk t n = b_data (buf_at t b)" if "?c t b" for b using blk_cached [of t b] assms(2,4) that by auto
  have s0: "blk s n = disk s n" if "\<forall>b. \<not> ?c s b" using blk_uncached [of s n] assms(3) that by auto
  have t0: "blk t n = disk s n" if "\<forall>b. \<not> ?c t b" using blk_uncached [of t n] assms(4,5) that by auto
  show "blk t n = blk s n"
  proof (cases "\<exists>b. ?c s b")
    case True
    then obtain b where b: "?c s b" by blast
    consider "?c t b \<and> b_data (buf_at t b) = b_data (buf_at s b)" | "b_data (buf_at s b) = disk s n"
      using st [of b] b by auto
    then show ?thesis
    proof cases
      case 1
      then show ?thesis using s1 [OF b] t1 [of b] by simp
    next
      case 2
      show ?thesis
      proof (cases "\<exists>a. ?c t a")
        case True
        then obtain a where a: "?c t a" by blast
        consider "?c s a \<and> b_data (buf_at t a) = b_data (buf_at s a)" | "b_data (buf_at t a) = disk s n"
          using ts [of a] a by auto
        then show ?thesis
        proof cases
          case 1
          then show ?thesis using s1 [of a] t1 [OF a] by simp
        next
          case d: 2
          then show ?thesis using s1 [OF b] t1 [OF a] 2 by simp
        qed
      next
        case False
        then show ?thesis using t0 s1 [OF b] 2 by simp
      qed
    qed
  next
    case False
    show ?thesis
    proof (cases "\<exists>a. ?c t a")
      case True
      then obtain a where a: "?c t a" by blast
      then have "b_data (buf_at t a) = disk s n" using ts [of a] False by auto
      then show ?thesis using t1 [OF a] s0 False by simp
    next
      case 0: False
      then show ?thesis using t0 s0 False by simp
    qed
  qed
qed

section \<open>Scanning the recency list\<close>

lemma scan_next_find:
  assumes "nseg (bnext s) a xs NBUF" and "set xs \<subseteq> {..<NBUF}"
  shows "scan_next P (bufs s) (bnext s a) = Some (find (\<lambda>b. P (buf_at s b)) xs)"
  using assms
proof (induction xs arbitrary: a)
  case Nil
  then show ?case by (subst scan_next.simps) simp
next
  case (Cons x xs)
  then have x: "bnext s a = x" "x < NBUF" by simp_all
  have "scan_next P (bufs s) (bnext s x) = Some (find (\<lambda>b. P (buf_at s b)) xs)"
    using Cons by simp
  then show ?case using x by (subst scan_next.simps) (simp add: bnext_def)
qed

lemma scan_prev_find:
  assumes "nseg (bprev s) a xs NBUF" and "set xs \<subseteq> {..<NBUF}"
  shows "scan_prev P (bufs s) (bprev s a) = Some (find (\<lambda>b. P (buf_at s b)) xs)"
  using assms
proof (induction xs arbitrary: a)
  case Nil
  then show ?case by (subst scan_prev.simps) simp
next
  case (Cons x xs)
  then have x: "bprev s a = x" "x < NBUF" by simp_all
  have "scan_prev P (bufs s) (bprev s x) = Some (find (\<lambda>b. P (buf_at s b)) xs)"
    using Cons by simp
  then show ?case using x by (subst scan_prev.simps) (simp add: bprev_def)
qed

lemma lru_scan:
  assumes "lru s xs"
  shows "scan_next P (bufs s) (bhead_next s) = Some (find (\<lambda>b. P (buf_at s b)) xs)"
    and "scan_prev P (bufs s) (bhead_prev s) = Some (find (\<lambda>b. P (buf_at s b)) (rev xs))"
  using scan_next_find [of s NBUF xs P] scan_prev_find [of s NBUF "rev xs" P] assms
  by (simp_all add: lru_def dll_def bnext_def bprev_def)


section \<open>Taking a buffer\<close>

lemma acquired_bstate [simp]:
  "bufs (acquired l i s) = bufs s" "bhead_prev (acquired l i s) = bhead_prev s"
  "bhead_next (acquired l i s) = bhead_next s" "disk (acquired l i s) = disk s"
  "disksize (acquired l i s) = disksize s" "dwrites (acquired l i s) = dwrites s"
  by (simp_all add: acquired_def pushed_def)

lemma bcache_section:
  assumes "calm s i"
  shows "release L_bcache ((acquired L_bcache i s)\<lparr>bufs := B\<rparr>) = Ok () (s\<lparr>bufs := B\<rparr>)"
    and "release L_bcache ((acquired L_bcache i s)\<lparr>bufs := B, bhead_prev := P, bhead_next := N\<rparr>) =
      Ok () (s\<lparr>bufs := B, bhead_prev := P, bhead_next := N\<rparr>)"
proof -
  have r: "release L_bcache t = Ok () (t\<lparr>locks := locks s, cpus := cpus s, eflags_IF := eflags_IF s\<rparr>)"
    if "lapic_id t = lapic_id s" "ncpu t = ncpu s" "cpus t = cpus (acquired L_bcache i s)"
      "eflags_IF t = eflags_IF (acquired L_bcache i s)" "locks t = locks (acquired L_bcache i s)"
    for t :: "'a bstate_scheme"
    using assms that by (rule release_calm)
  show "release L_bcache ((acquired L_bcache i s)\<lparr>bufs := B\<rparr>) = Ok () (s\<lparr>bufs := B\<rparr>)"
    by (subst r) (simp_all add: acquired_def pushed_def)
  show "release L_bcache ((acquired L_bcache i s)\<lparr>bufs := B, bhead_prev := P, bhead_next := N\<rparr>) =
      Ok () (s\<lparr>bufs := B, bhead_prev := P, bhead_next := N\<rparr>)"
    by (subst r) (simp_all add: acquired_def pushed_def)
qed

definition taken :: "nat \<Rightarrow> buf \<Rightarrow> int \<Rightarrow> 'z bstate_scheme \<Rightarrow> 'z bstate_scheme" where
  "taken b x pid s = s\<lparr>bufs := (bufs s)[b := x], slocks := (slocks s)(L_bufsleep b :=
     (slocks s (L_bufsleep b))\<lparr>sl_locked := True, sl_pid := pid\<rparr>)\<rparr>"

lemma bget_locked_ok:
  assumes "running s i p" and "\<not> sl_locked (slocks s (L_bufsleep b))"
  shows "bget_locked b (upd_buf b f (acquired L_bcache i s)) =
    Ok b (taken b (f (buf_at s b)) (p_pid (proc_at s p)) s)"
proof -
  let ?t = "s\<lparr>bufs := upd_nth b f (bufs s)\<rparr>"
  have "release L_bcache (upd_buf b f (acquired L_bcache i s)) = Ok () ?t"
    unfolding upd_buf_def using bcache_section(1) [OF running_calm [OF assms(1)]] by simp
  moreover have "running ?t i p" using assms(1) running_cong [of ?t s i p] by simp
  ultimately show ?thesis
    using assms(2) by (simp add: bget_locked_def acquiresleep_free taken_def upd_nth_def)
qed

lemma bget_eq:
  assumes "running s i p" and "lru s xs"
    and "\<And>b. find (\<lambda>b. b_dev (buf_at s b) = dev \<and> b_blockno (buf_at s b) = n) xs = Some b \<Longrightarrow>
      \<not> sl_locked (slocks s (L_bufsleep b))"
    and "\<And>b. find (\<lambda>b. b_refcnt (buf_at s b) = 0 \<and> \<not> b_dirty (buf_at s b)) (rev xs) = Some b \<Longrightarrow>
      \<not> sl_locked (slocks s (L_bufsleep b))"
  shows "bget dev n s =
    (case find (\<lambda>b. b_dev (buf_at s b) = dev \<and> b_blockno (buf_at s b) = n) xs of
       Some b \<Rightarrow> Ok b (taken b ((buf_at s b)\<lparr>b_refcnt := b_refcnt (buf_at s b) + 1\<rparr>) (p_pid (proc_at s p)) s)
     | None \<Rightarrow>
       (case find (\<lambda>b. b_refcnt (buf_at s b) = 0 \<and> \<not> b_dirty (buf_at s b)) (rev xs) of
          Some b \<Rightarrow> Ok b (taken b ((buf_at s b)\<lparr>b_dev := dev, b_blockno := n, b_valid := False,
            b_dirty := False, b_refcnt := 1\<rparr>) (p_pid (proc_at s p)) s)
        | None \<Rightarrow> Panic ''bget: no buffers''))"
  using assms(3,4)
  by (simp add: bget_def acquire_calm [OF running_calm [OF assms(1)]] lru_scan [OF assms(2)]
      bget_locked_ok [OF assms(1)] split: option.split)

lemma iderw_read:
  assumes "running s i p" and "sl_locked (slocks s (L_bufsleep b))"
    and "sl_pid (slocks s (L_bufsleep b)) = p_pid (proc_at s p)" and "b < length (bufs s)"
    and "\<not> b_valid (buf_at s b)" and "\<not> b_dirty (buf_at s b)" and "b_dev (buf_at s b) = ROOTDEV"
    and "b_blockno (buf_at s b) < disksize s"
  shows "iderw b s = Ok () (s\<lparr>bufs := (bufs s)[b := (buf_at s b)\<lparr>
    b_data := disk s (b_blockno (buf_at s b)), b_valid := True\<rparr>]\<rparr>)"
  using assms by (simp add: iderw_def holdingsleep_ok [OF assms(1)] ROOTDEV_def Let_def upd_buf_def upd_nth_def)

text \<open>The state after \<open>bread\<close>: buffer \<open>b\<close> is held, and it caches block \<open>n\<close>.\<close>

lemma taken_inv:
  assumes inv: "binv s i p H" and b: "b < NBUF" "b \<notin> H"
    and x: "b_next x = b_next (buf_at s b)" "b_prev x = b_prev (buf_at s b)" "b_dev x = ROOTDEV"
      "b_blockno x = n" "n < disksize s" "b_valid x" "b_refcnt x = 1" "length (b_data x) = BSIZE"
    and only: "\<forall>a < NBUF. b_dev (buf_at s a) = ROOTDEV \<longrightarrow> b_blockno (buf_at s a) = n \<longrightarrow> a = b"
    and data: "(b_dev (buf_at s b) = ROOTDEV \<and> b_blockno (buf_at s b) = n \<and> b_valid (buf_at s b) \<and>
        b_data x = b_data (buf_at s b) \<and> b_dirty x = b_dirty (buf_at s b)) \<or>
      (\<not> b_dirty (buf_at s b) \<and> \<not> b_dirty x \<and> b_data x = disk s n)"
  shows "binv (taken b x (p_pid (proc_at s p)) s) i p (insert b H)"
    and "cframe s (taken b x (p_pid (proc_at s p)) s)"
    and "blk (taken b x (p_pid (proc_at s p)) s) = blk s"
    and "b_data x = blk s n"
    and "dirtyb (taken b x (p_pid (proc_at s p)) s) = dirtyb s"
    and "dirty_blocks (taken b x (p_pid (proc_at s p)) s) = dirty_blocks s"
proof -
  let ?t = "taken b x (p_pid (proc_at s p)) s"
  obtain xs where run: "running s i p" and lru: "lru s xs" and H: "H \<subseteq> {..<NBUF}"
    and ok: "\<And>b. b < NBUF \<Longrightarrow> buf_ok s (p_pid (proc_at s p)) H b" and uniq: "buf_uniq (bufs s)"
    and dsk: "\<forall>n. length (disk s n) = BSIZE"
    using inv by (auto simp: binv_def)
  have len: "length (bufs s) = NBUF" using lru by (simp add: lru_def)
  have nth: "buf_at ?t a = (if a = b then x else buf_at s a)" if "a < NBUF" for a
    using that b len by (simp add: taken_def)
  have lent: "length (bufs ?t) = NBUF" by (simp add: taken_def len)
  show fr: "cframe s ?t" by (simp add: cframe_def cupd_def taken_def)
  have links: "bnext ?t = bnext s" "bprev ?t = bprev s"
    using x(1,2) b len by (auto simp: fun_eq_iff bnext_def bprev_def taken_def nth_list_update)
  have lrut: "lru ?t xs" using lru lent by (simp add: lru_def links)
  have uniqt: "buf_uniq (bufs ?t)"
    unfolding buf_uniq_def
  proof (intro allI impI)
    fix a c assume a: "a < NBUF" "c < NBUF" "b_dev (buf_at ?t a) = ROOTDEV" "b_dev (buf_at ?t c) = ROOTDEV"
      "b_blockno (buf_at ?t a) = b_blockno (buf_at ?t c)"
    show "a = c"
    proof (cases "a = b"; cases "c = b")
      assume "a = b" "c \<noteq> b"
      then show ?thesis using a only [rule_format, OF a(2)] x(4) nth [OF a(1)] nth [OF a(2)] by simp
    next
      assume "a \<noteq> b" "c = b"
      then show ?thesis using a only [rule_format, OF a(1)] x(4) nth [OF a(1)] nth [OF a(2)] by simp
    next
      assume "a \<noteq> b" "c \<noteq> b"
      then show ?thesis using a uniq nth [OF a(1)] nth [OF a(2)] by (simp add: buf_uniq_def)
    qed simp
  qed
  have okb: "buf_ok s (p_pid (proc_at s p)) H b" using ok b(1) by blast
  have "buf_ok ?t (p_pid (proc_at s p)) (insert b H) a" if "a < NBUF" for a
  proof (cases "a = b")
    case True
    then show ?thesis using x b(1) nth [of b] by (simp add: buf_ok_def) (simp add: taken_def)
  next
    case False
    then show ?thesis using ok [OF that] nth [OF that] by (simp add: buf_ok_def) (simp add: taken_def)
  qed
  moreover have "proc_at ?t p = proc_at s p" "disk ?t = disk s" by (simp_all add: taken_def)
  ultimately show "binv ?t i p (insert b H)"
    using cframe_running [OF fr run] lrut H b uniqt dsk by (auto simp: binv_def)
  show blk: "blk ?t = blk s"
  proof (rule blk_same)
    show "disk ?t = disk s" by (simp add: taken_def)
    fix a assume a: "a < NBUF"
    have clean: "b_valid (buf_at s b) \<Longrightarrow> \<not> b_dirty (buf_at s b) \<Longrightarrow> b_data (buf_at s b) = disk s (b_blockno (buf_at s b))"
      using okb b(2) by (simp add: buf_ok_def)
    show "(b_valid (buf_at ?t a) \<and> b_dev (buf_at ?t a) = ROOTDEV \<and> b_blockno (buf_at ?t a) = b_blockno (buf_at s a) \<and>
        b_data (buf_at ?t a) = b_data (buf_at s a)) \<or> b_data (buf_at s a) = disk s (b_blockno (buf_at s a))"
      if "b_valid (buf_at s a)" "b_dev (buf_at s a) = ROOTDEV"
      using that nth [OF a] data x clean by (cases "a = b") auto
    show "(b_valid (buf_at s a) \<and> b_dev (buf_at s a) = ROOTDEV \<and> b_blockno (buf_at ?t a) = b_blockno (buf_at s a) \<and>
        b_data (buf_at ?t a) = b_data (buf_at s a)) \<or> b_data (buf_at ?t a) = disk s (b_blockno (buf_at ?t a))"
      if "b_valid (buf_at ?t a)" "b_dev (buf_at ?t a) = ROOTDEV"
      using that nth [OF a] data x by (cases "a = b") auto
  qed (use uniq uniqt len lent in auto)
  have "blk ?t n = b_data x"
    using blk_cached [OF uniqt lent b(1)] nth [OF b(1)] x by simp
  then show "b_data x = blk s n" using blk by simp
  have "b_dirty (buf_at ?t a) = b_dirty (buf_at s a)" if "a < NBUF" for a
    using nth [OF that] data by auto
  then show eq: "dirtyb ?t = dirtyb s" by (auto simp: dirtyb_def)
  have "b_blockno (buf_at ?t a) = b_blockno (buf_at s a)" if "a \<in> dirtyb s" for a
    using that nth [of a] data x(4) by (auto simp: dirtyb_def)
  then show "dirty_blocks ?t = dirty_blocks s" unfolding dirty_blocks_def eq by (rule image_cong [OF refl])
qed


section \<open>Specifications\<close>

lemma binv_facts:
  assumes "binv s i p H"
  shows "running s i p" "length (bufs s) = NBUF" "buf_uniq (bufs s)" "b < NBUF \<Longrightarrow> buf_ok s (p_pid (proc_at s p)) H b"
    "length (disk s n) = BSIZE" "b \<in> H \<Longrightarrow> b < NBUF" "p < length (ptable s)"
  using assms by (auto simp: binv_def lru_def running_def)

definition bread_post :: "'z bstate_scheme \<Rightarrow> nat \<Rightarrow> nat \<Rightarrow> nat set \<Rightarrow> nat \<Rightarrow> nat \<Rightarrow> 'z bstate_scheme \<Rightarrow> bool" where
  "bread_post s i p H n b t \<longleftrightarrow> b < NBUF \<and> b \<notin> H \<and> binv t i p (insert b H) \<and> cframe s t \<and>
     blk t = blk s \<and> dirtyb t = dirtyb s \<and> dirty_blocks t = dirty_blocks s \<and>
     disk t = disk s \<and> dwrites t = dwrites s \<and> b_blockno (buf_at t b) = n \<and> b_data (buf_at t b) = blk s n \<and> (\<forall>a. a \<noteq> b \<longrightarrow> buf_at t a = buf_at s a)"

text \<open>The second half of \<open>bread\<close>: buffer \<open>b\<close> is taken with header \<open>x\<close> and filled if it is not valid.\<close>

lemma bread_fill:
  assumes inv: "binv s i p H" and n: "n < disksize s" and b: "b < NBUF" "b \<notin> H"
    and x: "b_next x = b_next (buf_at s b)" "b_prev x = b_prev (buf_at s b)"
      "b_dev x = ROOTDEV" "b_blockno x = n" "b_refcnt x = 1"
    and valid: "b_valid x \<Longrightarrow> b_dev (buf_at s b) = ROOTDEV \<and> b_blockno (buf_at s b) = n \<and> b_valid (buf_at s b) \<and>
      b_data x = b_data (buf_at s b) \<and> b_dirty x = b_dirty (buf_at s b)"
    and invalid: "\<not> b_valid x \<Longrightarrow> \<not> b_dirty x \<and> \<not> b_dirty (buf_at s b)"
    and only: "\<forall>a < NBUF. b_dev (buf_at s a) = ROOTDEV \<longrightarrow> b_blockno (buf_at s a) = n \<longrightarrow> a = b"
    and t: "t = taken b x (p_pid (proc_at s p)) s"
  shows "runs (bindR (if \<not> b_valid (buf_at t b) then iderw b t else Ok () t) (\<lambda>_ s. Ok b s))
    (bread_post s i p H n)"
proof -
  let ?pid = "p_pid (proc_at s p)"
  define y where "y = (if b_valid x then x else x\<lparr>b_data := disk s n, b_valid := True\<rparr>)"
  have len: "length (bufs s) = NBUF" by (rule binv_facts(2) [OF inv])
  have bx: "buf_at t b = x" using b len by (simp add: t taken_def)
  have run: "running t i p" using binv_facts(1) [OF inv] running_cong [of t s i p] by (simp add: t taken_def)
  have fill: "(if \<not> b_valid (buf_at t b) then iderw b t else Ok () t) = Ok () (taken b y ?pid s)"
  proof (cases "b_valid x")
    case False
    have "iderw b t = Ok () (t\<lparr>bufs := (bufs t)[b := (buf_at t b)\<lparr>
        b_data := disk t (b_blockno (buf_at t b)), b_valid := True\<rparr>]\<rparr>)"
      by (rule iderw_read [OF run]) (use b x n False invalid bx len in \<open>simp_all add: t taken_def\<close>)
    then show ?thesis using False x(4) by (simp only: bx) (simp add: y_def t taken_def)
  next
    case True
    then show ?thesis by (simp only: bx) (simp add: y_def t)
  qed
  have y: "b_next y = b_next (buf_at s b)" "b_prev y = b_prev (buf_at s b)" "b_dev y = ROOTDEV"
    "b_blockno y = n" "b_valid y" "b_refcnt y = 1"
    using x by (simp_all add: y_def)
  have ly: "length (b_data y) = BSIZE"
    using binv_facts(4) [OF inv b(1)] valid binv_facts(5) [OF inv] by (simp add: y_def buf_ok_def)
  have data: "(b_dev (buf_at s b) = ROOTDEV \<and> b_blockno (buf_at s b) = n \<and> b_valid (buf_at s b) \<and>
      b_data y = b_data (buf_at s b) \<and> b_dirty y = b_dirty (buf_at s b)) \<or>
    (\<not> b_dirty (buf_at s b) \<and> \<not> b_dirty y \<and> b_data y = disk s n)"
    using valid invalid by (simp add: y_def)
  note tk = taken_inv [OF inv b y(1-4) n y(5,6) ly only data]
  have "buf_at (taken b y ?pid s) b = y" using b len by (simp add: taken_def)
  then have "b_blockno (buf_at (taken b y ?pid s) b) = n" "b_data (buf_at (taken b y ?pid s) b) = blk s n"
    using y(4) tk(4) by simp_all
  moreover have "\<forall>a. a \<noteq> b \<longrightarrow> buf_at (taken b y ?pid s) a = buf_at s a"
    "disk (taken b y ?pid s) = disk s" "dwrites (taken b y ?pid s) = dwrites s"
    by (simp_all add: taken_def)
  ultimately have "bread_post s i p H n b (taken b y ?pid s)"
    unfolding bread_post_def using tk(1,2,3,5,6) b by blast
  then show ?thesis by (simp only: fill bindR.simps runs.simps)
qed

lemma binv_find:
  assumes inv: "binv s i p H" and lru: "lru s xs" and "H \<union> dirtyb s \<noteq> {..<NBUF}"
  obtains b where "find (\<lambda>b. b_refcnt (buf_at s b) = 0 \<and> \<not> b_dirty (buf_at s b)) (rev xs) = Some b"
    and "b < NBUF" and "b \<notin> H" and "\<not> b_dirty (buf_at s b)"
proof -
  let ?P = "\<lambda>b. b_refcnt (buf_at s b) = 0 \<and> \<not> b_dirty (buf_at s b)"
  have set: "set (rev xs) = {..<NBUF}" using lru by (simp add: lru_def)
  have free: "?P b \<longleftrightarrow> b \<notin> H \<union> dirtyb s" if "b < NBUF" for b
    using binv_facts(4) [OF inv that] that by (cases "b \<in> H") (simp_all add: buf_ok_def dirtyb_def)
  have "H \<union> dirtyb s \<subseteq> {..<NBUF}" using binv_facts(6) [OF inv] by (auto simp: dirtyb_def)
  with assms(3) obtain c where "c < NBUF" "c \<notin> H \<union> dirtyb s" by blast
  then have "c \<in> set (rev xs)" "?P c" using free set by simp_all
  then obtain b where b: "find ?P (rev xs) = Some b" by (cases "find ?P (rev xs)") (auto simp: find_None_iff)
  then have "b \<in> set (rev xs)" "?P b" by (auto simp: find_Some_iff simp del: set_rev)
  then show ?thesis using that b free set by simp
qed

definition cached :: "'z bstate_scheme \<Rightarrow> nat \<Rightarrow> bool" where
  "cached s n \<longleftrightarrow> (\<exists>b < NBUF. b_dev (buf_at s b) = ROOTDEV \<and> b_blockno (buf_at s b) = n)"

lemma bget_binv:
  assumes inv: "binv s i p H" and lru: "lru s xs" and free: "\<forall>b\<in>H. b_blockno (buf_at s b) \<noteq> n"
  shows "bget ROOTDEV n s =
    (case find (\<lambda>b. b_dev (buf_at s b) = ROOTDEV \<and> b_blockno (buf_at s b) = n) xs of
       Some b \<Rightarrow> Ok b (taken b ((buf_at s b)\<lparr>b_refcnt := b_refcnt (buf_at s b) + 1\<rparr>) (p_pid (proc_at s p)) s)
     | None \<Rightarrow>
       (case find (\<lambda>b. b_refcnt (buf_at s b) = 0 \<and> \<not> b_dirty (buf_at s b)) (rev xs) of
          Some b \<Rightarrow> Ok b (taken b ((buf_at s b)\<lparr>b_dev := ROOTDEV, b_blockno := n, b_valid := False,
            b_dirty := False, b_refcnt := 1\<rparr>) (p_pid (proc_at s p)) s)
        | None \<Rightarrow> Panic ''bget: no buffers''))"
proof (rule bget_eq [OF binv_facts(1) [OF inv] lru])
  have set: "set xs = {..<NBUF}" using lru by (simp add: lru_def)
  have unl: "\<not> sl_locked (slocks s (L_bufsleep b))" if "b < NBUF" "b \<notin> H" for b
    using binv_facts(4) [OF inv that(1)] that(2) by (simp add: buf_ok_def)
  fix b
  {
    assume "find (\<lambda>b. b_dev (buf_at s b) = ROOTDEV \<and> b_blockno (buf_at s b) = n) xs = Some b"
    then have "b \<in> set xs" "b_blockno (buf_at s b) = n" by (auto simp: find_Some_iff)
    then show "\<not> sl_locked (slocks s (L_bufsleep b))" using set free unl by blast
  next
    assume "find (\<lambda>b. b_refcnt (buf_at s b) = 0 \<and> \<not> b_dirty (buf_at s b)) (rev xs) = Some b"
    then have b: "b \<in> set (rev xs)" "b_refcnt (buf_at s b) = 0" by (auto simp: find_Some_iff simp del: set_rev)
    then have "b < NBUF" using set by simp
    moreover from this have "b \<notin> H" using binv_facts(4) [OF inv, of b] b(2) by (auto simp: buf_ok_def)
    ultimately show "\<not> sl_locked (slocks s (L_bufsleep b))" by (rule unl)
  }
qed

lemma bread_runs:
  assumes inv: "binv s i p H" and n: "n < disksize s" and free: "\<forall>b\<in>H. b_blockno (buf_at s b) \<noteq> n"
    and avail: "cached s n \<or> H \<union> dirtyb s \<noteq> {..<NBUF}"
  shows "runs (bread ROOTDEV n s) (bread_post s i p H n)"
proof -
  obtain xs where lru: "lru s xs" using inv by (auto simp: binv_def)
  note ok = binv_facts(4) [OF inv] and uniq = binv_facts(3) [OF inv]
  have set: "set xs = {..<NBUF}" using lru by (simp add: lru_def)
  note bget = bget_binv [OF inv lru free]
  show ?thesis
  proof (cases "find (\<lambda>b. b_dev (buf_at s b) = ROOTDEV \<and> b_blockno (buf_at s b) = n) xs")
    case (Some b)
    then have "b \<in> set xs" and h: "b_dev (buf_at s b) = ROOTDEV" "b_blockno (buf_at s b) = n" by (auto simp: find_Some_iff)
    then have b: "b < NBUF" "b \<notin> H" using set free by auto
    have r: "b_refcnt (buf_at s b) = 0" "b_dirty (buf_at s b) \<longrightarrow> b_valid (buf_at s b)"
      using ok [OF b(1)] b(2) by (auto simp: buf_ok_def)
    have one: "\<forall>a < NBUF. b_dev (buf_at s a) = ROOTDEV \<longrightarrow> b_blockno (buf_at s a) = n \<longrightarrow> a = b"
      using uniq h b by (simp add: buf_uniq_def)
    show ?thesis
      unfolding bread_def bget Some option.case bindR.simps
      by (rule bread_fill [OF inv n b _ _ _ _ _ _ _ one refl]) (use h r in simp_all)
  next
    case None
    then have none: "\<not> (b_dev (buf_at s a) = ROOTDEV \<and> b_blockno (buf_at s a) = n)" if "a < NBUF" for a
      using set that by (simp add: find_None_iff)
    then have "H \<union> dirtyb s \<noteq> {..<NBUF}" using avail by (auto simp: cached_def)
    then obtain f where f: "find (\<lambda>b. b_refcnt (buf_at s b) = 0 \<and> \<not> b_dirty (buf_at s b)) (rev xs) = Some f"
      "f < NBUF" "f \<notin> H" "\<not> b_dirty (buf_at s f)" by (rule binv_find [OF inv lru])
    show ?thesis
      unfolding bread_def bget None f(1) option.case bindR.simps
      by (rule bread_fill [OF inv n f(2,3) _ _ _ _ _ _ _ _ refl]) (use f none in simp_all)
  qed
qed

section \<open>Writing and releasing a held buffer\<close>

definition put :: "nat \<Rightarrow> buf \<Rightarrow> (nat \<Rightarrow> byte list) \<Rightarrow> (nat \<times> byte list) list \<Rightarrow> 'z bstate_scheme \<Rightarrow> 'z bstate_scheme" where
  "put b x D W s = s\<lparr>bufs := (bufs s)[b := x], disk := D, dwrites := W\<rparr>"

lemma put_inv:
  assumes inv: "binv s i p H" and b: "b \<in> H"
    and x: "b_next x = b_next (buf_at s b)" "b_prev x = b_prev (buf_at s b)" "b_dev x = b_dev (buf_at s b)"
      "b_blockno x = b_blockno (buf_at s b)" "b_refcnt x = b_refcnt (buf_at s b)" "b_valid x"
      "length (b_data x) = BSIZE"
    and D: "\<forall>m. m \<noteq> b_blockno (buf_at s b) \<longrightarrow> D m = disk s m" "length (D (b_blockno (buf_at s b))) = BSIZE"
  shows "binv (put b x D W s) i p H" and "cframe s (put b x D W s)"
    and "blk (put b x D W s) = (blk s)(b_blockno (buf_at s b) := b_data x)"
    and "dirtyb (put b x D W s) = (if b_dirty x then insert b (dirtyb s) else dirtyb s - {b})"
    and "dirty_blocks (put b x D W s) = (if b_dirty x then insert (b_blockno (buf_at s b)) (dirty_blocks s)
      else dirty_blocks s - {b_blockno (buf_at s b)})"
proof -
  let ?t = "put b x D W s"
  obtain xs where lru: "lru s xs" and H: "H \<subseteq> {..<NBUF}" using inv by (auto simp: binv_def)
  note run = binv_facts(1) [OF inv] and len = binv_facts(2) [OF inv] and uniq = binv_facts(3) [OF inv]
  have bN: "b < NBUF" by (rule binv_facts(6) [OF inv b])
  have okb: "buf_ok s (p_pid (proc_at s p)) H b" by (rule binv_facts(4) [OF inv bN])
  have dev: "b_dev (buf_at s b) = ROOTDEV" using okb b by (simp add: buf_ok_def)
  have nth: "buf_at ?t a = (if a = b then x else buf_at s a)" if "a < NBUF" for a
    using that len by (simp add: put_def)
  have lent: "length (bufs ?t) = NBUF" by (simp add: put_def len)
  show fr: "cframe s ?t" by (simp add: cframe_def cupd_def put_def)
  have links: "bnext ?t = bnext s" "bprev ?t = bprev s"
    using x(1,2) bN len by (auto simp: fun_eq_iff bnext_def bprev_def put_def nth_list_update)
  have lrut: "lru ?t xs" using lru lent by (simp add: lru_def links)
  have same: "b_dev (buf_at ?t a) = b_dev (buf_at s a)" "b_blockno (buf_at ?t a) = b_blockno (buf_at s a)" if "a < NBUF" for a
    using nth [OF that] x by simp_all
  have uniqt: "buf_uniq (bufs ?t)" using uniq same by (simp add: buf_uniq_def)
  have other: "b_blockno (buf_at s a) \<noteq> b_blockno (buf_at s b)" if "a < NBUF" "a \<noteq> b" "b_dev (buf_at s a) = ROOTDEV" for a
    using uniq [unfolded buf_uniq_def, rule_format, OF that(1) bN that(3) dev] that(2) by blast
  have "buf_ok ?t (p_pid (proc_at s p)) H a" if a: "a < NBUF" for a
  proof (cases "a = b")
    case True
    then show ?thesis using x b okb nth [OF bN] by (simp add: buf_ok_def) (simp add: put_def)
  next
    case False
    have ok: "buf_ok s (p_pid (proc_at s p)) H a" by (rule binv_facts(4) [OF inv a])
    have "D (b_blockno (buf_at s a)) = disk s (b_blockno (buf_at s a))" if "b_valid (buf_at s a)"
      using D(1) other [OF a False] ok that by (simp add: buf_ok_def)
    then show ?thesis using ok nth [OF a] False by (simp add: buf_ok_def) (simp add: put_def)
  qed
  moreover have "proc_at ?t p = proc_at s p" "disk ?t = D" by (simp_all add: put_def)
  moreover have "length (D m) = BSIZE" for m using D binv_facts(5) [OF inv, of m] by (cases "m = b_blockno (buf_at s b)") simp_all
  ultimately show "binv ?t i p H"
    using cframe_running [OF fr run] lrut H uniqt by (auto simp: binv_def)
  show "blk ?t = (blk s)(b_blockno (buf_at s b) := b_data x)"
  proof
    fix m
    let ?c = "\<lambda>u a. a < NBUF \<and> b_valid (buf_at u a) \<and> b_dev (buf_at u a) = ROOTDEV \<and> b_blockno (buf_at u a) = m"
    show "blk ?t m = ((blk s)(b_blockno (buf_at s b) := b_data x)) m"
    proof (cases "m = b_blockno (buf_at s b)")
      case True
      then show ?thesis using blk_cached [OF uniqt lent bN] nth [OF bN] x dev by simp
    next
      case m: False
      have eq: "?c ?t a \<longleftrightarrow> ?c s a" for a using nth [of a] m x by (cases "a = b") auto
      show ?thesis
      proof (cases "\<exists>a. ?c s a")
        case True
        then obtain a where a: "?c s a" by blast
        then have "a \<noteq> b" using m by auto
        then have "buf_at ?t a = buf_at s a" using nth a by simp
        then show ?thesis
          using blk_cached [OF uniqt lent, of a] blk_cached [OF uniq len, of a] a m by auto
      next
        case False
        then have "blk s m = disk s m" using blk_uncached [OF len, of m] by auto
        moreover have "blk ?t m = disk ?t m" using False eq blk_uncached [OF lent, of m] by auto
        ultimately show ?thesis using m D(1) by (simp add: put_def)
      qed
    qed
  qed
  have "b_dirty (buf_at ?t a) = (if a = b then b_dirty x else b_dirty (buf_at s a))" if "a < NBUF" for a
    using nth [OF that] by simp
  then show eq: "dirtyb ?t = (if b_dirty x then insert b (dirtyb s) else dirtyb s - {b})"
    using bN by (auto simp: dirtyb_def split: if_splits)
  have img: "dirty_blocks ?t = (\<lambda>a. b_blockno (buf_at s a)) ` dirtyb ?t"
    unfolding dirty_blocks_def by (rule image_cong [OF refl]) (simp add: same dirtyb_def)
  have ne: "b_blockno (buf_at s a) \<noteq> b_blockno (buf_at s b)" if "a \<in> dirtyb s" "a \<noteq> b" for a
    using that binv_facts(4) [OF inv, of a] by (intro other) (auto simp: dirtyb_def buf_ok_def)
  show "dirty_blocks ?t = (if b_dirty x then insert (b_blockno (buf_at s b)) (dirty_blocks s)
      else dirty_blocks s - {b_blockno (buf_at s b)})"
    unfolding img eq using ne by (auto simp: dirty_blocks_def)
qed

lemma iderw_write:
  assumes "running s i p" and "sl_locked (slocks s (L_bufsleep b))"
    and "sl_pid (slocks s (L_bufsleep b)) = p_pid (proc_at s p)" and "b < length (bufs s)"
    and "b_dirty (buf_at s b)" and "b_dev (buf_at s b) = ROOTDEV" and "b_blockno (buf_at s b) < disksize s"
  shows "iderw b s = Ok () (put b ((buf_at s b)\<lparr>b_dirty := False, b_valid := True\<rparr>)
    ((disk s)(b_blockno (buf_at s b) := b_data (buf_at s b)))
    (dwrites s @ [(b_blockno (buf_at s b), b_data (buf_at s b))]) s)"
  using assms
  by (simp add: iderw_def holdingsleep_ok [OF assms(1)] ROOTDEV_def Let_def upd_buf_def upd_nth_def put_def)

lemma bwrite_eq:
  assumes inv: "binv s i p H" and b: "b \<in> H"
  shows "bwrite b s = Ok () (put b ((buf_at s b)\<lparr>b_dirty := False\<rparr>)
    ((disk s)(b_blockno (buf_at s b) := b_data (buf_at s b)))
    (dwrites s @ [(b_blockno (buf_at s b), b_data (buf_at s b))]) s)"
proof -
  note run = binv_facts(1) [OF inv] and len = binv_facts(2) [OF inv]
  have bN: "b < NBUF" by (rule binv_facts(6) [OF inv b])
  have ok: "buf_ok s (p_pid (proc_at s p)) H b" by (rule binv_facts(4) [OF inv bN])
  define t where "t = upd_buf b (\<lambda>x. x\<lparr>b_dirty := True\<rparr>) s"
  have bt: "buf_at t b = (buf_at s b)\<lparr>b_dirty := True\<rparr>" using bN len by (simp add: t_def upd_buf_def)
  have sel: "slocks t = slocks s" "proc_at t p = proc_at s p" "disksize t = disksize s" "disk t = disk s"
    "dwrites t = dwrites s" "length (bufs t) = NBUF" by (simp_all add: t_def upd_buf_def len)
  have runt: "running t i p" using run running_cong [of t s i p] by (simp add: t_def upd_buf_def)
  have "iderw b t = Ok () (put b ((buf_at t b)\<lparr>b_dirty := False, b_valid := True\<rparr>)
    ((disk t)(b_blockno (buf_at t b) := b_data (buf_at t b)))
    (dwrites t @ [(b_blockno (buf_at t b), b_data (buf_at t b))]) t)"
    by (rule iderw_write [OF runt]) (use ok b bN in \<open>simp_all add: sel bt buf_ok_def\<close>)
  moreover have "(buf_at s b)\<lparr>b_dirty := False, b_valid := True\<rparr> = (buf_at s b)\<lparr>b_dirty := False\<rparr>"
    using ok b by (simp add: buf_ok_def)
  ultimately have "iderw b t = Ok () (put b ((buf_at s b)\<lparr>b_dirty := False\<rparr>)
    ((disk s)(b_blockno (buf_at s b) := b_data (buf_at s b)))
    (dwrites s @ [(b_blockno (buf_at s b), b_data (buf_at s b))]) t)" by (simp add: bt sel)
  moreover have "put b x D W t = put b x D W s" for x D W by (simp add: put_def t_def upd_buf_def upd_nth_def)
  moreover have "bwrite b s = iderw b t"
    using ok b by (simp add: bwrite_def holdingsleep_ok [OF run] buf_ok_def t_def)
  ultimately show ?thesis by simp
qed

lemma put_sel:
  assumes "binv s i p H" and "b \<in> H"
  shows "buf_at (put b x D W s) b = x" "a \<noteq> b \<Longrightarrow> buf_at (put b x D W s) a = buf_at s a"
    "disk (put b x D W s) = D" "dwrites (put b x D W s) = W"
  using binv_facts(2) [OF assms(1)] binv_facts(6) [OF assms] by (simp_all add: put_def)

lemma held_facts:
  assumes "binv s i p H" and "b \<in> H"
  shows "b_valid (buf_at s b)" "b_dev (buf_at s b) = ROOTDEV" "length (b_data (buf_at s b)) = BSIZE"
    "b_blockno (buf_at s b) < disksize s" "blk s (b_blockno (buf_at s b)) = b_data (buf_at s b)"
proof -
  have b: "b < NBUF" by (rule binv_facts(6) [OF assms])
  have ok: "buf_ok s (p_pid (proc_at s p)) H b" by (rule binv_facts(4) [OF assms(1) b])
  then show "b_valid (buf_at s b)" "b_dev (buf_at s b) = ROOTDEV" "length (b_data (buf_at s b)) = BSIZE"
    "b_blockno (buf_at s b) < disksize s" using assms(2) by (simp_all add: buf_ok_def)
  then show "blk s (b_blockno (buf_at s b)) = b_data (buf_at s b)"
    using binv_facts(2,3) [OF assms(1)] b by (intro blk_cached) simp_all
qed

text \<open>Three ways a client changes a buffer it holds: its data, its dirty bit, and \<open>bwrite\<close>.\<close>

lemma bset_data:
  assumes "binv s i p H" and "b \<in> H" and "length d = BSIZE"
    and t: "t = upd_buf b (\<lambda>x. x\<lparr>b_data := d\<rparr>) s"
  shows "binv t i p H" "cframe s t" "blk t = (blk s)(b_blockno (buf_at s b) := d)" "dirtyb t = dirtyb s"
    "disk t = disk s" "dwrites t = dwrites s" "buf_at t b = (buf_at s b)\<lparr>b_data := d\<rparr>"
    "a \<noteq> b \<Longrightarrow> buf_at t a = buf_at s a" "dirty_blocks t = dirty_blocks s"
proof -
  let ?x = "(buf_at s b)\<lparr>b_data := d\<rparr>"
  have e: "t = put b ?x (disk s) (dwrites s) s" by (simp add: t upd_buf_def put_def upd_nth_def)
  note p = put_inv [OF assms(1,2), of ?x "disk s" "dwrites s"]
  note h = held_facts(1) [OF assms(1,2)] binv_facts(5) [OF assms(1)]
  show "binv t i p H" "cframe s t" "blk t = (blk s)(b_blockno (buf_at s b) := d)"
    unfolding e using p(1,2,3) h assms(3) by simp_all
  show eq: "dirtyb t = dirtyb s"
    unfolding e using p(4) h assms(2,3) binv_facts(6) [OF assms(1,2)] by (auto simp: dirtyb_def)
  have "b_blockno (buf_at t a) = b_blockno (buf_at s a)" for a
    unfolding e by (cases "a = b") (simp_all add: put_sel [OF assms(1,2)])
  then show "dirty_blocks t = dirty_blocks s" by (simp add: dirty_blocks_def eq)
  show "disk t = disk s" "dwrites t = dwrites s" "buf_at t b = ?x" "a \<noteq> b \<Longrightarrow> buf_at t a = buf_at s a"
    unfolding e by (simp_all add: put_sel [OF assms(1,2)])
qed

lemma bset_dirty:
  assumes "binv s i p H" and "b \<in> H" and t: "t = upd_buf b (\<lambda>x. x\<lparr>b_dirty := True\<rparr>) s"
  shows "binv t i p H" "cframe s t" "blk t = blk s" "dirtyb t = insert b (dirtyb s)"
    "disk t = disk s" "dwrites t = dwrites s" "buf_at t b = (buf_at s b)\<lparr>b_dirty := True\<rparr>"
    "a \<noteq> b \<Longrightarrow> buf_at t a = buf_at s a" "dirty_blocks t = insert (b_blockno (buf_at s b)) (dirty_blocks s)"
proof -
  let ?x = "(buf_at s b)\<lparr>b_dirty := True\<rparr>"
  have e: "t = put b ?x (disk s) (dwrites s) s" by (simp add: t upd_buf_def put_def upd_nth_def)
  note p = put_inv [OF assms(1,2), of ?x "disk s" "dwrites s"]
  note h = held_facts [OF assms(1,2)] binv_facts(5) [OF assms(1)]
  have "(blk s)(b_blockno (buf_at s b) := b_data (buf_at s b)) = blk s" using h(5) by (simp add: fun_upd_idem)
  then show "binv t i p H" "cframe s t" "blk t = blk s" "dirtyb t = insert b (dirtyb s)"
    "dirty_blocks t = insert (b_blockno (buf_at s b)) (dirty_blocks s)"
    unfolding e using p h by simp_all
  show "disk t = disk s" "dwrites t = dwrites s" "buf_at t b = ?x" "a \<noteq> b \<Longrightarrow> buf_at t a = buf_at s a"
    unfolding e by (simp_all add: put_sel [OF assms(1,2)])
qed

definition bwrite_post :: "'z bstate_scheme \<Rightarrow> nat \<Rightarrow> nat \<Rightarrow> nat set \<Rightarrow> nat \<Rightarrow> 'z bstate_scheme \<Rightarrow> bool" where
  "bwrite_post s i p H b t \<longleftrightarrow> binv t i p H \<and> cframe s t \<and> blk t = blk s \<and> dirtyb t = dirtyb s - {b} \<and>
     dirty_blocks t = dirty_blocks s - {b_blockno (buf_at s b)} \<and>
     disk t = (disk s)(b_blockno (buf_at s b) := b_data (buf_at s b)) \<and>
     dwrites t = dwrites s @ [(b_blockno (buf_at s b), b_data (buf_at s b))] \<and>
     buf_at t b = (buf_at s b)\<lparr>b_dirty := False\<rparr> \<and> (\<forall>a. a \<noteq> b \<longrightarrow> buf_at t a = buf_at s a)"

lemma bwrite_runs:
  assumes "binv s i p H" and "b \<in> H"
  shows "runs (bwrite b s) (\<lambda>_. bwrite_post s i p H b)"
proof -
  let ?x = "(buf_at s b)\<lparr>b_dirty := False\<rparr>" and ?n = "b_blockno (buf_at s b)" and ?d = "b_data (buf_at s b)"
  define t where "t = put b ?x ((disk s)(?n := ?d)) (dwrites s @ [(?n, ?d)]) s"
  note p = put_inv [OF assms, of ?x "(disk s)(?n := ?d)" "dwrites s @ [(?n, ?d)]", folded t_def]
  note h = held_facts [OF assms] binv_facts(5) [OF assms(1)]
  have "(blk s)(?n := ?d) = blk s" using h(5) by (simp add: fun_upd_idem)
  moreover have "buf_at t b = ?x" "\<forall>a. a \<noteq> b \<longrightarrow> buf_at t a = buf_at s a" "disk t = (disk s)(?n := ?d)"
    "dwrites t = dwrites s @ [(?n, ?d)]" by (simp_all add: t_def put_sel [OF assms])
  ultimately have "bwrite_post s i p H b t" using p h by (simp add: bwrite_post_def)
  then show ?thesis using bwrite_eq [OF assms] by (simp add: t_def)
qed

text \<open>\<open>brelse_lru\<close> changes links and the reference count of \<open>b\<close> only.\<close>

definition same_core :: "buf \<Rightarrow> buf \<Rightarrow> bool" where
  "same_core x y \<longleftrightarrow> b_valid x = b_valid y \<and> b_dirty x = b_dirty y \<and> b_dev x = b_dev y \<and>
     b_blockno x = b_blockno y \<and> b_data x = b_data y"

lemma set_link_core:
  "same_core (buf_at (set_bnext a v s) k) (buf_at s k)" "b_refcnt (buf_at (set_bnext a v s) k) = b_refcnt (buf_at s k)"
  "same_core (buf_at (set_bprev a v s) k) (buf_at s k)" "b_refcnt (buf_at (set_bprev a v s) k) = b_refcnt (buf_at s k)"
  by (simp_all add: set_bnext_def set_bprev_def same_core_def upd_buf_def upd_nth_field)

lemma same_core_trans: "same_core x y \<Longrightarrow> same_core y z \<Longrightarrow> same_core x z"
  by (simp add: same_core_def)

lemma binsert_core:
  "same_core (buf_at (binsert b s) k) (buf_at s k)" "b_refcnt (buf_at (binsert b s) k) = b_refcnt (buf_at s k)"
proof -
  have "same_core (buf_at (binsert b s) k) (buf_at s k) \<and> b_refcnt (buf_at (binsert b s) k) = b_refcnt (buf_at s k)"
    unfolding binsert_def Let_def
    by (auto simp: set_link_core intro: same_core_trans [OF set_link_core(3)] same_core_trans [OF set_link_core(1)] set_link_core)
  then show "same_core (buf_at (binsert b s) k) (buf_at s k)" "b_refcnt (buf_at (binsert b s) k) = b_refcnt (buf_at s k)"
    by simp_all
qed

lemma brelse_lru_core:
  assumes "b < length (bufs s)"
  shows "same_core (buf_at (brelse_lru b s) k) (buf_at s k)"
    and "b_refcnt (buf_at (brelse_lru b s) k) = (if k = b then b_refcnt (buf_at s b) - 1 else b_refcnt (buf_at s k))"
proof -
  define u where "u = upd_buf b (\<lambda>x. x\<lparr>b_refcnt := b_refcnt x - 1\<rparr>) s"
  have u: "same_core (buf_at u k) (buf_at s k)"
    "b_refcnt (buf_at u k) = (if k = b then b_refcnt (buf_at s b) - 1 else b_refcnt (buf_at s k))"
    using assms by (cases "k = b"; simp add: u_def upd_buf_def same_core_def)+
  show "same_core (buf_at (brelse_lru b s) k) (buf_at s k)"
    unfolding brelse_lru_def Let_def u_def [symmetric] using u(1)
    by (auto intro!: same_core_trans [OF binsert_core(1)] same_core_trans [OF set_link_core(1)]
        same_core_trans [OF set_link_core(3)])
  show "b_refcnt (buf_at (brelse_lru b s) k) = (if k = b then b_refcnt (buf_at s b) - 1 else b_refcnt (buf_at s k))"
  proof -
    have "b_refcnt (buf_at (brelse_lru b s) k) = b_refcnt (buf_at u k)"
      unfolding brelse_lru_def Let_def u_def [symmetric] by (simp add: binsert_core(2) set_link_core)
    then show ?thesis using u(2) by simp
  qed
qed

definition links_upd :: "'z bstate_scheme \<Rightarrow> 'z bstate_scheme \<Rightarrow> 'z bstate_scheme" where
  "links_upd s t = s\<lparr>bufs := bufs t, bhead_prev := bhead_prev t, bhead_next := bhead_next t\<rparr>"

text \<open>The links computed depend on the links only.\<close>

definition same_links :: "'z bstate_scheme \<Rightarrow> 'z bstate_scheme \<Rightarrow> bool" where
  "same_links s t \<longleftrightarrow> bufs t = bufs s \<and> bhead_prev t = bhead_prev s \<and> bhead_next t = bhead_next s"

lemma same_links_step:
  assumes "same_links s t"
  shows "same_links (set_bnext a v s) (set_bnext a v t)" "same_links (set_bprev a v s) (set_bprev a v t)"
    "same_links (upd_buf a f s) (upd_buf a f t)" "same_links (s\<lparr>bhead_next := v\<rparr>) (t\<lparr>bhead_next := v\<rparr>)"
    "bnext t = bnext s" "bprev t = bprev s" "bhead_next t = bhead_next s" "bufs t = bufs s"
  using assms by (auto simp: same_links_def set_bnext_def set_bprev_def upd_buf_def bnext_def bprev_def fun_eq_iff)

lemma same_links_binsert: "same_links s t \<Longrightarrow> same_links (binsert b s) (binsert b t)"
proof -
  assume a: "same_links s t"
  note a1 = same_links_step(1) [OF a, of b "bhead_next s"]
  note a2 = same_links_step(2) [OF a1, of b NBUF]
  note a3 = same_links_step(2) [OF a2, of "bhead_next (set_bprev b NBUF (set_bnext b (bhead_next s) s))" b]
  note a4 = same_links_step(4) [OF a3, of b]
  then show ?thesis
    using same_links_step(7) [OF a] same_links_step(7) [OF a2] by (simp add: binsert_def Let_def)
qed

lemma same_links_brelse_lru:
  assumes "same_links s t" shows "same_links (brelse_lru b s) (brelse_lru b t)"
proof -
  let ?f = "upd_buf b (\<lambda>x. x\<lparr>b_refcnt := b_refcnt x - 1\<rparr>)"
  note u = same_links_step(3) [OF assms, of b "\<lambda>x. x\<lparr>b_refcnt := b_refcnt x - 1\<rparr>"]
  note v = same_links_step(2) [OF u, of "bnext (?f s) b" "bprev (?f s) b"]
  note w = same_links_step(1) [OF v, of "bprev (set_bprev (bnext (?f s) b) (bprev (?f s) b) (?f s)) b"
      "bnext (set_bprev (bnext (?f s) b) (bprev (?f s) b) (?f s)) b"]
  show ?thesis
    using same_links_binsert [OF w, of b] u
    by (simp add: brelse_lru_def Let_def same_links_step(5,6,8) [OF u] same_links_step(5,6) [OF v])
qed

lemma brelse_lru_form: "brelse_lru b s = links_upd s (brelse_lru b s)"
proof -
  have l: "links_upd s t = t \<Longrightarrow> links_upd s (set_bnext a v t) = set_bnext a v t"
    "links_upd s t = t \<Longrightarrow> links_upd s (set_bprev a v t) = set_bprev a v t"
    "links_upd s t = t \<Longrightarrow> links_upd s (upd_buf a f t) = upd_buf a f t"
    "links_upd s t = t \<Longrightarrow> links_upd s (t\<lparr>bhead_next := v\<rparr>) = t\<lparr>bhead_next := v\<rparr>" for a v f t
  proof -
    have e: "links_upd s (set_bnext a v t) = set_bnext a v (links_upd s t)"
      "links_upd s (set_bprev a v t) = set_bprev a v (links_upd s t)"
      "links_upd s (upd_buf a f t) = upd_buf a f (links_upd s t)"
      "links_upd s (t\<lparr>bhead_next := v\<rparr>) = (links_upd s t)\<lparr>bhead_next := v\<rparr>"
      by (simp_all add: links_upd_def set_bnext_def set_bprev_def upd_buf_def)
    show "links_upd s t = t \<Longrightarrow> links_upd s (set_bnext a v t) = set_bnext a v t"
      "links_upd s t = t \<Longrightarrow> links_upd s (set_bprev a v t) = set_bprev a v t"
      "links_upd s t = t \<Longrightarrow> links_upd s (upd_buf a f t) = upd_buf a f t"
      "links_upd s t = t \<Longrightarrow> links_upd s (t\<lparr>bhead_next := v\<rparr>) = t\<lparr>bhead_next := v\<rparr>"
      by (simp_all add: e)
  qed
  have "links_upd s s = s" by (simp add: links_upd_def)
  then show ?thesis by (auto simp: brelse_lru_def binsert_def Let_def l)
qed

lemma brelse_section:
  assumes "calm s i"
  shows "bindR (acquire L_bcache s) (\<lambda>_ s. release L_bcache (brelse_lru b s)) = Ok () (brelse_lru b s)"
proof -
  let ?a = "acquired L_bcache i s"
  have "same_links s ?a" by (simp add: same_links_def)
  then have e: "same_links (brelse_lru b s) (brelse_lru b ?a)" by (rule same_links_brelse_lru)
  have "brelse_lru b ?a = links_upd ?a (brelse_lru b ?a)" by (rule brelse_lru_form)
  also have "\<dots> = links_upd ?a (brelse_lru b s)" using e by (simp add: links_upd_def same_links_def)
  finally have "release L_bcache (brelse_lru b ?a) = Ok () (links_upd s (brelse_lru b s))"
    using bcache_section(2) [OF assms] by (simp add: links_upd_def)
  then show ?thesis by (simp add: acquire_calm [OF assms] brelse_lru_form [symmetric])
qed

definition brelse_post :: "'z bstate_scheme \<Rightarrow> nat \<Rightarrow> nat \<Rightarrow> nat set \<Rightarrow> nat \<Rightarrow> 'z bstate_scheme \<Rightarrow> bool" where
  "brelse_post s i p H b t \<longleftrightarrow> binv t i p (H - {b}) \<and> cframe s t \<and> blk t = blk s \<and> dirtyb t = dirtyb s \<and>
     dirty_blocks t = dirty_blocks s \<and>
     disk t = disk s \<and> dwrites t = dwrites s \<and> (\<forall>a. same_core (buf_at t a) (buf_at s a)) \<and>
     (\<forall>xs. lru s xs \<longrightarrow> lru t (b # remove1 b xs))"

lemma brelse_runs:
  assumes inv: "binv s i p H" and b: "b \<in> H"
    and clean: "b_dirty (buf_at s b) \<or> b_data (buf_at s b) = disk s (b_blockno (buf_at s b))"
  shows "runs (brelse b s) (\<lambda>_. brelse_post s i p H b)"
proof -
  obtain xs where lru: "lru s xs" and H: "H \<subseteq> {..<NBUF}" using inv by (auto simp: binv_def)
  note run = binv_facts(1) [OF inv] and len = binv_facts(2) [OF inv] and uniq = binv_facts(3) [OF inv]
  have bN: "b < NBUF" by (rule binv_facts(6) [OF inv b])
  have okb: "buf_ok s (p_pid (proc_at s p)) H b" by (rule binv_facts(4) [OF inv bN])
  let ?l = "L_bufsleep b"
  define u where "u = s\<lparr>ptable := wake_tab (Some (Ch_sleeplock ?l)) (ptable s),
    slocks := (slocks s)(?l := (slocks s ?l)\<lparr>sl_locked := False, sl_pid := 0\<rparr>)\<rparr>"
  define t where "t = brelse_lru b u"
  have bu: "bufs u = bufs s" "disk u = disk s" "dwrites u = dwrites s" "disksize u = disksize s" by (simp_all add: u_def)
  have "calm u i" using running_calm [OF run] calm_cong [of u s i] by (simp add: u_def)
  then have call: "brelse b s = Ok () t"
    using okb b by (simp add: brelse_def holdingsleep_ok [OF run] releasesleep_ok [OF run] buf_ok_def
        brelse_section t_def u_def)
  have lruu: "lru u ys" if "lru s ys" for ys
    using that same_links_step(5,6) [of s u] by (simp add: lru_def bu same_links_def) (simp add: u_def)
  have mru: "lru t (b # remove1 b ys)" if "lru s ys" for ys
    unfolding t_def by (rule brelse_lru_front [OF lruu [OF that]]) (use bN okb b in \<open>simp_all add: bu buf_ok_def\<close>)
  note lrut = mru [OF lru]
  have core: "same_core (buf_at t a) (buf_at s a)" for a
    using brelse_lru_core(1) [of b u a] bN len by (simp add: t_def bu)
  have ref: "b_refcnt (buf_at t a) = (if a = b then b_refcnt (buf_at s b) - 1 else b_refcnt (buf_at s a))" for a
    using brelse_lru_core(2) [of b u a] bN len by (simp add: t_def bu)
  have form: "t = links_upd u t" unfolding t_def by (rule brelse_lru_form)
  have sel: "disk t = disk s" "dwrites t = dwrites s" "ptable t = ptable u" "slocks t = slocks u" "disksize t = disksize s"
    by (subst form, simp add: links_upd_def bu)+
  have "cupd s t = cupd u t" by (simp add: cupd_def u_def)
  also have "\<dots> = t" by (subst (2) form) (simp add: links_upd_def cupd_def sel bu)
  finally have fr: "cframe s t" by (simp add: cframe_def sel u_def)
  have pid: "p_pid (proc_at t p) = p_pid (proc_at s p)" by (rule cframe_pid [OF fr binv_facts(7) [OF inv]])
  have "buf_ok t (p_pid (proc_at s p)) (H - {b}) a" if a: "a < NBUF" for a
  proof -
    have ok: "buf_ok s (p_pid (proc_at s p)) H a" by (rule binv_facts(4) [OF inv a])
    note c = core [of a, unfolded same_core_def]
    show ?thesis
      using ok c ref [of a] clean okb b
      by (cases "a = b"; cases "b_dirty (buf_at s b)") (simp_all add: buf_ok_def sel, simp_all add: u_def)
  qed
  moreover have "buf_uniq (bufs t)" using uniq core by (simp add: buf_uniq_def same_core_def)
  ultimately have inv': "binv t i p (H - {b})"
    using cframe_running [OF fr run] lrut H binv_facts(5) [OF inv] by (auto simp: binv_def pid sel(1))
  have lent: "length (bufs t) = NBUF" using lrut by (simp add: lru_def)
  have "blk t = blk s"
    by (rule blk_same [OF uniq binv_facts(3) [OF inv'] len lent sel(1)]) (use core in \<open>simp_all add: same_core_def\<close>)
  moreover have "dirtyb t = dirtyb s" "dirty_blocks t = dirty_blocks s"
    using core by (simp_all add: dirtyb_def dirty_blocks_def same_core_def)
  ultimately show ?thesis using call inv' fr sel core mru by (simp add: brelse_post_def)
qed


section \<open>Availability of buffers\<close>

lemma finite_dirtyb [simp]: "finite (dirtyb s)"
  by (simp add: dirtyb_def)

lemma card_dirty_blocks:
  assumes "binv s i p H"
  shows "card (dirtyb s) = card (dirty_blocks s)"
proof -
  have "inj_on (\<lambda>b. b_blockno (buf_at s b)) (dirtyb s)"
  proof (rule inj_onI)
    fix a b assume a: "a \<in> dirtyb s" "b \<in> dirtyb s" "b_blockno (buf_at s a) = b_blockno (buf_at s b)"
    then have "b_dev (buf_at s a) = ROOTDEV" "b_dev (buf_at s b) = ROOTDEV" "a < NBUF" "b < NBUF"
      using binv_facts(4) [OF assms, of a] binv_facts(4) [OF assms, of b] by (auto simp: dirtyb_def buf_ok_def)
    then show "a = b" using a(3) binv_facts(3) [OF assms] by (simp add: buf_uniq_def)
  qed
  then show ?thesis unfolding dirty_blocks_def by (rule card_image [symmetric])
qed

lemma buffer_available:
  assumes "binv s i p H" and "card H + card (dirty_blocks s) < NBUF"
  shows "H \<union> dirtyb s \<noteq> {..<NBUF}"
proof
  assume "H \<union> dirtyb s = {..<NBUF}"
  then have "NBUF \<le> card H + card (dirtyb s)" using card_Un_le [of H "dirtyb s"] by simp
  then show False using assms card_dirty_blocks [OF assms(1)] by simp
qed

lemma dirty_cached: "binv s i p H \<Longrightarrow> n \<in> dirty_blocks s \<Longrightarrow> cached s n"
  using binv_facts(4) [of s i p H] by (fastforce simp: dirty_blocks_def dirtyb_def cached_def buf_ok_def)

lemma dirty_held:
  assumes "binv s i p H" and "b \<in> H" and "b_blockno (buf_at s b) \<in> dirty_blocks s"
  shows "b_dirty (buf_at s b)"
proof -
  obtain a where a: "a \<in> dirtyb s" "b_blockno (buf_at s a) = b_blockno (buf_at s b)"
    using assms(3) by (auto simp: dirty_blocks_def)
  then have "a < NBUF" "b_dev (buf_at s a) = ROOTDEV"
    using binv_facts(4) [OF assms(1), of a] by (auto simp: dirtyb_def buf_ok_def)
  then have "a = b"
    using a(2) binv_facts(3) [OF assms(1)] binv_facts(6) [OF assms(1,2)] held_facts(2) [OF assms(1,2)]
    by (simp add: buf_uniq_def)
  then show ?thesis using a(1) by (simp add: dirtyb_def)
qed

section \<open>Initialisation\<close>

lemma binit_step_links: "same_links (binsert b s) (binit_step b s)"
proof -
  let ?u = "set_bprev b NBUF (set_bnext b (bhead_next s) s)"
  have "same_links ?u (initsleeplock (L_bufsleep b) ''buffer'' ?u)"
    by (simp add: same_links_def initsleeplock_def upd_slock_def initlock_def upd_lock_def)
  from same_links_step(4) [OF same_links_step(2) [OF this]] same_links_step(7) [OF this]
  show ?thesis by (simp add: binsert_def binit_step_def Let_def)
qed

lemma binit_step_lru:
  assumes "dll (bnext s) (bprev s) NBUF (rev [0..<b])" and "b < NBUF" and "length (bufs s) = NBUF"
  shows "dll (bnext (binit_step b s)) (bprev (binit_step b s)) NBUF (rev [0..<Suc b])"
    and "length (bufs (binit_step b s)) = NBUF"
proof -
  have "bnext s NBUF \<in> set (NBUF # rev [0..<b])" by (rule dll_step_mem(1) [OF assms(1)]) simp
  then have "bnext s NBUF \<le> NBUF" using assms(2) by auto
  note ins = binsert_lru [OF assms(1,2) _ assms(3) this]
  note l = same_links_step(5,6,8) [OF binit_step_links [of b s]]
  show "dll (bnext (binit_step b s)) (bprev (binit_step b s)) NBUF (rev [0..<Suc b])"
    using ins(1) by (simp add: l)
  show "length (bufs (binit_step b s)) = NBUF" using ins(2) by (simp add: l)
qed

lemma binit_fold:
  assumes "dll (bnext s) (bprev s) NBUF []" and "length (bufs s) = NBUF" and "n \<le> NBUF"
  shows "dll (bnext (fold binit_step [0..<n] s)) (bprev (fold binit_step [0..<n] s)) NBUF (rev [0..<n]) \<and>
    length (bufs (fold binit_step [0..<n] s)) = NBUF"
  using assms(3)
proof (induction n)
  case 0
  then show ?case using assms by simp
next
  case (Suc n)
  then show ?case using binit_step_lru [of "fold binit_step [0..<n] s" n] by simp
qed

lemma binit_lru: "length (bufs s) = NBUF \<Longrightarrow> lru (binit s) (rev [0..<NBUF])"
proof -
  assume len: "length (bufs s) = NBUF"
  let ?t = "(initlock L_bcache ''bcache'' s)\<lparr>bhead_prev := NBUF, bhead_next := NBUF\<rparr>"
  have "dll (bnext ?t) (bprev ?t) NBUF []" by (simp add: dll_def bnext_def bprev_def)
  moreover have "length (bufs ?t) = NBUF" using len by (simp add: initlock_def upd_lock_def)
  ultimately show ?thesis using binit_fold [of ?t NBUF] by (auto simp: lru_def binit_def Let_def)
qed

text \<open>What initialisation leaves alone.\<close>

definition binit_keeps :: "'z bstate_scheme \<Rightarrow> 'z bstate_scheme \<Rightarrow> bool" where
  "binit_keeps s t \<longleftrightarrow> lapic_id t = lapic_id s \<and> ncpu t = ncpu s \<and> cpus t = cpus s \<and> eflags_IF t = eflags_IF s \<and>
     ptable t = ptable s \<and> disk t = disk s \<and> disksize t = disksize s \<and>
     (\<forall>a. same_core (buf_at t a) (buf_at s a) \<and> b_refcnt (buf_at t a) = b_refcnt (buf_at s a)) \<and>
     (\<forall>l. lock_free s l \<longrightarrow> lock_free t l) \<and>
     (\<forall>l. \<not> sl_locked (slocks s l) \<longrightarrow> \<not> sl_locked (slocks t l))"

lemma binit_keeps_trans: "binit_keeps s t \<Longrightarrow> binit_keeps t u \<Longrightarrow> binit_keeps s u"
  unfolding binit_keeps_def by (simp add: same_core_def)

lemma binit_keeps_ops:
  "binit_keeps s (set_bnext a v s)" "binit_keeps s (set_bprev a v s)" "binit_keeps s (s\<lparr>bhead_next := v\<rparr>)"
  "binit_keeps s (initsleeplock l nm s)"
  by (simp_all add: binit_keeps_def set_link_core)
    (simp_all add: set_bnext_def set_bprev_def upd_buf_def initsleeplock_def upd_slock_def initlock_def
      upd_lock_def lock_free_def same_core_def)

lemma binit_keeps_step: "binit_keeps s (binit_step b s)"
proof -
  define s1 where "s1 = set_bnext b (bhead_next s) s"
  define s2 where "s2 = set_bprev b NBUF s1"
  define s3 where "s3 = initsleeplock (L_bufsleep b) ''buffer'' s2"
  define s4 where "s4 = set_bprev (bhead_next s3) b s3"
  have "binit_keeps s s1" unfolding s1_def by (rule binit_keeps_ops)
  moreover have "binit_keeps s1 s2" unfolding s2_def by (rule binit_keeps_ops)
  moreover have "binit_keeps s2 s3" unfolding s3_def by (rule binit_keeps_ops)
  moreover have "binit_keeps s3 s4" unfolding s4_def by (rule binit_keeps_ops)
  moreover have "binit_keeps s4 (s4\<lparr>bhead_next := b\<rparr>)" by (rule binit_keeps_ops)
  moreover have "binit_step b s = s4\<lparr>bhead_next := b\<rparr>"
    by (simp add: binit_step_def Let_def s1_def s2_def s3_def s4_def)
  ultimately show ?thesis by (metis binit_keeps_trans)
qed

lemma binit_keeps_fold: "binit_keeps s (fold binit_step bs s)"
proof (induction bs arbitrary: s)
  case Nil
  then show ?case by (simp add: binit_keeps_def same_core_def)
next
  case (Cons b bs)
  then show ?case using binit_keeps_trans [OF binit_keeps_step Cons.IH] by simp
qed

lemma binit_keeps_binit: "binit_keeps s (binit s)"
proof -
  let ?t = "(initlock L_bcache ''bcache'' s)\<lparr>bhead_prev := NBUF, bhead_next := NBUF\<rparr>"
  have "binit_keeps s ?t"
    by (simp add: binit_keeps_def same_core_def initlock_def upd_lock_def lock_free_def)
  from binit_keeps_trans [OF this binit_keeps_fold] show ?thesis by (simp add: binit_def Let_def)
qed

text \<open>A cache as the kernel's zeroed memory and \<open>binit\<close> leave it satisfies the invariant.\<close>

lemma binit_inv:
  assumes "running s i p" and "length (bufs s) = NBUF" and "\<forall>n. length (disk s n) = BSIZE"
    and "\<forall>b < NBUF. \<not> b_valid (buf_at s b) \<and> \<not> b_dirty (buf_at s b) \<and> b_dev (buf_at s b) = 0 \<and>
      b_refcnt (buf_at s b) = 0 \<and> length (b_data (buf_at s b)) = BSIZE"
    and "\<forall>l. \<not> sl_locked (slocks s l)"
  shows "binv (binit s) i p {}"
proof -
  let ?t = "binit s"
  have k: "binit_keeps s ?t" by (rule binit_keeps_binit)
  have "int_ok ?t i = int_ok s i" using k by (intro int_ok_cong) (simp_all add: binit_keeps_def)
  then have run: "running ?t i p" using k assms(1) by (auto simp: binit_keeps_def running_def calm_def)
  have b: "\<not> b_valid (buf_at ?t b) \<and> \<not> b_dirty (buf_at ?t b) \<and> b_dev (buf_at ?t b) = 0 \<and>
      b_refcnt (buf_at ?t b) = 0 \<and> length (b_data (buf_at ?t b)) = BSIZE" if "b < NBUF" for b
    using k assms(4) that by (simp add: binit_keeps_def same_core_def)
  have "buf_ok ?t (p_pid (proc_at ?t p)) {} b" if "b < NBUF" for b
    using b [OF that] k assms(5) by (simp add: buf_ok_def binit_keeps_def)
  moreover have "buf_uniq (bufs ?t)" using b by (simp add: buf_uniq_def ROOTDEV_def)
  ultimately show ?thesis
    using run binit_lru [OF assms(2)] k assms(3) by (auto simp: binv_def binit_keeps_def)
qed

section \<open>A concrete cache\<close>

definition zero_buf :: buf where
  "zero_buf = \<lparr>b_valid = False, b_dirty = False, b_dev = 0, b_blockno = 0, b_refcnt = 0, b_prev = 0,
     b_next = 0, b_data = replicate BSIZE 0\<rparr>"

definition demo_bstate0 :: bstate where
  "demo_bstate0 = \<lparr>lapic_id = 0, eflags_IF = (\<lambda>_. True), cr3 = (\<lambda>_. 0), tr = (\<lambda>_. 0),
     cpus = [demo_cpu\<lparr>intena := True\<rparr>], ncpu = 1,
     locks = (\<lambda>_. \<lparr>lk_locked = False, lk_name = [], lk_cpu = None\<rparr>),
     mem = (\<lambda>_. 0), use_lock = True, freelist = 0, kend = 0x80115000,
     ptable = [demo_proc RUNNING 1 None], initproc = Some 0, nextpid = 2, tframes = (\<lambda>_. demo_tf),
     contexts = (\<lambda>_. zero_context), saved_intena = (\<lambda>_. False), kpgdir = 0x803ff000,
     trapret_addr = 0x80105000, forkret_addr = 0x80103000,
     slocks = (\<lambda>_. \<lparr>sl_locked = False, sl_name = [], sl_pid = 0\<rparr>),
     bufs = replicate NBUF zero_buf, bhead_prev = 0, bhead_next = 0,
     disk = (\<lambda>n. replicate BSIZE (of_nat n)), disksize = 1000, dwrites = []\<rparr>"

definition demo_bstate :: bstate where
  "demo_bstate = binit demo_bstate0"

lemma demo_running: "running demo_bstate0 0 0"
  by (simp add: running_def calm_def int_ok_def on_cpu_def first_idx_def lock_free_def demo_bstate0_def demo_cpu_def)

lemma demo_binv: "binv demo_bstate 0 0 {}"
  unfolding demo_bstate_def
  by (rule binit_inv [OF demo_running]) (simp_all add: demo_bstate0_def zero_buf_def)

lemma demo_disk: "disk demo_bstate = (\<lambda>n. replicate BSIZE (of_nat n))" "disksize demo_bstate = 1000"
  using binit_keeps_binit [of demo_bstate0]
  by (simp_all add: binit_keeps_def demo_bstate_def) (simp_all add: demo_bstate0_def)

lemma lessThan_NBUF: "{} \<noteq> {..<NBUF}" "{..<NBUF} \<noteq> {}"
proof -
  have "0 \<in> {..<NBUF}" by (simp add: NBUF_def MAXOPBLOCKS_def)
  then show "{} \<noteq> {..<NBUF}" "{..<NBUF} \<noteq> {}" by blast+
qed

lemma demo_clean: "dirtyb demo_bstate = {}"
proof -
  have "\<not> b_dirty (buf_at demo_bstate b)" if "b < NBUF" for b
    using binit_keeps_binit [of demo_bstate0] that
    by (simp add: binit_keeps_def demo_bstate_def same_core_def) (simp add: demo_bstate0_def zero_buf_def)
  then show ?thesis by (simp add: dirtyb_def)
qed


section \<open>Properties\<close>

text \<open>
  C9. The cache is transparent: reading a block through \<open>bread\<close> returns, whatever is cached, with a
  locked buffer that holds the block's content; the content of no block changes, nothing is
  written to the disk, and every other buffer that is held is untouched.
\<close>

theorem bread_content:
  assumes "binv s i p H" and "n < disksize s" and "\<forall>b\<in>H. b_blockno (buf_at s b) \<noteq> n"
    and "H \<union> dirtyb s \<noteq> {..<NBUF}"
  shows "\<exists>b t. bread ROOTDEV n s = Ok b t \<and> b \<notin> H \<and> binv t i p (insert b H) \<and>
    b_data (buf_at t b) = blk s n \<and> blk t = blk s \<and> disk t = disk s \<and> dwrites t = dwrites s \<and>
    (\<forall>a\<in>H. buf_at t a = buf_at s a)"
proof -
  have "runs (bread ROOTDEV n s) (bread_post s i p H n)"
    by (rule bread_runs [OF assms(1-3)]) (use assms(4) in blast)
  then obtain b t where "bread ROOTDEV n s = Ok b t" and post: "bread_post s i p H n b t" by (rule runsE)
  moreover have "\<forall>a\<in>H. buf_at t a = buf_at s a" using post unfolding bread_post_def by metis
  ultimately show ?thesis unfolding bread_post_def by blast
qed

theorem bread_content_witness:
  "\<exists>b t. bread ROOTDEV 7 demo_bstate = Ok b t \<and> b_data (buf_at t b) = blk demo_bstate 7"
  using bread_content [OF demo_binv, of 7] by (auto simp: demo_disk demo_clean lessThan_NBUF)

definition bupdate :: "nat \<Rightarrow> byte list \<Rightarrow> 'z bstate_scheme \<Rightarrow> (unit, 'z bstate_scheme) res" where
  "bupdate n d s =
     bindR (bread ROOTDEV n s) (\<lambda>b s.
     bindR (bwrite b (upd_buf b (\<lambda>x. x\<lparr>b_data := d\<rparr>) s)) (\<lambda>_ s. brelse b s))"

text \<open>
  C10. A block that is read, overwritten, written with \<open>bwrite\<close> and released is on the disk and in
  the cache with the new content; exactly one block write reached the disk, the content of no
  other block changed, and the cache invariant holds with no buffer held.
\<close>

theorem bupdate_durable:
  assumes "binv s i p {}" and "n < disksize s" and "dirtyb s \<noteq> {..<NBUF}" and "length d = BSIZE"
  shows "\<exists>t. bupdate n d s = Ok () t \<and> binv t i p {} \<and> disk t = (disk s)(n := d) \<and>
    blk t = (blk s)(n := d) \<and> dwrites t = dwrites s @ [(n, d)]"
proof -
  have "runs (bread ROOTDEV n s) (bread_post s i p {} n)" by (rule bread_runs [OF assms(1,2)]) (use assms(3) in simp_all)
  then obtain b s1 where r: "bread ROOTDEV n s = Ok b s1" and s1: "bread_post s i p {} n b s1" by (rule runsE)
  have inv1: "binv s1 i p {b}" and n: "b_blockno (buf_at s1 b) = n" using s1 by (simp_all add: bread_post_def)
  define s2 where "s2 = upd_buf b (\<lambda>x. x\<lparr>b_data := d\<rparr>) s1"
  note m = bset_data [OF inv1 singletonI assms(4) s2_def]
  obtain s3 where w: "bwrite b s2 = Ok () s3" and s3: "bwrite_post s2 i p {b} b s3"
    using bwrite_runs [OF m(1) singletonI] by (auto simp: runs_iff)
  have inv3: "binv s3 i p {b}" and d3: "b_data (buf_at s3 b) = disk s3 (b_blockno (buf_at s3 b))"
    using s3 by (simp_all add: bwrite_post_def)
  obtain t where rel: "brelse b s3 = Ok () t" and t: "brelse_post s3 i p {b} b t"
    using brelse_runs [OF inv3 singletonI] d3 by (auto simp: runs_iff)
  have "bupdate n d s = Ok () t" using r w rel by (simp add: bupdate_def s2_def)
  moreover have "binv t i p {}" "disk t = (disk s)(n := d)" "blk t = (blk s)(n := d)" "dwrites t = dwrites s @ [(n, d)]"
    using t s3 s1 m(3,5,6,7) n by (simp_all add: brelse_post_def bwrite_post_def bread_post_def)
  ultimately show ?thesis by blast
qed

theorem bupdate_durable_witness:
  "\<exists>t. bupdate 5 (replicate 512 9) demo_bstate = Ok () t \<and> disk t 5 = replicate 512 9 \<and> disk t 6 = replicate 512 6"
proof -
  have "dirtyb demo_bstate \<noteq> {..<NBUF}" by (simp add: demo_clean lessThan_NBUF)
  then obtain t where "bupdate 5 (replicate 512 9) demo_bstate = Ok () t"
    "disk t = (disk demo_bstate)(5 := replicate 512 9)"
    using bupdate_durable [OF demo_binv, of 5 "replicate 512 9"] by (auto simp: demo_disk BSIZE_def)
  then show ?thesis by (simp add: demo_disk BSIZE_def)
qed

text \<open>
  C14. The linked list of buffers refines the list of buffers by recency of use: \<open>brelse\<close> returns
  and moves the buffer to the front, keeping the order of the others, with the links of every
  buffer in both directions consistent again.
\<close>

theorem brelse_most_recent:
  assumes "binv s i p H" and "b \<in> H" and "lru s xs"
    and "b_dirty (buf_at s b) \<or> b_data (buf_at s b) = disk s (b_blockno (buf_at s b))"
  shows "\<exists>t. brelse b s = Ok () t \<and> lru t (b # remove1 b xs) \<and> binv t i p (H - {b})"
  using brelse_runs [OF assms(1,2,4)] assms(3) by (auto simp: runs_iff brelse_post_def)

theorem brelse_most_recent_witness:
  "\<exists>b s t xs. bread ROOTDEV 7 demo_bstate = Ok b s \<and> brelse b s = Ok () t \<and> lru t (b # remove1 b xs)"
proof -
  have "runs (bread ROOTDEV 7 demo_bstate) (bread_post demo_bstate 0 0 {} 7)"
    by (rule bread_runs [OF demo_binv]) (simp_all add: demo_disk demo_clean lessThan_NBUF)
  then obtain b s where r: "bread ROOTDEV 7 demo_bstate = Ok b s" and post: "bread_post demo_bstate 0 0 {} 7 b s"
    by (rule runsE)
  have inv: "binv s 0 0 {b}" using post by (simp add: bread_post_def)
  then obtain xs where xs: "lru s xs" by (auto simp: binv_def)
  have "blk demo_bstate 7 = disk demo_bstate 7"
  proof (rule blk_uncached [OF binv_facts(2) [OF demo_binv]])
    fix a assume a: "a < NBUF" "b_valid (buf_at demo_bstate a)"
    have "\<not> b_valid (buf_at demo_bstate a)"
      using binit_keeps_binit [of demo_bstate0] a(1)
      by (simp add: binit_keeps_def demo_bstate_def same_core_def) (simp add: demo_bstate0_def zero_buf_def)
    with a show "b_blockno (buf_at demo_bstate a) \<noteq> 7" by simp
  qed
  then have "b_data (buf_at s b) = disk s (b_blockno (buf_at s b))" using post by (simp add: bread_post_def)
  with brelse_most_recent [OF inv singletonI xs] r xs show ?thesis by blast
qed

end
