(* ===== verification/Bytes.thy ===== *)
theory Bytes
  imports Xv6Prelude
begin

text \<open>
  Disk blocks are lists of bytes.  The structures the file system casts them to (log header,
  superblock, inodes, directory entries, indirect blocks) are read and written through
  little-endian 16- and 32-bit fields.
\<close>

definition get32 :: "byte list \<Rightarrow> nat \<Rightarrow> u32" where
  "get32 d k = ucast (d ! k) OR push_bit 8 (ucast (d ! (k + 1)))
     OR push_bit 16 (ucast (d ! (k + 2))) OR push_bit 24 (ucast (d ! (k + 3)))"

definition set32 :: "nat \<Rightarrow> u32 \<Rightarrow> byte list \<Rightarrow> byte list" where
  "set32 k v d = d[k := ucast v, k + 1 := ucast (drop_bit 8 v),
     k + 2 := ucast (drop_bit 16 v), k + 3 := ucast (drop_bit 24 v)]"

definition get16 :: "byte list \<Rightarrow> nat \<Rightarrow> u16" where
  "get16 d k = ucast (d ! k) OR push_bit 8 (ucast (d ! (k + 1)))"

definition set16 :: "nat \<Rightarrow> u16 \<Rightarrow> byte list \<Rightarrow> byte list" where
  "set16 k v d = d[k := ucast v, k + 1 := ucast (drop_bit 8 v)]"

lemma length_set32 [simp]: "length (set32 k v d) = length d"
  by (simp add: set32_def)

lemma length_set16 [simp]: "length (set16 k v d) = length d"
  by (simp add: set16_def)

lemma word16_bytes:
  fixes v :: u16
  shows "(ucast (ucast v :: byte) :: u16) OR push_bit 8 (ucast (ucast (drop_bit 8 v) :: byte)) = v" (is "?l = v")
proof (rule bit_word_eqI)
  fix n assume "n < LENGTH(16)"
  then consider "n < 8" | "8 \<le> n" "n < 16" by fastforce
  then show "bit ?l n = bit v n" by cases (auto simp: bit_simps)
qed

lemma get32_set32 [simp]: "k + 3 < length d \<Longrightarrow> get32 (set32 k v d) k = v"
  by (simp add: get32_def set32_def nth_list_update word32_bytes)

lemma get16_set16 [simp]: "k + 1 < length d \<Longrightarrow> get16 (set16 k v d) k = v"
  by (simp add: get16_def set16_def nth_list_update word16_bytes)

lemma get32_set32_other: "k + 4 \<le> j \<or> j + 4 \<le> k \<Longrightarrow> get32 (set32 k v d) j = get32 d j"
  by (auto simp: get32_def set32_def nth_list_update)

lemma get32_set16_other: "k + 2 \<le> j \<or> j + 4 \<le> k \<Longrightarrow> get32 (set16 k v d) j = get32 d j"
  by (auto simp: get32_def set16_def nth_list_update)

lemma get16_set32_other: "k + 4 \<le> j \<or> j + 2 \<le> k \<Longrightarrow> get16 (set32 k v d) j = get16 d j"
  by (auto simp: get16_def set32_def nth_list_update)

lemma get16_set16_other: "k + 2 \<le> j \<or> j + 2 \<le> k \<Longrightarrow> get16 (set16 k v d) j = get16 d j"
  by (auto simp: get16_def set16_def nth_list_update)

text \<open>The C loop \<^verbatim>\<open>for(i = ...) f(i);\<close> over a list of indices.\<close>

fun forR :: "'i list \<Rightarrow> ('i \<Rightarrow> 's \<Rightarrow> (unit, 's) res) \<Rightarrow> 's \<Rightarrow> (unit, 's) res" where
  "forR [] f s = Ok () s"
| "forR (x # xs) f s = bindR (f x s) (\<lambda>_ s. forR xs f s)"

lemma forR_append: "forR (xs @ ys) f s = bindR (forR xs f s) (\<lambda>_ s. forR ys f s)"
  by (induction xs arbitrary: s) (auto simp: bindR_assoc intro!: bindR_cong)

lemma forR_cong [fundef_cong]:
  "xs = ys \<Longrightarrow> s = t \<Longrightarrow> (\<And>x u. x \<in> set ys \<Longrightarrow> f x u = g x u) \<Longrightarrow> forR xs f s = forR ys g t"
proof (induction xs arbitrary: ys s t)
  case (Cons x xs)
  have "forR xs f u = forR xs g u" for u using Cons.prems by (intro Cons.IH) auto
  then show ?case using Cons.prems by (auto intro!: bindR_cong)
qed simp

end
