(* ===== verification/Log.thy ===== *)
theory Log
  imports Bcache Bytes
begin

text \<open>
  The redo log of \<^verbatim>\<open>log.c\<close>.  System calls bracket their updates with \<open>begin_op\<close> and \<open>end_op\<close>
  and record modified blocks with \<open>log_write\<close>; the last \<open>end_op\<close> commits: the modified blocks go
  to the log, the header block makes the transaction durable, the blocks are installed at home and
  the header is cleared.  \<open>recover_from_log\<close> installs a committed transaction after a crash.
\<close>

section \<open>State\<close>

record superblock =
  sb_size :: nat
  sb_nblocks :: nat
  sb_ninodes :: nat
  sb_nlog :: nat
  sb_logstart :: nat
  sb_inodestart :: nat
  sb_bmapstart :: nat

record lstate = bstate +
  log_start :: nat
  log_size :: int
  log_outstanding :: int
  log_committing :: bool
  log_dev :: nat
  log_n :: int
  log_block :: "nat list"

definition sizeof_logheader :: nat where "sizeof_logheader = 4 + 4 * LOGSIZE"

definition superblock_of :: "byte list \<Rightarrow> superblock" where
  "superblock_of d = \<lparr>sb_size = unat (get32 d 0), sb_nblocks = unat (get32 d 4), sb_ninodes = unat (get32 d 8),
     sb_nlog = unat (get32 d 12), sb_logstart = unat (get32 d 16), sb_inodestart = unat (get32 d 20),
     sb_bmapstart = unat (get32 d 24)\<rparr>"

definition readsb :: "nat \<Rightarrow> 'z bstate_scheme \<Rightarrow> (superblock, 'z bstate_scheme) res" where
  "readsb dev s =
     bindR (bread dev 1 s) (\<lambda>bp s.
       let sb = superblock_of (b_data (buf_at s bp)) in
       bindR (brelse bp s) (\<lambda>_ s. Ok sb s))"

section \<open>Commit and recovery\<close>

text \<open>The header block's fields: the count, and the array of block numbers after it.\<close>

definition hdr_n :: "byte list \<Rightarrow> int" where
  "hdr_n d = sint (get32 d 0)"

definition hdr_block :: "byte list \<Rightarrow> nat \<Rightarrow> nat" where
  "hdr_block d i = unat (get32 d (4 + 4 * i))"

definition install_one :: "nat \<Rightarrow> 'z lstate_scheme \<Rightarrow> (unit, 'z lstate_scheme) res" where
  "install_one tail s =
     bindR (bread (log_dev s) (log_start s + tail + 1) s) (\<lambda>lbuf s.
     bindR (bread (log_dev s) (log_block s ! tail) s) (\<lambda>dbuf s.
       let s = upd_buf dbuf (\<lambda>x. x\<lparr>b_data := b_data (buf_at s lbuf)\<rparr>) s in
     bindR (bwrite dbuf s) (\<lambda>_ s.
     bindR (brelse lbuf s) (\<lambda>_ s. brelse dbuf s))))"

definition install_trans :: "'z lstate_scheme \<Rightarrow> (unit, 'z lstate_scheme) res" where
  "install_trans s = forR [0..<nat (log_n s)] install_one s"

text \<open>
  The array \<^verbatim>\<open>log.lh.block\<close> has \<open>LOGSIZE\<close> entries; a header with a larger count makes the code
  write past its end.
\<close>

definition read_head :: "'z lstate_scheme \<Rightarrow> (unit, 'z lstate_scheme) res" where
  "read_head s =
     bindR (bread (log_dev s) (log_start s) s) (\<lambda>buf s.
       let d = b_data (buf_at s buf); s = s\<lparr>log_n := hdr_n d\<rparr> in
       if log_n s > int LOGSIZE then Panic ''read_head: log.lh.block overrun''
       else let s = s\<lparr>log_block := map (hdr_block d) [0..<nat (log_n s)] @ drop (nat (log_n s)) (log_block s)\<rparr> in
         brelse buf s)"

fun put_blocks :: "nat \<Rightarrow> nat list \<Rightarrow> byte list \<Rightarrow> byte list" where
  "put_blocks i [] d = d"
| "put_blocks i (b # bs) d = put_blocks (Suc i) bs (set32 (4 + 4 * i) (of_nat b) d)"

definition head_data :: "int \<Rightarrow> nat list \<Rightarrow> byte list \<Rightarrow> byte list" where
  "head_data n bs d = put_blocks 0 (take (nat n) bs) (set32 0 (of_int n) d)"

definition write_head :: "'z lstate_scheme \<Rightarrow> (unit, 'z lstate_scheme) res" where
  "write_head s =
     bindR (bread (log_dev s) (log_start s) s) (\<lambda>buf s.
       let s = upd_buf buf (\<lambda>x. x\<lparr>b_data := head_data (log_n s) (log_block s) (b_data x)\<rparr>) s in
     bindR (bwrite buf s) (\<lambda>_ s. brelse buf s))"

definition recover_from_log :: "'z lstate_scheme \<Rightarrow> (unit, 'z lstate_scheme) res" where
  "recover_from_log s =
     bindR (read_head s) (\<lambda>_ s.
     bindR (install_trans s) (\<lambda>_ s. write_head (s\<lparr>log_n := 0\<rparr>)))"

definition initlog :: "nat \<Rightarrow> 'z lstate_scheme \<Rightarrow> (unit, 'z lstate_scheme) res" where
  "initlog dev s =
     (if sizeof_logheader \<ge> BSIZE then Panic ''initlog: too big logheader''
      else let s = initlock L_log ''log'' s in
        bindR (readsb dev s) (\<lambda>sb s.
          recover_from_log (s\<lparr>log_start := sb_logstart sb, log_size := int (sb_nlog sb), log_dev := dev\<rparr>)))"

definition write_one :: "nat \<Rightarrow> 'z lstate_scheme \<Rightarrow> (unit, 'z lstate_scheme) res" where
  "write_one tail s =
     bindR (bread (log_dev s) (log_start s + tail + 1) s) (\<lambda>to s.
     bindR (bread (log_dev s) (log_block s ! tail) s) (\<lambda>from s.
       let s = upd_buf to (\<lambda>x. x\<lparr>b_data := b_data (buf_at s from)\<rparr>) s in
     bindR (bwrite to s) (\<lambda>_ s.
     bindR (brelse from s) (\<lambda>_ s. brelse to s))))"

definition write_log :: "'z lstate_scheme \<Rightarrow> (unit, 'z lstate_scheme) res" where
  "write_log s = forR [0..<nat (log_n s)] write_one s"

definition commit :: "'z lstate_scheme \<Rightarrow> (unit, 'z lstate_scheme) res" where
  "commit s =
     (if log_n s > 0
      then bindR (write_log s) (\<lambda>_ s.
           bindR (write_head s) (\<lambda>_ s.
           bindR (install_trans s) (\<lambda>_ s. write_head (s\<lparr>log_n := 0\<rparr>))))
      else Ok () s)"

section \<open>Transactions\<close>

definition begin_op_loop :: "'z lstate_scheme \<Rightarrow> (unit, 'z lstate_scheme) res" where
  "begin_op_loop s =
     (if log_committing s then sleep Ch_log L_log s
      else if s32 (log_n s + s32 (s32 (log_outstanding s + 1) * int MAXOPBLOCKS)) > int LOGSIZE then sleep Ch_log L_log s
      else release L_log (s\<lparr>log_outstanding := s32 (log_outstanding s + 1)\<rparr>))"

definition begin_op :: "'z lstate_scheme \<Rightarrow> (unit, 'z lstate_scheme) res" where
  "begin_op s = bindR (acquire L_log s) (\<lambda>_ s. begin_op_loop s)"

definition begin_op_resume :: "nat \<Rightarrow> 'z lstate_scheme \<Rightarrow> (unit, 'z lstate_scheme) res" where
  "begin_op_resume p s = bindR (sleep_resume p L_log s) (\<lambda>_ s. begin_op_loop s)"

definition end_op :: "'z lstate_scheme \<Rightarrow> (unit, 'z lstate_scheme) res" where
  "end_op s =
     bindR (acquire L_log s) (\<lambda>_ s.
       let s = s\<lparr>log_outstanding := s32 (log_outstanding s - 1)\<rparr> in
       if log_committing s then Panic ''log.committing''
       else bindR (if log_outstanding s = 0 then Ok True (s\<lparr>log_committing := True\<rparr>)
                   else bindR (wakeup Ch_log s) (\<lambda>_ s. Ok False s)) (\<lambda>do_commit s.
         bindR (release L_log s) (\<lambda>_ s.
           if do_commit
           then bindR (commit s) (\<lambda>_ s.
                bindR (acquire L_log s) (\<lambda>_ s.
                  let s = s\<lparr>log_committing := False\<rparr> in
                bindR (wakeup Ch_log s) (\<lambda>_ s. release L_log s)))
           else Ok () s)))"

definition absorb :: "nat \<Rightarrow> 'z lstate_scheme \<Rightarrow> nat" where
  "absorb bn s = (case first_idx (\<lambda>x. x = bn) (take (nat (log_n s)) (log_block s)) of
     Some i \<Rightarrow> i | None \<Rightarrow> nat (log_n s))"

definition log_write :: "nat \<Rightarrow> 'z lstate_scheme \<Rightarrow> (unit, 'z lstate_scheme) res" where
  "log_write b s =
     (if log_n s \<ge> int LOGSIZE \<or> log_n s \<ge> log_size s - 1 then Panic ''too big a transaction''
      else if log_outstanding s < 1 then Panic ''log_write outside of trans''
      else bindR (acquire L_log s) (\<lambda>_ s.
        let i = absorb (b_blockno (buf_at s b)) s;
            s = s\<lparr>log_block := (log_block s)[i := b_blockno (buf_at s b)]\<rparr>;
            s = (if int i = log_n s then s\<lparr>log_n := log_n s + 1\<rparr> else s);
            s = upd_buf b (\<lambda>x. x\<lparr>b_dirty := True\<rparr>) s in
        release L_log s))"

end
