(* ===== verification/LogCrash.thy ===== *)
theory LogCrash
  imports Log
begin

text \<open>
  Crash safety of the log.  The disk's write history makes every crash point of \<open>commit\<close> a prefix
  of the writes it issues; recovery from any of them yields either all or none of the
  transaction's blocks.
\<close>

section \<open>Frames of the log's fields\<close>

lemma cframe_log:
  assumes "cframe s t"
  shows "log_start t = log_start s" "log_size t = log_size s" "log_outstanding t = log_outstanding s"
    "log_committing t = log_committing s" "log_dev t = log_dev s" "log_n t = log_n s" "log_block t = log_block s"
proof -
  have e: "t = cupd s t" using assms by (simp add: cframe_def)
  show "log_start t = log_start s" "log_size t = log_size s" "log_outstanding t = log_outstanding s"
    "log_committing t = log_committing s" "log_dev t = log_dev s" "log_n t = log_n s" "log_block t = log_block s"
    by (subst e, simp add: cupd_def)+
qed

section \<open>Copying one block to another\<close>

lemma blk_clean:
  assumes inv: "binv s i p {}" and "n \<notin> dirty_blocks s"
  shows "blk s n = disk s n"
proof (cases "\<exists>b < NBUF. b_valid (buf_at s b) \<and> b_dev (buf_at s b) = ROOTDEV \<and> b_blockno (buf_at s b) = n")
  case True
  then obtain b where b: "b < NBUF" "b_valid (buf_at s b)" "b_dev (buf_at s b) = ROOTDEV" "b_blockno (buf_at s b) = n"
    by blast
  then have "\<not> b_dirty (buf_at s b)" using assms(2) by (auto simp: dirty_blocks_def dirtyb_def)
  then have "b_data (buf_at s b) = disk s n" using binv_facts(4) [OF inv b(1)] b by (simp add: buf_ok_def)
  then show ?thesis using blk_cached [OF binv_facts(3,2) [OF inv] b(1-3)] b(4) by simp
next
  case False
  then show ?thesis by (intro blk_uncached [OF binv_facts(2) [OF inv]]) blast
qed

lemma blk_length:
  assumes inv: "binv s i p H"
  shows "length (blk s n) = BSIZE"
  using binv_facts(5) [OF inv] binv_facts(4) [OF inv] binv_facts(2) [OF inv]
  by (auto simp: blk_def first_idx_Some buf_ok_def split: option.split)

definition two_post :: "'z bstate_scheme \<Rightarrow> nat \<Rightarrow> nat \<Rightarrow> nat \<Rightarrow> nat \<Rightarrow> nat \<Rightarrow> nat \<Rightarrow> 'z bstate_scheme \<Rightarrow> bool" where
  "two_post s i p a c x y t \<longleftrightarrow> binv t i p {x, y} \<and> x \<noteq> y \<and> cframe s t \<and> blk t = blk s \<and>
     dirty_blocks t = dirty_blocks s \<and> disk t = disk s \<and> dwrites t = dwrites s \<and>
     b_blockno (buf_at t x) = a \<and> b_blockno (buf_at t y) = c \<and>
     b_data (buf_at t x) = blk s a \<and> b_data (buf_at t y) = blk s c"

lemma read_two:
  assumes inv: "binv s i p {}" and a: "a < disksize s" and c: "c < disksize s" and ne: "a \<noteq> c"
    and av1: "card (dirty_blocks s) < NBUF" and av2: "c \<in> dirty_blocks s \<or> card (dirty_blocks s) + 1 < NBUF"
    and dv: "\<forall>t. cframe s t \<longrightarrow> dv t = ROOTDEV \<and> no t = c"
    and post: "\<forall>x y t. two_post s i p a c x y t \<longrightarrow> runs (f x y t) Q"
  shows "runs (bindR (bread ROOTDEV a s) (\<lambda>x s. bindR (bread (dv s) (no s) s) (\<lambda>y s. f x y s))) Q"
proof -
  have "runs (bread ROOTDEV a s) (bread_post s i p {} a)"
    by (rule bread_runs [OF inv a]) (use buffer_available [OF inv] av1 in simp_all)
  then obtain x s1 where r1: "bread ROOTDEV a s = Ok x s1" and p1: "bread_post s i p {} a x s1" by (rule runsE)
  have i1: "binv s1 i p {x}" and x1: "b_blockno (buf_at s1 x) = a" "b_data (buf_at s1 x) = blk s a"
    and d1: "dirty_blocks s1 = dirty_blocks s" and f1: "cframe s s1"
    using p1 by (simp_all add: bread_post_def)
  have "runs (bread ROOTDEV c s1) (bread_post s1 i p {x} c)"
  proof (rule bread_runs [OF i1])
    show "c < disksize s1" using c cframe_sel(7) [OF f1] by simp
    show "\<forall>b\<in>{x}. b_blockno (buf_at s1 b) \<noteq> c" using x1 ne by simp
    show "cached s1 c \<or> {x} \<union> dirtyb s1 \<noteq> {..<NBUF}"
      using av2 dirty_cached [OF i1, of c] buffer_available [OF i1] d1 by auto
  qed
  then obtain y t where r2: "bread ROOTDEV c s1 = Ok y t" and p2: "bread_post s1 i p {x} c y t" by (rule runsE)
  have "two_post s i p a c x y t"
    using p1 p2 cframe_trans [of s s1 t] by (simp add: two_post_def bread_post_def insert_commute)
  then show ?thesis using post r1 r2 dv f1 by simp
qed

definition copy_post :: "'z bstate_scheme \<Rightarrow> nat \<Rightarrow> nat \<Rightarrow> nat \<Rightarrow> byte list \<Rightarrow> 'z bstate_scheme \<Rightarrow> bool" where
  "copy_post s i p n d t \<longleftrightarrow> binv t i p {} \<and> cframe s t \<and> blk t = (blk s)(n := d) \<and>
     disk t = (disk s)(n := d) \<and> dwrites t = dwrites s @ [(n, d)] \<and> dirty_blocks t = dirty_blocks s - {n}"

lemma copy_runs:
  assumes inv: "binv t i p {src, dst}" and ne: "src \<noteq> dst"
    and clean: "b_dirty (buf_at t src) \<or> b_data (buf_at t src) = disk t (b_blockno (buf_at t src))"
    and nos: "b_blockno (buf_at t src) \<noteq> b_blockno (buf_at t dst)"
  shows "runs (bindR (bwrite dst (upd_buf dst (\<lambda>x. x\<lparr>b_data := b_data (buf_at t src)\<rparr>) t))
      (\<lambda>_ s. bindR (brelse src s) (\<lambda>_ s. brelse dst s)))
    (\<lambda>_. copy_post t i p (b_blockno (buf_at t dst)) (b_data (buf_at t src)))"
proof -
  let ?d = "b_data (buf_at t src)" and ?n = "b_blockno (buf_at t dst)"
  have mem: "src \<in> {src, dst}" "dst \<in> {src, dst}" by simp_all
  define s1 where "s1 = upd_buf dst (\<lambda>x. x\<lparr>b_data := ?d\<rparr>) t"
  note m = bset_data [OF inv mem(2) held_facts(3) [OF inv mem(1)] s1_def]
  obtain s2 where w: "bwrite dst s1 = Ok () s2" and s2: "bwrite_post s1 i p {src, dst} dst s2"
    using bwrite_runs [OF m(1) mem(2)] by (auto simp: runs_iff)
  have i2: "binv s2 i p {src, dst}" using s2 by (simp add: bwrite_post_def)
  have src2: "buf_at s2 src = buf_at t src" using s2 m(8) [OF ne] ne by (simp add: bwrite_post_def)
  have dst2: "buf_at s2 dst = (buf_at t dst)\<lparr>b_data := ?d, b_dirty := False\<rparr>" using s2 m(7) by (simp add: bwrite_post_def)
  have disk2: "disk s2 = (disk t)(?n := ?d)" "dwrites s2 = dwrites t @ [(?n, ?d)]" using s2 m(5-7) by (simp_all add: bwrite_post_def)
  obtain s3 where r3: "brelse src s2 = Ok () s3" and s3: "brelse_post s2 i p {src, dst} src s3"
    using brelse_runs [OF i2 mem(1)] clean nos by (auto simp: runs_iff src2 disk2)
  have i3: "binv s3 i p {dst}" using s3 ne by (simp add: brelse_post_def insert_Diff_if)
  have "same_core (buf_at s3 dst) (buf_at s2 dst)" "disk s3 = disk s2" using s3 by (simp_all add: brelse_post_def)
  then have "b_data (buf_at s3 dst) = disk s3 (b_blockno (buf_at s3 dst))" by (simp add: same_core_def dst2 disk2)
  then obtain r where r4: "brelse dst s3 = Ok () r" and r: "brelse_post s3 i p {dst} dst r"
    using brelse_runs [OF i3 singletonI] by (auto simp: runs_iff)
  have "cframe t r" using m(2) s2 s3 r cframe_trans unfolding bwrite_post_def brelse_post_def by metis
  moreover have "dirty_blocks r = dirty_blocks t - {?n}" using s2 s3 r m(7,9) by (simp add: bwrite_post_def brelse_post_def)
  moreover have "blk r = (blk t)(?n := ?d)" using s2 s3 r m(3) by (simp add: bwrite_post_def brelse_post_def)
  moreover have "disk r = (disk t)(?n := ?d)" "dwrites r = dwrites t @ [(?n, ?d)]" "binv r i p {}"
    using s3 r disk2 by (simp_all add: brelse_post_def)
  ultimately have "copy_post t i p ?n ?d r" by (simp add: copy_post_def)
  then show ?thesis using w r3 r4 by (simp add: s1_def)
qed

lemma copy_post_two: "two_post s i p a c x y t \<Longrightarrow> copy_post t i p n d u \<Longrightarrow> copy_post s i p n d u"
  unfolding two_post_def copy_post_def by (auto dest: cframe_trans [of s t u])

section \<open>Sequences of block writes\<close>

definition dapply :: "(nat \<Rightarrow> byte list) \<Rightarrow> (nat \<times> byte list) list \<Rightarrow> nat \<Rightarrow> byte list" where
  "dapply D ws = foldl (\<lambda>D (n, d). D(n := d)) D ws"

lemma dapply_Nil [simp]: "dapply D [] = D"
  by (simp add: dapply_def)

lemma dapply_snoc [simp]: "dapply D (ws @ [(n, d)]) = (dapply D ws)(n := d)"
  by (simp add: dapply_def)

lemma dapply_Cons [simp]: "dapply D ((n, d) # ws) = dapply (D(n := d)) ws"
  by (simp add: dapply_def)

lemma dapply_append: "dapply D (us @ vs) = dapply (dapply D us) vs"
  by (simp add: dapply_def)

lemma dapply_other: "n \<notin> fst ` set ws \<Longrightarrow> dapply D ws n = D n"
proof (induction ws rule: rev_induct)
  case (snoc w ws)
  then show ?case by (cases w) auto
qed simp

lemma dapply_same:
  "distinct (map fst ws) \<Longrightarrow> (n, d) \<in> set ws \<Longrightarrow> dapply D ws n = d"
proof (induction ws rule: rev_induct)
  case (snoc w ws)
  then show ?case by (cases w) (auto simp: rev_image_eqI)
qed simp

definition writes_post :: "'z bstate_scheme \<Rightarrow> nat \<Rightarrow> nat \<Rightarrow> (nat \<times> byte list) list \<Rightarrow> 'z bstate_scheme \<Rightarrow> bool" where
  "writes_post s i p ws t \<longleftrightarrow> binv t i p {} \<and> cframe s t \<and> blk t = dapply (blk s) ws \<and>
     disk t = dapply (disk s) ws \<and> dwrites t = dwrites s @ ws \<and> dirty_blocks t = dirty_blocks s - fst ` set ws"

lemma writes_post_refl: "binv s i p {} \<Longrightarrow> writes_post s i p [] s"
  by (simp add: writes_post_def)

lemma writes_post_snoc:
  "writes_post s i p ws t \<Longrightarrow> copy_post t i p n d u \<Longrightarrow> writes_post s i p (ws @ [(n, d)]) u"
  unfolding writes_post_def copy_post_def by (auto dest: cframe_trans [of s t u])

lemma writes_post_append:
  assumes "writes_post s i p us t" and "writes_post t i p vs u"
  shows "writes_post s i p (us @ vs) u"
proof -
  have "cframe s u" using assms cframe_trans [of s t u] by (simp add: writes_post_def)
  moreover have "dirty_blocks s - fst ` set us - fst ` set vs = dirty_blocks s - fst ` set (us @ vs)" by auto
  ultimately show ?thesis using assms by (simp add: writes_post_def dapply_append)
qed

lemma forR_writes:
  assumes "binv s i p {}"
    and "\<forall>j < k. \<forall>t. writes_post s i p (map w [0..<j]) t \<longrightarrow> runs (f j t) (\<lambda>_. copy_post t i p (fst (w j)) (snd (w j)))"
  shows "runs (forR [0..<k] f s) (\<lambda>_. writes_post s i p (map w [0..<k]))"
  using assms(2)
proof (induction k)
  case 0
  then show ?case using writes_post_refl [OF assms(1)] by simp
next
  case (Suc k)
  then obtain t where t: "forR [0..<k] f s = Ok () t" "writes_post s i p (map w [0..<k]) t"
    by (auto simp: runs_iff)
  then obtain u where u: "f k t = Ok () u" "copy_post t i p (fst (w k)) (snd (w k)) u"
    using Suc.prems by (fastforce simp: runs_iff)
  have "forR [0..<Suc k] f s = Ok () u" using t(1) u(1) by (simp add: forR_append)
  moreover have "writes_post s i p (map w [0..<Suc k]) u"
    using writes_post_snoc [OF t(2) u(2)] by simp
  ultimately show ?case by simp
qed

section \<open>The steps of a commit\<close>

definition logged :: "'z lstate_scheme \<Rightarrow> nat list" where
  "logged s = take (nat (log_n s)) (log_block s)"

definition log_region :: "'z lstate_scheme \<Rightarrow> nat set" where
  "log_region s = {log_start s ..< log_start s + nat (log_size s)}"

definition loginv :: "'z lstate_scheme \<Rightarrow> nat \<Rightarrow> nat \<Rightarrow> bool" where
  "loginv s i p \<longleftrightarrow> binv s i p {} \<and> log_dev s = ROOTDEV \<and> length (log_block s) = LOGSIZE \<and>
     0 \<le> log_n s \<and> log_n s < log_size s \<and> log_size s \<le> int LOGSIZE \<and>
     log_start s + nat (log_size s) \<le> disksize s \<and> disksize s \<le> 2 ^ 32 \<and> distinct (logged s) \<and>
     (\<forall>x\<in>set (logged s). x < disksize s \<and> x \<notin> log_region s) \<and> card (dirty_blocks s) < NBUF"

lemma loginv_cframe:
  assumes "loginv s i p" and "cframe s t" and "binv t i p {}" and "card (dirty_blocks t) < NBUF"
  shows "loginv t i p" "logged t = logged s" "log_region t = log_region s"
  using assms cframe_log [OF assms(2)] cframe_sel(7) [OF assms(2)]
  by (simp_all add: loginv_def logged_def log_region_def)

lemma length_logged: "loginv s i p \<Longrightarrow> length (logged s) = nat (log_n s)"
  by (auto simp: loginv_def logged_def LOGSIZE_def)

lemma logged_nth:
  assumes "loginv s i p" and "j < nat (log_n s)"
  shows "log_block s ! j = logged s ! j" "logged s ! j \<in> set (logged s)" "logged s ! j < disksize s"
    "logged s ! j \<notin> log_region s" "log_start s + j + 1 \<in> log_region s" "log_start s + j + 1 < disksize s"
    "log_start s + j + 1 \<noteq> logged s ! j"
proof -
  show m: "logged s ! j \<in> set (logged s)" using assms length_logged [OF assms(1)] by simp
  show "log_block s ! j = logged s ! j" using assms(2) by (simp add: logged_def)
  show n: "logged s ! j < disksize s" "logged s ! j \<notin> log_region s" using m assms(1) by (auto simp: loginv_def)
  show r: "log_start s + j + 1 \<in> log_region s" using assms by (auto simp: loginv_def log_region_def)
  then show "log_start s + j + 1 < disksize s" using assms(1) by (auto simp: loginv_def log_region_def)
  show "log_start s + j + 1 \<noteq> logged s ! j" using n(2) r by metis
qed

lemma write_one_runs:
  assumes inv: "loginv s i p" and j: "j < nat (log_n s)" and dirty: "dirty_blocks s = set (logged s)"
  shows "runs (write_one j s) (\<lambda>_. copy_post s i p (log_start s + j + 1) (blk s (logged s ! j)))"
proof -
  note l = logged_nth [OF inv j]
  have b: "binv s i p {}" "log_dev s = ROOTDEV" "card (dirty_blocks s) < NBUF" using inv by (simp_all add: loginv_def)
  have step: "runs (bindR (bwrite x (upd_buf x (\<lambda>z. z\<lparr>b_data := b_data (buf_at t y)\<rparr>) t))
      (\<lambda>_ s. bindR (brelse y s) (\<lambda>_ s. brelse x s)))
      (\<lambda>_. copy_post s i p (log_start s + j + 1) (blk s (logged s ! j)))"
    if two: "two_post s i p (log_start s + j + 1) (logged s ! j) x y t" for x y t
  proof -
    have inv2: "binv t i p {y, x}" using two by (simp add: two_post_def insert_commute)
    have ne: "y \<noteq> x" and nos: "b_blockno (buf_at t y) \<noteq> b_blockno (buf_at t x)"
      using two l(7) by (auto simp: two_post_def)
    have "b_dirty (buf_at t y)" by (rule dirty_held [OF inv2]) (use two l(2) dirty in \<open>simp_all add: two_post_def\<close>)
    from copy_runs [OF inv2 ne disjI1 [OF this] nos] show ?thesis
      by (rule runs_conseq) (use two in \<open>auto simp: two_post_def intro: copy_post_two [OF two]\<close>)
  qed
  show ?thesis
    unfolding write_one_def Let_def b(2)
    by (rule read_two [OF b(1) l(6) l(3) l(7) b(3)])
      (use l step dirty b(2) in \<open>auto simp: cframe_log\<close>)
qed

lemma install_one_runs:
  assumes inv: "loginv s i p" and j: "j < nat (log_n s)"
    and room: "logged s ! j \<in> dirty_blocks s \<or> card (dirty_blocks s) + 1 < NBUF"
    and clean: "log_start s + j + 1 \<notin> dirty_blocks s"
  shows "runs (install_one j s) (\<lambda>_. copy_post s i p (logged s ! j) (blk s (log_start s + j + 1)))"
proof -
  note l = logged_nth [OF inv j]
  have b: "binv s i p {}" "log_dev s = ROOTDEV" "card (dirty_blocks s) < NBUF" using inv by (simp_all add: loginv_def)
  have step: "runs (bindR (bwrite y (upd_buf y (\<lambda>z. z\<lparr>b_data := b_data (buf_at t x)\<rparr>) t))
      (\<lambda>_ s. bindR (brelse x s) (\<lambda>_ s. brelse y s)))
      (\<lambda>_. copy_post s i p (logged s ! j) (blk s (log_start s + j + 1)))"
    if two: "two_post s i p (log_start s + j + 1) (logged s ! j) x y t" for x y t
  proof -
    have inv2: "binv t i p {x, y}" using two by (simp add: two_post_def)
    have ne: "x \<noteq> y" and nos: "b_blockno (buf_at t x) \<noteq> b_blockno (buf_at t y)"
      using two l(7) by (auto simp: two_post_def)
    have "b_data (buf_at t x) = disk t (b_blockno (buf_at t x))"
      using two blk_clean [OF b(1) clean] by (simp add: two_post_def)
    from copy_runs [OF inv2 ne disjI2 [OF this] nos] show ?thesis
      by (rule runs_conseq) (use two in \<open>auto simp: two_post_def intro: copy_post_two [OF two]\<close>)
  qed
  show ?thesis
    unfolding install_one_def Let_def b(2)
    by (rule read_two [OF b(1) l(6) l(3) l(7) b(3) room])
      (use l step b(2) in \<open>auto simp: cframe_log\<close>)
qed

lemma length_put_blocks [simp]: "length (put_blocks i bs d) = length d"
  by (induction i bs d rule: put_blocks.induct) simp_all

lemma length_head_data [simp]: "length (head_data n bs d) = length d"
  by (simp add: head_data_def)

lemma write_head_runs:
  assumes inv: "binv s i p {}" and d: "log_dev s = ROOTDEV" "log_start s < disksize s" "card (dirty_blocks s) < NBUF"
  shows "runs (write_head s)
    (\<lambda>_. copy_post s i p (log_start s) (head_data (log_n s) (log_block s) (blk s (log_start s))))"
proof -
  let ?h = "head_data (log_n s) (log_block s) (blk s (log_start s))"
  have "runs (bread ROOTDEV (log_start s) s) (bread_post s i p {} (log_start s))"
    by (rule bread_runs [OF inv d(2)]) (use buffer_available [OF inv] d(3) in simp_all)
  then obtain b s1 where r: "bread ROOTDEV (log_start s) s = Ok b s1" and s1: "bread_post s i p {} (log_start s) b s1"
    by (rule runsE)
  have inv1: "binv s1 i p {b}" and n: "b_blockno (buf_at s1 b) = log_start s" "b_data (buf_at s1 b) = blk s (log_start s)"
    and fr: "cframe s s1" using s1 by (simp_all add: bread_post_def)
  define s2 where "s2 = upd_buf b (\<lambda>x. x\<lparr>b_data := ?h\<rparr>) s1"
  have eq: "upd_buf b (\<lambda>x. x\<lparr>b_data := head_data (log_n s1) (log_block s1) (b_data x)\<rparr>) s1 = s2"
    by (simp add: s2_def upd_buf_def upd_nth_def cframe_log [OF fr] n)
  have len: "length ?h = BSIZE" using held_facts(3) [OF inv1 singletonI] by (simp add: n)
  note m = bset_data [OF inv1 singletonI len s2_def]
  obtain s3 where w: "bwrite b s2 = Ok () s3" and s3: "bwrite_post s2 i p {b} b s3"
    using bwrite_runs [OF m(1) singletonI] by (auto simp: runs_iff)
  have inv3: "binv s3 i p {b}" and d3: "b_data (buf_at s3 b) = disk s3 (b_blockno (buf_at s3 b))"
    using s3 by (simp_all add: bwrite_post_def)
  obtain t where rel: "brelse b s3 = Ok () t" and t: "brelse_post s3 i p {b} b t"
    using brelse_runs [OF inv3 singletonI] d3 by (auto simp: runs_iff)
  have "write_head s = Ok () t" using r w rel by (simp add: write_head_def d(1) Let_def eq)
  moreover have "cframe s t" using fr m(2) s3 t cframe_trans unfolding bwrite_post_def brelse_post_def by metis
  moreover have "binv t i p {}" "disk t = (disk s)(log_start s := ?h)" "blk t = (blk s)(log_start s := ?h)"
    "dwrites t = dwrites s @ [(log_start s, ?h)]" "dirty_blocks t = dirty_blocks s - {log_start s}"
    using t s3 s1 m(3,5,6,7,9) n by (simp_all add: brelse_post_def bwrite_post_def bread_post_def)
  ultimately show ?thesis by (simp add: copy_post_def)
qed

lemma get32_put_blocks_below: "k + 4 \<le> 4 + 4 * i \<Longrightarrow> get32 (put_blocks i bs d) k = get32 d k"
  by (induction i bs d rule: put_blocks.induct) (simp_all add: get32_set32_other)

lemma get32_put_blocks:
  "j < length bs \<Longrightarrow> 4 + 4 * (i + length bs) \<le> length d \<Longrightarrow> get32 (put_blocks i bs d) (4 + 4 * (i + j)) = of_nat (bs ! j)"
proof (induction i bs d arbitrary: j rule: put_blocks.induct)
  case (2 i b bs d)
  show ?case
  proof (cases j)
    case 0
    then show ?thesis using "2.prems" by (simp add: get32_put_blocks_below)
  next
    case (Suc k)
    then show ?thesis using "2.prems" "2.IH" [of k] by simp
  qed
qed simp

definition hdr_blocks :: "byte list \<Rightarrow> nat list" where
  "hdr_blocks d = map (hdr_block d) [0..<nat (hdr_n d)]"

lemma hdr_n_head_data:
  assumes "4 \<le> length d" and "0 \<le> n" and "n < 2 ^ 31"
  shows "hdr_n (head_data n bs d) = n"
proof -
  have "hdr_n (head_data n bs d) = sint (of_int n :: u32)"
    using assms by (simp add: hdr_n_def head_data_def get32_put_blocks_below)
  also have "\<dots> = n" using assms by (simp add: signed_take_bit_int_eq_self sint_sbintrunc')
  finally show ?thesis .
qed

lemma hdr_blocks_head_data:
  assumes "4 + 4 * nat n \<le> length d" and "0 \<le> n" and "n < 2 ^ 31" and "nat n \<le> length bs"
    and "\<forall>x\<in>set (take (nat n) bs). x < 2 ^ 32"
  shows "hdr_blocks (head_data n bs d) = take (nat n) bs"
proof (rule nth_equalityI)
  have n: "hdr_n (head_data n bs d) = n" by (rule hdr_n_head_data) (use assms in simp_all)
  show "length (hdr_blocks (head_data n bs d)) = length (take (nat n) bs)" using assms(4) by (simp add: hdr_blocks_def n)
  fix j assume "j < length (hdr_blocks (head_data n bs d))"
  then have j: "j < nat n" by (simp add: hdr_blocks_def n)
  then have "bs ! j \<in> set (take (nat n) bs)" using assms(4) by (auto simp: in_set_conv_nth)
  then have "bs ! j < 2 ^ 32" using assms(5) by blast
  moreover have "get32 (head_data n bs d) (4 + 4 * (0 + j)) = of_nat (take (nat n) bs ! j)"
    unfolding head_data_def by (rule get32_put_blocks) (use j assms(1,4) in simp_all)
  ultimately show "hdr_blocks (head_data n bs d) ! j = take (nat n) bs ! j"
    using j by (simp add: hdr_blocks_def n hdr_block_def unat_of_nat take_bit_eq_mod)
qed

section \<open>The writes of a commit\<close>

definition log_writes :: "'z lstate_scheme \<Rightarrow> (nat \<times> byte list) list" where
  "log_writes s = map (\<lambda>j. (log_start s + j + 1, blk s (logged s ! j))) [0..<nat (log_n s)]"

definition home_writes :: "'z lstate_scheme \<Rightarrow> (nat \<times> byte list) list" where
  "home_writes s = map (\<lambda>j. (logged s ! j, blk s (log_start s + j + 1))) [0..<nat (log_n s)]"

lemma write_log_runs:
  assumes inv: "loginv s i p" and dirty: "dirty_blocks s = set (logged s)"
  shows "runs (write_log s) (\<lambda>_. writes_post s i p (log_writes s))"
  unfolding write_log_def log_writes_def
proof (rule forR_writes, goal_cases)
  case 1
  then show ?case using inv by (simp add: loginv_def)
next
  case 2
  show ?case
  proof (intro allI impI)
    fix j t assume j: "j < nat (log_n s)"
      and t: "writes_post s i p (map (\<lambda>j. (log_start s + j + 1, blk s (logged s ! j))) [0..<j]) t"
    have tgt: "fst ` set (map (\<lambda>j. (log_start s + j + 1, blk s (logged s ! j))) [0..<j]) \<subseteq> log_region s"
      using logged_nth(5) [OF inv] j by auto
    then have "dirty_blocks s \<inter> fst ` set (map (\<lambda>j. (log_start s + j + 1, blk s (logged s ! j))) [0..<j]) = {}"
      using dirty inv unfolding loginv_def by fastforce
    then have d: "dirty_blocks t = set (logged s)" using t dirty by (auto simp: writes_post_def)
    have fr: "cframe s t" and b: "binv t i p {}" using t by (simp_all add: writes_post_def)
    have it: "loginv t i p" "logged t = logged s"
      by (rule loginv_cframe [OF inv fr b]; use d dirty inv in \<open>simp add: loginv_def\<close>)+
    have "logged s ! j \<notin> fst ` set (map (\<lambda>j. (log_start s + j + 1, blk s (logged s ! j))) [0..<j])"
      using logged_nth(4) [OF inv j] tgt by blast
    then have "blk t (logged s ! j) = blk s (logged s ! j)"
      using t dapply_other by (simp add: writes_post_def)
    then show "runs (write_one j t) (\<lambda>_. copy_post t i p (fst (log_start s + j + 1, blk s (logged s ! j)))
      (snd (log_start s + j + 1, blk s (logged s ! j))))"
      using write_one_runs [OF it(1), of j] j d it(2) cframe_log [OF fr] by simp
  qed
qed

lemma install_trans_runs:
  assumes inv: "loginv s i p" and dirty: "dirty_blocks s = set (logged s) \<or> dirty_blocks s = {}"
  shows "runs (install_trans s) (\<lambda>_. writes_post s i p (home_writes s))"
  unfolding install_trans_def home_writes_def
proof (rule forR_writes, goal_cases)
  case 1
  then show ?case using inv by (simp add: loginv_def)
next
  case 2
  show ?case
  proof (intro allI impI)
    fix j t assume j: "j < nat (log_n s)"
      and t: "writes_post s i p (map (\<lambda>j. (logged s ! j, blk s (log_start s + j + 1))) [0..<j]) t"
    let ?T = "fst ` set (map (\<lambda>j. (logged s ! j, blk s (log_start s + j + 1))) [0..<j])"
    note l = logged_nth [OF inv j]
    have T: "?T = set (take j (logged s))"
      using nth_image [of j "logged s"] j length_logged [OF inv] by (simp add: image_image atLeast0LessThan)
    have fr: "cframe s t" and b: "binv t i p {}" and d: "dirty_blocks t = dirty_blocks s - set (take j (logged s))"
      using t T by (simp_all add: writes_post_def)
    have fin: "finite (dirty_blocks s)" using dirty by auto
    have card: "card (dirty_blocks t) < NBUF"
      using inv card_mono [OF fin, of "dirty_blocks t"] by (auto simp: loginv_def d)
    have it: "loginv t i p" "logged t = logged s" by (rule loginv_cframe [OF inv fr b card])+
    have "logged s ! j \<notin> set (take j (logged s))"
      using inv j length_logged [OF inv] by (auto simp: loginv_def in_set_conv_nth nth_eq_iff_index_eq)
    then have room: "logged s ! j \<in> dirty_blocks t \<or> card (dirty_blocks t) + 1 < NBUF"
      using dirty l(2) d by (auto simp: NBUF_def MAXOPBLOCKS_def)
    have notin: "log_start s + j + 1 \<notin> set (logged s)" using l(5) inv by (auto simp: loginv_def)
    then have clean: "log_start s + j + 1 \<notin> dirty_blocks t" using d dirty by auto
    have "log_start s + j + 1 \<notin> ?T" using notin T set_take_subset [of j "logged s"] by (metis subsetD)
    then have "blk t (log_start s + j + 1) = blk s (log_start s + j + 1)"
      using t dapply_other by (simp add: writes_post_def)
    then show "runs (install_one j t) (\<lambda>_. copy_post t i p (fst (logged s ! j, blk s (log_start s + j + 1)))
      (snd (logged s ! j, blk s (log_start s + j + 1))))"
      using install_one_runs [OF it(1), of j] j room clean it(2) cframe_log [OF fr] by simp
  qed
qed

text \<open>The predicates on the cache read only the fields of the cache and the layers below it.\<close>

lemma core_sel [simp]:
  "lapic_id (bstate.truncate s) = lapic_id s" "ncpu (bstate.truncate s) = ncpu s" "cpus (bstate.truncate s) = cpus s"
  "eflags_IF (bstate.truncate s) = eflags_IF s" "locks (bstate.truncate s) = locks s"
  "ptable (bstate.truncate s) = ptable s" "slocks (bstate.truncate s) = slocks s" "bufs (bstate.truncate s) = bufs s"
  "bhead_prev (bstate.truncate s) = bhead_prev s" "bhead_next (bstate.truncate s) = bhead_next s"
  "disk (bstate.truncate s) = disk s" "disksize (bstate.truncate s) = disksize s"
  by (simp_all add: bstate.truncate_def bstate.make_def)

lemma core_preds:
  "binv (bstate.truncate s) i p H = binv s i p H" "blk (bstate.truncate s) = blk s"
  "dirty_blocks (bstate.truncate s) = dirty_blocks s" "dirtyb (bstate.truncate s) = dirtyb s"
proof -
  have "bnext (bstate.truncate s) = bnext s" "bprev (bstate.truncate s) = bprev s"
    by (simp_all add: fun_eq_iff bnext_def bprev_def)
  then show "binv (bstate.truncate s) i p H = binv s i p H"
    by (simp add: binv_def running_def calm_def lru_def buf_ok_def int_ok_def lock_free_def on_cpu_def)
  show "blk (bstate.truncate s) = blk s" by (simp add: fun_eq_iff blk_def split: option.split)
  show "dirty_blocks (bstate.truncate s) = dirty_blocks s" "dirtyb (bstate.truncate s) = dirtyb s"
    by (simp_all add: dirty_blocks_def dirtyb_def)
qed

lemma core_cong:
  assumes "bstate.truncate t = bstate.truncate s"
  shows "binv t i p H = binv s i p H" "blk t = blk s" "dirty_blocks t = dirty_blocks s" "dirtyb t = dirtyb s"
  using core_preds [of s] core_preds [of t] assms by metis+

lemma core_log_upd:
  "bstate.truncate (s\<lparr>log_n := n\<rparr>) = bstate.truncate s" "bstate.truncate (s\<lparr>log_block := bs\<rparr>) = bstate.truncate s"
  "bstate.truncate (s\<lparr>log_outstanding := k\<rparr>) = bstate.truncate s"
  "bstate.truncate (s\<lparr>log_committing := c\<rparr>) = bstate.truncate s"
  by (simp_all add: bstate.truncate_def bstate.make_def)

lemmas core_log [simp] = core_cong [OF core_log_upd(1)] core_cong [OF core_log_upd(2)]
  core_cong [OF core_log_upd(3)] core_cong [OF core_log_upd(4)]

lemma cframe_log_n:
  assumes "cframe s t"
  shows "cframe (s\<lparr>log_n := n\<rparr>) (t\<lparr>log_n := n\<rparr>)"
  using assms unfolding cframe_def cupd_def ptab_sim_def by (cases s, cases t) simp

lemma writes_post_log_n: "writes_post s i p ws t \<Longrightarrow> writes_post (s\<lparr>log_n := n\<rparr>) i p ws (t\<lparr>log_n := n\<rparr>)"
  by (simp add: writes_post_def cframe_log_n)

definition commit_writes :: "'z lstate_scheme \<Rightarrow> (nat \<times> byte list) list" where
  "commit_writes s = (let h = head_data (log_n s) (log_block s) (blk s (log_start s)) in
     log_writes s @ [(log_start s, h)] @ map (\<lambda>b. (b, blk s b)) (logged s) @ [(log_start s, head_data 0 (log_block s) h)])"

lemma log_writes_targets: "fst ` set (log_writes s) = {log_start s + 1 ..< log_start s + 1 + nat (log_n s)}"
proof -
  have "fst ` set (log_writes s) = (\<lambda>j. j + (log_start s + 1)) ` {0..<nat (log_n s)}"
    by (simp add: log_writes_def image_image ac_simps)
  then show ?thesis by (simp add: image_add_atLeastLessThan' add.commute del: One_nat_def)
qed

lemma log_writes_distinct: "distinct (map fst (log_writes s))"
  by (simp add: log_writes_def comp_def distinct_map inj_on_def)

lemma log_writes_copy: "j < nat (log_n s) \<Longrightarrow> dapply D (log_writes s) (log_start s + j + 1) = blk s (logged s ! j)"
  by (rule dapply_same [OF log_writes_distinct]) (auto simp: log_writes_def)

lemma log_writes_region:
  "loginv s i p \<Longrightarrow> n \<notin> log_region s \<or> n = log_start s \<Longrightarrow> n \<notin> fst ` set (log_writes s)"
  unfolding log_writes_targets loginv_def log_region_def by auto

lemma commit_runs:
  assumes inv: "loginv s i p" and dirty: "dirty_blocks s = set (logged s)" and pos: "0 < log_n s"
  shows "runs (commit s) (\<lambda>_. writes_post (s\<lparr>log_n := 0\<rparr>) i p (commit_writes s))"
proof -
  define h where "h = head_data (log_n s) (log_block s) (blk s (log_start s))"
  have reg: "log_start s \<in> log_region s" "log_start s < disksize s" using inv by (auto simp: loginv_def log_region_def)
  then have nl: "log_start s \<notin> set (logged s)" using inv by (auto simp: loginv_def)
  have disj: "set (logged s) \<inter> fst ` set (log_writes s) = {}"
    using inv unfolding log_writes_targets loginv_def log_region_def by fastforce
  obtain s1 where r1: "write_log s = Ok () s1" and w1: "writes_post s i p (log_writes s) s1"
    using write_log_runs [OF inv dirty] by (auto simp: runs_iff)
  have d1: "dirty_blocks s1 = set (logged s)" using w1 dirty disj by (auto simp: writes_post_def)
  have f1: "cframe s s1" and b1: "binv s1 i p {}" using w1 by (simp_all add: writes_post_def)
  have i1: "loginv s1 i p" "logged s1 = logged s"
    by (rule loginv_cframe [OF inv f1 b1]; use d1 dirty inv in \<open>simp add: loginv_def\<close>)+
  have h1: "blk s1 (log_start s) = blk s (log_start s)"
    using w1 by (simp add: writes_post_def dapply_other log_writes_targets)
  have "runs (write_head s1) (\<lambda>_. copy_post s1 i p (log_start s) h)"
    using write_head_runs [OF b1] i1(1) reg(2) h1 cframe_sel(7) [OF f1] by (simp add: loginv_def cframe_log [OF f1] h_def)
  then obtain s2 where r2: "write_head s1 = Ok () s2" and c2: "copy_post s1 i p (log_start s) h s2" by (auto simp: runs_iff)
  have w2: "writes_post s i p (log_writes s @ [(log_start s, h)]) s2" by (rule writes_post_snoc [OF w1 c2])
  have d2: "dirty_blocks s2 = set (logged s)" using c2 d1 nl by (simp add: copy_post_def)
  have f2: "cframe s s2" and b2: "binv s2 i p {}" using w2 by (simp_all add: writes_post_def)
  have i2: "loginv s2 i p" "logged s2 = logged s"
    by (rule loginv_cframe [OF inv f2 b2]; use d2 dirty inv in \<open>simp add: loginv_def\<close>)+
  have "blk s2 (log_start s + j + 1) = blk s (logged s ! j)" if "j < nat (log_n s)" for j
    using w2 log_writes_copy [OF that] by (simp add: writes_post_def)
  then have hw: "home_writes s2 = map (\<lambda>b. (b, blk s b)) (logged s)"
    using length_logged [OF inv] i2(2) by (intro nth_equalityI) (simp_all add: home_writes_def cframe_log [OF f2])
  obtain s3 where r3: "install_trans s2 = Ok () s3" and w3: "writes_post s2 i p (home_writes s2) s3"
    using install_trans_runs [OF i2(1)] d2 i2(2) by (auto simp: runs_iff)
  note w3' = writes_post_append [OF w2 w3 [unfolded hw]]
  have f3: "cframe s s3" and b3: "binv s3 i p {}" using w3' by (simp_all add: writes_post_def)
  have d3: "dirty_blocks s3 = {}" using w3' dirty by (auto simp: writes_post_def image_Un image_image)
  have "blk s3 (log_start s) = h" using w3' nl by (simp add: writes_post_def dapply_append dapply_other image_image)
  then have "runs (write_head (s3\<lparr>log_n := 0\<rparr>)) (\<lambda>_. copy_post (s3\<lparr>log_n := 0\<rparr>) i p (log_start s) (head_data 0 (log_block s) h))"
    using write_head_runs [of "s3\<lparr>log_n := 0\<rparr>" i p] b3 d3 reg(2) inv cframe_sel(7) [OF f3]
    by (simp add: cframe_log [OF f3] loginv_def NBUF_def MAXOPBLOCKS_def)
  then obtain t where r4: "write_head (s3\<lparr>log_n := 0\<rparr>) = Ok () t"
    and c4: "copy_post (s3\<lparr>log_n := 0\<rparr>) i p (log_start s) (head_data 0 (log_block s) h) t" by (auto simp: runs_iff)
  have "writes_post (s\<lparr>log_n := 0\<rparr>) i p (commit_writes s) t"
    using writes_post_snoc [OF writes_post_log_n [OF w3'] c4] by (simp add: commit_writes_def h_def Let_def)
  then show ?thesis using r1 r2 r3 r4 pos by (simp add: commit_def)
qed

section \<open>Recovery\<close>

definition recovery_writes :: "nat \<Rightarrow> (nat \<Rightarrow> byte list) \<Rightarrow> (nat \<times> byte list) list" where
  "recovery_writes ls D =
     map (\<lambda>j. (hdr_block (D ls) j, D (ls + j + 1))) [0..<nat (hdr_n (D ls))] @ [(ls, set32 0 0 (D ls))]"

definition recover_disk :: "nat \<Rightarrow> (nat \<Rightarrow> byte list) \<Rightarrow> nat \<Rightarrow> byte list" where
  "recover_disk ls D = dapply D (recovery_writes ls D)"

definition log_geometry :: "'z lstate_scheme \<Rightarrow> bool" where
  "log_geometry s \<longleftrightarrow> log_dev s = ROOTDEV \<and> length (log_block s) = LOGSIZE \<and> 0 < log_size s \<and>
     log_size s \<le> int LOGSIZE \<and> log_start s + nat (log_size s) \<le> disksize s \<and> disksize s \<le> 2 ^ 32"

definition hdr_ok :: "'z lstate_scheme \<Rightarrow> byte list \<Rightarrow> bool" where
  "hdr_ok s h \<longleftrightarrow> 0 \<le> hdr_n h \<and> hdr_n h < log_size s \<and> distinct (hdr_blocks h) \<and>
     (\<forall>x\<in>set (hdr_blocks h). x < disksize s \<and> x \<notin> log_region s)"

text \<open>A freshly booted system: nothing modified in memory, and the disk's contents.\<close>

definition booted :: "'z lstate_scheme \<Rightarrow> nat \<Rightarrow> nat \<Rightarrow> bool" where
  "booted s i p \<longleftrightarrow> binv s i p {} \<and> dirty_blocks s = {} \<and> log_geometry s"

lemma read_head_runs:
  assumes boot: "booted s i p" and h: "h = disk s (log_start s)" and ok: "hdr_ok s h"
  shows "runs (read_head s) (\<lambda>_ t. loginv t i p \<and> dirty_blocks t = {} \<and> blk t = blk s \<and> disk t = disk s \<and>
    dwrites t = dwrites s \<and> log_n t = hdr_n h \<and> logged t = hdr_blocks h \<and> log_start t = log_start s \<and>
    log_size t = log_size s \<and> disksize t = disksize s \<and> log_geometry t)"
proof -
  have inv: "binv s i p {}" and clean: "dirty_blocks s = {}" and g: "log_geometry s"
    using boot by (simp_all add: booted_def)
  have ls: "log_start s < disksize s" "log_dev s = ROOTDEV" using g by (auto simp: log_geometry_def)
  have "runs (bread ROOTDEV (log_start s) s) (bread_post s i p {} (log_start s))"
    by (rule bread_runs [OF inv ls(1)]) (use buffer_available [OF inv] clean in \<open>simp_all add: NBUF_def MAXOPBLOCKS_def\<close>)
  then obtain b s1 where r: "bread ROOTDEV (log_start s) s = Ok b s1" and s1: "bread_post s i p {} (log_start s) b s1"
    by (rule runsE)
  have inv1: "binv s1 i p {b}" and n: "b_blockno (buf_at s1 b) = log_start s" and fr: "cframe s s1"
    and d: "b_data (buf_at s1 b) = h" "disk s1 = disk s"
    using s1 blk_clean [OF inv, of "log_start s"] clean by (simp_all add: bread_post_def h)
  define s2 where "s2 = s1\<lparr>log_n := hdr_n h, log_block := hdr_blocks h @ drop (nat (hdr_n h)) (log_block s1)\<rparr>"
  have n0: "0 \<le> hdr_n h" "hdr_n h < log_size s" "log_size s \<le> int LOGSIZE" using ok g by (simp_all add: hdr_ok_def log_geometry_def)
  have i2: "binv s2 i p {b}" by (simp add: s2_def inv1)
  have "b_data (buf_at s2 b) = disk s2 (b_blockno (buf_at s2 b))" using n d by (simp add: s2_def h)
  then obtain t where rel: "brelse b s2 = Ok () t" and t: "brelse_post s2 i p {b} b t"
    using brelse_runs [OF i2 singletonI] by (auto simp: runs_iff)
  have f2: "cframe s2 t" using t by (simp add: brelse_post_def)
  have len: "length (hdr_blocks h) = nat (hdr_n h)" by (simp add: hdr_blocks_def)
  have L: "log_start t = log_start s" "log_size t = log_size s" "log_dev t = log_dev s" "disksize t = disksize s"
    "log_n t = hdr_n h" "logged t = hdr_blocks h" "length (log_block t) = LOGSIZE"
    using cframe_sel(7) [OF f2] cframe_sel(7) [OF fr] g n0 len
    by (simp_all add: cframe_log [OF f2] cframe_log [OF fr] s2_def logged_def log_geometry_def)
  have "read_head s = Ok () t"
    using r rel n0 d(1) ls(2) by (simp add: read_head_def Let_def s2_def hdr_blocks_def)
  moreover have "binv t i p {}" "dirty_blocks t = {}" "blk t = blk s" "disk t = disk s" "dwrites t = dwrites s"
    using t s1 clean by (simp_all add: brelse_post_def bread_post_def s2_def)
  moreover have "loginv t i p"
    using calculation(2,3) L n0 ok g
    by (simp add: loginv_def hdr_ok_def log_geometry_def NBUF_def MAXOPBLOCKS_def log_region_def)
  moreover have "log_geometry t" using g L by (simp add: log_geometry_def)
  ultimately show ?thesis using L by simp
qed

definition recovered :: "'z lstate_scheme \<Rightarrow> nat \<Rightarrow> nat \<Rightarrow> 'z lstate_scheme \<Rightarrow> bool" where
  "recovered s i p t \<longleftrightarrow> booted t i p \<and> log_n t = 0 \<and> log_start t = log_start s \<and> log_size t = log_size s \<and>
     disksize t = disksize s \<and> disk t = recover_disk (log_start s) (disk s) \<and>
     dwrites t = dwrites s @ recovery_writes (log_start s) (disk s)"

lemma head_data_0 [simp]: "head_data 0 bs d = set32 0 0 d"
  by (simp add: head_data_def)

lemma recover_runs:
  assumes boot: "booted s i p" and ok: "hdr_ok s (disk s (log_start s))"
  shows "runs (recover_from_log s) (\<lambda>_. recovered s i p)"
proof -
  let ?h = "disk s (log_start s)"
  obtain s1 where r1: "read_head s = Ok () s1" and s1: "loginv s1 i p" "dirty_blocks s1 = {}" "blk s1 = blk s"
      "disk s1 = disk s" "dwrites s1 = dwrites s" "log_n s1 = hdr_n ?h" "logged s1 = hdr_blocks ?h"
      "log_start s1 = log_start s" "log_size s1 = log_size s" "disksize s1 = disksize s" "log_geometry s1"
    using read_head_runs [OF boot refl ok] by (auto simp: runs_iff)
  have same: "blk s n = disk s n" for n using blk_clean [of s1 i p n] s1(1-4) by (simp add: loginv_def)
  define ws where "ws = map (\<lambda>j. (hdr_block ?h j, disk s (log_start s + j + 1))) [0..<nat (hdr_n ?h)]"
  have hw: "home_writes s1 = ws" by (simp add: home_writes_def ws_def s1 hdr_blocks_def same)
  obtain s2 where r2: "install_trans s1 = Ok () s2" and w2: "writes_post s1 i p ws s2"
    using install_trans_runs [OF s1(1)] s1(2) hw by (auto simp: runs_iff)
  have f2: "cframe s1 s2" and b2: "binv s2 i p {}" and d2: "dirty_blocks s2 = {}"
    using w2 s1(2) by (simp_all add: writes_post_def)
  have "fst ` set ws = set (hdr_blocks ?h)" by (simp add: ws_def hdr_blocks_def image_image)
  then have "log_start s \<notin> fst ` set ws" using ok boot by (auto simp: hdr_ok_def log_region_def booted_def log_geometry_def)
  then have h2: "blk s2 (log_start s) = ?h" using w2 same s1(3) by (simp add: writes_post_def dapply_other)
  have "log_start s < disksize s" using boot by (auto simp: booted_def log_geometry_def)
  then have "runs (write_head (s2\<lparr>log_n := 0\<rparr>)) (\<lambda>_. copy_post (s2\<lparr>log_n := 0\<rparr>) i p (log_start s) (set32 0 0 ?h))"
    using write_head_runs [of "s2\<lparr>log_n := 0\<rparr>" i p] b2 d2 h2 s1(8,10,11) cframe_sel(7) [OF f2]
    by (simp add: cframe_log [OF f2] log_geometry_def NBUF_def MAXOPBLOCKS_def)
  then obtain t where r3: "write_head (s2\<lparr>log_n := 0\<rparr>) = Ok () t"
    and c3: "copy_post (s2\<lparr>log_n := 0\<rparr>) i p (log_start s) (set32 0 0 ?h) t" by (auto simp: runs_iff)
  have f3: "cframe (s2\<lparr>log_n := 0\<rparr>) t" using c3 by (simp add: copy_post_def)
  have L: "log_start t = log_start s" "log_size t = log_size s" "disksize t = disksize s" "log_n t = 0" "log_geometry t"
    using s1 cframe_sel(7) [OF f3] cframe_sel(7) [OF f2] by (simp_all add: cframe_log [OF f3] cframe_log [OF f2] log_geometry_def)
  have "recovery_writes (log_start s) (disk s) = ws @ [(log_start s, set32 0 0 ?h)]"
    by (simp add: recovery_writes_def ws_def)
  then have "recovered s i p t"
    using L c3 w2 d2 s1(4,5) by (simp add: recovered_def booted_def copy_post_def writes_post_def recover_disk_def)
  then show ?thesis using r1 r2 r3 by (simp add: recover_from_log_def)
qed

text \<open>What recovery makes of a disk, block by block.\<close>

lemma hdr_n_cleared: "length d = BSIZE \<Longrightarrow> hdr_n (set32 0 0 d) = 0"
  by (simp add: hdr_n_def BSIZE_def)

lemma recover_disk_cleared:
  "hdr_n (D ls) \<le> 0 \<Longrightarrow> n \<noteq> ls \<Longrightarrow> recover_disk ls D n = D n"
  by (simp add: recover_disk_def recovery_writes_def dapply_def)

lemma recover_disk_committed:
  assumes bs: "hdr_blocks (D ls) = bs" and "distinct bs"
    and copies: "\<forall>j < length bs. D (ls + j + 1) = f (bs ! j)" and n: "n \<noteq> ls"
  shows "recover_disk ls D n = (if n \<in> set bs then f n else D n)"
proof -
  have len: "nat (hdr_n (D ls)) = length bs" using bs by (auto simp: hdr_blocks_def)
  have "hdr_block (D ls) j = bs ! j" if "j < length bs" for j using that bs by (auto simp: hdr_blocks_def)
  then have "map (\<lambda>j. (hdr_block (D ls) j, D (ls + j + 1))) [0..<length bs] = map (\<lambda>b. (b, f b)) bs"
    using copies by (intro nth_equalityI) simp_all
  then have "recover_disk ls D n = dapply D (map (\<lambda>b. (b, f b)) bs) n"
    using n by (simp add: recover_disk_def recovery_writes_def len)
  moreover have "dapply D (map (\<lambda>b. (b, f b)) bs) n = f n" if "n \<in> set bs"
    by (rule dapply_same) (use that assms(2) in \<open>auto simp: comp_def\<close>)
  moreover have "dapply D (map (\<lambda>b. (b, f b)) bs) n = D n" if "n \<notin> set bs"
    by (rule dapply_other) (use that in auto)
  ultimately show ?thesis by simp
qed

section \<open>Crashes\<close>

text \<open>
  The machine may stop after any number of the writes that a piece of code issues; \<open>reboot\<close> is the
  next start on what the disk then holds.
\<close>

definition reboot :: "'z lstate_scheme \<Rightarrow> (nat \<Rightarrow> byte list) \<Rightarrow> 'z lstate_scheme \<Rightarrow> nat \<Rightarrow> nat \<Rightarrow> bool" where
  "reboot s D b i p \<longleftrightarrow> booted b i p \<and> disk b = D \<and> log_start b = log_start s \<and> log_size b = log_size s \<and>
     disksize b = disksize s"

lemma reboot_recovers:
  assumes "reboot s D b i p" and "hdr_ok s (D (log_start s))"
  shows "\<exists>u. recover_from_log b = Ok () u \<and> disk u = recover_disk (log_start s) D"
proof -
  have "hdr_ok b (disk b (log_start b))" using assms by (simp add: reboot_def hdr_ok_def log_region_def)
  then show ?thesis
    using recover_runs [of b i p] assms(1) by (auto simp: reboot_def runs_iff recovered_def)
qed

lemma hdr_ok_cleared: "hdr_n h = 0 \<Longrightarrow> 0 < log_size s \<Longrightarrow> hdr_ok s h"
  by (simp add: hdr_ok_def hdr_blocks_def)

lemma commit_header:
  assumes inv: "loginv s i p" and h: "h = head_data (log_n s) (log_block s) (blk s (log_start s))"
  shows "hdr_blocks h = logged s" "hdr_ok s h" "length h = BSIZE"
proof -
  have i: "0 \<le> log_n s" "log_n s < log_size s" "log_size s \<le> int LOGSIZE" "length (log_block s) = LOGSIZE"
    "disksize s \<le> 2 ^ 32" "\<forall>x\<in>set (logged s). x < disksize s" and b: "binv s i p {}" and c: "card (dirty_blocks s) < NBUF"
    using inv by (simp_all add: loginv_def)
  have "log_start s < disksize s" using inv by (auto simp: loginv_def)
  show len: "length h = BSIZE" using blk_length [OF b] by (simp add: h)
  have L: "LOGSIZE = 30" by (simp add: LOGSIZE_def MAXOPBLOCKS_def)
  have n: "log_n s < 30" using i L by linarith
  have lt: "\<forall>x\<in>set (take (nat (log_n s)) (log_block s)). x < 2 ^ 32"
  proof
    fix x assume "x \<in> set (take (nat (log_n s)) (log_block s))"
    then have "x < disksize s" using i(6) by (simp add: logged_def)
    then show "x < 2 ^ 32" using i(5) by linarith
  qed
  show hb: "hdr_blocks h = logged s"
    unfolding h logged_def
    by (rule hdr_blocks_head_data) (use n i(1,4) L lt len in \<open>simp_all add: h BSIZE_def\<close>)
  have "hdr_n h = log_n s"
    unfolding h by (rule hdr_n_head_data) (use n i(1) len in \<open>simp_all add: h BSIZE_def\<close>)
  then show "hdr_ok s h" using inv hb by (simp add: hdr_ok_def loginv_def)
qed

text \<open>The disk after \<open>k\<close> writes of a commit, before and after the header reached it.\<close>

lemma crash_before:
  assumes "k \<le> nat (log_n s)" and "loginv s i p" and "D = dapply (disk s) (take k (commit_writes s))"
  shows "n \<notin> log_region s \<or> n = log_start s \<Longrightarrow> D n = disk s n"
proof -
  assume n: "n \<notin> log_region s \<or> n = log_start s"
  have "length (log_writes s) = nat (log_n s)" by (simp add: log_writes_def)
  then have e: "take k (commit_writes s) = take k (log_writes s)" using assms(1) by (simp add: commit_writes_def Let_def)
  have "fst ` set (take k (log_writes s)) \<subseteq> fst ` set (log_writes s)" using set_take_subset by fast
  then have "n \<notin> fst ` set (take k (log_writes s))" using log_writes_region [OF assms(2) n] by blast
  then show "D n = disk s n" unfolding assms(3) e by (rule dapply_other)
qed

lemma crash_after:
  assumes k: "nat (log_n s) < k" and inv: "loginv s i p" and dirty: "dirty_blocks s = set (logged s)"
    and D: "D = dapply (disk s) (take k (commit_writes s))"
  shows "hdr_ok s (D (log_start s))" "n \<notin> log_region s \<Longrightarrow> recover_disk (log_start s) D n = blk s n"
proof -
  define h where "h = head_data (log_n s) (log_block s) (blk s (log_start s))"
  define ws where "ws = map (\<lambda>b. (b, blk s b)) (logged s)"
  define m where "m = k - nat (log_n s) - 1"
  define D1 where "D1 = (dapply (disk s) (log_writes s))(log_start s := h)"
  note hd = commit_header [OF inv h_def]
  have b: "binv s i p {}" and reg: "\<forall>x\<in>set (logged s). x \<notin> log_region s" and dist: "distinct (logged s)"
    and pos: "0 < log_size s" using inv by (auto simp: loginv_def)
  have ls: "log_start s \<in> log_region s" using pos by (simp add: log_region_def)
  have "length (log_writes s) = nat (log_n s)" by (simp add: log_writes_def)
  then have "take k (commit_writes s) = log_writes s @ [(log_start s, h)] @ take m (ws @ [(log_start s, set32 0 0 h)])"
    using k by (cases "k - nat (log_n s)") (simp_all add: commit_writes_def Let_def h_def ws_def m_def)
  then have Dm: "D = dapply D1 (take m (ws @ [(log_start s, set32 0 0 h)]))"
    by (simp add: D D1_def dapply_append)
  have lw: "length ws = nat (log_n s)" and fw: "fst ` set ws = set (logged s)"
    by (simp_all add: ws_def length_logged [OF inv] image_image)
  have D1n: "D1 n = disk s n" if "n \<notin> log_region s" for n
    using that ls dapply_other [OF log_writes_region [OF inv disjI1 [OF that]], of "disk s"] by (auto simp: D1_def)
  have clean: "blk s n = disk s n" if "n \<notin> set (logged s)" for n using blk_clean [OF b, of n] that dirty by simp
  have "hdr_ok s (D (log_start s)) \<and> (n \<notin> log_region s \<longrightarrow> recover_disk (log_start s) D n = blk s n)"
  proof (cases "m \<le> length ws")
    case True
    then have e: "D = dapply D1 (take m ws)" using Dm by simp
    have sub: "fst ` set (take m ws) \<subseteq> set (logged s)" using set_take_subset [of m ws] fw by blast
    have inreg: "D x = D1 x" if "x \<in> log_region s" for x unfolding e by (rule dapply_other) (use that reg sub in blast)
    have H: "D (log_start s) = h" using inreg [OF ls] by (simp add: D1_def)
    have "D (log_start s + j + 1) = blk s (logged s ! j)" if "j < length (logged s)" for j
      using that inreg logged_nth(5) [OF inv, of j] log_writes_copy [of j s "disk s"] length_logged [OF inv]
      by (simp add: D1_def)
    then have copies: "\<forall>j < length (logged s). D (log_start s + j + 1) = blk s (logged s ! j)" by blast
    have "recover_disk (log_start s) D n = (if n \<in> set (logged s) then blk s n else D n)" if "n \<notin> log_region s"
      by (rule recover_disk_committed [OF _ dist copies]) (use hd(1) H that ls in auto)
    moreover have "D n = D1 n" if "n \<notin> set (logged s)" unfolding e by (rule dapply_other) (use that sub in blast)
    ultimately show ?thesis using H hd(2) D1n clean by auto
  next
    case False
    then have e: "D = (dapply D1 ws)(log_start s := set32 0 0 h)" using Dm by simp
    then have z: "hdr_n (D (log_start s)) = 0" using hd(3) by (simp add: hdr_n_cleared)
    have "dapply D1 ws n = blk s n" if "n \<in> set (logged s)"
      by (rule dapply_same) (use that dist in \<open>auto simp: ws_def comp_def\<close>)
    moreover have "dapply D1 ws n = disk s n" if "n \<notin> set (logged s)" "n \<notin> log_region s"
      using that D1n dapply_other [of n ws D1] fw by simp
    ultimately have "D n = blk s n" if "n \<notin> log_region s"
      using that clean [of n] ls e by (cases "n \<in> set (logged s)") auto
    moreover have "recover_disk (log_start s) D n = D n" if "n \<notin> log_region s"
      by (rule recover_disk_cleared) (use that ls z in auto)
    ultimately show ?thesis using hdr_ok_cleared [OF z pos] by auto
  qed
  then show "hdr_ok s (D (log_start s))" "n \<notin> log_region s \<Longrightarrow> recover_disk (log_start s) D n = blk s n" by auto
qed

section \<open>Transactions\<close>

text \<open>
  The invariant of a running transaction, while the buffers \<open>H\<close> are held: the in-memory header
  lists distinct home blocks, these are exactly the blocks whose buffers are modified, and the
  header on the disk is clear.
\<close>

definition txinv :: "'z lstate_scheme \<Rightarrow> nat \<Rightarrow> nat \<Rightarrow> nat set \<Rightarrow> bool" where
  "txinv s i p H \<longleftrightarrow> binv s i p H \<and> log_geometry s \<and> 0 \<le> log_n s \<and> log_n s < log_size s \<and> distinct (logged s) \<and>
     (\<forall>x\<in>set (logged s). x < disksize s \<and> x \<notin> log_region s) \<and> dirty_blocks s = set (logged s) \<and>
     hdr_n (disk s (log_start s)) = 0"

lemma txinv_dirty_card:
  assumes "txinv s i p H"
  shows "card (dirty_blocks s) = nat (log_n s)" "card (dirty_blocks s) < NBUF"
proof -
  have "length (logged s) = nat (log_n s)" using assms by (auto simp: txinv_def logged_def log_geometry_def)
  then show "card (dirty_blocks s) = nat (log_n s)" using assms distinct_card [of "logged s"] by (simp add: txinv_def)
  then show "card (dirty_blocks s) < NBUF" using assms
    by (auto simp: txinv_def log_geometry_def NBUF_def LOGSIZE_def MAXOPBLOCKS_def)
qed

lemma txinv_loginv: "txinv s i p {} \<Longrightarrow> loginv s i p"
  using txinv_dirty_card(2) [of s i p "{}"] by (simp add: txinv_def loginv_def log_geometry_def)

lemma commit_txinv:
  assumes tx: "txinv s i p {}" and w: "writes_post (s\<lparr>log_n := 0\<rparr>) i p (commit_writes s) t"
  shows "txinv t i p {}" "log_n t = 0" "n \<notin> log_region s \<Longrightarrow> disk t n = blk s n" "n \<notin> log_region s \<Longrightarrow> blk t n = blk s n"
proof -
  note inv = txinv_loginv [OF tx]
  have g: "log_geometry s" and d: "dirty_blocks s = set (logged s)" using tx by (simp_all add: txinv_def)
  have fr: "cframe (s\<lparr>log_n := 0\<rparr>) t" and b: "binv t i p {}" and D: "disk t = dapply (disk s) (commit_writes s)"
    using w by (simp_all add: writes_post_def)
  have "set (logged s) \<subseteq> fst ` set (commit_writes s)" by (force simp: commit_writes_def Let_def)
  then have dt: "dirty_blocks t = {}" using w d by (auto simp: writes_post_def)
  show n0: "log_n t = 0" by (simp add: cframe_log [OF fr])
  have ls: "log_start t = log_start s" and geo: "log_geometry t"
    using g cframe_sel(7) [OF fr] by (simp_all add: cframe_log [OF fr] log_geometry_def)
  define k where "k = length (commit_writes s)"
  have k: "nat (log_n s) < k" by (simp add: k_def commit_writes_def Let_def log_writes_def)
  have Dk: "disk t = dapply (disk s) (take k (commit_writes s))" by (simp add: D k_def)
  have len: "length (head_data (log_n s) (log_block s) (blk s (log_start s))) = BSIZE"
    using commit_header(3) [OF inv refl] .
  then have z: "hdr_n (disk t (log_start s)) = 0"
    unfolding D commit_writes_def Let_def by (simp add: dapply_append hdr_n_cleared)
  show "txinv t i p {}" using b geo n0 dt z ls g by (simp add: txinv_def logged_def log_geometry_def cframe_log [OF fr])
  show dn: "disk t n = blk s n" if "n \<notin> log_region s" for n
  proof -
    have "log_start s \<in> log_region s" using g by (simp add: log_geometry_def log_region_def)
    then have "recover_disk (log_start s) (disk t) n = disk t n" using that z by (intro recover_disk_cleared) auto
    then show ?thesis using crash_after(2) [OF k inv d Dk that] by simp
  qed
  show "blk t n = blk s n" if "n \<notin> log_region s" for n using blk_clean [OF b, of n] dt dn [OF that] by simp
qed

lemma txinv_cong:
  assumes e: "bstate.truncate t = bstate.truncate s" and "log_start t = log_start s" "log_size t = log_size s"
    "log_dev t = log_dev s" "log_n t = log_n s" "log_block t = log_block s"
  shows "txinv t i p H = txinv s i p H"
proof -
  have "disk t = disk s" "disksize t = disksize s" using core_sel(11,12) [of t] core_sel(11,12) [of s] e by metis+
  then show ?thesis
    using assms(2-) core_cong [OF e] by (simp add: txinv_def log_geometry_def logged_def log_region_def)
qed

end
