(* ===== verification/Tx.thy ===== *)
theory Tx
  imports LogCrash
begin

text \<open>
  Transactions: the behaviour of \<open>begin_op\<close>, \<open>log_write\<close> and \<open>end_op\<close>, and the crash safety of
  \<open>commit\<close> and \<open>recover_from_log\<close>.
\<close>

section \<open>Recording a block\<close>

lemma absorb_cases: "absorb bn s = (case first_idx (\<lambda>x. x = bn) (logged s) of Some i \<Rightarrow> i | None \<Rightarrow> nat (log_n s))"
  by (simp add: absorb_def logged_def)

lemma absorb_logged:
  assumes "bn \<in> set (logged s)"
  shows "absorb bn s < nat (log_n s)" "log_block s ! absorb bn s = bn" "absorb bn s < length (log_block s)"
proof -
  obtain k where k: "first_idx (\<lambda>x. x = bn) (logged s) = Some k"
    using assms first_idx_None [of "\<lambda>x. x = bn" "logged s"] by (cases "first_idx (\<lambda>x. x = bn) (logged s)") auto
  then have "absorb bn s = k" by (simp add: absorb_cases)
  moreover have "k < length (logged s)" "logged s ! k = bn" using k by (auto simp: first_idx_Some)
  ultimately show "absorb bn s < nat (log_n s)" "log_block s ! absorb bn s = bn" "absorb bn s < length (log_block s)"
    by (auto simp: logged_def)
qed

lemma absorb_new: "bn \<notin> set (logged s) \<Longrightarrow> absorb bn s = nat (log_n s)"
  using first_idx_None [of "\<lambda>x. x = bn" "logged s"] by (auto simp: absorb_cases)

definition log_recorded :: "nat \<Rightarrow> 'z lstate_scheme \<Rightarrow> 'z lstate_scheme" where
  "log_recorded bn s =
     (if bn \<in> set (logged s) then s
      else s\<lparr>log_block := (log_block s)[nat (log_n s) := bn], log_n := log_n s + 1\<rparr>)"

lemma acquired_log [simp]:
  "log_n (acquired l i s) = log_n s" "log_block (acquired l i s) = log_block s" "log_start (acquired l i s) = log_start s"
  "log_size (acquired l i s) = log_size s" "log_outstanding (acquired l i s) = log_outstanding s"
  "log_committing (acquired l i s) = log_committing s" "log_dev (acquired l i s) = log_dev s"
  by (simp_all add: acquired_def pushed_def)

lemma acquired_bufs [simp]: "bufs (acquired l i s) = bufs s"
  by (simp add: acquired_def pushed_def)

lemma log_write_calm:
  assumes calm: "calm s i" and n: "0 \<le> log_n s" "log_n s < int LOGSIZE" "log_n s < log_size s - 1" "1 \<le> log_outstanding s"
  shows "log_write b s = Ok () (upd_buf b (\<lambda>x. x\<lparr>b_dirty := True\<rparr>) (log_recorded (b_blockno (buf_at s b)) s))"
proof -
  let ?bn = "b_blockno (buf_at s b)" and ?a = "acquired L_log i s"
  let ?r = "upd_buf b (\<lambda>x. x\<lparr>b_dirty := True\<rparr>) (log_recorded ?bn ?a)"
  have f: "logged ?a = logged s" "absorb ?bn ?a = absorb ?bn s" by (simp_all add: logged_def absorb_cases split: option.split)
  have lw: "log_write b s = release L_log ?r"
  proof (cases "?bn \<in> set (logged s)")
    case True
    then have "absorb ?bn s < nat (log_n s)" "(log_block s)[absorb ?bn s := ?bn] = log_block s"
      using absorb_logged [OF True] list_update_id [of "log_block s" "absorb ?bn s"] by auto
    moreover from this have "int (absorb ?bn s) \<noteq> log_n s" by linarith
    moreover have e: "?a\<lparr>log_block := log_block s\<rparr> = ?a" by (simp add: acquired_def pushed_def)
    ultimately show ?thesis
      using n True f acquire_calm [OF calm, of L_log] by (simp add: log_write_def Let_def log_recorded_def e)
  next
    case False
    then show ?thesis
      using n False f absorb_new [OF False] acquire_calm [OF calm, of L_log]
      by (simp add: log_write_def Let_def log_recorded_def)
  qed
  have "release L_log ?r = Ok () (?r\<lparr>locks := locks s, cpus := cpus s, eflags_IF := eflags_IF s\<rparr>)"
    by (rule release_calm [OF calm]) (simp_all add: upd_buf_def log_recorded_def)
  also have "?r\<lparr>locks := locks s, cpus := cpus s, eflags_IF := eflags_IF s\<rparr> =
      upd_buf b (\<lambda>x. x\<lparr>b_dirty := True\<rparr>) (log_recorded ?bn s)"
    using f by (simp add: upd_buf_def log_recorded_def acquired_def pushed_def)
  finally show ?thesis using lw by simp
qed

lemma log_recorded_facts:
  assumes "txinv s i p H" and "log_n s < log_size s - 1" and t: "t = log_recorded bn s"
  shows "bstate.truncate t = bstate.truncate s" "log_geometry t" "log_region t = log_region s" "log_start t = log_start s"
    "set (logged t) = insert bn (set (logged s))" "distinct (logged t)" "0 \<le> log_n t" "log_n t < log_size t"
    "log_n t \<le> log_n s + 1" "disksize t = disksize s"
proof -
  have i: "log_geometry s" "0 \<le> log_n s" "distinct (logged s)" using assms(1) by (simp_all add: txinv_def)
  then have L: "nat (log_n s) < length (log_block s)" "nat (log_n s + 1) = Suc (nat (log_n s))"
    using assms(2) by (auto simp: log_geometry_def)
  show "bstate.truncate t = bstate.truncate s" by (simp add: t log_recorded_def core_log_upd)
  show "log_geometry t" "log_region t = log_region s" "log_start t = log_start s" "0 \<le> log_n t" "log_n t < log_size t"
    "log_n t \<le> log_n s + 1" "disksize t = disksize s"
    using i assms(2) by (simp_all add: t log_recorded_def log_geometry_def log_region_def)
  have "logged t = (if bn \<in> set (logged s) then logged s else logged s @ [bn])"
    using L by (simp add: t log_recorded_def logged_def take_Suc_conv_app_nth)
  then show "set (logged t) = insert bn (set (logged s))" "distinct (logged t)" using i(3) by auto
qed

definition logged_post :: "'z lstate_scheme \<Rightarrow> nat \<Rightarrow> nat \<Rightarrow> nat set \<Rightarrow> nat \<Rightarrow> 'z lstate_scheme \<Rightarrow> bool" where
  "logged_post s i p H b t \<longleftrightarrow> txinv t i p H \<and> blk t = blk s \<and> disk t = disk s \<and> dwrites t = dwrites s \<and>
     set (logged t) = insert (b_blockno (buf_at s b)) (set (logged s)) \<and> log_n t \<le> log_n s + 1 \<and>
     b_data (buf_at t b) = b_data (buf_at s b) \<and> b_blockno (buf_at t b) = b_blockno (buf_at s b) \<and>
     (\<forall>a. a \<noteq> b \<longrightarrow> buf_at t a = buf_at s a) \<and> cframe (log_recorded (b_blockno (buf_at s b)) s) t"

lemma log_write_runs:
  assumes tx: "txinv s i p H" and b: "b \<in> H" and n: "log_n s < log_size s - 1" "1 \<le> log_outstanding s"
    and home: "b_blockno (buf_at s b) \<notin> log_region s"
  shows "runs (log_write b s) (\<lambda>_. logged_post s i p H b)"
proof -
  let ?bn = "b_blockno (buf_at s b)"
  define t where "t = log_recorded ?bn s"
  define u where "u = upd_buf b (\<lambda>x. x\<lparr>b_dirty := True\<rparr>) t"
  note f = log_recorded_facts [OF tx n(1) t_def]
  have inv: "binv s i p H" and reg: "\<forall>x\<in>set (logged s). x < disksize s \<and> x \<notin> log_region s"
    and d: "dirty_blocks s = set (logged s)" "hdr_n (disk s (log_start s)) = 0" "0 \<le> log_n s" "log_size s \<le> int LOGSIZE"
    using tx by (simp_all add: txinv_def log_geometry_def)
  have e: "log_write b s = Ok () u"
    unfolding u_def t_def
    by (rule log_write_calm [OF running_calm [OF binv_facts(1) [OF inv]]]) (use n d(3,4) in simp_all)
  have c: "binv t i p H" "blk t = blk s" "dirty_blocks t = dirty_blocks s" "bufs t = bufs s" "disk t = disk s" "dwrites t = dwrites s"
    using core_cong [OF f(1)] inv by (simp_all add: t_def log_recorded_def)
  note m = bset_dirty [OF c(1) b u_def]
  have L: "logged u = logged t" "log_geometry u = log_geometry t" "log_region u = log_region t" "log_n u = log_n t"
    "log_size u = log_size t" "log_start u = log_start t" "disksize u = disksize t"
    using cframe_log [OF m(2)] cframe_sel(7) [OF m(2)] by (simp_all add: logged_def log_region_def log_geometry_def)
  have bn: "?bn < disksize s" by (rule held_facts(4) [OF inv b])
  have ob: "\<forall>a. a \<noteq> b \<longrightarrow> buf_at u a = buf_at s a" using m(8) c(4) by simp
  have "txinv u i p H"
    using m(1,5,9) f c d L reg bn home by (auto simp: txinv_def)
  then have "logged_post s i p H b u"
    using m(2,3,5,6,7) ob c f L by (simp add: logged_post_def t_def)
  then show ?thesis using e by simp
qed

section \<open>Admission\<close>

text \<open>
  The check that \<open>begin_op\<close> makes, in exact arithmetic.  In the range that the counters can have (at most one
  call per process is outstanding) the C expression does not wrap.
\<close>

definition admitted :: "'z lstate_scheme \<Rightarrow> bool" where
  "admitted s \<longleftrightarrow> \<not> log_committing s \<and> log_n s + (log_outstanding s + 1) * int MAXOPBLOCKS \<le> int LOGSIZE"

definition log_counts :: "'z lstate_scheme \<Rightarrow> bool" where
  "log_counts s \<longleftrightarrow> 0 \<le> log_n s \<and> log_n s \<le> int LOGSIZE \<and> 0 \<le> log_outstanding s \<and> log_outstanding s \<le> int NPROC"

lemma log_counts_s32:
  assumes "log_counts s"
  shows "s32 (log_outstanding s + 1) = log_outstanding s + 1"
    and "s32 (log_n s + s32 ((log_outstanding s + 1) * int MAXOPBLOCKS)) = log_n s + (log_outstanding s + 1) * int MAXOPBLOCKS"
proof -
  have b: "0 \<le> log_n s" "log_n s \<le> 30" "0 \<le> log_outstanding s" "log_outstanding s \<le> 64"
    using assms by (simp_all add: log_counts_def LOGSIZE_def MAXOPBLOCKS_def NPROC_def)
  show "s32 (log_outstanding s + 1) = log_outstanding s + 1" using b by (intro s32_id) simp_all
  have "s32 ((log_outstanding s + 1) * int MAXOPBLOCKS) = (log_outstanding s + 1) * int MAXOPBLOCKS"
    using b by (intro s32_id) (simp_all add: MAXOPBLOCKS_def)
  then show "s32 (log_n s + s32 ((log_outstanding s + 1) * int MAXOPBLOCKS)) = log_n s + (log_outstanding s + 1) * int MAXOPBLOCKS"
    using b by (simp only:) (intro s32_id; simp add: MAXOPBLOCKS_def)
qed

lemma begin_op_loop_admits:
  assumes calm: "calm s i" and "log_counts s" and "admitted s"
  shows "begin_op_loop (acquired L_log i s) = Ok () (s\<lparr>log_outstanding := log_outstanding s + 1\<rparr>)"
proof -
  let ?t = "(acquired L_log i s)\<lparr>log_outstanding := log_outstanding s + 1\<rparr>"
  have "begin_op_loop (acquired L_log i s) = release L_log ?t"
    using assms(3) by (simp add: begin_op_loop_def log_counts_s32 [OF assms(2)] admitted_def)
  also have "\<dots> = Ok () (?t\<lparr>locks := locks s, cpus := cpus s, eflags_IF := eflags_IF s\<rparr>)"
    by (rule release_calm [OF calm]) simp_all
  also have "?t\<lparr>locks := locks s, cpus := cpus s, eflags_IF := eflags_IF s\<rparr> = s\<lparr>log_outstanding := log_outstanding s + 1\<rparr>"
    by (simp add: acquired_def pushed_def)
  finally show ?thesis .
qed

lemma begin_op_admits:
  "calm s i \<Longrightarrow> log_counts s \<Longrightarrow> admitted s \<Longrightarrow> begin_op s = Ok () (s\<lparr>log_outstanding := log_outstanding s + 1\<rparr>)"
  by (simp add: begin_op_def acquire_calm begin_op_loop_admits)

text \<open>A caller that is not admitted goes to sleep on the log's channel with the log as it was.\<close>

definition log_sleeper :: "'z lstate_scheme \<Rightarrow> nat \<Rightarrow> 'z lstate_scheme \<Rightarrow> bool" where
  "log_sleeper s p t \<longleftrightarrow> p_state (proc_at t p) = SLEEPING \<and> p_chan (proc_at t p) = Some Ch_log \<and>
     \<not> lk_locked (locks t L_log) \<and> log_outstanding t = log_outstanding s \<and> log_n t = log_n s \<and>
     log_block t = log_block s \<and> log_committing t = log_committing s"

lemma begin_op_loop_sleeps:
  assumes run: "running s i p" and n: "ncli (cpus s ! i) = 0" and "log_counts s" and "\<not> admitted s"
  shows "\<exists>t. begin_op_loop (acquired L_log i s) = Swtch t \<and> log_sleeper s p t"
proof -
  let ?t = "sleeping Ch_log i p (swap_lock L_log i (acquired L_log i s))"
  have "begin_op_loop (acquired L_log i s) = Swtch ?t"
    using assms(4) sleep_running [OF run n, of L_log Ch_log]
    by (auto simp: begin_op_loop_def log_counts_s32 [OF assms(3)] admitted_def)
  moreover have "log_sleeper s p ?t"
    using run by (simp add: log_sleeper_def sleeping_def swap_lock_def released_def running_def)
  ultimately show ?thesis by blast
qed

lemma begin_op_verdict:
  assumes "running s i p" and "ncli (cpus s ! i) = 0" and "log_counts s"
  shows "if admitted s then begin_op s = Ok () (s\<lparr>log_outstanding := log_outstanding s + 1\<rparr>)
    else \<exists>t. begin_op s = Swtch t \<and> log_sleeper s p t"
  using begin_op_admits [OF running_calm [OF assms(1)] assms(3)] begin_op_loop_sleeps [OF assms]
  by (simp add: begin_op_def acquire_calm [OF running_calm [OF assms(1)]])

lemma resumed_log [simp]:
  "log_n (resumed i p s) = log_n s" "log_outstanding (resumed i p s) = log_outstanding s"
  "log_committing (resumed i p s) = log_committing s" "log_block (resumed i p s) = log_block s"
  by (simp_all add: resumed_def released_def upd_proc_def upd_cpu_def)

lemma begin_op_resume_verdict:
  assumes sw: "switched_to s i p" and "log_counts s"
  shows "if admitted s then begin_op_resume p s = Ok () ((resumed i p s)\<lparr>log_outstanding := log_outstanding s + 1\<rparr>)
    else \<exists>t. begin_op_resume p s = Swtch t \<and> log_sleeper s p t"
proof -
  note r = resumed_running [OF sw]
  have c: "log_counts (resumed i p s)" "admitted (resumed i p s) = admitted s" "log_sleeper (resumed i p s) = log_sleeper s"
    using assms(2) by (simp_all add: log_counts_def admitted_def log_sleeper_def fun_eq_iff)
  show ?thesis
    using begin_op_loop_admits [OF running_calm [OF r(1)] c(1)] begin_op_loop_sleeps [OF r c(1)]
    by (simp add: begin_op_resume_def sleep_resume_ok [OF sw] c)
qed

lemma end_op_last:
  assumes calm: "calm s i" and "\<not> log_committing s" and "log_outstanding s = 1"
    and c: "commit (s\<lparr>log_outstanding := 0, log_committing := True\<rparr>) = Ok () t" and tc: "calm t i"
  shows "end_op s = Ok () (t\<lparr>log_committing := False, ptable := wake_tab (Some Ch_log) (ptable t)\<rparr>)"
proof -
  let ?a = "(acquired L_log i s)\<lparr>log_outstanding := 0, log_committing := True\<rparr>"
  have r1: "release L_log ?a = Ok () (s\<lparr>log_outstanding := 0, log_committing := True\<rparr>)"
    using release_calm [OF calm, of ?a L_log] by (simp add: acquired_def pushed_def)
  let ?b = "(acquired L_log i t)\<lparr>log_committing := False\<rparr>"
  have w: "wakeup Ch_log ?b = Ok () (?b\<lparr>ptable := wake_tab (Some Ch_log) (ptable ?b)\<rparr>)"
    by (rule wakeup_acquired [OF tc]) simp_all
  let ?c = "?b\<lparr>ptable := wake_tab (Some Ch_log) (ptable ?b)\<rparr>"
  have r2: "release L_log ?c = Ok () (t\<lparr>log_committing := False, ptable := wake_tab (Some Ch_log) (ptable t)\<rparr>)"
    using release_calm [OF tc, of ?c L_log] by (simp add: acquired_def pushed_def)
  show ?thesis
    unfolding end_op_def using assms(2,3) acquire_calm [OF calm, of L_log] acquire_calm [OF tc, of L_log] r1 c w r2
    by (simp add: Let_def s32_id)
qed

lemma end_op_other:
  assumes calm: "calm s i" and "\<not> log_committing s" and "1 < log_outstanding s" "log_outstanding s < 2 ^ 31"
  shows "end_op s = Ok () (s\<lparr>log_outstanding := log_outstanding s - 1, ptable := wake_tab (Some Ch_log) (ptable s)\<rparr>)"
proof -
  let ?b = "(acquired L_log i s)\<lparr>log_outstanding := log_outstanding s - 1\<rparr>"
  have w: "wakeup Ch_log ?b = Ok () (?b\<lparr>ptable := wake_tab (Some Ch_log) (ptable ?b)\<rparr>)"
    by (rule wakeup_acquired [OF calm]) simp_all
  let ?c = "?b\<lparr>ptable := wake_tab (Some Ch_log) (ptable ?b)\<rparr>"
  have r2: "release L_log ?c = Ok () (s\<lparr>log_outstanding := log_outstanding s - 1, ptable := wake_tab (Some Ch_log) (ptable s)\<rparr>)"
    using release_calm [OF calm, of ?c L_log] by (simp add: acquired_def pushed_def)
  show ?thesis
    unfolding end_op_def using assms(2-4) acquire_calm [OF calm, of L_log] w r2 by (simp add: Let_def s32_id)
qed

section \<open>Buffers inside a transaction\<close>

lemma txinv_frame:
  assumes "txinv s i p H" and "cframe s t" and "binv t i p H'" and "dirty_blocks t = dirty_blocks s" and "disk t = disk s"
  shows "txinv t i p H'"
  using assms cframe_log [OF assms(2)] cframe_sel(7) [OF assms(2)]
  by (simp add: txinv_def logged_def log_region_def log_geometry_def)

lemma tx_bread:
  assumes tx: "txinv s i p H" and n: "n < disksize s" and free: "\<forall>b\<in>H. b_blockno (buf_at s b) \<noteq> n"
    and room: "card H + nat (log_n s) < NBUF"
  shows "runs (bread ROOTDEV n s) (\<lambda>b t. bread_post s i p H n b t \<and> txinv t i p (insert b H))"
proof -
  have inv: "binv s i p H" using tx by (simp add: txinv_def)
  have "H \<union> dirtyb s \<noteq> {..<NBUF}" using buffer_available [OF inv] room txinv_dirty_card(1) [OF tx] by simp
  then have "runs (bread ROOTDEV n s) (bread_post s i p H n)" using bread_runs [OF inv n] free by blast
  then show ?thesis by (rule runs_conseq) (auto simp: bread_post_def intro: txinv_frame [OF tx])
qed

lemma tx_set_data:
  assumes tx: "txinv s i p H" and b: "b \<in> H" and d: "length d = BSIZE" and t: "t = upd_buf b (\<lambda>x. x\<lparr>b_data := d\<rparr>) s"
  shows "txinv t i p H" "cframe s t" "blk t = (blk s)(b_blockno (buf_at s b) := d)" "disk t = disk s"
    "dwrites t = dwrites s" "buf_at t b = (buf_at s b)\<lparr>b_data := d\<rparr>"
proof -
  have inv: "binv s i p H" using tx by (simp add: txinv_def)
  note m = bset_data [OF inv b d t]
  show "txinv t i p H" by (rule txinv_frame [OF tx m(2,1,9,5)])
  show "cframe s t" "blk t = (blk s)(b_blockno (buf_at s b) := d)" "disk t = disk s"
    "dwrites t = dwrites s" "buf_at t b = (buf_at s b)\<lparr>b_data := d\<rparr>" by (fact m)+
qed

lemma tx_brelse:
  assumes tx: "txinv s i p H" and b: "b \<in> H"
    and ok: "b_blockno (buf_at s b) \<in> set (logged s) \<or> b_data (buf_at s b) = disk s (b_blockno (buf_at s b))"
  shows "runs (brelse b s) (\<lambda>_ t. brelse_post s i p H b t \<and> txinv t i p (H - {b}))"
proof -
  have inv: "binv s i p H" and d: "dirty_blocks s = set (logged s)" using tx by (simp_all add: txinv_def)
  have "b_dirty (buf_at s b) \<or> b_data (buf_at s b) = disk s (b_blockno (buf_at s b))"
    using ok dirty_held [OF inv b] d by auto
  then have "runs (brelse b s) (\<lambda>_. brelse_post s i p H b)" by (rule brelse_runs [OF inv b])
  then show ?thesis by (rule runs_conseq) (auto simp: brelse_post_def intro: txinv_frame [OF tx])
qed

text \<open>A system call's update of one block, as the comment at \<open>log_write\<close> describes it.\<close>

definition logged_update :: "nat \<Rightarrow> byte list \<Rightarrow> 'z lstate_scheme \<Rightarrow> (unit, 'z lstate_scheme) res" where
  "logged_update n d s =
     bindR (bread ROOTDEV n s) (\<lambda>b s.
     bindR (log_write b (upd_buf b (\<lambda>x. x\<lparr>b_data := d\<rparr>) s)) (\<lambda>_ s. brelse b s))"

definition updated :: "'z lstate_scheme \<Rightarrow> nat \<Rightarrow> nat \<Rightarrow> (nat \<times> byte list) list \<Rightarrow> 'z lstate_scheme \<Rightarrow> bool" where
  "updated s i p us t \<longleftrightarrow> txinv t i p {} \<and> blk t = dapply (blk s) us \<and> disk t = disk s \<and> dwrites t = dwrites s \<and>
     log_n t \<le> log_n s + int (length us) \<and> log_start t = log_start s \<and> log_size t = log_size s \<and> disksize t = disksize s \<and>
     log_outstanding t = log_outstanding s \<and> log_committing t = log_committing s"

lemma logged_update_runs:
  assumes tx: "txinv s i p {}" and n: "n < disksize s" "n \<notin> log_region s" and d: "length d = BSIZE"
    and room: "log_n s < log_size s - 1" "1 \<le> log_outstanding s"
  shows "runs (logged_update n d s) (\<lambda>_. updated s i p [(n, d)])"
proof -
  have "nat (log_n s) < NBUF" using txinv_dirty_card [OF tx] by simp
  then have "runs (bread ROOTDEV n s) (\<lambda>b t. bread_post s i p {} n b t \<and> txinv t i p {b})" using tx_bread [OF tx n(1)] by simp
  then obtain b s1 where r: "bread ROOTDEV n s = Ok b s1" and s1: "bread_post s i p {} n b s1" and t1: "txinv s1 i p {b}"
    by (auto simp: runs_iff)
  define s2 where "s2 = upd_buf b (\<lambda>x. x\<lparr>b_data := d\<rparr>) s1"
  note m = tx_set_data [OF t1 singletonI d s2_def]
  have f1: "cframe s s1" using s1 by (simp add: bread_post_def)
  have f2: "cframe s s2" by (rule cframe_trans [OF f1 m(2)])
  note L = cframe_log [OF f2] cframe_sel(7) [OF f2]
  have bn: "b_blockno (buf_at s2 b) = n" using m(6) s1 by (simp add: bread_post_def)
  obtain s3 where w: "log_write b s2 = Ok () s3" and s3: "logged_post s2 i p {b} b s3"
    using log_write_runs [OF m(1) singletonI] n(2) room bn by (auto simp: runs_iff L log_region_def)
  have t3: "txinv s3 i p {b}" and f3: "cframe (log_recorded n s2) s3" using s3 bn by (simp_all add: logged_post_def)
  obtain t where rel: "brelse b s3 = Ok () t" and t: "brelse_post s3 i p {b} b t" and tt: "txinv t i p {}"
    using tx_brelse [OF t3 singletonI] s3 bn by (auto simp: runs_iff logged_post_def)
  have f4: "cframe s3 t" using t by (simp add: brelse_post_def)
  have R: "log_start t = log_start s" "log_size t = log_size s" "log_outstanding t = log_outstanding s"
    "log_committing t = log_committing s" "disksize t = disksize s" "log_n t = log_n s3"
    using cframe_log [OF f4] cframe_log [OF f3] cframe_sel(7) [OF f4] cframe_sel(7) [OF f3] L
    by (simp_all add: log_recorded_def)
  have "blk t = (blk s)(n := d)" "disk t = disk s" "dwrites t = dwrites s" "log_n t \<le> log_n s + 1"
    using t s3 m(3-6) s1 bn R(6) L by (simp_all add: brelse_post_def logged_post_def bread_post_def)
  then have "updated s i p [(n, d)] t" using tt R by (simp add: updated_def)
  then show ?thesis using r w rel by (simp add: logged_update_def s2_def)
qed

lemma updates_run:
  assumes "txinv s i p {}" and "log_n s + int (length us) < log_size s" and "1 \<le> log_outstanding s"
    and "\<forall>(n, d)\<in>set us. n < disksize s \<and> n \<notin> log_region s \<and> length d = BSIZE"
  shows "runs (forR us (\<lambda>(n, d). logged_update n d) s) (\<lambda>_. updated s i p us)"
  using assms
proof (induction us arbitrary: s)
  case Nil
  then show ?case by (simp add: updated_def)
next
  case (Cons u us)
  obtain n d where u: "u = (n, d)" by (cases u)
  obtain t where r: "logged_update n d s = Ok () t" and t: "updated s i p [(n, d)] t"
    using logged_update_runs [OF Cons.prems(1), of n d] Cons.prems(2-4) by (auto simp: runs_iff u)
  have "log_region t = log_region s" "disksize t = disksize s" using t by (simp_all add: updated_def log_region_def)
  then obtain t' where r': "forR us (\<lambda>(n, d). logged_update n d) t = Ok () t'" and t': "updated t i p us t'"
    using Cons.IH [of t] Cons.prems t by (auto simp: updated_def runs_iff)
  have "updated s i p (u # us) t'" using t t' by (simp add: updated_def u)
  then show ?case using r r' by (simp add: u)
qed

section \<open>A transaction to look at\<close>

text \<open>The log lies at blocks 256 to 285, where the demonstration disk holds zeros at its start.\<close>

definition demo_on :: "(nat \<Rightarrow> byte list) \<Rightarrow> lstate" where
  "demo_on D = bstate.extend (binit (demo_bstate0\<lparr>disk := D\<rparr>))
     (lstate.fields 256 30 0 False ROOTDEV 0 (replicate LOGSIZE 0))"

definition demo_lstate :: lstate where
  "demo_lstate = demo_on (\<lambda>n. replicate BSIZE (of_nat n))"

lemma demo_on_sel:
  "bstate.truncate (demo_on D) = binit (demo_bstate0\<lparr>disk := D\<rparr>)" "log_start (demo_on D) = 256" "log_size (demo_on D) = 30"
  "log_outstanding (demo_on D) = 0" "log_committing (demo_on D) = False" "log_dev (demo_on D) = ROOTDEV"
  "log_n (demo_on D) = 0" "log_block (demo_on D) = replicate LOGSIZE 0"
  by (simp_all add: demo_on_def bstate.truncate_def bstate.extend_def bstate.make_def lstate.fields_def)

lemma demo_on_disk: "disk (demo_on D) = D" "disksize (demo_on D) = 1000"
  using binit_keeps_binit [of "demo_bstate0\<lparr>disk := D\<rparr>"] core_sel(11,12) [of "demo_on D"]
  by (simp_all add: binit_keeps_def demo_on_sel) (simp add: demo_bstate0_def)

lemma demo_on_booted:
  assumes "\<forall>n. length (D n) = BSIZE"
  shows "booted (demo_on D) 0 0"
proof -
  let ?b = "demo_bstate0\<lparr>disk := D\<rparr>"
  have e: "bstate.truncate (demo_on D) = bstate.truncate (binit ?b)"
    by (simp add: demo_on_sel) (simp add: bstate.truncate_def bstate.make_def)
  have run: "running ?b 0 0" using demo_running running_cong [of ?b demo_bstate0 0 0] by simp
  have "binv (binit ?b) 0 0 {}"
    by (rule binit_inv [OF run]) (use assms in \<open>simp_all add: demo_bstate0_def zero_buf_def\<close>)
  moreover have "\<not> b_dirty (buf_at (binit ?b) a)" if "a < NBUF" for a
    using binit_keeps_binit [of ?b] that
    by (simp add: binit_keeps_def same_core_def) (simp add: demo_bstate0_def zero_buf_def)
  then have "dirty_blocks (binit ?b) = {}" by (simp add: dirty_blocks_def dirtyb_def)
  moreover have "log_geometry (demo_on D)"
    by (simp add: log_geometry_def demo_on_sel demo_on_disk LOGSIZE_def MAXOPBLOCKS_def)
  ultimately show ?thesis using core_cong(1,3) [OF e] by (simp add: booted_def)
qed

lemmas demo_lstate_sel = demo_on_sel [of "\<lambda>n. replicate BSIZE (of_nat n)", folded demo_lstate_def]
lemmas demo_lstate_disk = demo_on_disk [of "\<lambda>n. replicate BSIZE (of_nat n)", folded demo_lstate_def]

lemma demo_txinv: "txinv demo_lstate 0 0 {}"
proof -
  have "hdr_n (disk demo_lstate (log_start demo_lstate)) = 0"
    by (simp add: demo_lstate_sel demo_lstate_disk hdr_n_def get32_def BSIZE_def)
  then show ?thesis
    using demo_on_booted [of "\<lambda>n. replicate BSIZE (of_nat n)", folded demo_lstate_def]
    by (simp add: txinv_def booted_def logged_def demo_lstate_sel)
qed

section \<open>Crash safety\<close>

lemma commit_crash:
  assumes tx: "txinv s i p {}" and pos: "0 < log_n s"
    and b: "reboot s (dapply (disk s) (take k (commit_writes s))) b i' p'"
  shows "\<exists>u. recover_from_log b = Ok () u \<and>
    (\<forall>n. n \<notin> log_region s \<longrightarrow> disk u n = (if k \<le> nat (log_n s) then disk s n else blk s n))"
proof -
  define D where "D = dapply (disk s) (take k (commit_writes s))"
  note inv = txinv_loginv [OF tx]
  have d: "dirty_blocks s = set (logged s)" and z: "hdr_n (disk s (log_start s)) = 0" and ls: "log_start s \<in> log_region s"
    and sz: "0 < log_size s"
    using tx by (auto simp: txinv_def log_geometry_def log_region_def)
  have "hdr_ok s (D (log_start s)) \<and> (\<forall>n. n \<notin> log_region s \<longrightarrow>
      recover_disk (log_start s) D n = (if k \<le> nat (log_n s) then disk s n else blk s n))"
  proof (cases "k \<le> nat (log_n s)")
    case True
    note cb = crash_before [OF True inv D_def]
    have h: "hdr_n (D (log_start s)) = 0" using cb [of "log_start s"] z by simp
    have "recover_disk (log_start s) D n = disk s n" if "n \<notin> log_region s" for n
      using recover_disk_cleared [of D "log_start s" n] h cb [of n] that ls by fastforce
    then show ?thesis using True hdr_ok_cleared [OF h sz] by simp
  next
    case False
    then have k: "nat (log_n s) < k" by simp
    show ?thesis using crash_after [OF k inv d D_def] False by simp
  qed
  then show ?thesis using reboot_recovers [OF b [folded D_def]] by fastforce
qed

lemma binv_wake:
  assumes inv: "binv s i p H"
  shows "binv (s\<lparr>ptable := wake_tab ch (ptable s)\<rparr>) i p H"
proof -
  let ?t = "s\<lparr>ptable := wake_tab ch (ptable s)\<rparr>"
  have p: "p < length (ptable s)" by (rule binv_facts(7) [OF inv])
  have r: "running ?t i p" using binv_facts(1) [OF inv] running_cong [of ?t s i p] by simp
  have l: "bnext ?t = bnext s" "bprev ?t = bprev s" by (simp_all add: fun_eq_iff bnext_def bprev_def)
  show ?thesis using inv r p by (simp add: binv_def lru_def l buf_ok_def)
qed

lemma end_op_commits:
  assumes tx: "txinv s i p {}" and "\<not> log_committing s" and "log_outstanding s = 1"
  shows "\<exists>t. end_op s = Ok () t \<and> txinv t i p {} \<and> log_n t = 0 \<and> log_outstanding t = 0 \<and> \<not> log_committing t \<and>
    dwrites t = dwrites s @ (if 0 < log_n s then commit_writes s else []) \<and>
    (\<forall>n. n \<notin> log_region s \<longrightarrow> disk t n = blk s n \<and> blk t n = blk s n)"
proof -
  let ?s = "s\<lparr>log_outstanding := 0, log_committing := True\<rparr>"
  have tx': "txinv ?s i p {}" and L: "logged ?s = logged s" "log_region ?s = log_region s"
    using tx by (simp_all add: txinv_def logged_def log_region_def log_geometry_def)
  have cw: "commit_writes ?s = commit_writes s" by (simp add: commit_writes_def L log_writes_def)
  have "\<exists>t. commit ?s = Ok () t \<and> txinv t i p {} \<and> log_n t = 0 \<and> log_outstanding t = 0 \<and>
    dwrites t = dwrites s @ (if 0 < log_n s then commit_writes s else []) \<and>
    (\<forall>n. n \<notin> log_region s \<longrightarrow> disk t n = blk s n \<and> blk t n = blk s n)"
  proof (cases "0 < log_n s")
    case True
    have "runs (commit ?s) (\<lambda>_. writes_post (?s\<lparr>log_n := 0\<rparr>) i p (commit_writes ?s))"
      by (rule commit_runs [OF txinv_loginv [OF tx']]) (use tx' True in \<open>simp_all add: txinv_def\<close>)
    then obtain t where r: "commit ?s = Ok () t" and w: "writes_post (?s\<lparr>log_n := 0\<rparr>) i p (commit_writes ?s) t"
      by (auto simp: runs_iff)
    have fr: "cframe (?s\<lparr>log_n := 0\<rparr>) t" and dw: "dwrites t = dwrites s @ commit_writes s"
      using w cw by (simp_all add: writes_post_def)
    show ?thesis using r dw commit_txinv [OF tx' w] True L cframe_log(3) [OF fr] by simp
  next
    case False
    then have "log_n s = 0" using tx by (simp add: txinv_def)
    moreover from this have "blk s n = disk s n" for n
      using tx blk_clean [of s i p n] by (simp add: txinv_def logged_def)
    ultimately show ?thesis using tx' by (simp add: commit_def)
  qed
  then obtain t where t: "commit ?s = Ok () t" "txinv t i p {}" "log_n t = 0" "log_outstanding t = 0"
    "dwrites t = dwrites s @ (if 0 < log_n s then commit_writes s else [])"
    "\<forall>n. n \<notin> log_region s \<longrightarrow> disk t n = blk s n \<and> blk t n = blk s n" by blast
  have calm: "calm s i" "calm t i" using tx t(2) by (auto simp: txinv_def dest!: binv_facts(1) intro: running_calm)
  let ?u = "t\<lparr>ptable := wake_tab (Some Ch_log) (ptable t)\<rparr>"
  have "cframe t ?u" by (simp add: cframe_def cupd_def)
  moreover have "binv ?u i p {}" using t(2) binv_wake by (auto simp: txinv_def)
  moreover have d: "dirty_blocks ?u = dirty_blocks t" "disk ?u = disk t" "blk ?u = blk t"
    by (simp_all add: dirty_blocks_def dirtyb_def blk_def fun_eq_iff split: option.split)
  ultimately have "txinv ?u i p {}" by (intro txinv_frame [OF t(2)])
  then have "txinv (?u\<lparr>log_committing := False\<rparr>) i p {}"
    by (simp add: txinv_def logged_def log_region_def log_geometry_def)
  moreover have "end_op s = Ok () (?u\<lparr>log_committing := False\<rparr>)"
    using end_op_last [OF calm(1) assms(2,3) t(1) calm(2)] by simp
  ultimately show ?thesis using t d by simp
qed

lemma recover_header:
  assumes "booted s i p"
  shows "hdr_n (recover_disk (log_start s) (disk s) (log_start s)) = 0"
proof -
  have "length (disk s (log_start s)) = BSIZE" using assms by (auto simp: booted_def binv_facts(5))
  then show ?thesis by (simp add: recover_disk_def recovery_writes_def hdr_n_cleared)
qed

lemma recovery_prefix:
  assumes boot: "booted s i p" and ok: "hdr_ok s (disk s (log_start s))"
    and D': "D' = dapply (disk s) (take k (recovery_writes (log_start s) (disk s)))"
  shows "hdr_ok s (D' (log_start s))"
    "n \<notin> log_region s \<Longrightarrow> recover_disk (log_start s) D' n = recover_disk (log_start s) (disk s) n"
proof -
  define D ls where "D = disk s" and "ls = log_start s"
  define bs where "bs = hdr_blocks (D ls)"
  define ws where "ws = map (\<lambda>j. (bs ! j, D (ls + j + 1))) [0..<length bs]"
  have sz: "0 < log_size s" and rl: "ls \<in> log_region s" using boot by (auto simp: booted_def log_geometry_def log_region_def ls_def)
  have reg: "\<forall>x\<in>set bs. x \<notin> log_region s" and dist: "distinct bs" and n: "nat (hdr_n (D ls)) = length bs"
    using ok by (auto simp: hdr_ok_def bs_def D_def ls_def hdr_blocks_def)
  have "hdr_block (D ls) j = bs ! j" if "j < length bs" for j using that by (auto simp: bs_def hdr_blocks_def)
  then have W: "recovery_writes ls D = ws @ [(ls, set32 0 0 (D ls))]"
    by (simp add: recovery_writes_def ws_def n)
  have fw: "map fst ws = bs" by (simp add: ws_def comp_def map_nth)
  then have fs: "fst ` set ws = set bs" by (metis set_map)
  have copy: "\<forall>j < length bs. D (ls + j + 1) = dapply D ws (bs ! j)"
  proof (intro allI impI)
    fix j assume "j < length bs"
    then have "(bs ! j, D (ls + j + 1)) \<in> set ws" by (auto simp: ws_def)
    then show "D (ls + j + 1) = dapply D ws (bs ! j)" using dapply_same [of ws "bs ! j" _ D] fw dist by simp
  qed
  have R: "recover_disk ls D n = (if n \<in> set bs then dapply D ws n else D n)" if "n \<notin> log_region s" for n
    by (rule recover_disk_committed [OF bs_def [symmetric] dist copy]) (use rl that in auto)
  have "hdr_ok s (D' ls) \<and> (n \<notin> log_region s \<longrightarrow> recover_disk ls D' n = recover_disk ls D n)"
  proof (cases "k \<le> length ws")
    case True
    then have e: "D' = dapply D (take k ws)" using D' W by (simp add: D_def ls_def)
    have sub: "fst ` set (take k ws) \<subseteq> set bs" using set_take_subset [of k ws] fs by blast
    have inr: "D' x = D x" if "x \<in> log_region s" for x unfolding e by (rule dapply_other) (use that reg sub in blast)
    have h: "D' ls = D ls" by (rule inr [OF rl])
    have lb: "length bs < nat (log_size s)" using ok n by (auto simp: hdr_ok_def D_def ls_def)
    have "\<forall>j < length bs. D' (ls + j + 1) = dapply D ws (bs ! j)"
      using copy inr lb by (auto simp: log_region_def ls_def)
    then have "recover_disk ls D' n = (if n \<in> set bs then dapply D ws n else D' n)" if "n \<notin> log_region s"
      by (intro recover_disk_committed [OF _ dist]) (use rl that h in \<open>auto simp: bs_def\<close>)
    moreover have "D' n = D n" if "n \<notin> set bs" unfolding e by (rule dapply_other) (use that sub in blast)
    ultimately show ?thesis using R ok h by (auto simp: D_def ls_def)
  next
    case False
    then have e: "D' = recover_disk ls D" using D' W by (simp add: recover_disk_def D_def ls_def)
    have z: "hdr_n (D' ls) = 0" using recover_header [OF boot] by (simp add: e D_def ls_def)
    have "recover_disk ls D' n = D' n" if "n \<notin> log_region s" by (rule recover_disk_cleared) (use z rl that in auto)
    then show ?thesis using hdr_ok_cleared [OF z sz] e by simp
  qed
  then show "hdr_ok s (D' (log_start s))"
    "n \<notin> log_region s \<Longrightarrow> recover_disk (log_start s) D' n = recover_disk (log_start s) (disk s) n"
    by (simp_all add: D_def ls_def)
qed

section \<open>Properties\<close>

text \<open>A system call that updates the blocks \<open>us\<close> inside one transaction.\<close>

definition transaction :: "(nat \<times> byte list) list \<Rightarrow> 'z lstate_scheme \<Rightarrow> (unit, 'z lstate_scheme) res" where
  "transaction us s =
     bindR (begin_op s) (\<lambda>_ s.
     bindR (forR us (\<lambda>(n, d). logged_update n d) s) (\<lambda>_ s. end_op s))"

definition quiet :: "'z lstate_scheme \<Rightarrow> bool" where
  "quiet s \<longleftrightarrow> log_n s = 0 \<and> log_outstanding s = 0 \<and> \<not> log_committing s"

text \<open>
  C1. Transactions are atomic and durable: \<open>begin_op\<close>, at most \<open>MAXOPBLOCKS\<close> block updates through
  \<open>log_write\<close>, and \<open>end_op\<close> return, with all updates on the disk and the log empty again; and
  wherever in the resulting sequence of disk writes the machine stops, running
  \<open>recover_from_log\<close> at the next boot returns and leaves outside the log either the old content of
  every block or the new content of every block.
\<close>

theorem transaction_atomic:
  assumes "txinv s i p {}" and "quiet s" and "length us \<le> MAXOPBLOCKS" and "int MAXOPBLOCKS < log_size s"
    and "\<forall>(n, d)\<in>set us. n < disksize s \<and> n \<notin> log_region s \<and> length d = BSIZE"
  shows "\<exists>t W. transaction us s = Ok () t \<and> txinv t i p {} \<and> quiet t \<and> dwrites t = dwrites s @ W \<and>
    (\<forall>n. n \<notin> log_region s \<longrightarrow> disk t n = dapply (disk s) us n \<and> blk t n = dapply (disk s) us n) \<and>
    (\<forall>k b i' p'. reboot s (dapply (disk s) (take k W)) b i' p' \<longrightarrow>
      (\<exists>u. recover_from_log b = Ok () u \<and>
        ((\<forall>n. n \<notin> log_region s \<longrightarrow> disk u n = disk s n) \<or>
         (\<forall>n. n \<notin> log_region s \<longrightarrow> disk u n = dapply (disk s) us n))))"
proof -
  let ?s = "s\<lparr>log_outstanding := 1\<rparr>"
  have q: "log_n s = 0" "log_outstanding s = 0" "\<not> log_committing s" using assms(2) by (simp_all add: quiet_def)
  have calm: "calm s i" using assms(1) by (auto simp: txinv_def dest!: binv_facts(1) intro: running_calm)
  have blk: "blk s = disk s" using assms(1) blk_clean [of s i p] by (auto simp: txinv_def logged_def q fun_eq_iff)
  have r1: "begin_op s = Ok () ?s"
    using begin_op_admits [OF calm] q by (simp add: log_counts_def admitted_def LOGSIZE_def MAXOPBLOCKS_def)
  have tx: "txinv ?s i p {}" and reg: "log_region ?s = log_region s"
    using assms(1) by (simp_all add: txinv_def logged_def log_region_def log_geometry_def)
  obtain s2 where r2: "forR us (\<lambda>(n, d). logged_update n d) ?s = Ok () s2" and u2: "updated ?s i p us s2"
    using updates_run [OF tx, of us] assms(3-5) q reg by (auto simp: runs_iff)
  have tx2: "txinv s2 i p {}" and b2: "blk s2 = dapply (disk s) us" "disk s2 = disk s" "dwrites s2 = dwrites s"
    and L: "log_region s2 = log_region s" "log_start s2 = log_start s" "log_size s2 = log_size s" "disksize s2 = disksize s"
      "log_outstanding s2 = 1" "\<not> log_committing s2"
    using u2 q blk by (simp_all add: updated_def log_region_def)
  obtain t where r3: "end_op s2 = Ok () t" and t: "txinv t i p {}" "log_n t = 0" "log_outstanding t = 0" "\<not> log_committing t"
    "dwrites t = dwrites s @ (if 0 < log_n s2 then commit_writes s2 else [])"
    "\<forall>n. n \<notin> log_region s \<longrightarrow> disk t n = dapply (disk s) us n \<and> blk t n = dapply (disk s) us n"
    using end_op_commits [OF tx2 L(6,5)] L(1) b2 by auto
  have crash: "\<exists>u. recover_from_log b = Ok () u \<and>
        ((\<forall>n. n \<notin> log_region s \<longrightarrow> disk u n = disk s n) \<or>
         (\<forall>n. n \<notin> log_region s \<longrightarrow> disk u n = dapply (disk s) us n))"
    if b: "reboot s (dapply (disk s) (take k (if 0 < log_n s2 then commit_writes s2 else []))) b i' p'" for k b i' p'
  proof (cases "0 < log_n s2")
    case True
    then have "reboot s2 (dapply (disk s2) (take k (commit_writes s2))) b i' p'" using b L b2(2) by (simp add: reboot_def)
    from commit_crash [OF tx2 True this] show ?thesis using L(1) b2 by (cases "k \<le> nat (log_n s2)") auto
  next
    case False
    then have b': "reboot s (disk s) b i' p'" using b by simp
    have z: "hdr_n (disk s (log_start s)) = 0" and sz: "0 < log_size s" and ls: "log_start s \<in> log_region s"
      using assms(1) by (auto simp: txinv_def log_geometry_def log_region_def)
    obtain u where "recover_from_log b = Ok () u" "disk u = recover_disk (log_start s) (disk s)"
      using reboot_recovers [OF b' hdr_ok_cleared [OF z sz]] by blast
    moreover have "recover_disk (log_start s) (disk s) n = disk s n" if "n \<notin> log_region s" for n
      by (rule recover_disk_cleared) (use z ls that in auto)
    ultimately show ?thesis by auto
  qed
  have "transaction us s = Ok () t" using r1 r2 r3 by (simp add: transaction_def)
  then show ?thesis using t crash unfolding quiet_def by blast
qed

theorem transaction_atomic_witness:
  "\<exists>t. transaction [(5, replicate 512 9), (8, replicate 512 7)] demo_lstate = Ok () t \<and> quiet t \<and>
    disk t 5 = replicate 512 9 \<and> disk t 8 = replicate 512 7 \<and> disk t 6 = replicate 512 6"
proof -
  have "quiet demo_lstate" by (simp add: quiet_def demo_lstate_sel)
  moreover have "\<forall>(n, d)\<in>set [(5, replicate 512 9), (8, replicate 512 7)].
      n < disksize demo_lstate \<and> n \<notin> log_region demo_lstate \<and> length (d :: byte list) = BSIZE"
    by (simp add: demo_lstate_disk log_region_def demo_lstate_sel BSIZE_def)
  ultimately obtain t where "transaction [(5, replicate 512 9), (8, replicate 512 7)] demo_lstate = Ok () t" "quiet t"
    "\<forall>n. n \<notin> log_region demo_lstate \<longrightarrow>
       disk t n = dapply (disk demo_lstate) [(5, replicate 512 9), (8, replicate 512 7)] n"
    using transaction_atomic [OF demo_txinv, of "[(5, replicate 512 9), (8, replicate 512 7)]"]
    by (auto simp: demo_lstate_sel MAXOPBLOCKS_def)
  then show ?thesis by (simp add: log_region_def demo_lstate_sel demo_lstate_disk BSIZE_def)
qed

text \<open>
  C2. Recovery is restartable: if the machine stops again after any number of the writes that
  \<open>recover_from_log\<close> issues, the next recovery returns and produces the same file system content.
\<close>

theorem recovery_restartable:
  assumes boot: "booted s i p" and ok: "hdr_ok s (disk s (log_start s))"
  shows "\<exists>t W. recover_from_log s = Ok () t \<and> dwrites t = dwrites s @ W \<and> hdr_n (disk t (log_start s)) = 0 \<and>
    (\<forall>k b i' p'. reboot s (dapply (disk s) (take k W)) b i' p' \<longrightarrow>
      (\<exists>u. recover_from_log b = Ok () u \<and> (\<forall>n. n \<notin> log_region s \<longrightarrow> disk u n = disk t n)))"
proof -
  define D where "D = disk s"
  define ls where "ls = log_start s"
  define W where "W = recovery_writes ls D"
  obtain t where r: "recover_from_log s = Ok () t" and t: "disk t = recover_disk ls D" "dwrites t = dwrites s @ W"
    using recover_runs [OF boot ok] by (auto simp: runs_iff recovered_def D_def ls_def W_def)
  have crash: "hdr_ok s (dapply D (take k W) ls) \<and>
      (\<forall>n. n \<notin> log_region s \<longrightarrow> recover_disk ls (dapply D (take k W)) n = recover_disk ls D n)" for k
    using recovery_prefix(1) [OF boot ok refl] recovery_prefix(2) [OF boot ok refl] by (simp add: D_def ls_def W_def)
  have "\<exists>u. recover_from_log b = Ok () u \<and> (\<forall>n. n \<notin> log_region s \<longrightarrow> disk u n = disk t n)"
    if "reboot s (dapply (disk s) (take k W)) b i' p'" for k b i' p'
    using reboot_recovers [OF that] crash [of k] t(1) by (fastforce simp: D_def ls_def)
  moreover have "hdr_n (disk t ls) = 0" using recover_header [OF boot] t(1) by (simp add: D_def ls_def)
  ultimately show ?thesis using r t(2) by (auto simp: ls_def)
qed

text \<open>A disk on which a transaction that updates block 5 has been committed but not installed.\<close>

definition demo_committed :: "nat \<Rightarrow> byte list" where
  "demo_committed n = (if n = 256 then head_data 1 [5] (replicate BSIZE 0) else replicate BSIZE (of_nat n))"

theorem recovery_restartable_witness:
  "\<exists>t W. recover_from_log (demo_on demo_committed) = Ok () t \<and> dwrites t = dwrites (demo_on demo_committed) @ W \<and>
    (\<forall>k b i' p'. reboot (demo_on demo_committed) (dapply demo_committed (take k W)) b i' p' \<longrightarrow>
      (\<exists>u. recover_from_log b = Ok () u \<and> disk u 5 = disk t 5))"
proof -
  have boot: "booted (demo_on demo_committed) 0 0" by (rule demo_on_booted) (simp add: demo_committed_def)
  have n: "hdr_n (demo_committed 256) = 1"
    by (simp add: demo_committed_def hdr_n_head_data BSIZE_def)
  have "hdr_blocks (demo_committed 256) = [5]"
    using hdr_blocks_head_data [of 1 "replicate BSIZE 0" "[5]"] by (simp add: demo_committed_def BSIZE_def)
  then have ok: "hdr_ok (demo_on demo_committed) (disk (demo_on demo_committed) (log_start (demo_on demo_committed)))"
    using n by (simp add: hdr_ok_def demo_on_sel demo_on_disk log_region_def)
  have "5 \<notin> log_region (demo_on demo_committed)" by (simp add: log_region_def demo_on_sel)
  with recovery_restartable [OF boot ok] show ?thesis unfolding demo_on_disk by meson
qed

text \<open>
  The log of the disk that mkfs makes has \<open>LOGSIZE\<close> blocks with its header.  Three calls are let in, and the panic of
  \<open>log_write\<close> comes at the last of the 30 blocks they may log.
\<close>

lemma mkfs_log_too_small:
  assumes "calm s i" and "quiet s" and "log_size s = int LOGSIZE"
  shows "bindR (begin_op s) (\<lambda>_ s. bindR (begin_op s) (\<lambda>_ s. begin_op s)) = Ok () (s\<lparr>log_outstanding := 3\<rparr>)"
    and "log_size u = log_size s \<Longrightarrow> log_n u = 3 * int MAXOPBLOCKS - 1 \<Longrightarrow> log_write b u = Panic ''too big a transaction''"
proof -
  have q: "log_n s = 0" "log_outstanding s = 0" "\<not> log_committing s" using assms(2) by (simp_all add: quiet_def)
  have step: "begin_op (s\<lparr>log_outstanding := k\<rparr>) = Ok () (s\<lparr>log_outstanding := k + 1\<rparr>)" if "0 \<le> k" "k \<le> 2" for k
    using begin_op_admits [of "s\<lparr>log_outstanding := k\<rparr>" i] calm_cong [of "s\<lparr>log_outstanding := k\<rparr>" s i] assms(1) q that
    by (simp add: log_counts_def admitted_def LOGSIZE_def MAXOPBLOCKS_def NPROC_def)
  have "s\<lparr>log_outstanding := 0\<rparr> = s" using q by simp
  then show "bindR (begin_op s) (\<lambda>_ s. bindR (begin_op s) (\<lambda>_ s. begin_op s)) = Ok () (s\<lparr>log_outstanding := 3\<rparr>)"
    using step [of 0] step [of 1] step [of 2] by simp
  show "log_write b u = Panic ''too big a transaction''" if "log_size u = log_size s" "log_n u = 3 * int MAXOPBLOCKS - 1"
    using that assms(3) by (simp add: log_write_def LOGSIZE_def)
qed

text \<open>
  C15. \<open>begin_op\<close> lets a system call in exactly when no commit is running and the \<open>LOGSIZE\<close> entries of the log header
  in memory cover the blocks logged so far and \<open>MAXOPBLOCKS\<close> more for each outstanding call, the new one
  included; otherwise the caller goes to sleep on the log's channel with the log unchanged.  A caller that
  wakes up is not let in by the wakeup: it tests the state it wakes up in the same way.  The call counter and the
  check are computed in 32 bits; the hypothesis \<open>log_counts\<close> bounds the counters by \<open>LOGSIZE\<close> and \<open>NPROC\<close>, where
  they do not wrap.  What the caller gets is a reservation of header entries, not of blocks on the disk: if the log on
  the disk has more than \<open>LOGSIZE\<close> blocks, no \<open>log_write\<close> within the reservation panics.  For the log that mkfs makes,
  which is one block smaller, this fails (\<open>mkfs_log_too_small\<close>).
\<close>

theorem begin_op_admission:
  assumes counts: "log_counts s"
  shows "(running s i p \<and> ncli (cpus s ! i) = 0 \<longrightarrow>
      (if \<not> log_committing s \<and> log_n s + (log_outstanding s + 1) * int MAXOPBLOCKS \<le> int LOGSIZE
       then begin_op s = Ok () (s\<lparr>log_outstanding := log_outstanding s + 1\<rparr>)
       else \<exists>t. begin_op s = Swtch t \<and> log_sleeper s p t)) \<and>
    (switched_to s i p \<longrightarrow>
      (if \<not> log_committing s \<and> log_n s + (log_outstanding s + 1) * int MAXOPBLOCKS \<le> int LOGSIZE
       then begin_op_resume p s = Ok () ((resumed i p s)\<lparr>log_outstanding := log_outstanding s + 1\<rparr>)
       else \<exists>t. begin_op_resume p s = Swtch t \<and> log_sleeper s p t)) \<and>
    (\<forall>t u j b. running s i p \<and> begin_op s = Ok () t \<and> int LOGSIZE < log_size s \<and> calm u j \<and>
       log_size u = log_size s \<and> 1 \<le> log_outstanding u \<and> 0 \<le> log_n u \<and>
       log_n u < log_n t + log_outstanding t * int MAXOPBLOCKS \<and> ncli (cpus s ! i) = 0 \<longrightarrow>
       log_write b u = Ok () (upd_buf b (\<lambda>x. x\<lparr>b_dirty := True\<rparr>) (log_recorded (b_blockno (buf_at u b)) u)))"
proof (intro conjI impI allI)
  assume "running s i p \<and> ncli (cpus s ! i) = 0"
  then show "if \<not> log_committing s \<and> log_n s + (log_outstanding s + 1) * int MAXOPBLOCKS \<le> int LOGSIZE
       then begin_op s = Ok () (s\<lparr>log_outstanding := log_outstanding s + 1\<rparr>)
       else \<exists>t. begin_op s = Swtch t \<and> log_sleeper s p t"
    using begin_op_verdict [OF _ _ counts, of i p] unfolding admitted_def by blast
next
  assume "switched_to s i p"
  then show "if \<not> log_committing s \<and> log_n s + (log_outstanding s + 1) * int MAXOPBLOCKS \<le> int LOGSIZE
       then begin_op_resume p s = Ok () ((resumed i p s)\<lparr>log_outstanding := log_outstanding s + 1\<rparr>)
       else \<exists>t. begin_op_resume p s = Swtch t \<and> log_sleeper s p t"
    using begin_op_resume_verdict [OF _ counts, of i p] unfolding admitted_def by blast
next
  fix t u j b
  assume a: "running s i p \<and> begin_op s = Ok () t \<and> int LOGSIZE < log_size s \<and> calm u j \<and>
       log_size u = log_size s \<and> 1 \<le> log_outstanding u \<and> 0 \<le> log_n u \<and>
       log_n u < log_n t + log_outstanding t * int MAXOPBLOCKS \<and> ncli (cpus s ! i) = 0"
  then have "admitted s" "t = s\<lparr>log_outstanding := log_outstanding s + 1\<rparr>"
    using begin_op_verdict [OF _ _ counts, of i p] by (auto split: if_splits)
  then have "log_n u < int LOGSIZE" using a by (simp add: admitted_def)
  then show "log_write b u = Ok () (upd_buf b (\<lambda>x. x\<lparr>b_dirty := True\<rparr>) (log_recorded (b_blockno (buf_at u b)) u))"
    using a by (intro log_write_calm [of u j]) auto
qed

theorem begin_op_admission_witness:
  "begin_op demo_lstate = Ok () (demo_lstate\<lparr>log_outstanding := 1\<rparr>) \<and>
   (\<exists>t. begin_op (demo_lstate\<lparr>log_committing := True\<rparr>) = Swtch t \<and> p_state (proc_at t 0) = SLEEPING)"
proof -
  have r: "running demo_lstate 0 0" using demo_txinv by (auto simp: txinv_def dest: binv_facts(1))
  have r': "running (demo_lstate\<lparr>log_committing := True\<rparr>) 0 0"
    using r running_cong [of "demo_lstate\<lparr>log_committing := True\<rparr>" demo_lstate 0 0] by simp
  have "cpus demo_lstate = cpus demo_bstate0"
    using core_sel(3) [of demo_lstate] binit_keeps_binit [of "demo_bstate0\<lparr>disk := \<lambda>n. replicate BSIZE (of_nat n)\<rparr>"]
    by (simp add: demo_lstate_sel binit_keeps_def)
  then have n: "ncli (cpus demo_lstate ! 0) = 0" by (simp add: demo_bstate0_def demo_cpu_def)
  have n': "ncli (cpus (demo_lstate\<lparr>log_committing := True\<rparr>) ! 0) = 0" using n by simp
  have c: "log_counts demo_lstate" "log_counts (demo_lstate\<lparr>log_committing := True\<rparr>)"
    by (simp_all add: log_counts_def demo_lstate_sel)
  have "begin_op demo_lstate = Ok () (demo_lstate\<lparr>log_outstanding := 1\<rparr>)"
    using begin_op_admission [OF c(1), of 0 0, THEN conjunct1] r n by (simp add: demo_lstate_sel LOGSIZE_def MAXOPBLOCKS_def)
  moreover have "\<exists>t. begin_op (demo_lstate\<lparr>log_committing := True\<rparr>) = Swtch t \<and> log_sleeper (demo_lstate\<lparr>log_committing := True\<rparr>) 0 t"
    using begin_op_admission [OF c(2), of 0 0, THEN conjunct1] r' n' by simp
  ultimately show ?thesis by (auto simp: log_sleeper_def)
qed

end
