(* ===== verification/Ring.thy ===== *)
theory Ring
  imports Xv6Prelude
begin

text \<open>
  Ring buffers with free-running 32-bit counters, as pipes (\<^verbatim>\<open>pipe.c\<close>) and the console's input
  buffer (\<^verbatim>\<open>console.c\<close>) use them: byte \<open>n\<close> of the stream lives in slot \<open>n mod N\<close>, and the live bytes
  are those between the read and the write counter.  The size divides \<open>2 ^ 32\<close>, so that the slots
  stay in step when a counter wraps around.  The locale \<open>bounded_queue\<close> is the contract of a queue
  of at most \<open>cap\<close> entries; what a writer and a reader observe of it is proved once.
\<close>

section \<open>The live window of a ring\<close>

definition ring_slot :: "nat \<Rightarrow> u32 \<Rightarrow> nat" where
  "ring_slot N n = unat n mod N"

definition live :: "u32 \<Rightarrow> u32 \<Rightarrow> nat" where
  "live r w = unat (w - r)"

definition window :: "nat \<Rightarrow> 'a list \<Rightarrow> u32 \<Rightarrow> u32 \<Rightarrow> 'a list" where
  "window N d r w = map (\<lambda>k. d ! ring_slot N (r + of_nat k)) [0..<live r w]"

lemma length_window [simp]: "length (window N d r w) = live r w"
  by (simp add: window_def)

lemma window_nth: "k < live r w \<Longrightarrow> window N d r w ! k = d ! ring_slot N (r + of_nat k)"
  by (simp add: window_def)

lemma live_self [simp]: "live r r = 0"
  by (simp add: live_def)

lemma live_0: "live r w = 0 \<longleftrightarrow> r = w"
  by (simp add: live_def unat_eq_zero) (metis eq_iff_diff_eq_0)

lemma live_add: "r + of_nat (live r w) = w"
  by (simp add: live_def)

lemma live_eq: "k < 2 ^ 32 \<Longrightarrow> live r w = k \<longleftrightarrow> w = r + of_nat k"
  by (auto simp: live_def unat_of_nat)

lemma live_Suc:
  assumes "live r w + 1 < 2 ^ 32"
  shows "live r (w + 1) = Suc (live r w)"
proof -
  have e: "w + 1 - r = (w - r) + 1" by simp
  show ?thesis using assms unfolding live_def e by (simp add: unat_word_ariths)
qed

lemma live_pop:
  assumes "r \<noteq> w"
  shows "live r w = Suc (live (r + 1) w)"
proof -
  define d where "d = w - r"
  have "d \<noteq> 0" using assms by (simp add: d_def)
  then have u: "unat d = Suc (unat (d - 1))" using unat_minus_one [of d] unat_gt_0 [of d] by simp
  have e: "w - (r + 1) = d - 1" by (simp add: d_def)
  show ?thesis unfolding live_def e by (simp add: u flip: d_def)
qed

lemma live_unput:
  assumes "r \<noteq> w"
  shows "live r w = Suc (live r (w - 1))"
proof -
  have "live r (w - 1) = live (r + 1) w" by (simp add: live_def algebra_simps)
  then show ?thesis using live_pop [OF assms] by simp
qed

lemma live_split:
  assumes "live r w \<le> live r e"
  shows "live r e = live r w + live w e"
proof -
  have d: "e - w = (e - r) - (w - r)" by simp
  have "w - r \<le> e - r" using assms by (simp add: live_def word_le_nat_alt)
  then have "unat (e - w) = unat (e - r) - unat (w - r)" unfolding d by (rule unat_sub)
  then show ?thesis using assms by (simp add: live_def)
qed

locale ring =
  fixes N :: nat
  assumes N_dvd: "N dvd 2 ^ 32" and N_pos: "0 < N" and N_lt: "N < 2 ^ 32"
begin

lemma slot_lt: "ring_slot N n < N"
  using N_pos by (simp add: ring_slot_def)

lemma slot_add: "ring_slot N (a + of_nat k) = (unat a + k) mod N"
proof -
  have "unat (a + of_nat k) = (unat a + k) mod 2 ^ 32"
    by (simp add: unat_word_ariths unat_of_nat mod_add_right_eq)
  then show ?thesis using N_dvd by (simp add: ring_slot_def mod_mod_cancel)
qed

lemma slot_inj:
  assumes "j < N" "k < N" "ring_slot N (a + of_nat j) = ring_slot N (a + of_nat k)"
  shows "j = k"
proof -
  have *: "(unat a + j) mod N = (unat a + k) mod N" using assms(3) by (simp add: slot_add)
  show ?thesis
  proof (cases "j \<le> k")
    case True
    then obtain q where "unat a + k = unat a + j + N * q" using mod_eq_nat2E [OF *] by auto
    with assms(2) show ?thesis by (cases q) auto
  next
    case False
    then obtain q where "unat a + j = unat a + k + N * q" using mod_eq_nat1E [OF *] by auto
    with assms(1) show ?thesis by (cases q) auto
  qed
qed

lemma window_put_other:
  assumes "live r w \<le> k" "k < N"
  shows "window N (d[ring_slot N (r + of_nat k) := b]) r w = window N d r w"
proof -
  have "ring_slot N (r + of_nat k) \<noteq> ring_slot N (r + of_nat j)" if "j < live r w" for j
    using slot_inj [of j k r] that assms by fastforce
  then show ?thesis by (auto simp: window_def)
qed

lemma window_Suc:
  assumes "live r w < N"
  shows "window N d r (w + 1) = window N d r w @ [d ! ring_slot N w]"
proof -
  have "live r (w + 1) = Suc (live r w)" using assms N_lt by (intro live_Suc) linarith
  then show ?thesis by (simp add: window_def live_add)
qed

lemma window_put:
  assumes "length d = N" "live r w < N"
  shows "window N (d[ring_slot N w := b]) r (w + 1) = window N d r w @ [b]"
  using window_put_other [of r w "live r w" d b] assms slot_lt [of w]
  by (simp add: window_Suc [OF assms(2)] live_add)

lemma window_pop:
  assumes "r \<noteq> w"
  shows "window N d r w = d ! ring_slot N r # window N d (r + 1) w"
  unfolding window_def live_pop [OF assms] upt_conv_Cons [OF zero_less_Suc] map_Suc_upt [symmetric]
  by (simp add: add.assoc add.commute [of 1])

lemma window_split:
  assumes "live r w \<le> live r e"
  shows "window N d r e = window N d r w @ window N d w e"
proof -
  have e: "r + of_nat k = w + of_nat (k - live r w)" if "live r w \<le> k" for k
    using that by (simp add: live_def)
  show ?thesis
    by (rule nth_equalityI) (auto simp: nth_append window_nth live_split [OF assms] not_less e)
qed

end

section \<open>A bounded queue\<close>

locale bounded_queue =
  fixes put :: "'a \<Rightarrow> 'q \<Rightarrow> 'q" and get :: "'q \<Rightarrow> 'q" and front :: "'q \<Rightarrow> 'a"
    and full :: "'q \<Rightarrow> bool" and empty :: "'q \<Rightarrow> bool"
    and inv :: "'q \<Rightarrow> bool" and content :: "'q \<Rightarrow> 'a list" and cap :: nat
  assumes put_ok: "inv q \<Longrightarrow> \<not> full q \<Longrightarrow> inv (put b q) \<and> content (put b q) = content q @ [b]"
    and get_ok: "inv q \<Longrightarrow> \<not> empty q \<Longrightarrow> inv (get q) \<and> content q = front q # content (get q)"
    and empty_iff: "inv q \<Longrightarrow> empty q \<longleftrightarrow> content q = []"
    and full_iff: "inv q \<Longrightarrow> full q \<longleftrightarrow> length (content q) = cap"
    and within: "inv q \<Longrightarrow> length (content q) \<le> cap"
begin

fun fill :: "'a list \<Rightarrow> 'q \<Rightarrow> 'q" where
  "fill [] q = q"
| "fill (b # bs) q = (if full q then q else fill bs (put b q))"

fun drain :: "nat \<Rightarrow> 'q \<Rightarrow> 'a list \<times> 'q" where
  "drain 0 q = ([], q)"
| "drain (Suc n) q =
     (if empty q then ([], q) else let (bs, q') = drain n (get q) in (front q # bs, q'))"

lemma fill_spec:
  "inv q \<Longrightarrow> inv (fill bs q) \<and> content (fill bs q) = content q @ take (cap - length (content q)) bs"
proof (induction bs arbitrary: q)
  case (Cons b bs)
  show ?case
  proof (cases "full q")
    case True
    then show ?thesis using Cons.prems full_iff by simp
  next
    case False
    have p: "inv (put b q)" "content (put b q) = content q @ [b]" using put_ok [OF Cons.prems False] by auto
    have "length (content q) < cap"
      using False full_iff [OF Cons.prems] within [OF Cons.prems] by simp
    then show ?thesis using Cons.IH [OF p(1)] False p(2)
      by (simp add: take_Cons' flip: Suc_diff_Suc)
  qed
qed simp

lemma drain_spec:
  "inv q \<Longrightarrow> drain n q = (bs, q') \<Longrightarrow>
   inv q' \<and> bs = take n (content q) \<and> content q' = drop n (content q)"
proof (induction n arbitrary: q bs q')
  case (Suc n)
  show ?case
  proof (cases "empty q")
    case True
    then show ?thesis using Suc.prems empty_iff by auto
  next
    case False
    have g: "inv (get q)" "content q = front q # content (get q)" using get_ok [OF Suc.prems(1) False] by auto
    obtain cs q1 where d: "drain n (get q) = (cs, q1)" by fastforce
    show ?thesis using Suc.IH [OF g(1) d] Suc.prems False d g(2) by simp
  qed
qed auto

end

end
