(* ===== verification/Console.thy ===== *)
theory Console
  imports Tx CString Ring
begin

text \<open>
  Console output and input (\<^verbatim>\<open>console.c\<close>, \<^verbatim>\<open>uart.c\<close>, \<^verbatim>\<open>kbd.c\<close>).  The screen is the array
  of character cells with the cursor in the controller's registers 14 and 15, the serial port is
  the list of bytes sent so far and the bytes waiting to be read, the keyboard controller the
  scan codes waiting to be read.  Output goes to the serial line and the screen; typed characters
  go through the line editor into the ring buffer that \<open>consoleread\<close> empties.
\<close>

section \<open>State\<close>

record cstate = lstate +
  panicked :: bool
  cons_locking :: bool
  crt :: "nat \<Rightarrow> u16"
  crtc :: "nat \<Rightarrow> byte"
  uart :: bool
  uart_tx :: "byte list"
  uart_rx :: "byte list"
  kbd_rx :: "byte list"
  kbd_shift :: u32
  input_buf :: "byte list"
  input_r :: u32
  input_w :: u32
  input_e :: u32

definition BACKSPACE :: int where "BACKSPACE = 0x100"
definition INPUT_BUF :: u32 where "INPUT_BUF = 128"

text \<open>The macro \<^verbatim>\<open>C(x)\<close>: the code of a control character.\<close>

definition CTRL :: "char \<Rightarrow> int" where
  "CTRL x = of_char x - of_char (CHR ''@'')"

section \<open>Output\<close>

definition uartputc :: "int \<Rightarrow> 'z cstate_scheme \<Rightarrow> 'z cstate_scheme" where
  "uartputc c s = (if \<not> uart s then s else s\<lparr>uart_tx := uart_tx s @ [of_int c]\<rparr>)"

definition crt_scroll :: "int \<Rightarrow> (nat \<Rightarrow> u16) \<Rightarrow> nat \<Rightarrow> u16" where
  "crt_scroll pos cells i =
     (if pos \<le> int i \<and> i < 24 * 80 then 0
      else if i < 23 * 80 then cells (i + 80) else cells i)"

definition cgaputc :: "int \<Rightarrow> 'z cstate_scheme \<Rightarrow> (unit, 'z cstate_scheme) res" where
  "cgaputc c s =
     (let pos = 256 * uint (crtc s 14) + uint (crtc s 15);
          cell = (0x0700 OR of_int (c mod 256) :: u16);
          (pos, s) = (if c = 10 then (pos + (80 - pos mod 80), s)
                      else if c = BACKSPACE then (if pos > 0 then pos - 1 else pos, s)
                      else (pos + 1, s\<lparr>crt := (crt s)(nat pos := cell)\<rparr>)) in
      if pos < 0 \<or> pos > 25 * 80 then Panic ''pos under/overflow''
      else let
        (pos, s) = (if pos div 80 \<ge> 24 then (pos - 80, s\<lparr>crt := crt_scroll (pos - 80) (crt s)\<rparr>) else (pos, s));
        s = s\<lparr>crtc := (crtc s)(14 := of_int (pos div 256), 15 := of_int pos)\<rparr> in
        Ok () (s\<lparr>crt := (crt s)(nat pos := 0x0720)\<rparr>))"

definition consputc :: "int \<Rightarrow> 'z cstate_scheme \<Rightarrow> (unit, 'z cstate_scheme) res" where
  "consputc c s =
     (if panicked s then Spin (cli s)
      else let s = (if c = BACKSPACE then uartputc 8 (uartputc 32 (uartputc 8 s)) else uartputc c s) in
        cgaputc c s)"

text \<open>The digits of a number, least significant first, as the loop fills its buffer.\<close>

function digits_of :: "nat \<Rightarrow> nat \<Rightarrow> int list" where
  "digits_of base x =
     of_char (''0123456789abcdef'' ! (x mod base)) #
     (if base < 2 \<or> x div base = 0 then [] else digits_of base (x div base))"
  by pat_completeness auto
termination
proof (relation "measure snd")
  fix base x :: nat assume "\<not> (base < 2 \<or> x div base = 0)"
  then have "1 < base" "0 < x" by (auto intro: Nat.gr0I)
  then show "((base, x div base), base, x) \<in> measure snd" by simp
qed simp

declare digits_of.simps [simp del]

text \<open>
  The characters that \<open>printint\<close> stores into its 16-byte array \<^verbatim>\<open>buf\<close>, in the order of the stores.  More than 16 of
  them are stores beyond the array: undefined behaviour in C, a panic of its own here.
\<close>

definition printint_buf :: "int \<Rightarrow> nat \<Rightarrow> bool \<Rightarrow> int list" where
  "printint_buf xx base sign =
     (let sign = (sign \<and> xx < 0);
          x = (if sign then unat (- (of_int xx :: u32)) else unat (of_int xx :: u32)) in
      digits_of base x @ (if sign then [of_char (CHR ''-'')] else []))"

definition printint :: "int \<Rightarrow> nat \<Rightarrow> bool \<Rightarrow> 'z cstate_scheme \<Rightarrow> (unit, 'z cstate_scheme) res" where
  "printint xx base sign s =
     (let buf = printint_buf xx base sign in
      if length buf > 16 then Panic ''printint: buf overrun'' else forR (rev buf) consputc s)"

text \<open>
  The arguments of \<open>cprintf\<close>: words for \<^verbatim>\<open>%d\<close>, \<^verbatim>\<open>%x\<close> and \<^verbatim>\<open>%p\<close>, strings (or a null pointer) for
  \<^verbatim>\<open>%s\<close>.  Fewer arguments than directives, or of the other kind, is undefined in C.
\<close>

datatype carg = A_int u32 | A_str "byte list option"

definition bytes_of :: "string \<Rightarrow> byte list" where
  "bytes_of = map of_char"

definition cstr :: "byte list \<Rightarrow> byte list" where
  "cstr = takeWhile (\<lambda>b. b \<noteq> 0)"

fun cprintf_loop :: "string \<Rightarrow> carg list \<Rightarrow> 'z cstate_scheme \<Rightarrow> (unit, 'z cstate_scheme) res" where
  "cprintf_loop [] as s = Ok () s"
| "cprintf_loop (c # cs) as s =
     (if c \<noteq> CHR ''%'' then bindR (consputc (of_char c) s) (\<lambda>_ s. cprintf_loop cs as s)
      else case cs of [] \<Rightarrow> Ok () s
      | d # ds \<Rightarrow>
        if d = CHR ''d''
        then (case as of A_int w # as \<Rightarrow> bindR (printint (sint w) 10 True s) (\<lambda>_ s. cprintf_loop ds as s)
              | _ \<Rightarrow> Panic ''cprintf: bad argument'')
        else if d = CHR ''x'' \<or> d = CHR ''p''
        then (case as of A_int w # as \<Rightarrow> bindR (printint (sint w) 16 False s) (\<lambda>_ s. cprintf_loop ds as s)
              | _ \<Rightarrow> Panic ''cprintf: bad argument'')
        else if d = CHR ''s''
        then (case as of A_str po # as \<Rightarrow>
                let str = (case po of None \<Rightarrow> bytes_of ''(null)'' | Some str \<Rightarrow> cstr str) in
                bindR (forR (map sint str) consputc s) (\<lambda>_ s. cprintf_loop ds as s)
              | _ \<Rightarrow> Panic ''cprintf: bad argument'')
        else if d = CHR ''%'' then bindR (consputc (of_char (CHR ''%'')) s) (\<lambda>_ s. cprintf_loop ds as s)
        else bindR (consputc (of_char (CHR ''%'')) s) (\<lambda>_ s.
             bindR (consputc (of_char d) s) (\<lambda>_ s. cprintf_loop ds as s)))"

definition cprintf :: "string option \<Rightarrow> carg list \<Rightarrow> 'z cstate_scheme \<Rightarrow> (unit, 'z cstate_scheme) res" where
  "cprintf fmt as s =
     (let locking = cons_locking s in
      bindR (if locking then acquire L_cons s else Ok () s) (\<lambda>_ s.
        case fmt of None \<Rightarrow> Panic ''null fmt''
        | Some f \<Rightarrow> bindR (cprintf_loop f as s) (\<lambda>_ s. if locking then release L_cons s else Ok () s)))"

section \<open>Keyboard and serial input\<close>

definition KBS_DIB :: u32 where "KBS_DIB = 0x01"
definition SHIFT :: u32 where "SHIFT = 1"
definition CTL :: u32 where "CTL = 2"
definition ALT :: u32 where "ALT = 4"
definition CAPSLOCK :: u32 where "CAPSLOCK = 8"
definition NUMLOCK :: u32 where "NUMLOCK = 16"
definition SCROLLLOCK :: u32 where "SCROLLLOCK = 32"
definition E0ESC :: u32 where "E0ESC = 64"

definition shiftcode :: "u32 \<Rightarrow> u32" where
  "shiftcode d = (if d = 0x1D \<or> d = 0x9D then CTL else if d = 0x2A \<or> d = 0x36 then SHIFT
     else if d = 0x38 \<or> d = 0xB8 then ALT else 0)"

definition togglecode :: "u32 \<Rightarrow> u32" where
  "togglecode d = (if d = 0x3A then CAPSLOCK else if d = 0x45 then NUMLOCK else if d = 0x46 then SCROLLLOCK else 0)"

text \<open>The keypad entries that the three maps share, apart from Enter and Div.\<close>

definition keypad :: "u32 \<Rightarrow> u32" where
  "keypad d = (case map_of [(0xC8, 0xE2), (0xD0, 0xE3), (0xC9, 0xE6), (0xD1, 0xE7), (0xCB, 0xE4), (0xCD, 0xE5),
     (0x97, 0xE0), (0xCF, 0xE1), (0xD2, 0xE8), (0xD3, 0xE9)] d of Some v \<Rightarrow> v | None \<Rightarrow> 0)"

definition normalkeys :: "u32 list" where
  "normalkeys =
     [0, 0x1B] @ map of_char ''1234567890-='' @ [8, 9] @ map of_char ''qwertyuiop[]'' @ [10, 0] @
     map of_char ''asdfghjkl;'' @ [0x27, 0x60, 0, 0x5C] @ map of_char ''zxcvbnm,./'' @
     [0, 0x2A, 0, 0x20] @ replicate 13 0 @ map of_char ''789-456+1230.''"

definition shiftkeys :: "u32 list" where
  "shiftkeys =
     [0, 0x1B] @ map of_char ''!@#$%^&*()_+'' @ [8, 9] @ map of_char ''QWERTYUIOP{}'' @ [10, 0] @
     map of_char ''ASDFGHJKL:'' @ [0x22, 0x7E, 0, 0x7C] @ map of_char ''ZXCVBNM<>?'' @
     [0, 0x2A, 0, 0x20] @ replicate 13 0 @ map of_char ''789-456+1230.''"

definition ctlkeys :: "u32 list" where
  "ctlkeys =
     replicate 16 0 @ map (\<lambda>c. of_char c - 0x40) ''QWERTYUIOP'' @ [0, 0, 13, 0] @
     map (\<lambda>c. of_char c - 0x40) ''ASDFGHJKL'' @ [0, 0, 0, 0, 0x1C] @
     map (\<lambda>c. of_char c - 0x40) ''ZXCVBNM'' @ [0, 0, 0x2F - 0x40, 0, 0]"

definition normalmap :: "u32 \<Rightarrow> u32" where
  "normalmap d = (if unat d < length normalkeys then normalkeys ! unat d
     else if d = 0x9C then 10 else if d = 0xB5 then 0x2F else keypad d)"

definition shiftmap :: "u32 \<Rightarrow> u32" where
  "shiftmap d = (if unat d < length shiftkeys then shiftkeys ! unat d
     else if d = 0x9C then 10 else if d = 0xB5 then 0x2F else keypad d)"

definition ctlmap :: "u32 \<Rightarrow> u32" where
  "ctlmap d = ((if unat d < length ctlkeys then ctlkeys ! unat d
     else if d = 0x9C then 13 else if d = 0xB5 then 0x2F - 0x40 else keypad d) AND 0xFF)"

definition charcode :: "u32 \<Rightarrow> u32 \<Rightarrow> u32" where
  "charcode k d = (if k = 0 then normalmap d else if k = 1 then shiftmap d else ctlmap d)"

definition kbdgetc :: "'z cstate_scheme \<Rightarrow> int \<times> 'z cstate_scheme" where
  "kbdgetc s =
     (case kbd_rx s of [] \<Rightarrow> (- 1, s)
      | b # bs \<Rightarrow>
        let data = (ucast b :: u32); s = s\<lparr>kbd_rx := bs\<rparr>; shift = kbd_shift s in
        if data = 0xE0 then (0, s\<lparr>kbd_shift := shift OR E0ESC\<rparr>)
        else if data AND 0x80 \<noteq> 0
        then let data = (if shift AND E0ESC \<noteq> 0 then data else data AND 0x7F) in
          (0, s\<lparr>kbd_shift := shift AND NOT (shiftcode data OR E0ESC)\<rparr>)
        else let
          (data, shift) = (if shift AND E0ESC \<noteq> 0 then (data OR 0x80, shift AND NOT E0ESC) else (data, shift));
          shift = shift OR shiftcode data;
          shift = shift XOR togglecode data;
          c = charcode (shift AND (CTL OR SHIFT)) data;
          c = (if shift AND CAPSLOCK \<noteq> 0
               then if 0x61 \<le> c \<and> c \<le> 0x7A then c - 0x20
                    else if 0x41 \<le> c \<and> c \<le> 0x5A then c + 0x20 else c
               else c) in
          (sint c, s\<lparr>kbd_shift := shift\<rparr>))"

definition uartgetc :: "'z cstate_scheme \<Rightarrow> int \<times> 'z cstate_scheme" where
  "uartgetc s =
     (if \<not> uart s then (- 1, s)
      else case uart_rx s of [] \<Rightarrow> (- 1, s) | b # bs \<Rightarrow> (uint b, s\<lparr>uart_rx := bs\<rparr>))"

section \<open>Process listings\<close>

definition state_name :: "procstate \<Rightarrow> string" where
  "state_name st = (case st of UNUSED \<Rightarrow> ''unused'' | EMBRYO \<Rightarrow> ''embryo'' | SLEEPING \<Rightarrow> ''sleep ''
     | RUNNABLE \<Rightarrow> ''runble'' | RUNNING \<Rightarrow> ''run   '' | ZOMBIE \<Rightarrow> ''zombie'')"

definition print_pcs :: "u32 list \<Rightarrow> 'z cstate_scheme \<Rightarrow> (unit, 'z cstate_scheme) res" where
  "print_pcs pcs s = forR (takeWhile (\<lambda>pc. pc \<noteq> 0) pcs) (\<lambda>pc. cprintf (Some '' %p'') [A_int pc]) s"

definition procdump_one :: "nat \<Rightarrow> 'z cstate_scheme \<Rightarrow> (unit, 'z cstate_scheme) res" where
  "procdump_one p s =
     (let q = proc_at s p in
      if p_state q = UNUSED then Ok () s
      else bindR (cprintf (Some ''%d %s %s'')
             [A_int (of_int (p_pid q)), A_str (Some (bytes_of (state_name (p_state q)))), A_str (Some (p_name q))] s) (\<lambda>_ s.
        bindR (if p_state q = SLEEPING
               then print_pcs (getcallerpcs (mem s) (cx_ebp (contexts s (p_context q)) + 8)) s else Ok () s) (\<lambda>_ s.
        cprintf (Some [CHR 0x0A]) [] s)))"

definition procdump :: "'z cstate_scheme \<Rightarrow> (unit, 'z cstate_scheme) res" where
  "procdump s = forR [0..<NPROC] procdump_one s"

definition FIELDSIZE :: nat where "FIELDSIZE = 15"

definition strprocstate :: "procstate \<Rightarrow> byte list" where
  "strprocstate st = cstr (safestrcpy (\<lambda>i. (bytes_of (case st of UNUSED \<Rightarrow> ''UNUSED'' | EMBRYO \<Rightarrow> ''EMBRYO''
     | SLEEPING \<Rightarrow> ''SLEEPING'' | RUNNABLE \<Rightarrow> ''RUNNABLE'' | RUNNING \<Rightarrow> ''RUNNING'' | ZOMBIE \<Rightarrow> ''ZOMBIE'') @ [0]) ! i) 10)"

definition cprintfpad :: "byte list \<Rightarrow> nat \<Rightarrow> 'z cstate_scheme \<Rightarrow> (unit, 'z cstate_scheme) res" where
  "cprintfpad str width s =
     bindR (cprintf (Some ''%s'') [A_str (Some str)] s) (\<lambda>_ s.
       forR [length (cstr str)..<width] (\<lambda>i. cprintf (Some '' '') []) s)"

definition printheader :: "'z cstate_scheme \<Rightarrow> (unit, 'z cstate_scheme) res" where
  "printheader s =
     bindR (cprintfpad (bytes_of ''NAME'') FIELDSIZE s) (\<lambda>_ s.
     bindR (cprintf (Some (''PID'' @ [CHR 0x09, CHR 0x09])) [] s) (\<lambda>_ s.
     bindR (cprintfpad (bytes_of ''STATE'') FIELDSIZE s) (\<lambda>_ s.
     bindR (cprintf (Some (''NICE'' @ [CHR 0x09, CHR 0x09])) [] s) (\<lambda>_ s.
     cprintf (Some [CHR 0x0A]) [] s))))"

definition printcontent :: "nat \<Rightarrow> 'z cstate_scheme \<Rightarrow> (unit, 'z cstate_scheme) res" where
  "printcontent p s =
     bindR (cprintfpad (p_name (proc_at s p)) FIELDSIZE s) (\<lambda>_ s.
     bindR (cprintf (Some (''%d'' @ [CHR 0x09, CHR 0x09])) [A_int (of_int (p_pid (proc_at s p)))] s) (\<lambda>_ s.
     bindR (cprintfpad (strprocstate (p_state (proc_at s p))) FIELDSIZE s) (\<lambda>_ s.
     bindR (cprintf (Some (''%d'' @ [CHR 0x09, CHR 0x09])) [A_int (of_int (nice (p_schedstate (proc_at s p))))] s) (\<lambda>_ s.
     cprintf (Some [CHR 0x0A]) [] s))))"

definition ps :: "int \<Rightarrow> 'z cstate_scheme \<Rightarrow> (unit, 'z cstate_scheme) res" where
  "ps pid s =
     bindR (acquire L_ptable s) (\<lambda>_ s.
     bindR (if pid = 0
            then bindR (printheader s) (\<lambda>_ s. forR [0..<NPROC] printcontent s)
            else if pid > 0
            then (case first_idx (\<lambda>q. pid = p_pid q) (ptable s) of
                Some p \<Rightarrow> bindR (printheader s) (\<lambda>_ s. printcontent p s)
              | None \<Rightarrow> Ok () s)
            else Ok () s) (\<lambda>_ s.
     release L_ptable s))"

section \<open>The line editor\<close>

text \<open>
  \<open>getc\<close> is \<open>kbdgetc\<close> or \<open>uartgetc\<close>.  The loop of \<open>consoleintr\<close> runs until the device has nothing
  more to read; its bound is the number of codes that wait in the device.
\<close>

datatype input_dev = Kbd | Uart

definition getc :: "input_dev \<Rightarrow> 'z cstate_scheme \<Rightarrow> int \<times> 'z cstate_scheme" where
  "getc d s = (case d of Kbd \<Rightarrow> kbdgetc s | Uart \<Rightarrow> uartgetc s)"

definition dev_rx :: "input_dev \<Rightarrow> 'z cstate_scheme \<Rightarrow> byte list" where
  "dev_rx d s = (case d of Kbd \<Rightarrow> kbd_rx s | Uart \<Rightarrow> uart_rx s)"

definition in_slot :: "u32 \<Rightarrow> nat" where
  "in_slot e = unat e mod unat INPUT_BUF"

text \<open>Kill line: at most the whole buffer is erased, because \<open>e\<close> is at most \<open>INPUT_BUF\<close> ahead of \<open>w\<close>.\<close>

fun kill_line :: "nat \<Rightarrow> 'z cstate_scheme \<Rightarrow> (unit, 'z cstate_scheme) res" where
  "kill_line 0 s = Spin s"
| "kill_line (Suc k) s =
     (if input_e s \<noteq> input_w s \<and> input_buf s ! in_slot (input_e s - 1) \<noteq> 10
      then bindR (consputc BACKSPACE (s\<lparr>input_e := input_e s - 1\<rparr>)) (\<lambda>_ s. kill_line k s)
      else Ok () s)"

definition consoleintr_char :: "int \<Rightarrow> 'z cstate_scheme \<Rightarrow> (unit, 'z cstate_scheme) res" where
  "consoleintr_char c s =
     (if c = CTRL (CHR ''U'') then kill_line (Suc (unat INPUT_BUF)) s
      else if c = CTRL (CHR ''H'') \<or> c = 0x7f
      then if input_e s \<noteq> input_w s then consputc BACKSPACE (s\<lparr>input_e := input_e s - 1\<rparr>) else Ok () s
      else if c \<noteq> 0 \<and> input_e s - input_r s < INPUT_BUF
      then let c = (if c = 13 then 10 else c);
             s = s\<lparr>input_buf := (input_buf s)[in_slot (input_e s) := of_int c], input_e := input_e s + 1\<rparr> in
        bindR (consputc c s) (\<lambda>_ s.
          if c = 10 \<or> c = CTRL (CHR ''D'') \<or> input_e s = input_r s + INPUT_BUF
          then wakeup Ch_input (s\<lparr>input_w := input_e s\<rparr>)
          else Ok () s)
      else Ok () s)"

fun consoleintr_loop :: "nat \<Rightarrow> input_dev \<Rightarrow> bool \<Rightarrow> 'z cstate_scheme \<Rightarrow> (bool, 'z cstate_scheme) res" where
  "consoleintr_loop 0 d doprocdump s = Spin s"
| "consoleintr_loop (Suc k) d doprocdump s =
     (case getc d s of (c, s) \<Rightarrow>
        if c < 0 then Ok doprocdump s
        else if c = CTRL (CHR ''P'') then consoleintr_loop k d True s
        else bindR (consoleintr_char c s) (\<lambda>_ s. consoleintr_loop k d doprocdump s))"

definition consoleintr :: "input_dev \<Rightarrow> 'z cstate_scheme \<Rightarrow> (unit, 'z cstate_scheme) res" where
  "consoleintr d s =
     bindR (acquire L_cons s) (\<lambda>_ s.
     bindR (consoleintr_loop (Suc (length (dev_rx d s))) d False s) (\<lambda>doprocdump s.
     bindR (release L_cons s) (\<lambda>_ s.
       if doprocdump then procdump s else Ok () s)))"

definition kbdintr :: "'z cstate_scheme \<Rightarrow> (unit, 'z cstate_scheme) res" where
  "kbdintr s = consoleintr Kbd s"

definition uartintr :: "'z cstate_scheme \<Rightarrow> (unit, 'z cstate_scheme) res" where
  "uartintr s = consoleintr Uart s"

section \<open>A console state to look at\<close>

definition demo_cstate :: "lstate \<Rightarrow> cstate" where
  "demo_cstate l = lstate.extend l (cstate.fields False False (\<lambda>_. 0) (\<lambda>_. 0) True [] [] [] 0 (replicate 128 0) 0 0 0)"

lemma demo_cstate_core: "bstate.truncate (demo_cstate l) = bstate.truncate l"
  by (simp add: demo_cstate_def bstate.truncate_def bstate.make_def lstate.extend_def)

end
