(* ===== verification/Tty.thy ===== *)
theory Tty
  imports Console
begin

text \<open>
  Correctness of the console of \<^verbatim>\<open>console.c\<close>: the cursor stays on the screen, numbers print
  correctly, \<open>cprintf\<close> sends the text its format denotes, and the input buffer with its three
  counters refines a line editor on two strings.
\<close>

section \<open>The cursor stays on the screen\<close>

definition cursor :: "'z cstate_scheme \<Rightarrow> int" where
  "cursor s = 256 * uint (crtc s 14) + uint (crtc s 15)"

definition on_screen :: "'z cstate_scheme \<Rightarrow> bool" where
  "on_screen s \<longleftrightarrow> cursor s < 24 * 80"

text \<open>Where the cursor goes: the next line, one column back or one column on, with a scroll at the last line.\<close>

definition cursor_next :: "int \<Rightarrow> int \<Rightarrow> int" where
  "cursor_next c pos =
     (let q = (if c = 10 then pos + (80 - pos mod 80) else if c = BACKSPACE then max 0 (pos - 1) else pos + 1) in
      if q \<ge> 24 * 80 then q - 80 else q)"

lemma cursor_nonneg: "0 \<le> cursor s"
  by (simp add: cursor_def)

lemma cursor_set:
  assumes "0 \<le> pos" "pos < 65536"
  shows "256 * uint (of_int (pos div 256) :: byte) + uint (of_int pos :: byte) = pos"
proof -
  have "uint (of_int (pos div 256) :: byte) = pos div 256"
    using assms by (simp add: uint_word_of_int)
  moreover have "uint (of_int pos :: byte) = pos mod 256" by (simp add: uint_word_of_int)
  ultimately show ?thesis by simp
qed

lemma line_up:
  assumes "0 \<le> pos" "pos < 24 * 80"
  shows "pos < pos + (80 - pos mod 80)" "pos + (80 - pos mod 80) \<le> 24 * (80 :: int)"
proof -
  have "pos + (80 - pos mod 80) = (pos div 80 + 1) * 80" by (simp add: minus_mod_eq_mult_div [symmetric] algebra_simps)
  moreover have "pos div 80 < 24" using assms by simp
  then have "(pos div 80 + 1) * 80 \<le> 24 * 80" by (intro mult_right_mono) simp_all
  ultimately show "pos + (80 - pos mod 80) \<le> 24 * (80 :: int)" by simp
qed simp

lemma cursor_next_bounds:
  assumes "0 \<le> pos" "pos < 24 * 80"
  shows "0 \<le> cursor_next c pos" "cursor_next c pos < 24 * 80"
  using line_up [OF assms] assms by (simp_all add: cursor_next_def Let_def)

definition put_post :: "int \<Rightarrow> 'z cstate_scheme \<Rightarrow> 'z cstate_scheme \<Rightarrow> bool" where
  "put_post c s t \<longleftrightarrow> cursor t = cursor_next c (cursor s) \<and> (\<forall>k \<ge> 24 * 80. crt t k = crt s k) \<and>
     t = s\<lparr>crt := crt t, crtc := crtc t\<rparr>"

text \<open>The second half of \<open>cgaputc\<close>: scroll if needed, then move the cursor.\<close>

definition cga_place :: "int \<Rightarrow> 'z cstate_scheme \<Rightarrow> 'z cstate_scheme" where
  "cga_place pos s =
     (let (pos, s) = (if pos div 80 \<ge> 24 then (pos - 80, s\<lparr>crt := crt_scroll (pos - 80) (crt s)\<rparr>) else (pos, s));
        s = s\<lparr>crtc := (crtc s)(14 := of_int (pos div 256), 15 := of_int pos)\<rparr> in
      s\<lparr>crt := (crt s)(nat pos := 0x0720)\<rparr>)"

lemma cgaputc_cases:
  "cgaputc c s =
     (let q = (if c = 10 then cursor s + (80 - cursor s mod 80)
               else if c = BACKSPACE then (if cursor s > 0 then cursor s - 1 else cursor s) else cursor s + 1);
          s1 = (if c = 10 \<or> c = BACKSPACE then s
                else s\<lparr>crt := (crt s)(nat (cursor s) := (0x0700 OR of_int (c mod 256) :: u16))\<rparr>) in
      if q < 0 \<or> q > 25 * 80 then Panic ''pos under/overflow'' else Ok () (cga_place q s1))"
  unfolding cgaputc_def cga_place_def cursor_def [symmetric] Let_def
  by (simp split: if_split)

lemma cga_place_post:
  assumes "0 \<le> q" "q \<le> 24 * 80"
  shows "cursor (cga_place q s) = (if q \<ge> 24 * 80 then q - 80 else q)"
    and "24 * 80 \<le> k \<Longrightarrow> crt (cga_place q s) k = crt s k"
proof -
  have d: "q div 80 \<ge> 24 \<longleftrightarrow> q \<ge> 24 * 80" using assms by linarith
  show "cursor (cga_place q s) = (if q \<ge> 24 * 80 then q - 80 else q)"
    using assms cursor_set [of q] cursor_set [of "q - 80"]
    by (simp add: cga_place_def d cursor_def Let_def)
  show "crt (cga_place q s) k = crt s k" if "24 * 80 \<le> k"
    using assms that by (auto simp: cga_place_def d crt_scroll_def Let_def)
qed

lemma cgaputc_ok:
  assumes "on_screen s"
  shows "\<exists>t. cgaputc c s = Ok () t \<and> put_post c s t"
proof -
  define pos where "pos = cursor s"
  have p: "0 \<le> pos" "pos < 24 * 80" using assms cursor_nonneg by (simp_all add: pos_def on_screen_def)
  define q where "q = (if c = 10 then pos + (80 - pos mod 80)
    else if c = BACKSPACE then (if pos > 0 then pos - 1 else pos) else pos + 1)"
  define s1 where "s1 = (if c = 10 \<or> c = BACKSPACE then s
    else s\<lparr>crt := (crt s)(nat pos := (0x0700 OR of_int (c mod 256) :: u16))\<rparr>)"
  have q: "cursor_next c pos = (if q \<ge> 24 * 80 then q - 80 else q)"
    using p by (simp add: cursor_next_def q_def Let_def max_def)
  have qb: "0 \<le> q" "q \<le> 24 * 80" using line_up [OF p] p by (auto simp: q_def)
  have "cgaputc c s = Ok () (cga_place q s1)"
    unfolding cgaputc_cases [of c s, folded pos_def, folded q_def s1_def] using qb by (simp only: Let_def) simp
  moreover have "crt s1 k = crt s k" if "24 * 80 \<le> k" for k using p that by (auto simp: s1_def)
  moreover have "cga_place q s1 = s\<lparr>crt := crt (cga_place q s1), crtc := crtc (cga_place q s1)\<rparr>"
    by (simp add: cga_place_def s1_def Let_def)
  ultimately show ?thesis
    using cga_place_post [OF qb, where s = s1] q by (simp add: put_post_def pos_def)
qed

section \<open>Characters sent\<close>

text \<open>
  \<open>emits s bs t\<close>: the screen changed within its bounds and the serial line, if there is one, got the bytes
  \<open>bs\<close>; nothing else changed.
\<close>

definition emits :: "'z cstate_scheme \<Rightarrow> byte list \<Rightarrow> 'z cstate_scheme \<Rightarrow> bool" where
  "emits s bs t \<longleftrightarrow> on_screen t \<and> (\<exists>A B. (\<forall>k \<ge> 24 * 80. A k = crt s k) \<and>
     t = s\<lparr>uart_tx := uart_tx s @ (if uart s then bs else []), crt := A, crtc := B\<rparr>)"

definition echo :: "int \<Rightarrow> byte list" where
  "echo c = (if c = BACKSPACE then [8, 32, 8] else [of_int c])"

definition cons_ok :: "'z cstate_scheme \<Rightarrow> bool" where
  "cons_ok s \<longleftrightarrow> on_screen s \<and> \<not> panicked s"

lemma emits_refl: "on_screen s \<Longrightarrow> emits s [] s"
  unfolding emits_def by (intro conjI exI [of _ "crt s"] exI [of _ "crtc s"]) simp_all

lemma emits_trans: "emits s bs t \<Longrightarrow> emits t cs u \<Longrightarrow> emits s (bs @ cs) u"
proof -
  assume "emits s bs t" "emits t cs u"
  then obtain A B C D where "t = s\<lparr>uart_tx := uart_tx s @ (if uart s then bs else []), crt := A, crtc := B\<rparr>"
    "\<forall>k \<ge> 24 * 80. A k = crt s k" "on_screen u" "\<forall>k \<ge> 24 * 80. C k = crt t k"
    "u = t\<lparr>uart_tx := uart_tx t @ (if uart t then cs else []), crt := C, crtc := D\<rparr>"
    unfolding emits_def by blast
  then show ?thesis unfolding emits_def by (intro conjI exI [of _ C] exI [of _ D]) simp_all
qed

lemma emits_sel:
  assumes "emits s bs t"
  shows "cons_ok s \<Longrightarrow> cons_ok t" "uart_tx t = uart_tx s @ (if uart s then bs else [])" "on_screen t"
    "lapic_id t = lapic_id s" "ncpu t = ncpu s" "cpus t = cpus s" "eflags_IF t = eflags_IF s" "locks t = locks s"
    "ptable t = ptable s" "input_buf t = input_buf s" "input_r t = input_r s" "input_w t = input_w s"
    "input_e t = input_e s" "cons_locking t = cons_locking s" "uart t = uart s" "bstate.truncate t = bstate.truncate s"
  using assms by (auto simp: emits_def cons_ok_def bstate.truncate_def bstate.make_def)

lemma consputc_ok:
  assumes "cons_ok s"
  shows "runs (consputc c s) (\<lambda>_. emits s (echo c))"
proof -
  define u where "u = s\<lparr>uart_tx := uart_tx s @ (if uart s then echo c else [])\<rparr>"
  have "on_screen u" using assms by (simp add: u_def on_screen_def cursor_def cons_ok_def)
  then obtain t where t: "cgaputc c u = Ok () t" "put_post c u t" using cgaputc_ok by blast
  have "on_screen t" using t(2) cursor_next_bounds [OF cursor_nonneg, of u c] \<open>on_screen u\<close>
    by (simp add: put_post_def on_screen_def)
  moreover have "t = u\<lparr>crt := crt t, crtc := crtc t\<rparr>" "\<forall>k \<ge> 24 * 80. crt t k = crt u k"
    using t(2) unfolding put_post_def by blast+
  ultimately have "emits s (echo c) t" unfolding emits_def u_def
    by (intro conjI exI [of _ "crt t"] exI [of _ "crtc t"]) simp_all
  moreover have "(if c = BACKSPACE then uartputc 8 (uartputc 32 (uartputc 8 s)) else uartputc c s) = u"
    by (simp add: uartputc_def u_def echo_def)
  ultimately show ?thesis using assms t(1) by (simp add: consputc_def cons_ok_def Let_def)
qed

lemma consputs_ok: "cons_ok s \<Longrightarrow> runs (forR cs consputc s) (\<lambda>_. emits s (concat (map echo cs)))"
proof (induction cs arbitrary: s)
  case Nil
  then show ?case by (simp add: emits_refl cons_ok_def)
next
  case (Cons c cs)
  show ?case unfolding forR.simps
  proof (rule runs_bindI [OF consputc_ok [OF Cons.prems, of c]])
    fix x t assume "emits s (echo c) t"
    then show "runs (forR cs consputc t) (\<lambda>_. emits s (concat (map echo (c # cs))))"
      using Cons.IH [of t] emits_sel(1) [of s "echo c" t] Cons.prems
      by (auto elim!: runs_conseq intro: emits_trans)
  qed
qed

section \<open>Numbers and formats\<close>

definition digit_val :: "nat \<Rightarrow> nat" where
  "digit_val d = (if d < 58 then d - 48 else d - 87)"

text \<open>The value of a numeral, most significant digit first, with an optional minus sign.\<close>

definition digits_value :: "nat \<Rightarrow> byte list \<Rightarrow> nat" where
  "digits_value base = foldl (\<lambda>a d. a * base + digit_val (unat d)) 0"

fun numeral_value :: "nat \<Rightarrow> byte list \<Rightarrow> int" where
  "numeral_value base (b # bs) = (if b = 45 then - int (digits_value base bs) else int (digits_value base (b # bs)))"
| "numeral_value base [] = 0"

lemma hex_digit:
  assumes "d < 16"
  shows "(of_char (''0123456789abcdef'' ! d) :: nat) = (if d < 10 then 48 + d else 87 + d)"
proof -
  have "\<forall>d \<in> set [0..<16]. (of_char (''0123456789abcdef'' ! d) :: nat) = (if d < 10 then 48 + d else 87 + d)"
    by (simp add: upt_conv_Cons)
  then show ?thesis using assms by simp
qed

lemma of_char_int_nat: "(of_char c :: int) = int (of_char c)"
  by (simp add: of_char_def)

lemma digit_byte:
  assumes "d < 16"
  shows "unat (of_int (of_char (''0123456789abcdef'' ! d)) :: byte) = (if d < 10 then 48 + d else 87 + d)"
  using assms unfolding of_char_int_nat hex_digit [OF assms] by (simp add: unat_of_nat)

abbreviation digit_bytes :: "nat \<Rightarrow> nat \<Rightarrow> byte list" where
  "digit_bytes base x \<equiv> map of_int (rev (digits_of base x))"

lemma digits_value_append: "digits_value base (bs @ [b]) = digits_value base bs * base + digit_val (unat b)"
  by (simp add: digits_value_def)

lemma digits_of_value:
  assumes "2 \<le> base" "base \<le> 16"
  shows "digits_value base (digit_bytes base x) = x"
proof (induction x rule: less_induct)
  case (less x)
  have lt: "x mod base < 16" using assms by (intro order.strict_trans2 [OF mod_less_divisor]) simp_all
  have v: "digit_val (unat (of_int (of_char (''0123456789abcdef'' ! (x mod base))) :: byte)) = x mod base"
    unfolding digit_byte [OF lt] by (simp add: digit_val_def)
  show ?case
  proof (cases "x div base = 0")
    case True
    then have "digits_of base x = [of_char (''0123456789abcdef'' ! (x mod base))]" by (subst digits_of.simps) simp
    moreover have "x mod base = x" using True assms by (simp add: div_eq_0_iff)
    ultimately show ?thesis using v by (simp add: digits_value_def)
  next
    case False
    then have "x div base < x" using assms by (intro div_less_dividend) (auto intro: Nat.gr0I)
    moreover have "digits_of base x = of_char (''0123456789abcdef'' ! (x mod base)) # digits_of base (x div base)"
      using False assms by (subst digits_of.simps) simp
    ultimately show ?thesis using less.IH [of "x div base"] v by (simp add: digits_value_append)
  qed
qed

lemma digits_of_no_minus:
  assumes "2 \<le> base" "base \<le> 16" "b \<in> set (digit_bytes base x)"
  shows "b \<noteq> 45"
  using assms(3)
proof (induction x rule: less_induct)
  case (less x)
  have lt: "x mod base < 16" using assms by (intro order.strict_trans2 [OF mod_less_divisor]) simp_all
  have n: "(of_int (of_char (''0123456789abcdef'' ! (x mod base))) :: byte) \<noteq> 45"
  proof
    assume "(of_int (of_char (''0123456789abcdef'' ! (x mod base))) :: byte) = 45"
    then show False using digit_byte [OF lt] by (simp split: if_splits)
  qed
  show ?case
  proof (cases "x div base = 0")
    case True
    then show ?thesis using less.prems n by (subst (asm) digits_of.simps) auto
  next
    case False
    then have "x div base < x" using assms by (intro div_less_dividend) (auto intro: Nat.gr0I)
    then show ?thesis using less.IH [of "x div base"] less.prems n
      by (subst (asm) (1) digits_of.simps) (auto split: if_splits)
  qed
qed

lemma digits_of_ne: "digits_of base x \<noteq> []"
  by (subst digits_of.simps) simp

lemma digits_of_length:
  assumes "2 \<le> base"
  shows "length (digits_of base x) \<le> Suc k \<longleftrightarrow> x < base ^ Suc k"
proof (induction k arbitrary: x)
  case 0
  show ?case using assms digits_of_ne [of base "x div base"] by (subst digits_of.simps) (auto simp: div_eq_0_iff)
next
  case (Suc k)
  have "x < base ^ Suc (Suc k) \<longleftrightarrow> x div base < base ^ Suc k"
    using assms by (simp add: div_less_iff_less_mult mult.commute)
  also have "\<dots> \<longleftrightarrow> length (digits_of base x) \<le> Suc (Suc k)"
    using Suc.IH [of "x div base"] assms by (subst digits_of.simps) simp
  finally show ?case by simp
qed

definition int_text :: "nat \<Rightarrow> bool \<Rightarrow> int \<Rightarrow> byte list" where
  "int_text base sign xx = map of_int (rev (printint_buf xx base sign))"

lemma int_text_signed:
  assumes b: "2 \<le> base" "base \<le> 16" and x: "- (2 ^ 31) \<le> xx" "xx < 2 ^ 31"
  shows "numeral_value base (int_text base True xx) = xx"
proof (cases "xx < 0")
  case True
  have "unat (- (of_int xx :: u32)) = nat (- xx)"
    using True x unat_of_nat [of "nat (- xx)", where 'a = 32] by simp
  then have "int_text base True xx = 45 # digit_bytes base (nat (- xx))"
    using True by (simp add: int_text_def printint_buf_def)
  then show ?thesis using True by (simp add: digits_of_value [OF b])
next
  case False
  have "unat (of_int xx :: u32) = nat xx"
    using False x unat_of_nat [of "nat xx", where 'a = 32] by simp
  then have e: "int_text base True xx = digit_bytes base (nat xx)"
    using False by (simp add: int_text_def printint_buf_def)
  obtain c cs where cs: "digit_bytes base (nat xx) = c # cs"
    using digits_of_ne by (metis list.exhaust map_is_Nil_conv rev_is_Nil_conv)
  then have "c \<noteq> 45" using digits_of_no_minus [OF b, of c "nat xx"] by simp
  then show ?thesis using e cs digits_of_value [OF b, of "nat xx"] False by simp
qed

lemma int_text_unsigned:
  assumes b: "2 \<le> base" "base \<le> 16"
  shows "digits_value base (int_text base False xx) = unat (of_int xx :: u32)"
  by (simp add: int_text_def printint_buf_def digits_of_value [OF b])

text \<open>The numbers whose characters do not fit the 16 bytes; there are none from base 5 on.\<close>

definition overruns :: "int \<Rightarrow> nat \<Rightarrow> bool \<Rightarrow> bool" where
  "overruns xx base sign \<longleftrightarrow>
     (if sign \<and> xx < 0 then int base ^ 15 \<le> - xx else int base ^ 16 \<le> xx mod 2 ^ 32)"

lemma int_u32:
  assumes "- (2 ^ 31) \<le> xx" and "xx < 2 ^ 31"
  shows "int (unat (of_int xx :: u32)) = xx mod 2 ^ 32" and "xx < 0 \<Longrightarrow> int (unat (- (of_int xx :: u32))) = - xx"
proof -
  show "int (unat (of_int xx :: u32)) = xx mod 2 ^ 32" by (simp add: uint_word_of_int)
  assume "xx < 0"
  then show "int (unat (- (of_int xx :: u32))) = - xx"
    using assms unat_of_nat [of "nat (- xx)", where 'a = 32] by simp
qed

lemma printint_buf_length:
  assumes "2 \<le> base" and x: "- (2 ^ 31) \<le> xx" "xx < 2 ^ 31"
  shows "16 < length (printint_buf xx base sign) \<longleftrightarrow> overruns xx base sign"
proof -
  have l: "length (digits_of base n) \<le> 15 \<longleftrightarrow> n < base ^ 15" "length (digits_of base n) \<le> 16 \<longleftrightarrow> n < base ^ 16" for n
    using digits_of_length [OF assms(1), of n 14] digits_of_length [OF assms(1), of n 15] by (simp_all add: eval_nat_numeral)
  have e: "n < base ^ k \<longleftrightarrow> int n < int base ^ k" for n k by (metis of_nat_less_iff of_nat_power)
  show ?thesis
    using l [of "unat (- (of_int xx :: u32))"] l [of "unat (of_int xx :: u32)"] int_u32 [OF x] unfolding e
    by (simp add: printint_buf_def overruns_def Let_def not_le not_less flip: not_less) linarith
qed

lemma base_fits:
  assumes "5 \<le> base" and "- (2 ^ 31) \<le> xx"
  shows "\<not> overruns xx base sign"
proof -
  have "(5 :: int) ^ 15 \<le> int base ^ 15" "(5 :: int) ^ 16 \<le> int base ^ 16" using assms(1) by (intro power_mono; simp)+
  moreover have "xx mod 2 ^ 32 < 2 ^ 32" by simp
  ultimately show ?thesis using assms(2) by (auto simp: overruns_def)
qed

text \<open>What a format prints; \<open>None\<close> where the arguments do not match its directives.\<close>

definition directive :: "char \<Rightarrow> carg list \<Rightarrow> (byte list \<times> carg list) option" where
  "directive d as =
     (if d = CHR ''d'' then (case as of A_int w # as \<Rightarrow> Some (int_text 10 True (sint w), as) | _ \<Rightarrow> None)
      else if d = CHR ''x'' \<or> d = CHR ''p'' then (case as of A_int w # as \<Rightarrow> Some (int_text 16 False (sint w), as) | _ \<Rightarrow> None)
      else if d = CHR ''s'' then (case as of A_str (Some b) # as \<Rightarrow> Some (cstr b, as)
                                   | A_str None # as \<Rightarrow> Some (bytes_of ''(null)'', as) | _ \<Rightarrow> None)
      else if d = CHR ''%'' then Some ([37], as) else Some ([37, of_char d], as))"

fun render :: "string \<Rightarrow> carg list \<Rightarrow> byte list option" where
  "render [] as = Some []"
| "render (c # cs) as =
     (if c \<noteq> CHR ''%'' then map_option (Cons (of_char c)) (render cs as)
      else case cs of [] \<Rightarrow> Some []
      | d # ds \<Rightarrow> (case directive d as of None \<Rightarrow> None
                   | Some (bs, as) \<Rightarrow> map_option (append bs) (render ds as)))"

lemma echo_plain: "(\<forall>c \<in> set cs. c \<noteq> BACKSPACE) \<Longrightarrow> concat (map echo cs) = map of_int cs"
  by (induction cs) (auto simp: echo_def)

lemma of_char_lt: "(of_char c :: int) < 256"
  unfolding of_char_int_nat using nat_of_char_less_256 [of c] by simp

lemma of_char_byte: "(of_int (of_char c) :: byte) = of_char c"
  by (simp add: of_char_def)

lemma printint_plain: "c \<in> set (printint_buf xx base sign) \<Longrightarrow> c \<noteq> BACKSPACE"
proof -
  have d: "c \<in> set (digits_of b x) \<Longrightarrow> c < 256" for b x
  proof (induction b x rule: digits_of.induct)
    case (1 base x)
    then show ?case using of_char_lt by (subst (asm) (1) digits_of.simps) (auto split: if_splits)
  qed
  assume "c \<in> set (printint_buf xx base sign)"
  then have "c < 256" using d of_char_lt by (auto simp: printint_buf_def Let_def split: if_splits)
  then show ?thesis by (simp add: BACKSPACE_def)
qed

lemma printint_ok:
  "cons_ok s \<Longrightarrow> length (printint_buf xx base sign) \<le> 16 \<Longrightarrow> runs (printint xx base sign s) (\<lambda>_. emits s (int_text base sign xx))"
  using consputs_ok [of s "rev (printint_buf xx base sign)"] echo_plain [of "rev (printint_buf xx base sign)"] printint_plain
  by (simp add: printint_def int_text_def)

lemma putstr_ok: "cons_ok s \<Longrightarrow> runs (forR (map sint bs) consputc s) (\<lambda>_. emits s bs)" for bs :: "byte list"
proof -
  have "c \<noteq> BACKSPACE" if "c \<in> set (map sint bs)" for c
  proof -
    from that obtain b where b: "c = sint (b :: byte)" by auto
    show ?thesis unfolding b using sint_less [of b] by (simp add: BACKSPACE_def)
  qed
  then show "cons_ok s \<Longrightarrow> runs (forR (map sint bs) consputc s) (\<lambda>_. emits s bs)"
    using consputs_ok [of s "map sint bs"] echo_plain [of "map sint bs"] by (simp add: comp_def)
qed

lemma putchar_ok: "cons_ok s \<Longrightarrow> runs (consputc (of_char c) s) (\<lambda>_. emits s [of_char c])"
  using consputc_ok [of s "of_char c"] of_char_lt [of c] by (simp add: echo_def BACKSPACE_def of_char_byte)

lemma then_emits:
  assumes "runs m (\<lambda>_. emits s bs)" and "\<And>t. emits s bs t \<Longrightarrow> runs (f t) (\<lambda>_. emits t cs)"
  shows "runs (bindR m (\<lambda>_ t. f t)) (\<lambda>_. emits s (bs @ cs))"
  using assms(1)
proof (rule runs_bindI)
  fix x t assume e: "emits s bs t"
  show "runs (f t) (\<lambda>_. emits s (bs @ cs))"
    using assms(2) [OF e] by (rule runs_conseq) (rule emits_trans [OF e])
qed

lemma cprintf_directive:
  fixes s :: "'z cstate_scheme"
  assumes d: "directive d as = Some (b0, as')" and ok: "cons_ok s"
  shows "\<exists>m :: (unit, 'z cstate_scheme) res. runs m (\<lambda>_. emits s b0) \<and>
    cprintf_loop (CHR ''%'' # d # ds) as s = bindR m (\<lambda>_ t. cprintf_loop ds as' t)"
proof -
  have fit: "length (printint_buf (sint (w :: u32)) base sign) \<le> 16" if "5 \<le> base" for w base sign
    using printint_buf_length [of base "sint w" sign] base_fits [of base "sint w" sign] that sint_ge [of w] sint_less [of w] by simp
  note i10 = printint_ok [OF ok fit, of 10 _ True] and i16 = printint_ok [OF ok fit, of 16 _ False]
  have pc: "runs (bindR (consputc (of_char (CHR ''%'')) s) (\<lambda>_. consputc (of_char d)))
      (\<lambda>_. emits s ([of_char (CHR ''%'')] @ [of_char d]))"
    by (rule then_emits [OF putchar_ok [OF ok]]) (simp add: putchar_ok emits_sel(1) ok)
  consider "d = CHR ''d''" | "d = CHR ''x'' \<or> d = CHR ''p''" | "d = CHR ''s''" | "d = CHR ''%''"
    | (any) "d \<notin> {CHR ''d'', CHR ''x'', CHR ''p'', CHR ''s'', CHR ''%''}" by auto
  then show ?thesis
  proof cases
    case 1
    then show ?thesis using d
      by (auto simp: directive_def split: list.splits carg.splits) (rule exI, rule conjI [OF i10 refl], simp)
  next
    case 2
    then obtain w where w: "as = A_int w # as'" "b0 = int_text 16 False (sint w)"
      using d by (auto simp: directive_def split: list.splits carg.splits)
    show ?thesis unfolding w by (rule exI, rule conjI [OF i16]) (use 2 in auto)
  next
    case 3
    then show ?thesis using d
      by (auto simp: directive_def split: list.splits carg.splits option.splits)
        (rule exI, rule conjI [OF putstr_ok [OF ok] refl])+
  next
    case 4
    then show ?thesis using d
      by (auto simp: directive_def) (rule exI, rule conjI [OF putchar_ok [OF ok, of "CHR ''%''", simplified] refl])
  next
    case any
    then show ?thesis using d pc
      by (intro exI [of _ "bindR (consputc (of_char (CHR ''%'')) s) (\<lambda>_. consputc (of_char d))"])
        (simp add: directive_def bindR_assoc)
  qed
qed

lemma cprintf_loop_ok:
  fixes s :: "'z cstate_scheme"
  shows "cons_ok s \<Longrightarrow> render f as = Some bs \<Longrightarrow> runs (cprintf_loop f as s) (\<lambda>_. emits s bs)"
proof (induction f as arbitrary: s bs rule: render.induct)
  case (1 as)
  then show ?case by (simp add: emits_refl cons_ok_def)
next
  case (2 c cs as)
  have k: "runs (cprintf_loop ds as' t) (\<lambda>_. emits t bs')"
    if "emits s bs0 t" "cs = d # ds" "c = CHR ''%''" "directive d as = Some (b0, as')" "render ds as' = Some bs'"
    for d ds b0 as' bs0 bs' t
    using 2(2) [of d ds "(b0, as')" b0 as' t bs'] that emits_sel(1) [OF that(1)] 2(3) by simp
  consider (chr) "c \<noteq> CHR ''%''" | (lst) "c = CHR ''%''" "cs = []" | (dir) d ds where "c = CHR ''%''" "cs = d # ds"
    by (cases cs) auto
  then show ?case
  proof cases
    case chr
    then obtain b1 where b1: "render cs as = Some b1" "bs = [of_char c] @ b1" using 2(4) by auto
    show ?thesis unfolding b1(2) using chr
      by (simp del: append.simps) (rule then_emits [OF putchar_ok [OF 2(3)]], use 2(1) [OF chr _ b1(1)] 2(3) emits_sel(1) in blast)
  next
    case lst
    then show ?thesis using 2(3,4) by (simp add: emits_refl cons_ok_def)
  next
    case dir
    then obtain b0 as' b1 where d: "directive d as = Some (b0, as')" and r: "render ds as' = Some b1" "bs = b0 @ b1"
      using 2(4) by (auto split: option.splits)
    obtain m :: "(unit, 'z cstate_scheme) res" where m: "runs m (\<lambda>_. emits s b0)"
      "cprintf_loop (c # cs) as s = bindR m (\<lambda>_ t. cprintf_loop ds as' t)"
      using cprintf_directive [OF d 2(3), of ds] dir by blast
    show ?thesis unfolding m(2) r(2) by (rule then_emits [OF m(1)]) (rule k [OF _ dir(2,1) d r(1)])
  qed
qed

lemma cprintf_ok:
  assumes c: "calm s i" and ok: "cons_ok s" and r: "render f as = Some bs"
  shows "runs (cprintf (Some f) as s) (\<lambda>_. emits s bs)"
proof (cases "cons_locking s")
  case False
  obtain t where "cprintf_loop f as s = Ok () t" "emits s bs t"
    using cprintf_loop_ok [OF ok r] by (auto elim: runsE)
  then show ?thesis using False by (simp add: cprintf_def)
next
  case True
  let ?a = "acquired L_cons i s"
  have "cons_ok ?a" using ok by (simp add: cons_ok_def on_screen_def cursor_def acquired_def pushed_def)
  then obtain t where t: "cprintf_loop f as ?a = Ok () t" "emits ?a bs t"
    using cprintf_loop_ok [of ?a f as bs] r by (auto elim: runsE)
  define u where "u = t\<lparr>locks := locks s, cpus := cpus s, eflags_IF := eflags_IF s\<rparr>"
  have rel: "release L_cons t = Ok () u"
    unfolding u_def by (rule release_calm [OF c]) (simp_all add: emits_sel [OF t(2)])
  obtain A B where "on_screen t" "\<forall>k \<ge> 24 * 80. A k = crt s k"
    "t = ?a\<lparr>uart_tx := uart_tx s @ (if uart s then bs else []), crt := A, crtc := B\<rparr>"
    using t(2) by (auto simp: emits_def acquired_def pushed_def)
  then have "on_screen u" "u = s\<lparr>uart_tx := uart_tx s @ (if uart s then bs else []), crt := A, crtc := B\<rparr>"
    by (simp_all add: u_def on_screen_def cursor_def) (simp add: acquired_def pushed_def)
  then have "emits s bs u" unfolding emits_def using \<open>\<forall>k \<ge> 24 * 80. A k = crt s k\<close> by blast
  then show ?thesis using True t(1) rel by (simp add: cprintf_def acquire_calm [OF c])
qed

section \<open>The line editor\<close>

text \<open>
  The input buffer as two strings: the lines a reader may take and the line being edited.  The
  editor appends, erases the last character, erases the line, and commits the line at a newline,
  at \<^verbatim>\<open>^D\<close> or when the buffer is full.  \<^verbatim>\<open>^P\<close> asks for a process listing and is not part of a line.
\<close>

definition committed :: "'z cstate_scheme \<Rightarrow> byte list" where
  "committed s = window 128 (input_buf s) (input_r s) (input_w s)"

definition edited :: "'z cstate_scheme \<Rightarrow> byte list" where
  "edited s = window 128 (input_buf s) (input_w s) (input_e s)"

definition input_wf :: "'z cstate_scheme \<Rightarrow> bool" where
  "input_wf s \<longleftrightarrow> length (input_buf s) = 128 \<and> live (input_r s) (input_w s) \<le> live (input_r s) (input_e s) \<and>
     live (input_r s) (input_e s) \<le> 128 \<and> 10 \<notin> set (edited s)"

definition edit :: "int \<Rightarrow> byte list \<times> byte list \<Rightarrow> byte list \<times> byte list" where
  "edit c = (\<lambda>(ls, cur).
     if c = CTRL (CHR ''P'') then (ls, cur)
     else if c = CTRL (CHR ''U'') then (ls, [])
     else if c = CTRL (CHR ''H'') \<or> c = 0x7f then (ls, butlast cur)
     else if c \<noteq> 0 \<and> length ls + length cur < 128
     then let b = (if c = 13 then 10 else of_int c) in
       if b = 10 \<or> c = CTRL (CHR ''D'') \<or> length ls + length cur = 127 then (ls @ cur @ [b], [])
       else (ls, cur @ [b])
     else (ls, cur))"

text \<open>What the editor sends back for a character, and for all that was typed.\<close>

definition edit_echo :: "int \<Rightarrow> byte list \<times> byte list \<Rightarrow> byte list" where
  "edit_echo c = (\<lambda>(ls, cur).
     if c = CTRL (CHR ''P'') then []
     else if c = CTRL (CHR ''U'') then concat (replicate (length cur) (echo BACKSPACE))
     else if c = CTRL (CHR ''H'') \<or> c = 0x7f then (if cur = [] then [] else echo BACKSPACE)
     else if c \<noteq> 0 \<and> length ls + length cur < 128 then [if c = 13 then 10 else of_int c]
     else [])"

fun typed_echo :: "byte list \<Rightarrow> byte list \<times> byte list \<Rightarrow> byte list" where
  "typed_echo [] st = []"
| "typed_echo (b # bs) st = edit_echo (uint b) st @ typed_echo bs (edit (uint b) st)"

interpretation iring: ring 128
  by unfold_locales simp_all

lemma in_slot_ring: "in_slot n = ring_slot 128 n"
  by (simp add: in_slot_def ring_slot_def INPUT_BUF_def)

lemma input_live:
  assumes "input_wf s"
  shows "live (input_r s) (input_e s) = length (committed s) + length (edited s)"
  using assms live_split [of "input_r s" "input_w s" "input_e s"] by (simp add: input_wf_def committed_def edited_def)

definition same_input :: "'z cstate_scheme \<Rightarrow> 'z cstate_scheme \<Rightarrow> bool" where
  "same_input s t \<longleftrightarrow> input_buf t = input_buf s \<and> input_r t = input_r s \<and> input_w t = input_w s \<and> input_e t = input_e s"

lemma same_input_wf:
  assumes "same_input s t"
  shows "input_wf t = input_wf s" "committed t = committed s" "edited t = edited s"
  using assms by (simp_all add: same_input_def input_wf_def committed_def edited_def)

text \<open>Erasing one character.\<close>

lemma unput_input:
  assumes wf: "input_wf s" and ne: "input_e s \<noteq> input_w s"
  shows "input_wf (s\<lparr>input_e := input_e s - 1\<rparr>)" "committed (s\<lparr>input_e := input_e s - 1\<rparr>) = committed s"
    "edited s = edited (s\<lparr>input_e := input_e s - 1\<rparr>) @ [input_buf s ! in_slot (input_e s - 1)]"
proof -
  let ?t = "s\<lparr>input_e := input_e s - 1\<rparr>"
  have l: "live (input_w s) (input_e s) = Suc (live (input_w s) (input_e s - 1))"
    using ne by (intro live_unput) auto
  have lt: "live (input_w s) (input_e s - 1) < 128"
    using l wf input_live [OF wf] by (simp add: input_wf_def edited_def)
  show e: "edited s = edited ?t @ [input_buf s ! in_slot (input_e s - 1)]"
    using iring.window_Suc [OF lt, of "input_buf s"] by (simp add: edited_def in_slot_ring)
  show "committed ?t = committed s" by (simp add: committed_def)
  have re: "input_r s \<noteq> input_e s"
  proof
    assume eq: "input_r s = input_e s"
    then have "live (input_r s) (input_w s) = 0" using wf by (simp add: input_wf_def)
    then show False using eq ne by (simp add: live_0)
  qed
  have lr: "live (input_r s) (input_e s) = Suc (live (input_r s) (input_e s - 1))" by (rule live_unput [OF re])
  have "live (input_r s) (input_w s) \<le> live (input_r s) (input_e s - 1)"
    using input_live [OF wf] l lr by (simp add: committed_def edited_def)
  then show "input_wf ?t" using wf e lr by (simp add: input_wf_def)
qed

text \<open>Appending one character.\<close>

lemma put_input:
  fixes b :: byte
  assumes wf: "input_wf s" and room: "live (input_r s) (input_e s) < 128"
  defines "t \<equiv> s\<lparr>input_buf := (input_buf s)[in_slot (input_e s) := b], input_e := input_e s + 1\<rparr>"
  shows "committed t = committed s" "edited t = edited s @ [b]"
    "live (input_r t) (input_e t) = Suc (live (input_r s) (input_e s))"
    "live (input_r t) (input_w t) \<le> live (input_r t) (input_e t)"
proof -
  have len: "length (input_buf s) = 128" using wf by (simp add: input_wf_def)
  have le: "live (input_r s) (input_w s) \<le> live (input_r s) (input_e s)" using wf by (simp add: input_wf_def)
  have lw: "live (input_w s) (input_e s) < 128" using live_split [OF le] room by simp
  show "committed t = committed s"
    using iring.window_put_other [OF le room, of "input_buf s" b]
    by (simp add: t_def committed_def in_slot_ring live_add)
  show "edited t = edited s @ [b]"
    using iring.window_put [OF len lw, of b] by (simp add: t_def edited_def in_slot_ring)
  show ls: "live (input_r t) (input_e t) = Suc (live (input_r s) (input_e s))"
    using room by (simp add: t_def) (subst live_Suc, simp_all)
  show "live (input_r t) (input_w t) \<le> live (input_r t) (input_e t)"
    unfolding ls using le by (simp add: t_def)
qed

text \<open>Committing the edited line.\<close>

lemma commit_input:
  assumes "length (input_buf s) = 128" "live (input_r s) (input_w s) \<le> live (input_r s) (input_e s)"
    "live (input_r s) (input_e s) \<le> 128"
  defines "t \<equiv> s\<lparr>input_w := input_e s\<rparr>"
  shows "input_wf t" "committed t = committed s @ edited s" "edited t = []"
  using assms(1-3) iring.window_split [OF assms(2), of "input_buf s"]
  by (simp_all add: t_def input_wf_def committed_def edited_def window_def)

text \<open>\<open>inside l i u s\<close>: CPU \<open>i\<close> entered the section of lock \<open>l\<close> in the calm state \<open>u\<close> and is still in it.\<close>

definition inside :: "lockid \<Rightarrow> nat \<Rightarrow> 'z mach_scheme \<Rightarrow> 'z mach_scheme \<Rightarrow> bool" where
  "inside l i u s \<longleftrightarrow> calm u i \<and> lapic_id s = lapic_id u \<and> ncpu s = ncpu u \<and> cpus s = cpus (acquired l i u) \<and>
     eflags_IF s = eflags_IF (acquired l i u) \<and> locks s = locks (acquired l i u)"

lemma inside_cong:
  assumes "lapic_id t = lapic_id s" "ncpu t = ncpu s" "cpus t = cpus s" "eflags_IF t = eflags_IF s" "locks t = locks s"
  shows "inside l i u t = inside l i u s"
  using assms by (simp add: inside_def)

lemma wakeup_inside:
  "inside l i u s \<Longrightarrow> l \<noteq> L_ptable \<Longrightarrow> wakeup ch s = Ok () (s\<lparr>ptable := wake_tab (Some ch) (ptable s)\<rparr>)"
  unfolding inside_def by (intro wakeup_acquired [of u i l]) blast+

text \<open>The state the editor works in, and what one character does to it.\<close>

definition editing :: "nat \<Rightarrow> 'z cstate_scheme \<Rightarrow> 'z cstate_scheme \<Rightarrow> bool" where
  "editing i u s \<longleftrightarrow> inside L_cons i u s \<and> cons_ok s \<and> input_wf s"

definition edits :: "nat \<Rightarrow> 'z cstate_scheme \<Rightarrow> int \<Rightarrow> 'z cstate_scheme \<Rightarrow> 'z cstate_scheme \<Rightarrow> bool" where
  "edits i u c s t \<longleftrightarrow> editing i u t \<and> (committed t, edited t) = edit c (committed s, edited s) \<and>
     uart t = uart s \<and> uart_rx t = uart_rx s \<and> input_r t = input_r s \<and>
     uart_tx t = uart_tx s @ (if uart s then edit_echo c (committed s, edited s) else []) \<and>
     ptable t = (if committed t = committed s then ptable s else wake_tab (Some Ch_input) (ptable s))"

lemma emits_rx: "emits s bs t \<Longrightarrow> uart_rx t = uart_rx s"
  by (auto simp: emits_def)

lemma emits_editing:
  assumes "emits s bs t"
  shows "editing i u s \<Longrightarrow> editing i u t" "committed t = committed s" "edited t = edited s"
proof -
  have si: "same_input s t" using emits_sel [OF assms] by (simp add: same_input_def)
  show "committed t = committed s" "edited t = edited s" using same_input_wf [OF si] by simp_all
  show "editing i u t" if "editing i u s"
    using that emits_sel [OF assms] same_input_wf [OF si] inside_cong [of t s L_cons i u] by (simp add: editing_def)
qed

lemma cons_ok_input [simp]: "cons_ok (s\<lparr>input_e := e\<rparr>) = cons_ok s" "cons_ok (s\<lparr>input_buf := b\<rparr>) = cons_ok s"
  "cons_ok (s\<lparr>input_w := e\<rparr>) = cons_ok s" "cons_ok (s\<lparr>ptable := T\<rparr>) = cons_ok s" "cons_ok (s\<lparr>uart_rx := x\<rparr>) = cons_ok s"
  by (simp_all add: cons_ok_def on_screen_def cursor_def)

lemma editing_unput:
  assumes "editing i u s" "input_e s \<noteq> input_w s"
  shows "editing i u (s\<lparr>input_e := input_e s - 1\<rparr>)"
  using assms unput_input(1) [of s] by (simp add: editing_def inside_def)

definition killed_line :: "nat \<Rightarrow> 'z cstate_scheme \<Rightarrow> 'z cstate_scheme \<Rightarrow> 'z cstate_scheme \<Rightarrow> bool" where
  "killed_line i u s t \<longleftrightarrow> editing i u t \<and> committed t = committed s \<and> edited t = [] \<and>
     uart t = uart s \<and> uart_rx t = uart_rx s \<and> input_r t = input_r s \<and> ptable t = ptable s \<and>
     uart_tx t = uart_tx s @ (if uart s then concat (replicate (length (edited s)) (echo BACKSPACE)) else [])"

lemma kill_line_ok:
  "editing i u s \<Longrightarrow> length (edited s) < k \<Longrightarrow> runs (kill_line k s) (\<lambda>_. killed_line i u s)"
proof (induction k arbitrary: s)
  case (Suc k)
  have wf: "input_wf s" using Suc.prems(1) by (simp add: editing_def)
  show ?case
  proof (cases "input_e s = input_w s")
    case True
    then show ?thesis using Suc.prems(1) by (simp add: killed_line_def edited_def window_def)
  next
    case False
    let ?s = "s\<lparr>input_e := input_e s - 1\<rparr>"
    note un = unput_input [OF wf False]
    have no: "input_buf s ! in_slot (input_e s - 1) \<noteq> 10" using wf un(3) by (simp add: input_wf_def)
    have ed: "editing i u ?s" by (rule editing_unput [OF Suc.prems(1) False])
    have "runs (bindR (consputc BACKSPACE ?s) (\<lambda>_ t. kill_line k t)) (\<lambda>_. killed_line i u s)"
    proof (rule runs_bindI)
      show "runs (consputc BACKSPACE ?s) (\<lambda>_. emits ?s (echo BACKSPACE))"
        using ed by (intro consputc_ok) (simp add: editing_def)
    next
      fix x t assume e: "emits ?s (echo BACKSPACE) t"
      note ee = emits_editing [OF e]
      have "length (edited t) < k" using Suc.prems(2) un(3) ee(3) by simp
      from Suc.IH [OF ee(1) [OF ed] this] show "runs (kill_line k t) (\<lambda>_. killed_line i u s)"
        by (rule runs_conseq) (use ee(2,3) un emits_sel [OF e] emits_rx [OF e] in \<open>simp add: killed_line_def\<close>)
    qed
    then show ?thesis using False no by simp
  qed
qed simp

lemma room_iff: "input_e s - input_r s < INPUT_BUF \<longleftrightarrow> live (input_r s) (input_e s) < 128"
  by (simp add: live_def INPUT_BUF_def word_less_nat_alt)

lemma full_iff: "input_e s = input_r s + INPUT_BUF \<longleftrightarrow> live (input_r s) (input_e s) = 128"
  using live_eq [of 128 "input_r s" "input_e s"] by (auto simp: INPUT_BUF_def)

lemma char_ctrl: "CTRL (CHR ''U'') = 21" "CTRL (CHR ''H'') = 8" "CTRL (CHR ''D'') = 4" "CTRL (CHR ''P'') = 16"
  by (simp_all add: CTRL_def)

lemma byte_10: "0 \<le> c \<Longrightarrow> c < 256 \<Longrightarrow> (of_int c :: byte) = 10 \<longleftrightarrow> c = 10"
  using uint_word_of_int [of c, where 'a = 8] by (auto simp: word_uint_eq_iff)

lemma erase_char:
  assumes ed: "editing i u s" and c: "c = 8 \<or> c = 0x7f"
  shows "runs (consoleintr_char c s) (\<lambda>_. edits i u c s)"
proof (cases "input_e s = input_w s")
  case True
  then have "edited s = []" by (simp add: edited_def window_def)
  then show ?thesis using True ed c by (auto simp: consoleintr_char_def char_ctrl edits_def edit_def edit_echo_def)
next
  case False
  have wf: "input_wf s" using ed by (simp add: editing_def)
  let ?s = "s\<lparr>input_e := input_e s - 1\<rparr>"
  have ed': "editing i u ?s" by (rule editing_unput [OF ed False])
  note un = unput_input [OF wf False]
  have "runs (consputc BACKSPACE ?s) (\<lambda>_. edits i u c s)"
  proof (rule runs_conseq)
    show "runs (consputc BACKSPACE ?s) (\<lambda>_. emits ?s (echo BACKSPACE))"
      using ed' by (intro consputc_ok) (simp add: editing_def)
  next
    fix x t assume e: "emits ?s (echo BACKSPACE) t"
    show "edits i u c s t"
      using emits_editing [OF e] ed' un c emits_sel [OF e] emits_rx [OF e]
      by (auto simp: edits_def edit_def edit_echo_def char_ctrl)
  qed
  then show ?thesis using False c by (auto simp: consoleintr_char_def char_ctrl)
qed

text \<open>Once the character is in the buffer and echoed, it may end the line.\<close>

lemma put_char_end:
  assumes ed: "editing i u s" and c: "c \<notin> {16, 21, 8, 0x7f, 0}" "0 \<le> c" "c < 256"
    and room: "live (input_r s) (input_e s) < 128" and d: "d = (if c = 13 then 10 else c)"
    and e: "emits (s\<lparr>input_buf := (input_buf s)[in_slot (input_e s) := of_int d], input_e := input_e s + 1\<rparr>) (echo d) t"
  shows "runs (if d = 10 \<or> d = 4 \<or> input_e t = input_r t + INPUT_BUF then wakeup Ch_input (t\<lparr>input_w := input_e t\<rparr>)
      else Ok () t) (\<lambda>_. edits i u c s)"
proof -
  have wf: "input_wf s" using ed by (simp add: editing_def)
  have b: "(if c = 13 then 10 else of_int c) = (of_int d :: byte)" "(of_int d :: byte) = 10 \<longleftrightarrow> d = 10"
    using d c byte_10 [of c] by (auto simp: d)
  have n: "length (committed s) + length (edited s) = live (input_r s) (input_e s)" using input_live [OF wf] by simp
  let ?s = "s\<lparr>input_buf := (input_buf s)[in_slot (input_e s) := of_int d], input_e := input_e s + 1\<rparr>"
  note p = put_input [OF wf room, of "of_int d"]
  have si: "same_input ?s t" using emits_sel [OF e] by (simp add: same_input_def)
  have same: "committed t = committed s" "edited t = edited s @ [of_int d]" using same_input_wf [OF si] p by simp_all
  have okt: "cons_ok t" and int: "inside L_cons i u t"
    using emits_sel [OF e] ed inside_cong [of t s L_cons i u] by (simp_all add: editing_def)
  have lv: "live (input_r t) (input_e t) = Suc (live (input_r s) (input_e s))"
    and le: "live (input_r t) (input_w t) \<le> live (input_r t) (input_e t)" and lt: "length (input_buf t) = 128"
    using si p(3,4) wf by (simp_all add: same_input_def input_wf_def)
  have ec: "edit_echo c (committed s, edited s) = echo d"
    using c d n room by (auto simp: edit_echo_def char_ctrl echo_def BACKSPACE_def)
  have keep: "uart t = uart s" "uart_rx t = uart_rx s" "input_r t = input_r s" "ptable t = ptable s"
    "uart_tx t = uart_tx s @ (if uart s then edit_echo c (committed s, edited s) else [])"
    using emits_sel [OF e] emits_rx [OF e] by (simp_all add: ec)
  have full: "input_e t = input_r t + INPUT_BUF \<longleftrightarrow> length (committed s) + length (edited s) = 127"
    unfolding full_iff lv n by simp
  have ev: "edit c (committed s, edited s) = (if d = 10 \<or> d = 4 \<or> input_e t = input_r t + INPUT_BUF
      then (committed s @ edited s @ [of_int d], []) else (committed s, edited s @ [of_int d]))"
    unfolding full using c room n b(2) d by (auto simp: edit_def char_ctrl b(1) Let_def)
  show ?thesis
  proof (cases "d = 10 \<or> d = 4 \<or> input_e t = input_r t + INPUT_BUF")
    case True
    let ?t = "t\<lparr>input_w := input_e t\<rparr>"
    define v where "v = ?t\<lparr>ptable := wake_tab (Some Ch_input) (ptable ?t)\<rparr>"
    have it: "inside L_cons i u ?t" using int by (simp add: inside_def)
    have w: "wakeup Ch_input ?t = Ok () v" unfolding v_def by (rule wakeup_inside [OF it]) simp
    have sv: "same_input ?t v" by (simp add: same_input_def v_def)
    have ci: "input_wf v" "committed v = committed s @ edited s @ [of_int d]" "edited v = []"
      using commit_input [OF lt le] room same same_input_wf [OF sv] by (simp_all add: lv)
    have "inside L_cons i u v" "cons_ok v" "uart v = uart s" "uart_rx v = uart_rx s" "input_r v = input_r s"
      "uart_tx v = uart_tx t" "ptable v = wake_tab (Some Ch_input) (ptable s)"
      using it okt keep by (simp_all add: v_def inside_def)
    then show ?thesis using True w ci ev keep(5) by (simp add: edits_def editing_def)
  next
    case False
    have "10 \<notin> set (edited t)" using wf same(2) b(2) False by (auto simp: input_wf_def)
    then have "input_wf t" using lv room lt le by (simp add: input_wf_def)
    then show ?thesis using False same okt int keep ev by (simp add: edits_def editing_def)
  qed
qed

lemma put_char:
  assumes ed: "editing i u s" and c: "c \<notin> {16, 21, 8, 0x7f, 0}" "0 \<le> c" "c < 256"
    and room: "live (input_r s) (input_e s) < 128"
  shows "runs (consoleintr_char c s) (\<lambda>_. edits i u c s)"
proof -
  define d where "d = (if c = 13 then 10 else c)"
  let ?s = "s\<lparr>input_buf := (input_buf s)[in_slot (input_e s) := of_int d], input_e := input_e s + 1\<rparr>"
  have "cons_ok ?s" using ed by (simp add: editing_def)
  then have "runs (bindR (consputc d ?s) (\<lambda>_ t. if d = 10 \<or> d = 4 \<or> input_e t = input_r t + INPUT_BUF
      then wakeup Ch_input (t\<lparr>input_w := input_e t\<rparr>) else Ok () t)) (\<lambda>_. edits i u c s)"
    by (rule runs_bindI [OF consputc_ok]) (rule put_char_end [OF ed c room d_def])
  then show ?thesis using c room by (simp add: consoleintr_char_def char_ctrl room_iff Let_def d_def)
qed

lemma consoleintr_char_ok:
  assumes ed: "editing i u s" and c: "0 \<le> c" "c < 256" and np: "c \<noteq> 16"
  shows "runs (consoleintr_char c s) (\<lambda>_. edits i u c s)"
proof -
  have wf: "input_wf s" using ed by (simp add: editing_def)
  have n: "length (committed s) + length (edited s) = live (input_r s) (input_e s)" using input_live [OF wf] by simp
  consider (kill) "c = 21" | (erase) "c = 8 \<or> c = 0x7f"
    | (put) "c \<notin> {16, 21, 8, 0x7f, 0}" "live (input_r s) (input_e s) < 128"
    | (skip) "c \<notin> {21, 8, 0x7f}" "c = 0 \<or> \<not> live (input_r s) (input_e s) < 128" using np by auto
  then show ?thesis
  proof cases
    case kill
    have "length (edited s) < Suc (unat INPUT_BUF)" using n wf by (simp add: INPUT_BUF_def input_wf_def)
    from kill_line_ok [OF ed this] have "runs (kill_line (Suc (unat INPUT_BUF)) s) (\<lambda>_. edits i u c s)"
      by (rule runs_conseq) (simp add: killed_line_def edits_def edit_def edit_echo_def kill char_ctrl)
    then show ?thesis using kill by (simp add: consoleintr_char_def char_ctrl del: kill_line.simps)
  next
    case erase
    then show ?thesis by (rule erase_char [OF ed])
  next
    case put
    then show ?thesis by (rule put_char [OF ed _ c])
  next
    case skip
    then show ?thesis using ed n np by (auto simp: consoleintr_char_def char_ctrl edits_def edit_def edit_echo_def room_iff)
  qed
qed

text \<open>All that an interrupt feeds to the editor, before a process listing.\<close>

definition typed :: "nat \<Rightarrow> 'z cstate_scheme \<Rightarrow> 'z cstate_scheme \<Rightarrow> 'z cstate_scheme \<Rightarrow> bool" where
  "typed i u s t \<longleftrightarrow> editing i u t \<and> uart t = uart s \<and> uart_rx t = [] \<and> input_r t = input_r s \<and>
     (committed t, edited t) = fold (\<lambda>b. edit (uint b)) (uart_rx s) (committed s, edited s) \<and>
     uart_tx t = uart_tx s @ typed_echo (uart_rx s) (committed s, edited s) \<and>
     ptable t = (if committed t = committed s then ptable s else wake_tab (Some Ch_input) (ptable s))"

lemma edit_prefix: "\<exists>ws. fst (edit c st) = fst st @ ws"
  by (cases st) (auto simp: edit_def Let_def)

lemma edits_prefix: "\<exists>ws. fst (fold (\<lambda>b. edit (uint b)) bs st) = fst st @ ws"
proof (induction bs arbitrary: st)
  case (Cons b bs)
  then show ?case using edit_prefix [of "uint b" st] by (metis append.assoc fold_simps(2))
qed simp

lemma wake_tab_twice: "wake_tab ch (wake_tab ch T) = wake_tab ch T"
  by (simp add: wake_tab_def comp_def)

lemma typed_Cons:
  assumes e: "edits i u (uint b) (s\<lparr>uart_rx := bs\<rparr>) t" and v: "typed i u t v" and rx: "uart_rx s = b # bs" and "uart s"
  shows "typed i u s v"
proof -
  have si: "same_input s (s\<lparr>uart_rx := bs\<rparr>)" by (simp add: same_input_def)
  note st = same_input_wf(2,3) [OF si]
  let ?st = "(committed s, edited s)"
  have E: "(committed t, edited t) = edit (uint b) ?st" "uart_rx t = bs" "uart t = uart s" "input_r t = input_r s"
    "uart_tx t = uart_tx s @ edit_echo (uint b) ?st"
    "ptable t = (if committed t = committed s then ptable s else wake_tab (Some Ch_input) (ptable s))"
    using e st \<open>uart s\<close> by (simp_all add: edits_def)
  have V: "editing i u v" "uart v = uart t" "uart_rx v = []" "input_r v = input_r t"
    "(committed v, edited v) = fold (\<lambda>b. edit (uint b)) bs (edit (uint b) ?st)"
    "uart_tx v = uart_tx t @ typed_echo bs (edit (uint b) ?st)"
    "ptable v = (if committed v = committed t then ptable t else wake_tab (Some Ch_input) (ptable t))"
    using v E(1,2) by (simp_all add: typed_def)
  obtain ws vs where "committed t = committed s @ ws" "committed v = committed t @ vs"
    using edit_prefix [of "uint b" ?st] edits_prefix [of bs "edit (uint b) ?st"] E(1) V(5) by (metis fst_conv)
  then have "ptable v = (if committed v = committed s then ptable s else wake_tab (Some Ch_input) (ptable s))"
    using E(6) V(7) by (simp add: wake_tab_twice)
  then show ?thesis using V E rx by (simp add: typed_def)
qed

lemma typed_listing:
  assumes "typed i u (s\<lparr>uart_rx := bs\<rparr>) v" and "uart_rx s = b # bs" and "uint b = 16"
  shows "typed i u s v"
proof -
  have si: "same_input s (s\<lparr>uart_rx := bs\<rparr>)" by (simp add: same_input_def)
  show ?thesis using assms same_input_wf(2,3) [OF si] by (simp add: typed_def edit_def edit_echo_def char_ctrl)
qed

lemma consoleintr_loop_ok:
  "editing i u s \<Longrightarrow> uart s \<Longrightarrow> length (uart_rx s) < k \<Longrightarrow>
   runs (consoleintr_loop k Uart dump s) (\<lambda>x t. x = (dump \<or> 16 \<in> set (uart_rx s)) \<and> typed i u s t)"
proof (induction "uart_rx s" arbitrary: s k dump)
  case Nil
  then show ?case by (cases k) (simp_all add: getc_def uartgetc_def typed_def)
next
  case (Cons b bs)
  obtain m where m: "k = Suc m" "length bs < m" using Cons.prems(3) by (cases k) (auto simp flip: Cons.hyps(2))
  let ?s = "s\<lparr>uart_rx := bs\<rparr>"
  have rx: "uart_rx s = b # bs" using Cons.hyps(2) by simp
  have g: "getc Uart s = (uint b, ?s)" using Cons.prems(2) rx by (simp add: getc_def uartgetc_def)
  have si: "same_input s ?s" by (simp add: same_input_def)
  have ed: "editing i u ?s" using Cons.prems(1) same_input_wf [OF si] by (simp add: editing_def inside_def)
  have b16: "uint b = 16 \<longleftrightarrow> b = 16" by (simp add: word_uint_eq_iff)
  show ?case
  proof (cases "uint b = 16")
    case True
    have "runs (consoleintr_loop m Uart True ?s) (\<lambda>x t. x = (True \<or> 16 \<in> set (uart_rx ?s)) \<and> typed i u ?s t)"
      using Cons.hyps(1) [of ?s m True] ed Cons.prems(2) m(2) by simp
    then have "runs (consoleintr_loop m Uart True ?s) (\<lambda>x t. x \<and> typed i u s t)"
      by (rule runs_conseq) (use typed_listing [OF _ rx True] in simp)
    then show ?thesis using True b16 g rx by (simp add: m(1) char_ctrl)
  next
    case False
    have "runs (bindR (consoleintr_char (uint b) ?s) (\<lambda>_ t. consoleintr_loop m Uart dump t))
      (\<lambda>x t. x = (dump \<or> 16 \<in> set (uart_rx s)) \<and> typed i u s t)"
    proof (rule runs_bindI [OF consoleintr_char_ok [OF ed]])
      fix x t assume e: "edits i u (uint b) ?s t"
      then have t: "bs = uart_rx t" "editing i u t" "uart t" using Cons.prems(2) by (simp_all add: edits_def)
      have "length (uart_rx t) < m" using m(2) t(1) by simp
      from Cons.hyps(1) [OF t this, of dump]
      show "runs (consoleintr_loop m Uart dump t) (\<lambda>x t. x = (dump \<or> 16 \<in> set (uart_rx s)) \<and> typed i u s t)"
        by (rule runs_conseq) (use typed_Cons [OF e _ rx Cons.prems(2)] False b16 rx t(1) in simp)
    qed (use unsigned_less [of b] False in simp_all)
    then show ?thesis using False g by (simp add: m(1) char_ctrl)
  qed
qed

section \<open>The process listing\<close>

text \<open>The text of \<open>procdump\<close>: a line per process, with its return addresses when it sleeps.\<close>

definition dump_pcs :: "'z cstate_scheme \<Rightarrow> nat \<Rightarrow> u32 list" where
  "dump_pcs s p = (if p_state (proc_at s p) = SLEEPING
     then takeWhile (\<lambda>pc. pc \<noteq> 0) (getcallerpcs (mem s) (cx_ebp (contexts s (p_context (proc_at s p))) + 8)) else [])"

definition pc_text :: "u32 \<Rightarrow> byte list" where
  "pc_text pc = 32 # int_text 16 False (sint pc)"

definition dump_line :: "'z cstate_scheme \<Rightarrow> nat \<Rightarrow> byte list" where
  "dump_line s p = (let q = proc_at s p in
     if p_state q = UNUSED then []
     else int_text 10 True (sint (of_int (p_pid q) :: u32)) @ [32] @ bytes_of (state_name (p_state q)) @ [32] @ cstr (p_name q) @
       concat (map pc_text (dump_pcs s p)) @ [10])"

definition dump_text :: "'z cstate_scheme \<Rightarrow> byte list" where
  "dump_text s = concat (map (dump_line s) [0..<NPROC])"

lemma emits_dump:
  assumes "emits s bs t"
  shows "dump_line t = dump_line s" "dump_pcs t = dump_pcs s" "calm s i \<Longrightarrow> calm t i"
proof -
  have "ptable t = ptable s" "mem t = mem s" "contexts t = contexts s" using assms by (auto simp: emits_def)
  then show pcs: "dump_pcs t = dump_pcs s" by (intro ext) (simp add: dump_pcs_def)
  show "dump_line t = dump_line s" using \<open>ptable t = ptable s\<close> by (intro ext) (simp add: dump_line_def Let_def pcs)
  show "calm s i \<Longrightarrow> calm t i" using calm_cong [of t s i] emits_sel [OF assms] by simp
qed

lemma emits_each:
  assumes step: "\<And>x t. calm t i \<Longrightarrow> cons_ok t \<Longrightarrow> g t = g s \<Longrightarrow> runs (f x t) (\<lambda>_. emits t (txt x))"
    and keep: "\<And>t u bs. emits t bs u \<Longrightarrow> g u = g t"
  shows "calm t i \<Longrightarrow> cons_ok t \<Longrightarrow> g t = g s \<Longrightarrow> runs (forR xs f t) (\<lambda>_. emits t (concat (map txt xs)))"
proof (induction xs arbitrary: t)
  case Nil
  then show ?case by (simp add: emits_refl cons_ok_def)
next
  case (Cons x xs)
  show ?case unfolding forR.simps list.map concat.simps
  proof (rule then_emits [OF step [OF Cons.prems]])
    fix u assume e: "emits t (txt x) u"
    show "runs (forR xs f u) (\<lambda>_. emits u (concat (map txt xs)))"
      using Cons.IH [of u] emits_dump(3) [OF e Cons.prems(1)] emits_sel(1) [OF e Cons.prems(2)] keep [OF e] Cons.prems(3) by simp
  qed
qed

lemma print_pcs_ok:
  assumes "calm s i" "cons_ok s"
  shows "runs (print_pcs pcs s) (\<lambda>_. emits s (concat (map pc_text (takeWhile (\<lambda>pc. pc \<noteq> 0) pcs))))"
  unfolding print_pcs_def
proof (rule emits_each [where g = "\<lambda>_. ()" and s = s, OF _ _ assms refl])
  fix pc and t :: "'a cstate_scheme" assume "calm t i" "cons_ok t"
  then show "runs (cprintf (Some '' %p'') [A_int pc] t) (\<lambda>_. emits t (pc_text pc))"
    by (rule cprintf_ok) (simp add: directive_def pc_text_def)
qed simp

lemma procdump_one_ok:
  assumes c: "calm s i" and ok: "cons_ok s"
  shows "runs (procdump_one p s) (\<lambda>_. emits s (dump_line s p))"
proof (cases "p_state (proc_at s p) = UNUSED")
  case True
  then show ?thesis using ok by (simp add: procdump_one_def dump_line_def emits_refl cons_ok_def)
next
  case False
  let ?q = "proc_at s p"
  let ?h = "int_text 10 True (sint (of_int (p_pid ?q) :: u32)) @ [32] @ bytes_of (state_name (p_state ?q)) @ [32] @ cstr (p_name ?q)"
  have cs: "cstr (bytes_of (state_name st)) = bytes_of (state_name st)" for st
    by (cases st) (simp_all add: state_name_def bytes_of_def cstr_def)
  have h: "runs (cprintf (Some ''%d %s %s'') [A_int (of_int (p_pid ?q)), A_str (Some (bytes_of (state_name (p_state ?q)))),
      A_str (Some (p_name ?q))] s) (\<lambda>_. emits s ?h)"
    by (rule cprintf_ok [OF c ok]) (simp add: directive_def cs)
  have pcs: "runs (if p_state ?q = SLEEPING then print_pcs (getcallerpcs (mem t) (cx_ebp (contexts t (p_context ?q)) + 8)) t
      else Ok () t) (\<lambda>_. emits t (concat (map pc_text (dump_pcs s p))))" if e: "emits s bs t" for bs t
  proof -
    have "mem t = mem s" "contexts t = contexts s" using e by (auto simp: emits_def)
    then show ?thesis using print_pcs_ok [OF emits_dump(3) [OF e c] emits_sel(1) [OF e ok]] emits_sel(1) [OF e ok]
      by (simp add: dump_pcs_def emits_refl cons_ok_def)
  qed
  have nl: "runs (cprintf (Some [CHR 0x0A]) [] t) (\<lambda>_. emits t [10])" if "calm t i" "cons_ok t" for t :: "'a cstate_scheme"
    using that by (rule cprintf_ok) simp
  have "runs (procdump_one p s) (\<lambda>_. emits s (?h @ (concat (map pc_text (dump_pcs s p)) @ [10])))"
    unfolding procdump_one_def Let_def if_not_P [OF False]
  proof (rule then_emits [OF h])
    fix t assume e: "emits s ?h t"
    show "runs (bindR (if p_state ?q = SLEEPING then print_pcs (getcallerpcs (mem t) (cx_ebp (contexts t (p_context ?q)) + 8)) t
      else Ok () t) (\<lambda>_. cprintf (Some [CHR 0x0A]) [])) (\<lambda>_. emits t (concat (map pc_text (dump_pcs s p)) @ [10]))"
    proof (rule then_emits [OF pcs [OF e]])
      fix v assume "emits t (concat (map pc_text (dump_pcs s p))) v"
      then show "runs (cprintf (Some [CHR 0x0A]) [] v) (\<lambda>_. emits v [10])"
        using emits_dump(3) emits_sel(1) e c ok by (intro nl) blast+
    qed
  qed
  then show ?thesis using False by (simp add: dump_line_def Let_def)
qed

lemma procdump_ok:
  assumes "calm s i" and "cons_ok s"
  shows "runs (procdump s) (\<lambda>_. emits s (dump_text s))"
  unfolding procdump_def dump_text_def
proof (rule emits_each [where g = dump_line and s = s, OF _ _ assms refl])
  fix p and t :: "'a cstate_scheme" assume "calm t i" "cons_ok t" "dump_line t = dump_line s"
  then show "runs (procdump_one p t) (\<lambda>_. emits t (dump_line s p))" using procdump_one_ok [of t i p] by simp
qed (rule emits_dump(1))

section \<open>Properties\<close>

text \<open>
  C26. Whatever characters are printed, \<open>consputc\<close> returns, the cursor stays within the 24 lines of 80
  columns, and no cell of video memory beyond them is written.
\<close>

theorem console_screen_bounds:
  assumes "cons_ok s"
  shows "\<exists>t. forR cs consputc s = Ok () t \<and> 0 \<le> cursor t \<and> cursor t < 24 * 80 \<and> (\<forall>k \<ge> 24 * 80. crt t k = crt s k)"
proof -
  obtain t where "forR cs consputc s = Ok () t" "emits s (concat (map echo cs)) t"
    using consputs_ok [OF assms, of cs] by (auto elim: runsE)
  then show ?thesis using cursor_nonneg [of t] by (auto simp: emits_def on_screen_def)
qed

text \<open>
  C25. The number printed by \<open>printint\<close> reads back.  In any base from 2 to 16 where the characters fit the 16-byte
  buffer, it returns and the characters of a signed number denote the argument, including the smallest integer, and those of
  an unsigned number denote the argument modulo \<open>2 ^ 32\<close>.  The numbers that overrun the buffer are exactly those of 17
  characters with the sign, which the arithmetic bound states; from base 5 on, so in the bases 10 and 16 that the kernel
  uses, there are none.
\<close>

theorem printint_roundtrip:
  assumes "cons_ok s" and "uart s" and "2 \<le> base" and "base \<le> 16" and "- (2 ^ 31) \<le> xx" and "xx < 2 ^ 31"
  shows "(if (if sign \<and> xx < 0 then int base ^ 15 \<le> - xx else int base ^ 16 \<le> xx mod 2 ^ 32)
      then printint xx base sign s = Panic ''printint: buf overrun''
      else \<exists>t bs. printint xx base sign s = Ok () t \<and> uart_tx t = uart_tx s @ bs \<and> length bs \<le> 16 \<and>
        (if sign then numeral_value base bs = xx else int (digits_value base bs) = xx mod 2 ^ 32)) \<and>
    (5 \<le> base \<longrightarrow> (\<exists>t. printint xx base sign s = Ok () t))"
proof -
  let ?bs = "int_text base sign xx"
  note len = printint_buf_length [OF assms(3,5,6), of sign]
  have fits: "\<exists>t. printint xx base sign s = Ok () t \<and> emits s ?bs t" if "\<not> overruns xx base sign"
    using printint_ok [OF assms(1), of xx base sign] len that by (auto elim: runsE)
  have v: "if sign then numeral_value base ?bs = xx else int (digits_value base ?bs) = xx mod 2 ^ 32"
    using int_text_signed [OF assms(3-6)] int_text_unsigned [OF assms(3,4), of xx] int_u32(1) [OF assms(5,6)]
    by (cases sign) simp_all
  have 1: "if overruns xx base sign then printint xx base sign s = Panic ''printint: buf overrun''
    else \<exists>t bs. printint xx base sign s = Ok () t \<and> uart_tx t = uart_tx s @ bs \<and> length bs \<le> 16 \<and>
      (if sign then numeral_value base bs = xx else int (digits_value base bs) = xx mod 2 ^ 32)"
  proof (cases "overruns xx base sign")
    case True
    then show ?thesis using len by (simp add: printint_def Let_def)
  next
    case False
    then obtain t where t: "printint xx base sign s = Ok () t" "emits s ?bs t" using fits by blast
    have "length ?bs \<le> 16" using False len by (simp add: int_text_def)
    then show ?thesis using False t(1) v emits_sel(2) [OF t(2)] assms(2) by auto
  qed
  have "\<exists>t. printint xx base sign s = Ok () t" if "5 \<le> base" using fits base_fits [OF that assms(5), of sign] by blast
  with 1 show ?thesis unfolding overruns_def by blast
qed

text \<open>
  C24. \<open>cprintf\<close> with arguments that fit its format returns, with or without its lock, and sends exactly the
  rendered text to the serial line; locks, process table and input buffer are as before.
\<close>

theorem cprintf_output:
  assumes "calm s i" and "cons_ok s" and "uart s" and "render f as = Some bs"
  shows "\<exists>t. cprintf (Some f) as s = Ok () t \<and> uart_tx t = uart_tx s @ bs \<and> cons_ok t \<and> calm t i \<and>
    ptable t = ptable s \<and> input_buf t = input_buf s \<and> bstate.truncate t = bstate.truncate s"
proof -
  obtain t where t: "cprintf (Some f) as s = Ok () t" "emits s bs t"
    using cprintf_ok [OF assms(1,2,4)] by (auto elim: runsE)
  show ?thesis using t(1) emits_sel [OF t(2)] assms calm_cong [of t s i] by simp
qed

text \<open>
  C23. The console's ring buffer refines a line editor on two strings.  A serial interrupt feeds every
  received byte to the editor, and leaves the buffer well formed and the CPU without locks; a line
  is committed to the readers at a newline, at end of file or when 128 characters wait, and the readers are woken
  exactly when something was committed.  The serial line gets the echo of the editor and then, if a \<^verbatim>\<open>^P\<close> was among the bytes,
  the process listing; the \<^verbatim>\<open>^P\<close> itself changes neither string.
\<close>

theorem console_line_editor:
  assumes "calm s i" and "cons_ok s" and "input_wf s" and "uart s"
  shows "\<exists>t. consoleintr Uart s = Ok () t \<and> calm t i \<and> input_wf t \<and> uart_rx t = [] \<and>
    (committed t, edited t) = fold (\<lambda>b. edit (uint b)) (uart_rx s) (committed s, edited s) \<and>
    ptable t = (if committed t = committed s then ptable s else wake_tab (Some Ch_input) (ptable s)) \<and>
    uart_tx t = uart_tx s @ typed_echo (uart_rx s) (committed s, edited s) @
      (if 16 \<in> set (uart_rx s) then dump_text t else [])"
proof -
  let ?a = "acquired L_cons i s"
  have si: "same_input s ?a" by (simp add: same_input_def acquired_def pushed_def)
  have keep: "uart ?a" "uart_rx ?a = uart_rx s" "cons_ok ?a" "uart_tx ?a = uart_tx s" "ptable ?a = ptable s"
    using assms by (simp_all add: acquired_def pushed_def cons_ok_def on_screen_def cursor_def)
  have "editing i s ?a" using assms(1-3) same_input_wf [OF si] keep by (simp add: editing_def inside_def)
  then obtain t where t: "consoleintr_loop (Suc (length (uart_rx s))) Uart False ?a = Ok (16 \<in> set (uart_rx s)) t" "typed i s ?a t"
    using consoleintr_loop_ok [of i s ?a "Suc (length (uart_rx s))" False] keep by (auto elim: runsE)
  define v where "v = t\<lparr>locks := locks s, cpus := cpus s, eflags_IF := eflags_IF s\<rparr>"
  have ins: "inside L_cons i s t" and okt: "cons_ok t" and wft: "input_wf t" using t(2) by (simp_all add: typed_def editing_def)
  have rel: "release L_cons t = Ok () v"
    unfolding v_def using ins by (intro release_calm [OF assms(1)]) (simp_all add: inside_def)
  have sv: "same_input t v" by (simp add: same_input_def v_def)
  have cv: "calm v i" using assms(1) ins calm_cong [of v s i] by (simp add: v_def inside_def)
  have ok: "cons_ok v" using okt by (simp add: v_def cons_ok_def on_screen_def cursor_def)
  have V: "input_wf v" "uart_rx v = []" "uart v" "uart_tx v = uart_tx s @ typed_echo (uart_rx s) (committed s, edited s)"
    "(committed v, edited v) = fold (\<lambda>b. edit (uint b)) (uart_rx s) (committed s, edited s)"
    "ptable v = (if committed v = committed s then ptable s else wake_tab (Some Ch_input) (ptable s))"
    using same_input_wf [OF sv] same_input_wf [OF si] t(2) wft keep by (simp_all add: typed_def) (simp_all add: v_def)
  obtain w where w: "(if 16 \<in> set (uart_rx s) then procdump v else Ok () v) = Ok () w"
      "emits v (if 16 \<in> set (uart_rx s) then dump_text v else []) w"
    using procdump_ok [OF cv ok] ok emits_refl [of v] by (cases "16 \<in> set (uart_rx s)") (auto simp: runs_iff cons_ok_def)
  have "consoleintr Uart s = Ok () w"
    using t(1) rel keep w(1) by (simp add: consoleintr_def acquire_calm [OF assms(1)] dev_rx_def del: consoleintr_loop.simps)
  moreover have "same_input v w" "uart_rx w = []" "ptable w = ptable v" "calm w i" "dump_text w = dump_text v"
    using emits_sel [OF w(2)] emits_rx [OF w(2)] emits_dump [OF w(2)] V(2) cv by (simp_all add: same_input_def dump_text_def)
  ultimately show ?thesis
    using V emits_sel(2) [OF w(2)] same_input_wf [of v w] by auto
qed

lemma demo_cstate_sel:
  "crtc (demo_cstate l) = (\<lambda>_. 0)" "crt (demo_cstate l) = (\<lambda>_. 0)" "panicked (demo_cstate l) = False"
  "uart (demo_cstate l) = True" "uart_tx (demo_cstate l) = []"
  "input_buf (demo_cstate l) = replicate 128 0" "input_r (demo_cstate l) = 0" "input_w (demo_cstate l) = 0"
  "input_e (demo_cstate l) = 0"
  by (simp_all add: demo_cstate_def lstate.extend_def cstate.fields_def)

lemma demo_cstate_ok: "cons_ok (demo_cstate l)"
  by (simp add: cons_ok_def on_screen_def cursor_def demo_cstate_sel)

lemma demo_cstate_calm: "calm (demo_cstate demo_lstate) 0"
proof -
  have "binv (demo_cstate demo_lstate) 0 0 {}"
    using demo_txinv core_cong(1) [OF demo_cstate_core] by (simp add: txinv_def)
  then show ?thesis using binv_facts(1) running_calm by blast
qed

theorem console_screen_bounds_witness:
  "\<exists>t. forR (replicate 5000 65) consputc (demo_cstate demo_lstate) = Ok () t \<and> cursor t < 1920"
  using console_screen_bounds [OF demo_cstate_ok, of "replicate 5000 65" demo_lstate] by auto

theorem printint_roundtrip_witness:
  "(\<exists>t bs. printint (- 2147483648) 10 True (demo_cstate demo_lstate) = Ok () t \<and> uart_tx t = bs \<and>
    numeral_value 10 bs = - 2147483648 \<and> length bs \<le> 16) \<and>
   printint 65536 2 True (demo_cstate demo_lstate) = Panic ''printint: buf overrun''"
  using printint_roundtrip [OF demo_cstate_ok, of demo_lstate 10 "- 2147483648" True]
    printint_roundtrip [OF demo_cstate_ok, of demo_lstate 2 65536 True]
  by (auto simp: demo_cstate_sel)

theorem cprintf_output_witness:
  "\<exists>t. cprintf (Some ''pid %d'') [A_int 7] (demo_cstate demo_lstate) = Ok () t \<and>
    uart_tx t = map of_char ''pid 7''"
proof -
  have "render ''pid %d'' [A_int 7] = Some (map of_char ''pid 7'')"
    by (simp add: directive_def int_text_def printint_buf_def digits_of.simps)
  from cprintf_output [OF demo_cstate_calm demo_cstate_ok _ this] show ?thesis by (auto simp: demo_cstate_sel)
qed

theorem console_line_editor_witness:
  "\<exists>t. consoleintr Uart ((demo_cstate demo_lstate)\<lparr>uart_rx := [104, 105, 8, 13, 16, 120]\<rparr>) = Ok () t \<and>
    committed t = [104, 10] \<and> edited t = [120] \<and>
    uart_tx t = [104, 105, 8, 32, 8, 10, 120] @ dump_text t"
proof -
  let ?s = "(demo_cstate demo_lstate)\<lparr>uart_rx := [104, 105, 8, 13, 16, 120]\<rparr>"
  have "calm ?s 0" using demo_cstate_calm calm_cong [of ?s "demo_cstate demo_lstate" 0] by simp
  moreover have "input_wf ?s" "committed ?s = []" "edited ?s = []"
    by (simp_all add: input_wf_def committed_def edited_def demo_cstate_sel window_def)
  ultimately show ?thesis
    using console_line_editor [of ?s 0] demo_cstate_ok [of demo_lstate]
    by (auto simp: demo_cstate_sel edit_def edit_echo_def char_ctrl echo_def)
qed

end
