(* ===== verification/Vm.thy ===== *)
theory Vm
  imports Console
begin

text \<open>
  Page tables (\<^verbatim>\<open>vm.c\<close>).  Page directories and page tables are pages of kernel memory; a
  page-table entry is the 32-bit word at its address.  A loop over pages carries a bound on the
  number of pages it can visit; running out of it is the outcome \<open>Spin\<close>.
\<close>

section \<open>Segments and the walk\<close>

definition seginit_gdt :: "segdesc list \<Rightarrow> segdesc list" where
  "seginit_gdt g = g[
     SEG_KCODE := SEG (STA_X OR STA_R) 0 0xffffffff 0,
     SEG_KDATA := SEG STA_W 0 0xffffffff 0,
     SEG_UCODE := SEG (STA_X OR STA_R) 0 0xffffffff DPL_USER,
     SEG_UDATA := SEG STA_W 0 0xffffffff DPL_USER]"

definition seginit :: "'z mach_scheme \<Rightarrow> (unit, 'z mach_scheme) res" where
  "seginit s = bindR (cpuid s) (\<lambda>c s. Ok () (upd_cpu c (\<lambda>k. k\<lparr>gdt := seginit_gdt (gdt k)\<rparr>) s))"

definition pte_at :: "'z mach_scheme \<Rightarrow> addr \<Rightarrow> u32" where
  "pte_at s a = load32 (mem s) a"

definition set_pte :: "addr \<Rightarrow> u32 \<Rightarrow> 'z mach_scheme \<Rightarrow> 'z mach_scheme" where
  "set_pte a v s = s\<lparr>mem := store32 (mem s) a v\<rparr>"

definition walkpgdir :: "addr \<Rightarrow> addr \<Rightarrow> bool \<Rightarrow> 'z kmem_state_scheme \<Rightarrow> (addr, 'z kmem_state_scheme) res" where
  "walkpgdir pgdir va alloc s =
     (let pde = pgdir + 4 * PDX va in
      if pte_at s pde AND PTE_P \<noteq> 0
      then Ok (P2V (PTE_ADDR (pte_at s pde)) + 4 * PTX va) s
      else if \<not> alloc then Ok 0 s
      else bindR (kalloc s) (\<lambda>pgtab s.
        if pgtab = 0 then Ok 0 s
        else let s = s\<lparr>mem := memset (mem s) pgtab 0 PGSIZE\<rparr>;
               s = set_pte pde (V2P pgtab OR PTE_P OR PTE_W OR PTE_U) s in
          Ok (pgtab + 4 * PTX va) s))"

fun mappages_loop :: "nat \<Rightarrow> addr \<Rightarrow> addr \<Rightarrow> addr \<Rightarrow> u32 \<Rightarrow> u32 \<Rightarrow>
    'z kmem_state_scheme \<Rightarrow> (int, 'z kmem_state_scheme) res" where
  "mappages_loop 0 pgdir a lst pa perm s = Spin s"
| "mappages_loop (Suc k) pgdir a lst pa perm s =
     bindR (walkpgdir pgdir a True s) (\<lambda>pte s.
       if pte = 0 then Ok (- 1) s
       else if pte_at s pte AND PTE_P \<noteq> 0 then Panic ''remap''
       else let s = set_pte pte (pa OR perm OR PTE_P) s in
         if a = lst then Ok 0 s
         else mappages_loop k pgdir (a + PGSIZE) lst (pa + PGSIZE) perm s)"

definition mappages :: "addr \<Rightarrow> addr \<Rightarrow> u32 \<Rightarrow> u32 \<Rightarrow> u32 \<Rightarrow> 'z kmem_state_scheme \<Rightarrow> (int, 'z kmem_state_scheme) res" where
  "mappages pgdir va sz pa perm s =
     (let a = PGROUNDDOWN va; lst = PGROUNDDOWN (va + sz - 1) in
      mappages_loop (Suc (unat (lst - a) div unat PGSIZE)) pgdir a lst pa perm s)"

section \<open>Freeing\<close>

fun deallocuvm_loop :: "nat \<Rightarrow> addr \<Rightarrow> u32 \<Rightarrow> u32 \<Rightarrow> 'z kmem_state_scheme \<Rightarrow> (unit, 'z kmem_state_scheme) res" where
  "deallocuvm_loop 0 pgdir a oldsz s = Spin s"
| "deallocuvm_loop (Suc k) pgdir a oldsz s =
     (if \<not> a < oldsz then Ok () s
      else bindR (walkpgdir pgdir a False s) (\<lambda>pte s.
        if pte = 0
        then deallocuvm_loop k pgdir (PGADDR (PDX a + 1) 0 0 - PGSIZE + PGSIZE) oldsz s
        else if pte_at s pte AND PTE_P \<noteq> 0
        then let pa = PTE_ADDR (pte_at s pte) in
          if pa = 0 then Panic ''kfree''
          else bindR (kfree (P2V pa) s) (\<lambda>_ s.
            deallocuvm_loop k pgdir (a + PGSIZE) oldsz (set_pte pte 0 s))
        else deallocuvm_loop k pgdir (a + PGSIZE) oldsz s))"

definition deallocuvm :: "addr \<Rightarrow> u32 \<Rightarrow> u32 \<Rightarrow> 'z kmem_state_scheme \<Rightarrow> (u32, 'z kmem_state_scheme) res" where
  "deallocuvm pgdir oldsz newsz s =
     (if newsz \<ge> oldsz then Ok oldsz s
      else bindR (deallocuvm_loop (Suc (Suc (unat oldsz div unat PGSIZE))) pgdir (PGROUNDUP newsz) oldsz s) (\<lambda>_ s.
        Ok newsz s))"

definition freevm_entry :: "addr \<Rightarrow> nat \<Rightarrow> 'z kmem_state_scheme \<Rightarrow> (unit, 'z kmem_state_scheme) res" where
  "freevm_entry pgdir i s =
     (let pde = pte_at s (pgdir + 4 * of_nat i) in
      if pde AND PTE_P \<noteq> 0 then kfree (P2V (PTE_ADDR pde)) s else Ok () s)"

definition freevm :: "addr \<Rightarrow> 'z kmem_state_scheme \<Rightarrow> (unit, 'z kmem_state_scheme) res" where
  "freevm pgdir s =
     (if pgdir = 0 then Panic ''freevm: no pgdir''
      else bindR (deallocuvm pgdir KERNBASE 0 s) (\<lambda>_ s.
        bindR (forR [0..<NPDENTRIES] (freevm_entry pgdir) s) (\<lambda>_ s.
        kfree pgdir s)))"

section \<open>Kernel mappings\<close>

record kmap_entry =
  km_virt :: addr
  km_phys_start :: u32
  km_phys_end :: u32
  km_perm :: u32

text \<open>The symbol \<^verbatim>\<open>data\<close> comes from the linker script; it is an argument here.\<close>

definition kmap :: "addr \<Rightarrow> kmap_entry list" where
  "kmap data =
     [\<lparr>km_virt = KERNBASE, km_phys_start = 0, km_phys_end = EXTMEM, km_perm = PTE_W\<rparr>,
      \<lparr>km_virt = KERNLINK, km_phys_start = V2P KERNLINK, km_phys_end = V2P data, km_perm = 0\<rparr>,
      \<lparr>km_virt = data, km_phys_start = V2P data, km_phys_end = PHYSTOP, km_perm = PTE_W\<rparr>,
      \<lparr>km_virt = DEVSPACE, km_phys_start = DEVSPACE, km_phys_end = 0, km_perm = PTE_W\<rparr>]"

fun setupkvm_loop :: "addr \<Rightarrow> kmap_entry list \<Rightarrow> 'z kmem_state_scheme \<Rightarrow> (addr, 'z kmem_state_scheme) res" where
  "setupkvm_loop pgdir [] s = Ok pgdir s"
| "setupkvm_loop pgdir (k # ks) s =
     bindR (mappages pgdir (km_virt k) (km_phys_end k - km_phys_start k) (km_phys_start k) (km_perm k) s) (\<lambda>r s.
       if r < 0 then bindR (freevm pgdir s) (\<lambda>_ s. Ok 0 s)
       else setupkvm_loop pgdir ks s)"

definition setupkvm :: "addr \<Rightarrow> 'z kmem_state_scheme \<Rightarrow> (addr, 'z kmem_state_scheme) res" where
  "setupkvm data s =
     bindR (kalloc s) (\<lambda>pgdir s.
       if pgdir = 0 then Ok 0 s
       else let s = s\<lparr>mem := memset (mem s) pgdir 0 PGSIZE\<rparr> in
         if P2V PHYSTOP > DEVSPACE then Panic ''PHYSTOP too high''
         else setupkvm_loop pgdir (kmap data) s)"

definition kvmalloc :: "addr \<Rightarrow> 'z pstate_scheme \<Rightarrow> (unit, 'z pstate_scheme) res" where
  "kvmalloc data s = bindR (setupkvm data s) (\<lambda>d s. Ok () (switchkvm (s\<lparr>kpgdir := d\<rparr>)))"

section \<open>User memory\<close>

text \<open>Bytes copied from an object outside the modelled memory (a C array on the stack, a disk buffer).\<close>

fun store_bytes :: "memory \<Rightarrow> addr \<Rightarrow> byte list \<Rightarrow> memory" where
  "store_bytes m a [] = m"
| "store_bytes m a (b # bs) = store_bytes (m(a := b)) (a + 1) bs"

definition inituvm :: "addr \<Rightarrow> byte list \<Rightarrow> 'z kmem_state_scheme \<Rightarrow> (unit, 'z kmem_state_scheme) res" where
  "inituvm pgdir init s =
     (if length init \<ge> unat PGSIZE then Panic ''inituvm: more than a page''
      else bindR (kalloc s) (\<lambda>m s.
        let s = s\<lparr>mem := memset (mem s) m 0 PGSIZE\<rparr> in
        bindR (mappages pgdir 0 PGSIZE (V2P m) (PTE_W OR PTE_U) s) (\<lambda>_ s.
          Ok () (s\<lparr>mem := store_bytes (mem s) m init\<rparr>))))"

fun allocuvm_loop :: "nat \<Rightarrow> addr \<Rightarrow> u32 \<Rightarrow> u32 \<Rightarrow> u32 \<Rightarrow> 'z cstate_scheme \<Rightarrow> (u32, 'z cstate_scheme) res" where
  "allocuvm_loop 0 pgdir a oldsz newsz s = Spin s"
| "allocuvm_loop (Suc k) pgdir a oldsz newsz s =
     (if \<not> a < newsz then Ok newsz s
      else bindR (kalloc s) (\<lambda>m s.
        if m = 0
        then bindR (cprintf (Some (''allocuvm out of memory'' @ [CHR 0x0A])) [] s) (\<lambda>_ s.
             bindR (deallocuvm pgdir newsz oldsz s) (\<lambda>_ s. Ok 0 s))
        else let s = s\<lparr>mem := memset (mem s) m 0 PGSIZE\<rparr> in
          bindR (mappages pgdir a PGSIZE (V2P m) (PTE_W OR PTE_U) s) (\<lambda>r s.
            if r < 0
            then bindR (cprintf (Some (''allocuvm out of memory (2)'' @ [CHR 0x0A])) [] s) (\<lambda>_ s.
                 bindR (deallocuvm pgdir newsz oldsz s) (\<lambda>_ s.
                 bindR (kfree m s) (\<lambda>_ s. Ok 0 s)))
            else allocuvm_loop k pgdir (a + PGSIZE) oldsz newsz s)))"

definition allocuvm :: "addr \<Rightarrow> u32 \<Rightarrow> u32 \<Rightarrow> 'z cstate_scheme \<Rightarrow> (u32, 'z cstate_scheme) res" where
  "allocuvm pgdir oldsz newsz s =
     (if newsz \<ge> KERNBASE then Ok 0 s
      else if newsz < oldsz then Ok oldsz s
      else allocuvm_loop (Suc (Suc (unat newsz div unat PGSIZE))) pgdir (PGROUNDUP oldsz) oldsz newsz s)"

definition clearpteu :: "addr \<Rightarrow> addr \<Rightarrow> 'z kmem_state_scheme \<Rightarrow> (unit, 'z kmem_state_scheme) res" where
  "clearpteu pgdir uva s =
     bindR (walkpgdir pgdir uva False s) (\<lambda>pte s.
       if pte = 0 then Panic ''clearpteu'' else Ok () (set_pte pte (pte_at s pte AND NOT PTE_U) s))"

fun copyuvm_loop :: "nat \<Rightarrow> addr \<Rightarrow> addr \<Rightarrow> u32 \<Rightarrow> u32 \<Rightarrow> 'z kmem_state_scheme \<Rightarrow> (addr, 'z kmem_state_scheme) res" where
  "copyuvm_loop 0 pgdir d i sz s = Spin s"
| "copyuvm_loop (Suc k) pgdir d i sz s =
     (if \<not> i < sz then Ok d s
      else bindR (walkpgdir pgdir i False s) (\<lambda>pte s.
        if pte = 0 then Panic ''copyuvm: pte should exist''
        else if pte_at s pte AND PTE_P = 0 then Panic ''copyuvm: page not present''
        else let pa = PTE_ADDR (pte_at s pte); flags = PTE_FLAGS (pte_at s pte) in
          bindR (kalloc s) (\<lambda>m s.
            if m = 0 then bindR (freevm d s) (\<lambda>_ s. Ok 0 s)
            else let s = s\<lparr>mem := memmove (mem s) m (P2V pa) PGSIZE\<rparr> in
              bindR (mappages d i PGSIZE (V2P m) flags s) (\<lambda>r s.
                if r < 0 then bindR (kfree m s) (\<lambda>_ s. bindR (freevm d s) (\<lambda>_ s. Ok 0 s))
                else copyuvm_loop k pgdir d (i + PGSIZE) sz s))))"

definition copyuvm :: "addr \<Rightarrow> addr \<Rightarrow> u32 \<Rightarrow> 'z kmem_state_scheme \<Rightarrow> (addr, 'z kmem_state_scheme) res" where
  "copyuvm data pgdir sz s =
     bindR (setupkvm data s) (\<lambda>d s.
       if d = 0 then Ok 0 s
       else copyuvm_loop (Suc (Suc (unat sz div unat PGSIZE))) pgdir d 0 sz s)"

definition uva2ka :: "addr \<Rightarrow> addr \<Rightarrow> 'z kmem_state_scheme \<Rightarrow> (addr, 'z kmem_state_scheme) res" where
  "uva2ka pgdir uva s =
     bindR (walkpgdir pgdir uva False s) (\<lambda>pte s.
       if pte = 0 then Panic ''uva2ka: null pte''
       else if pte_at s pte AND PTE_P = 0 then Ok 0 s
       else if pte_at s pte AND PTE_U = 0 then Ok 0 s
       else Ok (P2V (PTE_ADDR (pte_at s pte))) s)"

fun copyout_loop :: "nat \<Rightarrow> addr \<Rightarrow> addr \<Rightarrow> byte list \<Rightarrow> 'z kmem_state_scheme \<Rightarrow> (int, 'z kmem_state_scheme) res" where
  "copyout_loop 0 pgdir va buf s = Spin s"
| "copyout_loop (Suc k) pgdir va buf s =
     (if buf = [] then Ok 0 s
      else let va0 = PGROUNDDOWN va in
        bindR (uva2ka pgdir va0 s) (\<lambda>pa0 s.
          if pa0 = 0 then Ok (- 1) s
          else let n = min (unat (PGSIZE - (va - va0))) (length buf);
                 s = s\<lparr>mem := store_bytes (mem s) (pa0 + (va - va0)) (take n buf)\<rparr> in
            copyout_loop k pgdir (va0 + PGSIZE) (drop n buf) s))"

definition copyout :: "addr \<Rightarrow> addr \<Rightarrow> byte list \<Rightarrow> 'z kmem_state_scheme \<Rightarrow> (int, 'z kmem_state_scheme) res" where
  "copyout pgdir va buf s = copyout_loop (Suc (Suc (length buf div unat PGSIZE + 1))) pgdir va buf s"

end
