(* ===== verification/Inode.thy ===== *)
theory Inode
  imports Vm
begin

text \<open>
  The inode layer of \<^verbatim>\<open>fs.c\<close>: the block allocator with its bitmap, inodes on disk and their
  cached copies with reference counts and sleep locks, and the map from file blocks to disk blocks.
  Pointers into the inode cache are indices.
\<close>

section \<open>State\<close>

record inode =
  i_dev :: nat
  i_inum :: nat
  i_ref :: int
  i_valid :: bool
  i_type :: int
  i_major :: int
  i_minor :: int
  i_nlink :: int
  i_size :: u32
  i_addrs :: "nat list"

datatype dev_op = Console_op

record fstate = cstate +
  sb :: superblock
  icache :: "inode list"
  devsw_read :: "nat \<Rightarrow> dev_op option"
  devsw_write :: "nat \<Rightarrow> dev_op option"

definition ROOTINO :: nat where "ROOTINO = 1"
definition NINODE :: nat where "NINODE = 50"
definition NDIRECT :: nat where "NDIRECT = 12"
definition NINDIRECT :: nat where "NINDIRECT = BSIZE div 4"
definition MAXFILE :: nat where "MAXFILE = NDIRECT + NINDIRECT"
definition sizeof_dinode :: nat where "sizeof_dinode = 64"
definition IPB :: nat where "IPB = BSIZE div sizeof_dinode"
definition BPB :: nat where "BPB = BSIZE * 8"
definition IBLOCK :: "nat \<Rightarrow> superblock \<Rightarrow> nat" where "IBLOCK i b = i div IPB + sb_inodestart b"
definition BBLOCK :: "nat \<Rightarrow> superblock \<Rightarrow> nat" where "BBLOCK n b = n div BPB + sb_bmapstart b"
definition T_DIR :: int where "T_DIR = 1"
definition T_FILE :: int where "T_FILE = 2"
definition T_DEV :: int where "T_DEV = 3"

definition upd_inode :: "nat \<Rightarrow> (inode \<Rightarrow> inode) \<Rightarrow> 'z fstate_scheme \<Rightarrow> 'z fstate_scheme" where
  "upd_inode ip f s = s\<lparr>icache := upd_nth ip f (icache s)\<rparr>"

abbreviation inode_at :: "'z fstate_scheme \<Rightarrow> nat \<Rightarrow> inode" where
  "inode_at s ip \<equiv> icache s ! ip"

definition set_bdata :: "nat \<Rightarrow> (byte list \<Rightarrow> byte list) \<Rightarrow> 'z bstate_scheme \<Rightarrow> 'z bstate_scheme" where
  "set_bdata b f s = upd_buf b (\<lambda>x. x\<lparr>b_data := f (b_data x)\<rparr>) s"

section \<open>Disk blocks\<close>

definition bzero :: "nat \<Rightarrow> nat \<Rightarrow> 'z lstate_scheme \<Rightarrow> (unit, 'z lstate_scheme) res" where
  "bzero dev bno s =
     bindR (bread dev bno s) (\<lambda>bp s.
       let s = set_bdata bp (\<lambda>_. replicate BSIZE 0) s in
     bindR (log_write bp s) (\<lambda>_ s. brelse bp s))"

definition bmap_bit :: "byte list \<Rightarrow> nat \<Rightarrow> bool" where
  "bmap_bit d bi = bit (d ! (bi div 8)) (bi mod 8)"

definition bmap_set :: "nat \<Rightarrow> byte list \<Rightarrow> byte list" where
  "bmap_set bi d = d[bi div 8 := set_bit (bi mod 8) (d ! (bi div 8))]"

definition bmap_clear :: "nat \<Rightarrow> byte list \<Rightarrow> byte list" where
  "bmap_clear bi d = d[bi div 8 := unset_bit (bi mod 8) (d ! (bi div 8))]"

text \<open>The inner loop of \<open>balloc\<close>: the first free bit of a bitmap block, below the size of the file system.\<close>

definition balloc_scan :: "nat \<Rightarrow> nat \<Rightarrow> byte list \<Rightarrow> nat option" where
  "balloc_scan b sz d = first_idx (\<lambda>bi. \<not> bmap_bit d bi) [0..<min BPB (sz - b)]"

fun balloc_loop :: "nat \<Rightarrow> nat list \<Rightarrow> 'z fstate_scheme \<Rightarrow> (nat, 'z fstate_scheme) res" where
  "balloc_loop dev [] s = Panic ''balloc: out of blocks''"
| "balloc_loop dev (b # bs) s =
     bindR (bread dev (BBLOCK b (sb s)) s) (\<lambda>bp s.
       case balloc_scan b (sb_size (sb s)) (b_data (buf_at s bp)) of
         Some bi \<Rightarrow>
           bindR (log_write bp (set_bdata bp (bmap_set bi) s)) (\<lambda>_ s.
           bindR (brelse bp s) (\<lambda>_ s.
           bindR (bzero dev (b + bi) s) (\<lambda>_ s. Ok (b + bi) s)))
       | None \<Rightarrow> bindR (brelse bp s) (\<lambda>_ s. balloc_loop dev bs s))"

text \<open>The values of \<open>b\<close> in \<^verbatim>\<open>for(b = 0; b < sb.size; b += BPB)\<close>.\<close>

definition bitmap_starts :: "nat \<Rightarrow> nat list" where
  "bitmap_starts sz = map (\<lambda>k. k * BPB) [0..<(sz + BPB - 1) div BPB]"

definition balloc :: "nat \<Rightarrow> 'z fstate_scheme \<Rightarrow> (nat, 'z fstate_scheme) res" where
  "balloc dev s = balloc_loop dev (bitmap_starts (sb_size (sb s))) s"

definition bfree :: "nat \<Rightarrow> nat \<Rightarrow> 'z fstate_scheme \<Rightarrow> (unit, 'z fstate_scheme) res" where
  "bfree dev b s =
     bindR (bread dev (BBLOCK b (sb s)) s) (\<lambda>bp s.
       let bi = b mod BPB in
       if \<not> bmap_bit (b_data (buf_at s bp)) bi then Panic ''freeing free block''
       else bindR (log_write bp (set_bdata bp (bmap_clear bi) s)) (\<lambda>_ s. brelse bp s))"

section \<open>Inodes\<close>

definition iinit_fmt :: string where
  "iinit_fmt = ''sb: size %d nblocks %d ninodes %d nlog %d logstart %d inodestart %d bmap start %d'' @ [CHR 0x0A]"

definition iinit :: "nat \<Rightarrow> 'z fstate_scheme \<Rightarrow> (unit, 'z fstate_scheme) res" where
  "iinit dev s =
     (let s = initlock L_icache ''icache'' s;
          s = fold (\<lambda>i. initsleeplock (L_inodesleep i) ''inode'') [0..<NINODE] s in
      bindR (readsb dev s) (\<lambda>b s.
        let s = s\<lparr>sb := b\<rparr> in
        cprintf (Some iinit_fmt) (map (\<lambda>x. A_int (of_nat x))
          [sb_size b, sb_nblocks b, sb_ninodes b, sb_nlog b, sb_logstart b, sb_inodestart b, sb_bmapstart b]) s))"

text \<open>Fields of the on-disk inode at offset \<open>k\<close> of its block.\<close>

definition dip_off :: "nat \<Rightarrow> nat" where
  "dip_off inum = sizeof_dinode * (inum mod IPB)"

definition dip_short :: "byte list \<Rightarrow> nat \<Rightarrow> int" where
  "dip_short d k = sint (get16 d k)"

definition dip_addrs :: "byte list \<Rightarrow> nat \<Rightarrow> nat list" where
  "dip_addrs d k = map (\<lambda>j. unat (get32 d (k + 12 + 4 * j))) [0..<NDIRECT + 1]"

fun put_addrs :: "nat \<Rightarrow> nat list \<Rightarrow> byte list \<Rightarrow> byte list" where
  "put_addrs k [] d = d"
| "put_addrs k (a # as) d = put_addrs (k + 4) as (set32 k (of_nat a) d)"

definition dip_put :: "inode \<Rightarrow> byte list \<Rightarrow> byte list" where
  "dip_put i d =
     (let k = dip_off (i_inum i);
          d = set16 k (of_int (i_type i)) d;
          d = set16 (k + 2) (of_int (i_major i)) d;
          d = set16 (k + 4) (of_int (i_minor i)) d;
          d = set16 (k + 6) (of_int (i_nlink i)) d;
          d = set32 (k + 8) (i_size i) d
      in put_addrs (k + 12) (i_addrs i) d)"

definition dip_get :: "byte list \<Rightarrow> inode \<Rightarrow> inode" where
  "dip_get d i =
     (let k = dip_off (i_inum i) in
      i\<lparr>i_type := dip_short d k, i_major := dip_short d (k + 2), i_minor := dip_short d (k + 4),
        i_nlink := dip_short d (k + 6), i_size := get32 d (k + 8), i_addrs := dip_addrs d k\<rparr>)"

definition iget :: "nat \<Rightarrow> nat \<Rightarrow> 'z fstate_scheme \<Rightarrow> (nat, 'z fstate_scheme) res" where
  "iget dev inum s =
     bindR (acquire L_icache s) (\<lambda>_ s.
       case first_idx (\<lambda>i. i_ref i > 0 \<and> i_dev i = dev \<and> i_inum i = inum) (icache s) of
         Some ip \<Rightarrow>
           bindR (release L_icache (upd_inode ip (\<lambda>i. i\<lparr>i_ref := i_ref i + 1\<rparr>) s)) (\<lambda>_ s. Ok ip s)
       | None \<Rightarrow>
         (case first_idx (\<lambda>i. i_ref i = 0) (icache s) of
            None \<Rightarrow> Panic ''iget: no inodes''
          | Some ip \<Rightarrow>
            bindR (release L_icache (upd_inode ip
              (\<lambda>i. i\<lparr>i_dev := dev, i_inum := inum, i_ref := 1, i_valid := False\<rparr>) s)) (\<lambda>_ s. Ok ip s)))"

definition dip_clear :: "nat \<Rightarrow> int \<Rightarrow> byte list \<Rightarrow> byte list" where
  "dip_clear inum ty d =
     (let k = dip_off inum in
      set16 k (of_int ty) (take k d @ replicate sizeof_dinode 0 @ drop (k + sizeof_dinode) d))"

fun ialloc_loop :: "nat \<Rightarrow> int \<Rightarrow> nat list \<Rightarrow> 'z fstate_scheme \<Rightarrow> (nat, 'z fstate_scheme) res" where
  "ialloc_loop dev ty [] s = Panic ''ialloc: no inodes''"
| "ialloc_loop dev ty (inum # inums) s =
     bindR (bread dev (IBLOCK inum (sb s)) s) (\<lambda>bp s.
       if dip_short (b_data (buf_at s bp)) (dip_off inum) = 0
       then bindR (log_write bp (set_bdata bp (dip_clear inum ty) s)) (\<lambda>_ s.
            bindR (brelse bp s) (\<lambda>_ s. iget dev inum s))
       else bindR (brelse bp s) (\<lambda>_ s. ialloc_loop dev ty inums s))"

definition ialloc :: "nat \<Rightarrow> int \<Rightarrow> 'z fstate_scheme \<Rightarrow> (nat, 'z fstate_scheme) res" where
  "ialloc dev ty s = ialloc_loop dev ty [1..<sb_ninodes (sb s)] s"

definition iupdate :: "nat \<Rightarrow> 'z fstate_scheme \<Rightarrow> (unit, 'z fstate_scheme) res" where
  "iupdate ip s =
     bindR (bread (i_dev (inode_at s ip)) (IBLOCK (i_inum (inode_at s ip)) (sb s)) s) (\<lambda>bp s.
       let s = set_bdata bp (dip_put (inode_at s ip)) s in
     bindR (log_write bp s) (\<lambda>_ s. brelse bp s))"

definition idup :: "nat \<Rightarrow> 'z fstate_scheme \<Rightarrow> (nat, 'z fstate_scheme) res" where
  "idup ip s =
     bindR (acquire L_icache s) (\<lambda>_ s.
     bindR (release L_icache (upd_inode ip (\<lambda>i. i\<lparr>i_ref := i_ref i + 1\<rparr>) s)) (\<lambda>_ s. Ok ip s))"

definition ilock :: "nat option \<Rightarrow> 'z fstate_scheme \<Rightarrow> (unit, 'z fstate_scheme) res" where
  "ilock ipo s =
     (case ipo of None \<Rightarrow> Panic ''ilock''
      | Some ip \<Rightarrow>
        if i_ref (inode_at s ip) < 1 then Panic ''ilock''
        else bindR (acquiresleep (L_inodesleep ip) s) (\<lambda>_ s.
          if \<not> i_valid (inode_at s ip)
          then bindR (bread (i_dev (inode_at s ip)) (IBLOCK (i_inum (inode_at s ip)) (sb s)) s) (\<lambda>bp s.
            let s = upd_inode ip (dip_get (b_data (buf_at s bp))) s in
            bindR (brelse bp s) (\<lambda>_ s.
              let s = upd_inode ip (\<lambda>i. i\<lparr>i_valid := True\<rparr>) s in
              if i_type (inode_at s ip) = 0 then Panic ''ilock: no type'' else Ok () s))
          else Ok () s))"

definition iunlock :: "nat option \<Rightarrow> 'z fstate_scheme \<Rightarrow> (unit, 'z fstate_scheme) res" where
  "iunlock ipo s =
     (case ipo of None \<Rightarrow> Panic ''iunlock''
      | Some ip \<Rightarrow>
        bindR (holdingsleep (L_inodesleep ip) s) (\<lambda>h s.
          if \<not> h \<or> i_ref (inode_at s ip) < 1 then Panic ''iunlock''
          else releasesleep (L_inodesleep ip) s))"

section \<open>Contents\<close>

definition bmap :: "nat \<Rightarrow> nat \<Rightarrow> 'z fstate_scheme \<Rightarrow> (nat, 'z fstate_scheme) res" where
  "bmap ip bn s =
     (if bn < NDIRECT
      then let addr = i_addrs (inode_at s ip) ! bn in
        if addr = 0
        then bindR (balloc (i_dev (inode_at s ip)) s) (\<lambda>addr s.
             Ok addr (upd_inode ip (\<lambda>i. i\<lparr>i_addrs := (i_addrs i)[bn := addr]\<rparr>) s))
        else Ok addr s
      else let bn = bn - NDIRECT in
        if bn < NINDIRECT
        then let addr = i_addrs (inode_at s ip) ! NDIRECT in
          bindR (if addr = 0
                 then bindR (balloc (i_dev (inode_at s ip)) s) (\<lambda>addr s.
                      Ok addr (upd_inode ip (\<lambda>i. i\<lparr>i_addrs := (i_addrs i)[NDIRECT := addr]\<rparr>) s))
                 else Ok addr s) (\<lambda>addr s.
          bindR (bread (i_dev (inode_at s ip)) addr s) (\<lambda>bp s.
          let addr = unat (get32 (b_data (buf_at s bp)) (4 * bn)) in
          bindR (if addr = 0
                 then bindR (balloc (i_dev (inode_at s ip)) s) (\<lambda>addr s.
                      bindR (log_write bp (set_bdata bp (set32 (4 * bn) (of_nat addr)) s)) (\<lambda>_ s. Ok addr s))
                 else Ok addr s) (\<lambda>addr s.
          bindR (brelse bp s) (\<lambda>_ s. Ok addr s))))
        else Panic ''bmap: out of range'')"

definition itrunc_direct :: "nat \<Rightarrow> nat \<Rightarrow> 'z fstate_scheme \<Rightarrow> (unit, 'z fstate_scheme) res" where
  "itrunc_direct ip i s =
     (if i_addrs (inode_at s ip) ! i \<noteq> 0
      then bindR (bfree (i_dev (inode_at s ip)) (i_addrs (inode_at s ip) ! i) s) (\<lambda>_ s.
           Ok () (upd_inode ip (\<lambda>x. x\<lparr>i_addrs := (i_addrs x)[i := 0]\<rparr>) s))
      else Ok () s)"

definition itrunc_indirect :: "nat \<Rightarrow> nat \<Rightarrow> nat \<Rightarrow> 'z fstate_scheme \<Rightarrow> (unit, 'z fstate_scheme) res" where
  "itrunc_indirect ip bp j s =
     (let a = unat (get32 (b_data (buf_at s bp)) (4 * j)) in
      if a \<noteq> 0 then bfree (i_dev (inode_at s ip)) a s else Ok () s)"

definition itrunc :: "nat \<Rightarrow> 'z fstate_scheme \<Rightarrow> (unit, 'z fstate_scheme) res" where
  "itrunc ip s =
     bindR (forR [0..<NDIRECT] (itrunc_direct ip) s) (\<lambda>_ s.
     bindR (if i_addrs (inode_at s ip) ! NDIRECT \<noteq> 0
            then bindR (bread (i_dev (inode_at s ip)) (i_addrs (inode_at s ip) ! NDIRECT) s) (\<lambda>bp s.
                 bindR (forR [0..<NINDIRECT] (itrunc_indirect ip bp) s) (\<lambda>_ s.
                 bindR (brelse bp s) (\<lambda>_ s.
                 bindR (bfree (i_dev (inode_at s ip)) (i_addrs (inode_at s ip) ! NDIRECT) s) (\<lambda>_ s.
                 Ok () (upd_inode ip (\<lambda>x. x\<lparr>i_addrs := (i_addrs x)[NDIRECT := 0]\<rparr>) s)))))
            else Ok () s) (\<lambda>_ s.
       iupdate ip (upd_inode ip (\<lambda>x. x\<lparr>i_size := 0\<rparr>) s)))"

definition iput :: "nat \<Rightarrow> 'z fstate_scheme \<Rightarrow> (unit, 'z fstate_scheme) res" where
  "iput ip s =
     bindR (acquiresleep (L_inodesleep ip) s) (\<lambda>_ s.
     bindR (if i_valid (inode_at s ip) \<and> i_nlink (inode_at s ip) = 0
            then bindR (acquire L_icache s) (\<lambda>_ s.
              let r = i_ref (inode_at s ip) in
              bindR (release L_icache s) (\<lambda>_ s.
                if r = 1
                then bindR (itrunc ip s) (\<lambda>_ s.
                     bindR (iupdate ip (upd_inode ip (\<lambda>x. x\<lparr>i_type := 0\<rparr>) s)) (\<lambda>_ s.
                     Ok () (upd_inode ip (\<lambda>x. x\<lparr>i_valid := False\<rparr>) s)))
                else Ok () s))
            else Ok () s) (\<lambda>_ s.
     bindR (releasesleep (L_inodesleep ip) s) (\<lambda>_ s.
     bindR (acquire L_icache s) (\<lambda>_ s.
       release L_icache (upd_inode ip (\<lambda>x. x\<lparr>i_ref := i_ref x - 1\<rparr>) s)))))"

definition iunlockput :: "nat \<Rightarrow> 'z fstate_scheme \<Rightarrow> (unit, 'z fstate_scheme) res" where
  "iunlockput ip s = bindR (iunlock (Some ip) s) (\<lambda>_ s. iput ip s)"

record stat =
  st_type :: int
  st_dev :: int
  st_ino :: nat
  st_nlink :: int
  st_size :: u32

definition stati :: "nat \<Rightarrow> 'z fstate_scheme \<Rightarrow> stat" where
  "stati ip s = \<lparr>st_type = i_type (inode_at s ip), st_dev = int (i_dev (inode_at s ip)),
     st_ino = i_inum (inode_at s ip), st_nlink = i_nlink (inode_at s ip), st_size = i_size (inode_at s ip)\<rparr>"

section \<open>A file system state to look at\<close>

definition demo_inode :: inode where
  "demo_inode = \<lparr>i_dev = 0, i_inum = 0, i_ref = 0, i_valid = False, i_type = 0, i_major = 0, i_minor = 0,
     i_nlink = 0, i_size = 0, i_addrs = replicate 13 0\<rparr>"

definition demo_fstate :: "superblock \<Rightarrow> lstate \<Rightarrow> fstate" where
  "demo_fstate b l = cstate.extend (demo_cstate l)
     (fstate.fields b (replicate NINODE demo_inode) (\<lambda>_. None) (\<lambda>_. None))"

lemma demo_fstate_core: "bstate.truncate (demo_fstate b l) = bstate.truncate l"
  "lstate.truncate (demo_fstate b l) = lstate.truncate l"
  by (simp_all add: demo_fstate_def bstate.truncate_def bstate.make_def cstate.extend_def lstate.truncate_def lstate.make_def
      demo_cstate_def lstate.extend_def)

end
