(* ===== verification/Blocks.thy ===== *)
theory Blocks
  imports Inode
begin

text \<open>
  Correctness of the block allocator and of the on-disk inodes of \<^verbatim>\<open>fs.c\<close>, over the
  contract of the buffer cache and of the log (theory \<open>Tx\<close>): what one read-change-record-release
  sequence does to the logical disk, \<open>balloc\<close> and \<open>bfree\<close> as operations on the set of used blocks,
  and the round trip of an inode through its 64 bytes on disk.
\<close>

section \<open>Frames of a transaction\<close>

text \<open>
  \<open>lframe s t\<close>: only the buffer cache, the list of logged blocks and process states (through wakeups)
  changed from \<open>s\<close> to \<open>t\<close>; inodes, files and everything else are as before.
\<close>

definition lframe :: "'z lstate_scheme \<Rightarrow> 'z lstate_scheme \<Rightarrow> bool" where
  "lframe s t \<longleftrightarrow> cframe (s\<lparr>log_block := log_block t, log_n := log_n t\<rparr>) t"

lemma cframe_lframe: "cframe s t \<Longrightarrow> lframe s t"
  using cframe_log(6,7) [of s t] by (simp add: lframe_def)

lemma lframe_refl [simp]: "lframe s s"
  by (simp add: lframe_def)

lemma cframe_log_upd: "cframe s t \<Longrightarrow> cframe (s\<lparr>log_block := b, log_n := n\<rparr>) (t\<lparr>log_block := b, log_n := n\<rparr>)"
  unfolding cframe_def cupd_def ptab_sim_def by (cases s, cases t) simp

lemma lframe_trans:
  assumes "lframe s t" and "lframe t u"
  shows "lframe s u"
proof -
  have "cframe (s\<lparr>log_block := log_block u, log_n := log_n u\<rparr>) (t\<lparr>log_block := log_block u, log_n := log_n u\<rparr>)"
    using cframe_log_upd [where t = t and b = "log_block u" and n = "log_n u"] assms(1) unfolding lframe_def by fastforce
  then show ?thesis using assms(2) unfolding lframe_def by (rule cframe_trans)
qed

lemma lframe_sel:
  assumes "lframe s t"
  shows "log_start t = log_start s" "log_size t = log_size s" "log_outstanding t = log_outstanding s"
    "log_committing t = log_committing s" "log_dev t = log_dev s" "disksize t = disksize s"
    "lstate.more t = lstate.more s" "log_region t = log_region s" "length (ptable t) = length (ptable s)"
proof -
  note c = assms [unfolded lframe_def]
  show "log_start t = log_start s" "log_size t = log_size s" "log_outstanding t = log_outstanding s"
    "log_committing t = log_committing s" "log_dev t = log_dev s" "disksize t = disksize s"
    "length (ptable t) = length (ptable s)"
    using cframe_log [OF c] cframe_sel [OF c] by simp_all
  then show "log_region t = log_region s" by (simp add: log_region_def)
  have e: "t = cupd (s\<lparr>log_block := log_block t, log_n := log_n t\<rparr>) t" using c by (simp add: cframe_def)
  show "lstate.more t = lstate.more s" by (subst e) (simp add: cupd_def)
qed

lemma lframe_fs:
  assumes "lframe s t"
  shows "sb t = sb s" "icache t = icache s" "devsw_read t = devsw_read s" "devsw_write t = devsw_write s"
proof -
  have e: "t = cupd (s\<lparr>log_block := log_block t, log_n := log_n t\<rparr>) t"
    using assms by (simp add: lframe_def cframe_def)
  show "sb t = sb s" "icache t = icache s" "devsw_read t = devsw_read s" "devsw_write t = devsw_write s"
    by (subst e, simp add: cupd_def)+
qed

lemma log_recorded_lframe: "cframe (log_recorded n s) t \<Longrightarrow> lframe s t"
  using cframe_log(6,7) [of "log_recorded n s" t]
  by (simp add: lframe_def log_recorded_def split: if_splits)

section \<open>Reading and changing a block\<close>

definition held_same :: "nat set \<Rightarrow> 'z bstate_scheme \<Rightarrow> 'z bstate_scheme \<Rightarrow> bool" where
  "held_same H s t \<longleftrightarrow> (\<forall>a\<in>H. b_blockno (buf_at t a) = b_blockno (buf_at s a) \<and> b_data (buf_at t a) = b_data (buf_at s a))"

text \<open>
  \<open>txstep s i p H us t\<close>: a part of a transaction that holds the buffers \<open>H\<close> has changed the contents of
  blocks by the updates \<open>us\<close>.
\<close>

definition txstep :: "'z lstate_scheme \<Rightarrow> nat \<Rightarrow> nat \<Rightarrow> nat set \<Rightarrow> (nat \<times> byte list) list \<Rightarrow> 'z lstate_scheme \<Rightarrow> bool" where
  "txstep s i p H us t \<longleftrightarrow> txinv t i p H \<and> blk t = dapply (blk s) us \<and> disk t = disk s \<and> dwrites t = dwrites s \<and>
     log_n t \<le> log_n s + int (length us) \<and> log_n s \<le> log_n t \<and> set (logged s) \<subseteq> set (logged t) \<and>
     lframe s t \<and> held_same H s t"

lemma txstep_refl: "txinv s i p H \<Longrightarrow> txstep s i p H [] s"
  by (simp add: txstep_def held_same_def)

lemma txstep_trans: "txstep s i p H us t \<Longrightarrow> txstep t i p G vs u \<Longrightarrow> G \<subseteq> H \<Longrightarrow> txstep s i p G (us @ vs) u"
  by (auto simp: txstep_def held_same_def dapply_append intro: lframe_trans)

lemma blk_clean_unheld:
  assumes inv: "binv s i p H" and "n \<notin> dirty_blocks s" and "\<forall>b\<in>H. b_blockno (buf_at s b) \<noteq> n"
  shows "blk s n = disk s n"
proof (cases "\<exists>b < NBUF. b_valid (buf_at s b) \<and> b_dev (buf_at s b) = ROOTDEV \<and> b_blockno (buf_at s b) = n")
  case True
  then obtain b where b: "b < NBUF" "b_valid (buf_at s b)" "b_dev (buf_at s b) = ROOTDEV" "b_blockno (buf_at s b) = n" by blast
  have "b \<notin> H" "\<not> b_dirty (buf_at s b)" using assms(2,3) b by (auto simp: dirty_blocks_def dirtyb_def)
  then have "b_data (buf_at s b) = disk s n" using binv_facts(4) [OF inv b(1)] b by (simp add: buf_ok_def)
  then show ?thesis using blk_cached [OF binv_facts(3) [OF inv] binv_facts(2) [OF inv] b(1,2,3)] b(4) by simp
next
  case False
  then show ?thesis using blk_uncached [OF binv_facts(2) [OF inv], of n] by blast
qed

lemma txinv_binv: "txinv s i p H \<Longrightarrow> binv s i p H"
  by (simp add: txinv_def)

text \<open>Opening a block, and closing it unchanged or changed and logged.\<close>

lemma tx_open:
  assumes tx: "txinv s i p H" and n: "n < disksize s" and free: "\<forall>b\<in>H. b_blockno (buf_at s b) \<noteq> n"
    and room: "card H + nat (log_n s) < NBUF"
  obtains b u where "bread ROOTDEV n s = Ok b u" "b \<notin> H" "b_blockno (buf_at u b) = n" "b_data (buf_at u b) = blk s n"
    "n \<in> set (logged u) \<or> b_data (buf_at u b) = disk u n" "txinv u i p (insert b H)" "blk u = blk s" "cframe s u"
    "\<forall>us w. txstep u i p H us w \<longrightarrow> txstep s i p H us w"
proof -
  obtain b u where r: "bread ROOTDEV n s = Ok b u" and post: "bread_post s i p H n b u" and tu: "txinv u i p (insert b H)"
    using tx_bread [OF assms] by (auto elim: runsE)
  have u: "b \<notin> H" "cframe s u" "blk u = blk s" "disk u = disk s" "dwrites u = dwrites s" "b_blockno (buf_at u b) = n"
    "b_data (buf_at u b) = blk s n" "\<forall>a. a \<noteq> b \<longrightarrow> buf_at u a = buf_at s a"
    using post by (simp_all add: bread_post_def)
  note L = cframe_log [OF u(2)] lframe_trans [OF cframe_lframe [OF u(2)]]
  have c: "n \<in> set (logged u) \<or> b_data (buf_at u b) = disk u n"
    using blk_clean_unheld [OF _ _ free, of i p] tx u L by (auto simp: txinv_def logged_def)
  have "held_same H u w = held_same H s w" for w using u(1,8) by (auto simp: held_same_def)
  then have "txstep u i p H us w \<Longrightarrow> txstep s i p H us w" for us w
    using u L by (simp add: txstep_def logged_def)
  then show ?thesis using that [OF r u(1,6,7) c tu u(3,2)] by blast
qed

lemma tx_close:
  assumes tu: "txinv u i p (insert b H)" and b: "b \<notin> H"
    and clean: "b_blockno (buf_at u b) \<in> set (logged u) \<or> b_data (buf_at u b) = disk u (b_blockno (buf_at u b))"
  obtains t where "brelse b u = Ok () t" "txstep u i p H [] t"
proof -
  obtain t where rel: "brelse b u = Ok () t" and bp: "brelse_post u i p (insert b H) b t"
    and tt: "txinv t i p (insert b H - {b})"
    using tx_brelse [OF tu insertI1 clean] by (auto elim: runsE)
  have H: "insert b H - {b} = H" using b by auto
  have t: "cframe u t" "blk t = blk u" "disk t = disk u" "dwrites t = dwrites u" "\<forall>a. same_core (buf_at t a) (buf_at u a)"
    using bp by (simp_all add: brelse_post_def)
  have "held_same H u t" using t(5) by (auto simp: held_same_def same_core_def)
  then have "txstep u i p H [] t"
    using tt H t cframe_log [OF t(1)] cframe_lframe [OF t(1)] by (simp add: txstep_def logged_def)
  with rel show ?thesis by (rule that)
qed

lemma tx_finish:
  assumes tu: "txinv u i p (insert b H)" and b: "b \<notin> H" and n: "b_blockno (buf_at u b) = n" "n \<notin> log_region u"
    and room: "log_n u < log_size u - 1" "1 \<le> log_outstanding u" and f: "length (f (b_data (buf_at u b))) = BSIZE"
  obtains v t where "log_write b (set_bdata b f u) = Ok () v" "brelse b v = Ok () t"
    "txstep u i p H [(n, f (b_data (buf_at u b)))] t" "lframe u v"
proof -
  let ?d = "f (b_data (buf_at u b))"
  define w where "w = set_bdata b f u"
  have w': "w = upd_buf b (\<lambda>x. x\<lparr>b_data := ?d\<rparr>) u" by (simp add: w_def set_bdata_def upd_buf_def upd_nth_def)
  note m = tx_set_data [OF tu insertI1 f w']
  have wb: "\<forall>a. a \<noteq> b \<longrightarrow> buf_at w a = buf_at u a" by (simp add: w' upd_buf_def)
  note L = cframe_log [OF m(2)] cframe_sel(7) [OF m(2)]
  have bn: "b_blockno (buf_at w b) = n" using m(6) n by simp
  obtain v where lw: "log_write b w = Ok () v" and lp: "logged_post w i p (insert b H) b v"
    using log_write_runs [OF m(1) insertI1] n(2) room bn by (auto elim!: runsE simp: L log_region_def)
  have v: "txinv v i p (insert b H)" "blk v = blk w" "disk v = disk w" "dwrites v = dwrites w"
    "set (logged v) = insert n (set (logged w))" "log_n v \<le> log_n w + 1" "\<forall>a. a \<noteq> b \<longrightarrow> buf_at v a = buf_at w a"
    "cframe (log_recorded n w) v" "b_blockno (buf_at v b) = n"
    using lp bn by (simp_all add: logged_post_def)
  obtain t where rel: "brelse b v = Ok () t" and st: "txstep v i p H [] t"
    using tx_close [OF v(1) b] v(5,9) by auto
  have nv: "log_n w \<le> log_n v" using cframe_log(6) [OF v(8)] by (simp add: log_recorded_def)
  have lv: "lframe u v" by (rule lframe_trans [OF cframe_lframe [OF m(2)] log_recorded_lframe [OF v(8)]])
  have "held_same H u v" using v(7) wb b by (auto simp: held_same_def)
  moreover have "logged w = logged u" using L by (simp add: logged_def)
  ultimately have "txstep u i p H [(n, ?d)] t"
    using st v m nv L n lv by (auto simp: txstep_def held_same_def intro: lframe_trans)
  with lw rel lv show ?thesis using that unfolding w_def by blast
qed

lemma tx_peek:
  assumes tx: "txinv s i p H" and n: "n < disksize s" and free: "\<forall>b\<in>H. b_blockno (buf_at s b) \<noteq> n"
    and room: "card H + nat (log_n s) < NBUF"
  obtains b u t where "bread ROOTDEV n s = Ok b u" "b_data (buf_at u b) = blk s n" "lframe s u"
    "brelse b u = Ok () t" "txstep s i p H [] t"
proof -
  obtain b u where u: "bread ROOTDEV n s = Ok b u" "b \<notin> H" "b_blockno (buf_at u b) = n" "b_data (buf_at u b) = blk s n"
    "n \<in> set (logged u) \<or> b_data (buf_at u b) = disk u n" "txinv u i p (insert b H)" "blk u = blk s" "cframe s u"
    and step: "\<forall>us w. txstep u i p H us w \<longrightarrow> txstep s i p H us w"
    by (rule tx_open [OF assms])
  obtain t where t: "brelse b u = Ok () t" "txstep u i p H [] t"
    using tx_close [OF u(6,2)] u(3,5) by auto
  show ?thesis by (rule that [OF u(1,4) cframe_lframe [OF u(8)] t(1) step [rule_format, OF t(2)]])
qed

text \<open>Reading a block, changing it, recording it in the log and releasing it.\<close>

lemma tx_modify:
  assumes tx: "txinv s i p H" and n: "n < disksize s" "n \<notin> log_region s" and free: "\<forall>b\<in>H. b_blockno (buf_at s b) \<noteq> n"
    and room: "card H + nat (log_n s) < NBUF" "log_n s < log_size s - 1" "1 \<le> log_outstanding s"
    and f: "length (f (blk s n)) = BSIZE"
  obtains b u v t where "bread ROOTDEV n s = Ok b u" "b_data (buf_at u b) = blk s n" "lframe s u"
    "log_write b (set_bdata b f u) = Ok () v" "brelse b v = Ok () t" "txstep s i p H [(n, f (blk s n))] t"
proof -
  obtain b u where u: "bread ROOTDEV n s = Ok b u" "b \<notin> H" "b_blockno (buf_at u b) = n" "b_data (buf_at u b) = blk s n"
    "n \<in> set (logged u) \<or> b_data (buf_at u b) = disk u n" "txinv u i p (insert b H)" "blk u = blk s" "cframe s u"
    and step: "\<forall>us w. txstep u i p H us w \<longrightarrow> txstep s i p H us w"
    by (rule tx_open [OF tx n(1) free room(1)])
  have l: "lframe s u" by (rule cframe_lframe [OF u(8)])
  have pre: "n \<notin> log_region u" "log_n u < log_size u - 1" "1 \<le> log_outstanding u" "length (f (b_data (buf_at u b))) = BSIZE"
    using n(2) room f u(4) cframe_log [OF u(8)] lframe_sel(8) [OF l] by simp_all
  obtain v t where t: "log_write b (set_bdata b f u) = Ok () v" "brelse b v = Ok () t"
    "txstep u i p H [(n, f (b_data (buf_at u b)))] t"
    by (rule tx_finish [where f = f, OF u(6,2,3) pre])
  show ?thesis by (rule that [OF u(1,4) l t(1,2)]) (use step [rule_format, OF t(3)] u(4) in simp)
qed

section \<open>The block bitmap\<close>

lemma length_bmap_set [simp]: "length (bmap_set bi d) = length d" "length (bmap_clear bi d) = length d"
  by (simp_all add: bmap_set_def bmap_clear_def)

lemma bmap_bit_set:
  assumes "bi < BPB" "bj < BPB" "length d = BSIZE"
  shows "bmap_bit (bmap_set bi d) bj \<longleftrightarrow> bj = bi \<or> bmap_bit d bj"
    and "bmap_bit (bmap_clear bi d) bj \<longleftrightarrow> bj \<noteq> bi \<and> bmap_bit d bj"
proof -
  have e: "bj = bi \<longleftrightarrow> bj div 8 = bi div 8 \<and> bj mod 8 = bi mod 8" by (metis div_mult_mod_eq)
  have l: "bi div 8 < length d" "bi mod 8 < 8" "bj mod 8 < 8" using assms by (simp_all add: BPB_def BSIZE_def)
  show "bmap_bit (bmap_set bi d) bj \<longleftrightarrow> bj = bi \<or> bmap_bit d bj"
    "bmap_bit (bmap_clear bi d) bj \<longleftrightarrow> bj \<noteq> bi \<and> bmap_bit d bj"
    unfolding e using l by (auto simp: bmap_bit_def bmap_set_def bmap_clear_def nth_list_update bit_set_bit_iff bit_unset_bit_iff)
qed

definition used :: "'z fstate_scheme \<Rightarrow> nat \<Rightarrow> bool" where
  "used s n \<longleftrightarrow> bmap_bit (blk s (BBLOCK n (sb s))) (n mod BPB)"

definition bitmap_block :: "'z fstate_scheme \<Rightarrow> nat \<Rightarrow> bool" where
  "bitmap_block s n \<longleftrightarrow> (\<exists>m < sb_size (sb s). n = BBLOCK m (sb s))"

text \<open>
  The layout the block allocator relies on: the bitmap blocks lie on the disk outside the log, and the
  blocks of the log and of the bitmap itself are marked as in use.
\<close>

definition fs_geom :: "'z fstate_scheme \<Rightarrow> bool" where
  "fs_geom s \<longleftrightarrow> sb_size (sb s) \<le> disksize s \<and> (\<forall>n. bitmap_block s n \<longrightarrow> n < disksize s \<and> n \<notin> log_region s) \<and>
     (\<forall>n < sb_size (sb s). n \<in> log_region s \<or> bitmap_block s n \<longrightarrow> used s n)"

lemma BPB_pos: "0 < BPB"
  by (simp add: BPB_def BSIZE_def)

lemma BBLOCK_inj: "BBLOCK m b = BBLOCK n b \<Longrightarrow> m mod BPB = n mod BPB \<Longrightarrow> m = n"
  by (simp add: BBLOCK_def) (metis div_mult_mod_eq)

lemma bitmap_block_lframe: "lframe s t \<Longrightarrow> bitmap_block t n = bitmap_block s n"
  using lframe_fs [of s t] by (simp add: bitmap_block_def)

text \<open>What changing a bitmap bit and other blocks does to the set of used blocks.\<close>

lemma used_upd:
  assumes l: "lframe s t" and len: "length (blk s (BBLOCK n (sb s))) = BSIZE" and n: "n < sb_size (sb s)"
    and b: "blk t = ((blk s)(BBLOCK n (sb s) := bmap_set (n mod BPB) (blk s (BBLOCK n (sb s)))))(n := d)"
    and nb: "\<not> bitmap_block s n" and m: "m < sb_size (sb s)"
  shows "used t m \<longleftrightarrow> m = n \<or> used s m"
proof -
  have "BBLOCK m (sb s) \<noteq> n" using nb m by (auto simp: bitmap_block_def)
  then have "used t m \<longleftrightarrow> bmap_bit (((blk s)(BBLOCK n (sb s) := bmap_set (n mod BPB) (blk s (BBLOCK n (sb s))))) (BBLOCK m (sb s))) (m mod BPB)"
    by (simp add: used_def lframe_fs(1) [OF l] b)
  also have "\<dots> \<longleftrightarrow> m = n \<or> used s m"
    using bmap_bit_set(1) [of "n mod BPB" "m mod BPB" "blk s (BBLOCK n (sb s))"] len BPB_pos BBLOCK_inj [of m "sb s" n]
    by (auto simp: used_def)
  finally show ?thesis .
qed

section \<open>Zeroing, allocating and freeing blocks\<close>

lemma bzero_runs:
  assumes tx: "txinv s i p H" and n: "n < disksize s" "n \<notin> log_region s" and free: "\<forall>b\<in>H. b_blockno (buf_at s b) \<noteq> n"
    and room: "card H + nat (log_n s) < NBUF" "log_n s < log_size s - 1" "1 \<le> log_outstanding s"
  shows "runs (bzero ROOTDEV n s) (\<lambda>_. txstep s i p H [(n, replicate BSIZE 0)])"
proof -
  have f: "length ((\<lambda>_. replicate BSIZE 0) (blk s n)) = BSIZE" by simp
  obtain b u v t where "bread ROOTDEV n s = Ok b u" "log_write b (set_bdata b (\<lambda>_. replicate BSIZE 0) u) = Ok () v"
    "brelse b v = Ok () t" "txstep s i p H [(n, replicate BSIZE 0)] t"
    using tx_modify [OF tx n free room f] by metis
  then show ?thesis by (simp add: bzero_def)
qed

lemma find_append: "List.find P (xs @ ys) = (case List.find P xs of None \<Rightarrow> List.find P ys | Some x \<Rightarrow> Some x)"
  by (induction xs) simp_all

lemma find_first_idx: "List.find P [b..<b + k] = map_option ((+) b) (first_idx (\<lambda>i. P (b + i)) [0..<k])"
proof (cases "first_idx (\<lambda>i. P (b + i)) [0..<k]")
  case None
  then have "\<forall>x\<in>set [b..<b + k]. \<not> P x"
    unfolding first_idx_None by (auto, metis le_add_diff_inverse atLeastLessThan_iff nat_add_left_cancel_less zero_le)
  then show ?thesis using None by (simp add: find_None_iff)
next
  case (Some i)
  then have i: "i < k" "P (b + i)" "\<forall>j < i. \<not> P (b + j)" by (auto simp: first_idx_Some)
  then have "List.find P [b..<b + k] = Some (b + i)"
    unfolding find_Some_iff by (intro exI [of _ i]) auto
  then show ?thesis using Some by simp
qed

definition group :: "nat \<Rightarrow> nat \<Rightarrow> nat list" where
  "group sz b = [b..<b + min BPB (sz - b)]"

definition first_free :: "'z fstate_scheme \<Rightarrow> nat list \<Rightarrow> nat option" where
  "first_free s bs = List.find (\<lambda>n. \<not> used s n) (concat (map (group (sb_size (sb s))) bs))"

lemma group_member:
  assumes "b mod BPB = 0" "i < BPB"
  shows "BBLOCK (b + i) sbl = BBLOCK b sbl" "(b + i) mod BPB = i"
proof -
  define q where "q = b div BPB"
  have q: "b = q * BPB" using div_mult_mod_eq [of b BPB] assms(1) unfolding q_def by linarith
  show "BBLOCK (b + i) sbl = BBLOCK b sbl" "(b + i) mod BPB = i"
    using assms(2) BPB_pos by (simp_all add: q BBLOCK_def)
qed

lemma balloc_scan_eq:
  assumes "b mod BPB = 0"
  shows "map_option ((+) b) (balloc_scan b (sb_size (sb s)) (blk s (BBLOCK b (sb s)))) =
    List.find (\<lambda>n. \<not> used s n) (group (sb_size (sb s)) b)"
proof -
  have "first_idx (\<lambda>bi. \<not> bmap_bit (blk s (BBLOCK b (sb s))) bi) [0..<min BPB (sb_size (sb s) - b)] =
      first_idx (\<lambda>i. \<not> used s (b + i)) [0..<min BPB (sb_size (sb s) - b)]"
    by (rule first_idx_cong) (simp_all add: used_def group_member [OF assms])
  then show ?thesis by (simp add: balloc_scan_def group_def find_first_idx)
qed

lemma concat_groups: "concat (map (group sz) (map (\<lambda>k. k * BPB) [0..<q])) = [0..<min (q * BPB) sz]"
proof (induction q)
  case (Suc q)
  have g: "group sz (q * BPB) = [q * BPB..<q * BPB + min BPB (sz - q * BPB)]" by (simp add: group_def)
  show ?case
  proof (cases "q * BPB \<le> sz")
    case True
    then have "min (q * BPB) sz = q * BPB" "min (Suc q * BPB) sz = q * BPB + min BPB (sz - q * BPB)" by (auto simp: min_def)
    then show ?thesis using Suc g upt_add_eq_append [of 0 "q * BPB" "min BPB (sz - q * BPB)"] by simp
  next
    case False
    then show ?thesis using Suc g by simp
  qed
qed simp

lemma concat_starts: "concat (map (group sz) (bitmap_starts sz)) = [0..<sz]"
proof -
  have "sz \<le> (sz + BPB - 1) div BPB * BPB"
    unfolding BPB_def BSIZE_def by simp
  then show ?thesis unfolding bitmap_starts_def concat_groups by (simp add: min_def)
qed

lemma used_txstep: "txstep s i p H [] t \<Longrightarrow> used t n = used s n"
  by (simp add: txstep_def used_def lframe_fs(1) [of s t])

lemma fs_geom_txstep: "txstep s i p H [] t \<Longrightarrow> fs_geom t = fs_geom s"
  using used_txstep [of s i p H t] lframe_sel(6,8) [of s t] lframe_fs(1) [of s t] bitmap_block_lframe [of s t]
  by (simp add: fs_geom_def txstep_def)

lemma held_txstep: "txstep s i p H us t \<Longrightarrow> b \<in> H \<Longrightarrow> b_blockno (buf_at t b) = b_blockno (buf_at s b)"
  by (simp add: txstep_def held_same_def)

definition alloc_updates :: "'z fstate_scheme \<Rightarrow> nat \<Rightarrow> (nat \<times> byte list) list" where
  "alloc_updates s n = [(BBLOCK n (sb s), bmap_set (n mod BPB) (blk s (BBLOCK n (sb s)))), (n, replicate BSIZE 0)]"

text \<open>The bitmap block that covers a free block is marked, then the block is zeroed.\<close>

lemma balloc_take:
  assumes tx: "txinv s i p H" and g: "fs_geom s" and b: "b < sb_size (sb s)" "b mod BPB = 0"
    and held: "\<forall>a\<in>H. \<not> bitmap_block s (b_blockno (buf_at s a)) \<and> used s (b_blockno (buf_at s a))"
    and room: "card H + nat (log_n s) + 1 < NBUF" "log_n s + 2 < log_size s" "1 \<le> log_outstanding s"
    and scan: "balloc_scan b (sb_size (sb s)) (blk s (BBLOCK b (sb s))) = Some bi" and n: "n = b + bi"
  shows "runs (balloc_loop ROOTDEV (b # bs) s) (\<lambda>r t. r = n \<and> txstep s i p H (alloc_updates s n) t)"
proof -
  let ?B = "BBLOCK b (sb s)"
  have bi: "bi < BPB" "n < sb_size (sb s)" using scan n by (auto simp: balloc_scan_def first_idx_Some)
  have nB: "BBLOCK n (sb s) = ?B" "n mod BPB = bi" using group_member [OF b(2) bi(1)] by (simp_all add: n)
  have free: "\<not> used s n" using scan nB bi by (auto simp: balloc_scan_def first_idx_Some used_def n)
  have bb: "bitmap_block s ?B" using b by (auto simp: bitmap_block_def)
  have Bok: "?B < disksize s" "?B \<notin> log_region s" using g bb by (auto simp: fs_geom_def)
  have nok: "n < disksize s" "n \<notin> log_region s" "n \<noteq> ?B" using g bi free bb by (auto simp: fs_geom_def)
  have fB: "\<forall>a\<in>H. b_blockno (buf_at s a) \<noteq> ?B" using held bb by auto
  have len: "length (bmap_set bi (blk s ?B)) = BSIZE" using tx blk_length by (auto simp: txinv_def)
  have room': "card H + nat (log_n s) < NBUF" "log_n s < log_size s - 1" using room by simp_all
  obtain bp u v t where r: "bread ROOTDEV ?B s = Ok bp u" "b_data (buf_at u bp) = blk s ?B" "lframe s u"
    "log_write bp (set_bdata bp (bmap_set bi) u) = Ok () v" "brelse bp v = Ok () t"
    and st: "txstep s i p H [(?B, bmap_set bi (blk s ?B))] t"
    by (rule tx_modify [where f = "bmap_set bi", OF tx Bok fB room' room(3) len])
  have tt: "txinv t i p H" and lt: "lframe s t" and nt: "log_n t \<le> log_n s + 1" using st by (simp_all add: txstep_def)
  have ft: "\<forall>a\<in>H. b_blockno (buf_at t a) \<noteq> n" using held free held_txstep [OF st] by auto
  have "runs (bzero ROOTDEV n t) (\<lambda>_. txstep t i p H [(n, replicate BSIZE 0)])"
    using bzero_runs [OF tt _ _ ft] nok lframe_sel [OF lt] nt room by simp
  then obtain w where z: "bzero ROOTDEV n t = Ok () w" and zt: "txstep t i p H [(n, replicate BSIZE 0)] w" by (auto elim: runsE)
  have "txstep s i p H (alloc_updates s n) w" using txstep_trans [OF st zt order_refl] by (simp add: alloc_updates_def nB)
  then show ?thesis using r scan z lframe_fs(1) [OF r(3)] n by simp
qed

lemma balloc_loop_runs:
  assumes "txinv s i p H" and "fs_geom s" and "\<forall>b\<in>set bs. b < sb_size (sb s) \<and> b mod BPB = 0"
    and "\<forall>a\<in>H. \<not> bitmap_block s (b_blockno (buf_at s a)) \<and> used s (b_blockno (buf_at s a))"
    and "card H + nat (log_n s) + 1 < NBUF" "log_n s + 2 < log_size s" "1 \<le> log_outstanding s"
  shows "case first_free s bs of None \<Rightarrow> balloc_loop ROOTDEV bs s = Panic ''balloc: out of blocks''
    | Some n \<Rightarrow> runs (balloc_loop ROOTDEV bs s) (\<lambda>r t. r = n \<and> txstep s i p H (alloc_updates s n) t)"
  using assms
proof (induction bs arbitrary: s)
  case Nil
  then show ?case by (simp add: first_free_def)
next
  case (Cons b bs)
  have b: "b < sb_size (sb s)" "b mod BPB = 0" using Cons.prems(3) by simp_all
  let ?B = "BBLOCK b (sb s)"
  note sc = balloc_scan_eq [OF b(2), of s]
  show ?case
  proof (cases "balloc_scan b (sb_size (sb s)) (blk s ?B)")
    case (Some bi)
    then have "first_free s (b # bs) = Some (b + bi)" using sc by (simp add: first_free_def find_append flip: sc)
    then show ?thesis using balloc_take [OF Cons.prems(1,2) b Cons.prems(4-7) Some refl] by simp
  next
    case None
    then have ff: "first_free s (b # bs) = first_free s bs" by (simp add: first_free_def find_append flip: sc)
    have bb: "bitmap_block s ?B" using b by (auto simp: bitmap_block_def)
    have Bok: "?B < disksize s" using Cons.prems(2) bb by (auto simp: fs_geom_def)
    have fB: "\<forall>a\<in>H. b_blockno (buf_at s a) \<noteq> ?B" using Cons.prems(4) bb by auto
    obtain bp u t where r: "bread ROOTDEV ?B s = Ok bp u" "b_data (buf_at u bp) = blk s ?B" "lframe s u" "brelse bp u = Ok () t"
      and st: "txstep s i p H [] t"
      using tx_peek [OF Cons.prems(1) Bok fB] Cons.prems(5) by auto
    have e: "balloc_loop ROOTDEV (b # bs) s = balloc_loop ROOTDEV bs t"
      using r None lframe_fs(1) [OF r(3)] by simp
    have lt: "lframe s t" and nt: "log_n t = log_n s" and bt: "blk t = blk s" using st by (simp_all add: txstep_def)
    have same: "first_free t bs = first_free s bs" "alloc_updates t n = alloc_updates s n" for n
      using used_txstep [OF st] lframe_fs(1) [OF lt] bt by (simp_all add: first_free_def alloc_updates_def)
    have IH: "case first_free t bs of None \<Rightarrow> balloc_loop ROOTDEV bs t = Panic ''balloc: out of blocks''
        | Some n \<Rightarrow> runs (balloc_loop ROOTDEV bs t) (\<lambda>r t'. r = n \<and> txstep t i p H (alloc_updates t n) t')"
      by (rule Cons.IH)
        (use st Cons.prems lframe_sel [OF lt] lframe_fs(1) [OF lt] nt fs_geom_txstep [OF st] held_txstep [OF st]
          used_txstep [OF st] bitmap_block_lframe [OF lt] in \<open>simp_all add: txstep_def\<close>)
    then show ?thesis
      unfolding e ff same(1) by (auto split: option.splits elim!: runs_conseq simp: same(2) dest: txstep_trans [OF st _ order_refl])
  qed
qed

lemma bitmap_starts_ok: "b \<in> set (bitmap_starts sz) \<Longrightarrow> b < sz \<and> b mod BPB = 0"
proof -
  assume "b \<in> set (bitmap_starts sz)"
  then obtain k where k: "b = k * BPB" "k < (sz + BPB - 1) div BPB" unfolding bitmap_starts_def set_map set_upt by (elim imageE) (simp, blast)
  then have "Suc k * BPB \<le> sz + BPB - 1" using BPB_pos by (metis Suc_leI less_eq_div_iff_mult_less_eq)
  then show ?thesis using k BPB_pos by simp
qed

lemma balloc_runs:
  assumes "txinv s i p H" and "fs_geom s"
    and "\<forall>a\<in>H. \<not> bitmap_block s (b_blockno (buf_at s a)) \<and> used s (b_blockno (buf_at s a))"
    and "card H + nat (log_n s) + 1 < NBUF" "log_n s + 2 < log_size s" "1 \<le> log_outstanding s"
    and n: "n < sb_size (sb s)" "\<not> used s n" "\<forall>m < n. used s m"
  shows "runs (balloc ROOTDEV s) (\<lambda>r t. r = n \<and> txstep s i p H (alloc_updates s n) t)"
proof -
  have "first_free s (bitmap_starts (sb_size (sb s))) = Some n"
    unfolding first_free_def concat_starts find_Some_iff by (intro exI [of _ n]) (use n in auto)
  then show ?thesis using balloc_loop_runs [OF assms(1,2) _ assms(3-6), of "bitmap_starts (sb_size (sb s))"]
    bitmap_starts_ok by (simp add: balloc_def)
qed

lemma balloc_full:
  assumes "txinv s i p H" and "fs_geom s"
    and "\<forall>a\<in>H. \<not> bitmap_block s (b_blockno (buf_at s a)) \<and> used s (b_blockno (buf_at s a))"
    and "card H + nat (log_n s) + 1 < NBUF" "log_n s + 2 < log_size s" "1 \<le> log_outstanding s"
    and n: "\<forall>m < sb_size (sb s). used s m"
  shows "balloc ROOTDEV s = Panic ''balloc: out of blocks''"
proof -
  have "first_free s (bitmap_starts (sb_size (sb s))) = None"
    unfolding first_free_def concat_starts find_None_iff using n by simp
  then show ?thesis using balloc_loop_runs [OF assms(1,2) _ assms(3-6), of "bitmap_starts (sb_size (sb s))"]
    bitmap_starts_ok by (simp add: balloc_def)
qed

text \<open>After an allocation the layout is still as the allocator needs it, with one more block in use.\<close>

lemma alloc_used:
  assumes st: "txstep s i p H (alloc_updates s n) t" and tx: "txinv s i p H" and g: "fs_geom s"
    and n: "n < sb_size (sb s)" "\<not> used s n"
  shows "m < sb_size (sb s) \<Longrightarrow> used t m \<longleftrightarrow> m = n \<or> used s m" and "fs_geom t"
proof -
  have l: "lframe s t" and b: "blk t = ((blk s)(BBLOCK n (sb s) := bmap_set (n mod BPB) (blk s (BBLOCK n (sb s)))))(n := replicate BSIZE 0)"
    using st by (simp_all add: txstep_def alloc_updates_def)
  have len: "length (blk s (BBLOCK n (sb s))) = BSIZE" using tx blk_length by (auto simp: txinv_def)
  have nb: "\<not> bitmap_block s n" using g n by (auto simp: fs_geom_def)
  note u = used_upd [OF l len n(1) b nb]
  show "m < sb_size (sb s) \<Longrightarrow> used t m \<longleftrightarrow> m = n \<or> used s m" by (rule u)
  show "fs_geom t"
    using g u lframe_sel(6,8) [OF l] lframe_fs(1) [OF l] bitmap_block_lframe [OF l] by (auto simp: fs_geom_def)
qed

lemma bfree_runs:
  assumes tx: "txinv s i p H" and g: "fs_geom s" and b: "b < sb_size (sb s)" "used s b"
    and held: "\<forall>a\<in>H. \<not> bitmap_block s (b_blockno (buf_at s a))"
    and room: "card H + nat (log_n s) < NBUF" "log_n s < log_size s - 1" "1 \<le> log_outstanding s"
  shows "runs (bfree ROOTDEV b s) (\<lambda>_. txstep s i p H [(BBLOCK b (sb s), bmap_clear (b mod BPB) (blk s (BBLOCK b (sb s))))])"
proof -
  let ?B = "BBLOCK b (sb s)"
  have bb: "bitmap_block s ?B" using b by (auto simp: bitmap_block_def)
  have Bok: "?B < disksize s" "?B \<notin> log_region s" using g bb by (auto simp: fs_geom_def)
  have fB: "\<forall>a\<in>H. b_blockno (buf_at s a) \<noteq> ?B" using held bb by auto
  have len: "length (bmap_clear (b mod BPB) (blk s ?B)) = BSIZE" using tx blk_length by (auto simp: txinv_def)
  obtain bp u v t where r: "bread ROOTDEV ?B s = Ok bp u" "b_data (buf_at u bp) = blk s ?B" "lframe s u"
    "log_write bp (set_bdata bp (bmap_clear (b mod BPB)) u) = Ok () v" "brelse bp v = Ok () t"
    and st: "txstep s i p H [(?B, bmap_clear (b mod BPB) (blk s ?B))] t"
    by (rule tx_modify [where f = "bmap_clear (b mod BPB)", OF tx Bok fB room len])
  then show ?thesis using b(2) by (simp add: bfree_def used_def Let_def)
qed

lemma bfree_unused:
  assumes tx: "txinv s i p H" and g: "fs_geom s" and b: "b < sb_size (sb s)" "\<not> used s b"
    and held: "\<forall>a\<in>H. \<not> bitmap_block s (b_blockno (buf_at s a))" and room: "card H + nat (log_n s) < NBUF"
  shows "bfree ROOTDEV b s = Panic ''freeing free block''"
proof -
  let ?B = "BBLOCK b (sb s)"
  have bb: "bitmap_block s ?B" using b by (auto simp: bitmap_block_def)
  have Bok: "?B < disksize s" using g bb by (auto simp: fs_geom_def)
  have fB: "\<forall>a\<in>H. b_blockno (buf_at s a) \<noteq> ?B" using held bb by auto
  obtain bp u t where "bread ROOTDEV ?B s = Ok bp u" "b_data (buf_at u bp) = blk s ?B"
    by (rule tx_peek [OF tx Bok fB room])
  then show ?thesis using b(2) by (simp add: bfree_def used_def Let_def)
qed

lemma free_used:
  assumes st: "txstep s i p H [(BBLOCK b (sb s), bmap_clear (b mod BPB) (blk s (BBLOCK b (sb s))))] t"
    and tx: "txinv s i p H" and b: "b < sb_size (sb s)"
  shows "m < sb_size (sb s) \<Longrightarrow> used t m \<longleftrightarrow> m \<noteq> b \<and> used s m"
proof -
  assume m: "m < sb_size (sb s)"
  have l: "lframe s t" and bt: "blk t = (blk s)(BBLOCK b (sb s) := bmap_clear (b mod BPB) (blk s (BBLOCK b (sb s))))"
    using st by (simp_all add: txstep_def)
  have len: "length (blk s (BBLOCK b (sb s))) = BSIZE" using tx blk_length by (auto simp: txinv_def)
  show ?thesis
    using bmap_bit_set(2) [of "b mod BPB" "m mod BPB" "blk s (BBLOCK b (sb s))"] len BPB_pos BBLOCK_inj [of m "sb s" b]
    by (auto simp: used_def bt lframe_fs(1) [OF l])
qed

section \<open>Inodes on disk\<close>

lemma length_put_addrs [simp]: "length (put_addrs k as d) = length d"
  by (induction k as d rule: put_addrs.induct) simp_all

lemma put_addrs_before: "j + 4 \<le> k \<Longrightarrow> get32 (put_addrs k as d) j = get32 d j"
  "j + 2 \<le> k \<Longrightarrow> get16 (put_addrs k as d) j = get16 d j"
  by (induction k as d rule: put_addrs.induct) (simp_all add: get32_set32_other get16_set32_other)

lemma put_addrs_after: "k + 4 * length as \<le> j \<Longrightarrow> get32 (put_addrs k as d) j = get32 d j"
  "k + 4 * length as \<le> j \<Longrightarrow> get16 (put_addrs k as d) j = get16 d j"
  by (induction k as d rule: put_addrs.induct) (simp_all add: get32_set32_other get16_set32_other)

lemma put_addrs_get:
  "j < length as \<Longrightarrow> k + 4 * length as \<le> length d \<Longrightarrow> get32 (put_addrs k as d) (k + 4 * j) = of_nat (as ! j)"
proof (induction k as d arbitrary: j rule: put_addrs.induct)
  case (2 k a as d)
  show ?case
  proof (cases j)
    case 0
    then show ?thesis using 2(3) by (simp add: put_addrs_before)
  next
    case (Suc j')
    then show ?thesis using 2(1) [of j'] 2(2,3) by (simp add: algebra_simps)
  qed
qed simp

text \<open>The fields of an inode fit their place on disk.\<close>

definition short_ok :: "int \<Rightarrow> bool" where
  "short_ok x \<longleftrightarrow> - (2 ^ 15) \<le> x \<and> x < 2 ^ 15"

definition inode_fits :: "inode \<Rightarrow> bool" where
  "inode_fits x \<longleftrightarrow> short_ok (i_type x) \<and> short_ok (i_major x) \<and> short_ok (i_minor x) \<and> short_ok (i_nlink x) \<and>
     length (i_addrs x) = NDIRECT + 1 \<and> (\<forall>a\<in>set (i_addrs x). a < 2 ^ 32)"

definition copy_disk_fields :: "inode \<Rightarrow> inode \<Rightarrow> inode" where
  "copy_disk_fields x y = y\<lparr>i_type := i_type x, i_major := i_major x, i_minor := i_minor x, i_nlink := i_nlink x,
     i_size := i_size x, i_addrs := i_addrs x\<rparr>"

lemma dip_off_lt: "dip_off n + 64 \<le> BSIZE"
proof -
  have "n mod 8 \<le> 7" using mod_less_divisor [of 8 n] by simp
  then show ?thesis by (simp add: dip_off_def IPB_def sizeof_dinode_def BSIZE_def)
qed

lemma short_roundtrip: "short_ok x \<Longrightarrow> sint (of_int x :: u16) = x"
  by (simp add: short_ok_def signed_of_int signed_take_bit_int_eq_self)

lemma length_dip_put [simp]: "length (dip_put x d) = length d"
  by (simp add: dip_put_def Let_def)

lemma dip_get_put:
  assumes fit: "inode_fits x" and len: "length d = BSIZE" and same: "i_inum y = i_inum x"
  shows "dip_get (dip_put x d) y = copy_disk_fields x y"
proof -
  let ?k = "dip_off (i_inum x)"
  have k: "?k + 64 \<le> length d" using dip_off_lt len by simp
  have la: "length (i_addrs x) = 13" using fit by (simp add: inode_fits_def NDIRECT_def)
  have "dip_addrs (dip_put x d) ?k = i_addrs x"
  proof (rule nth_equalityI)
    fix j assume "j < length (dip_addrs (dip_put x d) ?k)"
    then have j: "j < 13" by (simp add: dip_addrs_def NDIRECT_def)
    then have "i_addrs x ! j < 2 ^ 32" using fit la by (simp add: inode_fits_def)
    then have u: "unat (of_nat (i_addrs x ! j) :: u32) = i_addrs x ! j" by (simp add: unat_of_nat)
    have "get32 (dip_put x d) (?k + 12 + 4 * j) = of_nat (i_addrs x ! j)"
      unfolding dip_put_def Let_def by (rule put_addrs_get) (use j la k in simp_all)
    then show "dip_addrs (dip_put x d) ?k ! j = i_addrs x ! j"
      using j u by (simp add: dip_addrs_def NDIRECT_def)
  qed (simp add: dip_addrs_def la NDIRECT_def)
  then show ?thesis
    using fit k unfolding inode_fits_def
    by (simp add: dip_get_def Let_def same copy_disk_fields_def dip_short_def)
      (simp add: dip_put_def Let_def put_addrs_before get16_set16_other get16_set32_other get32_set32_other get32_set16_other short_roundtrip)
qed

lemma dip_get_put_other:
  assumes fit: "inode_fits x" and ne: "dip_off (i_inum y) \<noteq> dip_off (i_inum x)"
  shows "dip_get (dip_put x d) y = dip_get d y"
proof -
  let ?k = "dip_off (i_inum x)" and ?m = "dip_off (i_inum y)"
  have sep: "?m + 64 \<le> ?k \<or> ?k + 64 \<le> ?m" using ne by (auto simp: dip_off_def sizeof_dinode_def)
  have la: "length (i_addrs x) = 13" using fit by (simp add: inode_fits_def NDIRECT_def)
  have g16: "get16 (dip_put x d) (?m + j) = get16 d (?m + j)" if "j + 2 \<le> 64" for j
    using sep that la unfolding dip_put_def Let_def
    by (elim disjE) (simp_all add: put_addrs_before put_addrs_after get16_set16_other get16_set32_other)
  have g32: "get32 (dip_put x d) (?m + j) = get32 d (?m + j)" if "j + 4 \<le> 64" for j
    using sep that la unfolding dip_put_def Let_def
    by (elim disjE) (simp_all add: put_addrs_before put_addrs_after get32_set16_other get32_set32_other)
  have "get32 (dip_put x d) (?m + 12 + 4 * j) = get32 d (?m + 12 + 4 * j)" if "j < NDIRECT + 1" for j
    using g32 [of "12 + 4 * j"] that by (simp add: NDIRECT_def add.assoc)
  then have "dip_addrs (dip_put x d) ?m = dip_addrs d ?m" by (simp add: dip_addrs_def)
  then show ?thesis using g16 [of 0] g16 [of 2] g16 [of 4] g16 [of 6] g32 [of 8]
    by (simp add: dip_get_def Let_def dip_short_def)
qed

section \<open>A small file system to look at\<close>

text \<open>
  24 blocks: boot block, superblock, one block of inodes, the bitmap, and data blocks of which the first
  is in use by a file of five bytes.  The log lies behind them.
\<close>

definition demo_sb :: superblock where
  "demo_sb = \<lparr>sb_size = 24, sb_nblocks = 20, sb_ninodes = 8, sb_nlog = 30, sb_logstart = 256, sb_inodestart = 2, sb_bmapstart = 3\<rparr>"

definition demo_image :: "nat \<Rightarrow> byte list" where
  "demo_image n = (if n = 3 then 0x1F # replicate 511 0 else if n = 4 then [1, 2, 3, 4, 5] @ replicate 507 0 else replicate BSIZE 0)"

definition demo_file :: inode where
  "demo_file = demo_inode\<lparr>i_dev := ROOTDEV, i_inum := 1, i_ref := 1, i_valid := True, i_type := T_FILE, i_nlink := 1,
     i_size := 5, i_addrs := 4 # replicate 12 0\<rparr>"

definition demo_fs :: fstate where
  "demo_fs = (demo_fstate demo_sb ((demo_on demo_image)\<lparr>log_outstanding := 1\<rparr>))\<lparr>icache := demo_file # replicate 49 demo_inode\<rparr>"

lemma demo_fs_sel:
  "sb demo_fs = demo_sb" "icache demo_fs = demo_file # replicate 49 demo_inode" "log_start demo_fs = 256" "log_size demo_fs = 30"
  "log_outstanding demo_fs = 1" "log_n demo_fs = 0" "log_dev demo_fs = ROOTDEV" "log_block demo_fs = replicate LOGSIZE 0"
  "bstate.truncate demo_fs = bstate.truncate (demo_on demo_image)"
  by (simp_all add: demo_fs_def demo_fstate_def cstate.extend_def fstate.fields_def demo_cstate_def lstate.extend_def
      demo_on_sel demo_on_def bstate.extend_def lstate.fields_def bstate.truncate_def bstate.make_def)

lemma demo_fs_txinv: "txinv demo_fs 0 0 {}"
proof -
  have len: "\<forall>n. length (demo_image n) = BSIZE" by (simp add: demo_image_def BSIZE_def)
  have "hdr_n (demo_image 256) = 0" by (simp add: demo_image_def hdr_n_def get32_def BSIZE_def)
  then have "txinv (demo_on demo_image) 0 0 {}"
    using demo_on_booted [OF len] by (simp add: txinv_def booted_def logged_def demo_on_sel demo_on_disk)
  moreover have "txinv demo_fs 0 0 {} = txinv (demo_on demo_image) 0 0 {}"
    by (rule txinv_cong) (simp_all add: demo_fs_sel demo_on_sel)
  ultimately show ?thesis by simp
qed

lemma demo_fs_disk: "disk demo_fs = demo_image" "disksize demo_fs = 1000"
  using core_sel(11,12) [of demo_fs] core_sel(11,12) [of "demo_on demo_image"] by (simp_all add: demo_fs_sel demo_on_disk)

lemma demo_fs_blk: "blk demo_fs = demo_image"
proof (rule ext)
  fix n
  have "dirty_blocks demo_fs = {}" using demo_fs_txinv by (simp add: txinv_def logged_def demo_fs_sel)
  then have "blk demo_fs n = disk demo_fs n" by (intro blk_clean_unheld [OF txinv_binv [OF demo_fs_txinv]]) simp_all
  then show "blk demo_fs n = demo_image n" by (simp add: demo_fs_disk)
qed

lemma demo_fs_used: "n < 24 \<Longrightarrow> used demo_fs n \<longleftrightarrow> n \<le> 4"
proof -
  assume n: "n < 24"
  have "used demo_fs n \<longleftrightarrow> bit ((0x1F # replicate 511 0 :: byte list) ! (n div 8)) (n mod 8)"
    using n by (simp add: used_def bmap_bit_def demo_fs_blk demo_fs_sel BBLOCK_def BPB_def BSIZE_def demo_sb_def demo_image_def)
  also have "\<dots> \<longleftrightarrow> n \<in> {0, 1, 2, 3, 4}"
  proof -
    have "n \<in> set [0..<24]" using n by simp
    then show ?thesis by (simp add: upt_conv_Cons upt_rec) (elim disjE; simp)
  qed
  finally show ?thesis by auto
qed

lemma demo_fs_bitmap: "bitmap_block demo_fs n \<longleftrightarrow> n = 3"
  by (auto simp: bitmap_block_def demo_fs_sel demo_sb_def BBLOCK_def BPB_def BSIZE_def intro!: exI [of _ 0])

lemma demo_fs_geom: "fs_geom demo_fs"
  using demo_fs_used by (auto simp: fs_geom_def demo_fs_bitmap demo_fs_sel demo_sb_def demo_fs_disk log_region_def)

section \<open>Properties\<close>

text \<open>
  C6. \<open>balloc\<close> returns the lowest block that the bitmap has as free: it becomes the one more block in use, it is zeroed,
  no block other than it and the bitmap changes, and the layout stays.  When every block is in use \<open>balloc\<close> panics.
\<close>

theorem balloc_correct:
  assumes tx: "txinv s i p {}" and g: "fs_geom s"
    and room: "log_n s + 2 < log_size s" "1 \<le> log_outstanding s"
  shows "case List.find (\<lambda>n. \<not> used s n) [0..<sb_size (sb s)] of
      None \<Rightarrow> balloc ROOTDEV s = Panic ''balloc: out of blocks''
    | Some n \<Rightarrow> runs (balloc ROOTDEV s) (\<lambda>r t. r = n \<and> txinv t i p {} \<and> fs_geom t \<and> disk t = disk s \<and>
        (\<forall>m < sb_size (sb s). used t m \<longleftrightarrow> m = n \<or> used s m) \<and> blk t n = replicate BSIZE 0 \<and>
        (\<forall>m. m \<noteq> n \<and> \<not> bitmap_block s m \<longrightarrow> blk t m = blk s m))"
proof -
  have nb: "card ({} :: nat set) + nat (log_n s) + 1 < NBUF"
    using tx room by (auto simp: txinv_def log_geometry_def LOGSIZE_def MAXOPBLOCKS_def NBUF_def)
  have H: "\<forall>a\<in>{}. \<not> bitmap_block s (b_blockno (buf_at s a)) \<and> used s (b_blockno (buf_at s a))" by simp
  show ?thesis
  proof (cases "List.find (\<lambda>n. \<not> used s n) [0..<sb_size (sb s)]")
    case None
    then have "\<forall>m < sb_size (sb s). used s m" by (simp add: find_None_iff)
    then show ?thesis using balloc_full [OF tx g H nb room] None by simp
  next
    case (Some n)
    then have n: "n < sb_size (sb s)" "\<not> used s n" "\<forall>m < n. used s m" by (auto simp: find_Some_iff)
    have "runs (balloc ROOTDEV s) (\<lambda>r t. r = n \<and> txstep s i p {} (alloc_updates s n) t)"
      by (rule balloc_runs [OF tx g H nb room n])
    then obtain t where r: "balloc ROOTDEV s = Ok n t" and st: "txstep s i p {} (alloc_updates s n) t" by (auto elim: runsE)
    have "blk t = ((blk s)(BBLOCK n (sb s) := bmap_set (n mod BPB) (blk s (BBLOCK n (sb s)))))(n := replicate BSIZE 0)"
      using st by (simp add: txstep_def alloc_updates_def)
    moreover have "bitmap_block s (BBLOCK n (sb s))" using n by (auto simp: bitmap_block_def)
    ultimately have "blk t n = replicate BSIZE 0" "\<forall>m. m \<noteq> n \<and> \<not> bitmap_block s m \<longrightarrow> blk t m = blk s m" by auto
    then show ?thesis using Some r st alloc_used [OF st tx g n(1,2)] by (simp add: txstep_def)
  qed
qed

theorem balloc_correct_witness:
  "\<exists>t. balloc ROOTDEV demo_fs = Ok 5 t \<and> used t 5 \<and> \<not> used t 6 \<and> blk t 4 = blk demo_fs 4"
proof -
  have "List.find (\<lambda>n. \<not> used demo_fs n) [0..<sb_size (sb demo_fs)] = Some 5"
    unfolding find_Some_iff by (intro exI [of _ 5]) (use demo_fs_used in \<open>auto simp: demo_fs_sel demo_sb_def\<close>)
  then have "runs (balloc ROOTDEV demo_fs) (\<lambda>r t. r = 5 \<and> (\<forall>m < 24. used t m \<longleftrightarrow> m = 5 \<or> used demo_fs m) \<and>
      (\<forall>m. m \<noteq> 5 \<and> \<not> bitmap_block demo_fs m \<longrightarrow> blk t m = blk demo_fs m))"
    using balloc_correct [OF demo_fs_txinv demo_fs_geom] by (auto simp: demo_fs_sel demo_sb_def elim!: runsE)
  then obtain t where "balloc ROOTDEV demo_fs = Ok 5 t" and t: "\<forall>m < 24. used t m \<longleftrightarrow> m = 5 \<or> used demo_fs m"
    "\<forall>m. m \<noteq> 5 \<and> \<not> bitmap_block demo_fs m \<longrightarrow> blk t m = blk demo_fs m" by (auto elim!: runsE)
  moreover have "used t 5" "\<not> used t 6" "blk t 4 = blk demo_fs 4" using t demo_fs_used [of 6] by (simp_all add: demo_fs_bitmap)
  ultimately show ?thesis by blast
qed

text \<open>
  C7. \<open>bfree\<close> takes exactly the given block out of use and changes no block but the bitmap; freeing a block
  that is not in use is caught by a panic.
\<close>

theorem bfree_correct:
  assumes tx: "txinv s i p {}" and g: "fs_geom s" and b: "b < sb_size (sb s)"
    and room: "log_n s + 1 < log_size s" "1 \<le> log_outstanding s"
  shows "if used s b
    then runs (bfree ROOTDEV b s) (\<lambda>_ t. txinv t i p {} \<and> disk t = disk s \<and>
      (\<forall>m < sb_size (sb s). used t m \<longleftrightarrow> m \<noteq> b \<and> used s m) \<and> (\<forall>m. \<not> bitmap_block s m \<longrightarrow> blk t m = blk s m))
    else bfree ROOTDEV b s = Panic ''freeing free block''"
proof -
  have nb: "card ({} :: nat set) + nat (log_n s) < NBUF"
    using tx room by (auto simp: txinv_def log_geometry_def LOGSIZE_def MAXOPBLOCKS_def NBUF_def)
  have H: "\<forall>a\<in>{}. \<not> bitmap_block s (b_blockno (buf_at s a))" by simp
  have bb: "bitmap_block s (BBLOCK b (sb s))" using b by (auto simp: bitmap_block_def)
  show ?thesis
  proof (cases "used s b")
    case True
    have "log_n s < log_size s - 1" using room by simp
    then have "runs (bfree ROOTDEV b s) (\<lambda>_. txstep s i p {} [(BBLOCK b (sb s), bmap_clear (b mod BPB) (blk s (BBLOCK b (sb s))))])"
      using bfree_runs [OF tx g b True H nb] room by simp
    then obtain t where r: "bfree ROOTDEV b s = Ok () t"
      and st: "txstep s i p {} [(BBLOCK b (sb s), bmap_clear (b mod BPB) (blk s (BBLOCK b (sb s))))] t" by (auto elim: runsE)
    have "\<forall>m. \<not> bitmap_block s m \<longrightarrow> blk t m = blk s m" using st bb by (auto simp: txstep_def)
    then show ?thesis using True r st free_used [OF st tx b] by (simp add: txstep_def)
  next
    case False
    then show ?thesis using bfree_unused [OF tx g b False H nb] by simp
  qed
qed

theorem bfree_correct_witness:
  "(\<exists>t. bfree ROOTDEV 4 demo_fs = Ok () t \<and> \<not> used t 4 \<and> used t 3) \<and> bfree ROOTDEV 9 demo_fs = Panic ''freeing free block''"
proof -
  have "runs (bfree ROOTDEV 4 demo_fs) (\<lambda>_ t. \<forall>m < 24. used t m \<longleftrightarrow> m \<noteq> 4 \<and> used demo_fs m)"
    using bfree_correct [OF demo_fs_txinv demo_fs_geom, of 4] demo_fs_used [of 4] by (auto simp: demo_fs_sel demo_sb_def elim!: runsE)
  then obtain t where "bfree ROOTDEV 4 demo_fs = Ok () t" and t: "\<forall>m < 24. used t m \<longleftrightarrow> m \<noteq> 4 \<and> used demo_fs m" by (auto elim!: runsE)
  moreover have "\<not> used t 4" "used t 3" using t demo_fs_used [of 3] by simp_all
  ultimately show ?thesis
    using bfree_correct [OF demo_fs_txinv demo_fs_geom, of 9] demo_fs_used [of 9] by (auto simp: demo_fs_sel demo_sb_def)
qed

text \<open>
  C8. An inode survives its way to disk: what \<open>iupdate\<close> stores into the block of inodes is what \<open>ilock\<close> reads back, for
  every field that has a place on disk, and the other seven inodes of the block are as before.
\<close>

theorem dinode_roundtrip:
  assumes "inode_fits x" and "length d = BSIZE"
  shows "length (dip_put x d) = BSIZE \<and>
    (i_inum y = i_inum x \<longrightarrow> dip_get (dip_put x d) y = copy_disk_fields x y) \<and>
    (dip_off (i_inum y) \<noteq> dip_off (i_inum x) \<longrightarrow> dip_get (dip_put x d) y = dip_get d y)"
  using assms dip_get_put dip_get_put_other by auto

theorem dinode_roundtrip_witness:
  "dip_get (dip_put demo_file (replicate 512 0)) (demo_inode\<lparr>i_inum := 1\<rparr>) = demo_inode\<lparr>i_inum := 1, i_type := T_FILE,
     i_nlink := 1, i_size := 5, i_addrs := 4 # replicate 12 0\<rparr>"
proof -
  have "inode_fits demo_file"
    by (auto simp: inode_fits_def demo_file_def demo_inode_def short_ok_def T_FILE_def NDIRECT_def)
  then have "dip_get (dip_put demo_file (replicate 512 0)) (demo_inode\<lparr>i_inum := 1\<rparr>) = copy_disk_fields demo_file (demo_inode\<lparr>i_inum := 1\<rparr>)"
    using dinode_roundtrip [of demo_file "replicate 512 0" "demo_inode\<lparr>i_inum := 1\<rparr>"] by (simp add: BSIZE_def demo_file_def)
  then show ?thesis by (simp add: copy_disk_fields_def demo_file_def demo_inode_def)
qed

end
