(* ===== verification/FileMap.thy ===== *)
theory FileMap
  imports Blocks
begin

text \<open>
  The map from the blocks of a file to disk blocks (\<^verbatim>\<open>bmap\<close> of \<^verbatim>\<open>fs.c\<close>): the invariant of a file in use,
  that each way of giving a file a block (at a direct place, as the indirect block, as an entry of the
  indirect block) keeps it, and what \<open>bmap\<close> does for a block that is there and for one that is not.
\<close>

section \<open>Changing an inode in memory\<close>

definition set_addrs :: "nat \<Rightarrow> nat list \<Rightarrow> 'z fstate_scheme \<Rightarrow> 'z fstate_scheme" where
  "set_addrs ip as s = upd_inode ip (\<lambda>x. x\<lparr>i_addrs := as\<rparr>) s"

lemma blk_more_cong: "bufs t = bufs s \<Longrightarrow> disk t = disk s \<Longrightarrow> blk t = blk s"
  by (rule ext) (simp add: blk_def cong: option.case_cong)

lemma upd_inode_sel [simp]:
  "sb (upd_inode ip f s) = sb s" "disk (upd_inode ip f s) = disk s" "dwrites (upd_inode ip f s) = dwrites s"
  "disksize (upd_inode ip f s) = disksize s" "log_n (upd_inode ip f s) = log_n s" "log_block (upd_inode ip f s) = log_block s"
  "log_size (upd_inode ip f s) = log_size s" "log_outstanding (upd_inode ip f s) = log_outstanding s"
  "bufs (upd_inode ip f s) = bufs s" "devsw_read (upd_inode ip f s) = devsw_read s"
  "devsw_write (upd_inode ip f s) = devsw_write s" "length (icache (upd_inode ip f s)) = length (icache s)"
  "ip < length (icache s) \<Longrightarrow> inode_at (upd_inode ip f s) ip = f (inode_at s ip)"
  "j \<noteq> ip \<Longrightarrow> inode_at (upd_inode ip f s) j = inode_at s j"
  by (simp_all add: upd_inode_def upd_nth_def)

lemma upd_inode_blk [simp]: "blk (upd_inode ip f s) = blk s"
  by (rule blk_more_cong) simp_all

lemma upd_inode_log [simp]: "log_region (upd_inode ip f s) = log_region s" "logged (upd_inode ip f s) = logged s"
  by (simp_all add: upd_inode_def log_region_def logged_def)

lemma upd_inode_used [simp]: "used (upd_inode ip f s) = used s" "bitmap_block (upd_inode ip f s) = bitmap_block s"
  by (rule ext, simp add: used_def) (rule ext, simp add: bitmap_block_def)

lemma upd_inode_txinv [simp]: "txinv (upd_inode ip f s) i p H = txinv s i p H"
  by (rule txinv_cong) (simp_all add: upd_inode_def bstate.truncate_def bstate.make_def)

lemma upd_inode_geom [simp]: "fs_geom (upd_inode ip f s) = fs_geom s"
  by (simp add: fs_geom_def)

lemma upd_inode_held [simp]: "held_same H (upd_inode ip f s) t = held_same H s t" "held_same H t (upd_inode ip f s) = held_same H t s"
  by (simp_all add: held_same_def)

lemma upd_inode_lframe:
  assumes "lframe s t"
  shows "lframe (upd_inode ip f s) (upd_inode ip f t)"
proof -
  have ic: "icache t = icache s" by (rule lframe_fs(2) [OF assms])
  have e: "t = cupd (s\<lparr>log_block := log_block t, log_n := log_n t\<rparr>) t" and q: "ptab_sim (ptable s) (ptable t)"
    using assms by (simp_all add: lframe_def cframe_def)
  have "t\<lparr>icache := x\<rparr> = cupd (s\<lparr>icache := x, log_block := log_block t, log_n := log_n t\<rparr>) t" for x
    by (subst e) (simp add: cupd_def)
  then show ?thesis using q ic by (simp add: lframe_def cframe_def upd_inode_def cupd_def)
qed

lemma upd_inode_id: "ip < length (icache s) \<Longrightarrow> f (inode_at s ip) = inode_at s ip \<Longrightarrow> upd_inode ip f s = s"
  by (simp add: upd_inode_def upd_nth_def)

lemma upd_inode_twice: "upd_inode ip f (upd_inode ip g s) = upd_inode ip (f \<circ> g) s"
  by (cases "ip < length (icache s)") (simp_all add: upd_inode_def upd_nth_def list_update_beyond)

lemma upd_inode_txstep: "txstep s i p H us t \<Longrightarrow> txstep (upd_inode ip f s) i p H us (upd_inode ip f t)"
  by (simp add: txstep_def upd_inode_lframe)

lemma set_addrs_same: "ip < length (icache s) \<Longrightarrow> i_addrs (inode_at s ip) = as \<Longrightarrow> set_addrs ip as s = s"
  unfolding set_addrs_def by (rule upd_inode_id) simp_all

lemma set_addrs_twice [simp]: "set_addrs ip as (set_addrs ip bs s) = set_addrs ip as s"
  by (simp add: set_addrs_def upd_inode_twice comp_def)

section \<open>A step of a file operation\<close>

text \<open>
  \<open>fstep s i p H ip us t\<close>: a part of a transaction that, beside the block updates \<open>us\<close>, may change the
  block addresses that inode \<open>ip\<close> holds in memory, and no other field of any inode.
\<close>

definition fstep :: "'z fstate_scheme \<Rightarrow> nat \<Rightarrow> nat \<Rightarrow> nat set \<Rightarrow> nat \<Rightarrow> (nat \<times> byte list) list \<Rightarrow> 'z fstate_scheme \<Rightarrow> bool" where
  "fstep s i p H ip us t \<longleftrightarrow> ip < length (icache s) \<and> (\<exists>as. txstep (set_addrs ip as s) i p H us t)"

lemma fstep_refl: "ip < length (icache s) \<Longrightarrow> txinv s i p H \<Longrightarrow> fstep s i p H ip [] s"
  unfolding fstep_def by (rule conjI, assumption, rule exI [of _ "i_addrs (inode_at s ip)"]) (simp add: set_addrs_same txstep_refl)

lemma txstep_fstep: "ip < length (icache s) \<Longrightarrow> txstep s i p H us t \<Longrightarrow> fstep s i p H ip us t"
  unfolding fstep_def by (rule conjI, assumption, rule exI [of _ "i_addrs (inode_at s ip)"]) (simp add: set_addrs_same)

lemma fstep_trans:
  assumes "fstep s i p H ip us t" and "fstep t i p G ip vs u" and "G \<subseteq> H"
  shows "fstep s i p G ip (us @ vs) u"
proof -
  obtain as bs where 1: "txstep (set_addrs ip as s) i p H us t" and 2: "txstep (set_addrs ip bs t) i p G vs u"
    using assms(1,2) by (auto simp: fstep_def)
  have "txstep (set_addrs ip bs s) i p H us (set_addrs ip bs t)"
    using upd_inode_txstep [OF 1] unfolding set_addrs_def [symmetric] by (metis set_addrs_def set_addrs_twice)
  then show ?thesis using txstep_trans [OF _ 2 assms(3)] assms(1) by (auto simp: fstep_def)
qed

lemma fstep_link: "fstep s i p H ip us t \<Longrightarrow> fstep s i p H ip us (set_addrs ip as t)"
  unfolding fstep_def by (metis set_addrs_def set_addrs_twice upd_inode_txstep)

lemma fstep_facts:
  assumes "fstep s i p H ip us t"
  shows "ip < length (icache s)" "txinv t i p H" "blk t = dapply (blk s) us" "log_n t \<le> log_n s + int (length us)" "log_n s \<le> log_n t"
    "set (logged s) \<subseteq> set (logged t)" "held_same H s t" "disk t = disk s" "dwrites t = dwrites s"
    "sb t = sb s" "log_size t = log_size s" "log_outstanding t = log_outstanding s" "disksize t = disksize s"
    "log_region t = log_region s" "length (icache t) = length (icache s)" "j \<noteq> ip \<Longrightarrow> inode_at t j = inode_at s j"
    "\<exists>as. inode_at t ip = (inode_at s ip)\<lparr>i_addrs := as\<rparr>"
proof -
  obtain as where ip: "ip < length (icache s)" and st: "txstep (set_addrs ip as s) i p H us t" using assms by (auto simp: fstep_def)
  then have l: "lframe (set_addrs ip as s) t" by (simp add: txstep_def)
  note L = lframe_sel [OF l] lframe_fs [OF l]
  show "ip < length (icache s)" by (rule ip)
  show "txinv t i p H" "blk t = dapply (blk s) us" "log_n t \<le> log_n s + int (length us)" "log_n s \<le> log_n t"
    "set (logged s) \<subseteq> set (logged t)" "held_same H s t" "disk t = disk s" "dwrites t = dwrites s"
    using st by (simp_all add: txstep_def set_addrs_def)
  show "sb t = sb s" "log_size t = log_size s" "log_outstanding t = log_outstanding s" "disksize t = disksize s"
    "log_region t = log_region s" "length (icache t) = length (icache s)" "j \<noteq> ip \<Longrightarrow> inode_at t j = inode_at s j"
    using L by (simp_all add: set_addrs_def)
  show "\<exists>as. inode_at t ip = (inode_at s ip)\<lparr>i_addrs := as\<rparr>" using L(11) ip by (auto simp: set_addrs_def)
qed

section \<open>The blocks of a file\<close>

text \<open>
  \<open>fblock s ip bn\<close> is the disk block that holds block \<open>bn\<close> of the file, \<open>0\<close> when there is none: one of the
  addresses of the inode, or an entry of its indirect block.
\<close>

definition indirect :: "'z fstate_scheme \<Rightarrow> nat \<Rightarrow> nat" where
  "indirect s ip = i_addrs (inode_at s ip) ! NDIRECT"

definition fblock :: "'z fstate_scheme \<Rightarrow> nat \<Rightarrow> nat \<Rightarrow> nat" where
  "fblock s ip bn = (if bn < NDIRECT then i_addrs (inode_at s ip) ! bn
     else if indirect s ip = 0 then 0 else unat (get32 (blk s (indirect s ip)) (4 * (bn - NDIRECT))))"

definition inode_block :: "'z fstate_scheme \<Rightarrow> nat \<Rightarrow> bool" where
  "inode_block s n \<longleftrightarrow> (\<exists>m < sb_ninodes (sb s). n = IBLOCK m (sb s))"

definition fs_layout :: "'z fstate_scheme \<Rightarrow> bool" where
  "fs_layout s \<longleftrightarrow> fs_geom s \<and> sb_size (sb s) < 2 ^ 32 \<and> used s 0 \<and>
     (\<forall>n. inode_block s n \<longrightarrow> 0 < n \<and> n < sb_size (sb s) \<and> used s n \<and> n \<notin> log_region s \<and> \<not> bitmap_block s n)"

definition data_block :: "'z fstate_scheme \<Rightarrow> nat \<Rightarrow> bool" where
  "data_block s n \<longleftrightarrow> n < sb_size (sb s) \<and> used s n \<and> n \<notin> log_region s \<and> \<not> bitmap_block s n \<and> \<not> inode_block s n"

text \<open>
  The invariant of a file in use: its inode is a regular one of the root device, each block it refers to
  is a data block in use, and no two of its references are to the same block.
\<close>

definition file_inv :: "'z fstate_scheme \<Rightarrow> nat \<Rightarrow> bool" where
  "file_inv s ip \<longleftrightarrow> ip < length (icache s) \<and> i_dev (inode_at s ip) = ROOTDEV \<and> i_inum (inode_at s ip) < sb_ninodes (sb s) \<and>
     length (i_addrs (inode_at s ip)) = NDIRECT + 1 \<and> fs_layout s \<and>
     (indirect s ip \<noteq> 0 \<longrightarrow> data_block s (indirect s ip)) \<and>
     (\<forall>bn < MAXFILE. fblock s ip bn \<noteq> 0 \<longrightarrow> data_block s (fblock s ip bn) \<and> fblock s ip bn \<noteq> indirect s ip) \<and>
     (\<forall>m < MAXFILE. \<forall>n < MAXFILE. fblock s ip m = fblock s ip n \<and> fblock s ip m \<noteq> 0 \<longrightarrow> m = n)"

lemma file_inv_facts:
  assumes "file_inv s ip"
  shows "ip < length (icache s)" "i_dev (inode_at s ip) = ROOTDEV" "i_inum (inode_at s ip) < sb_ninodes (sb s)"
    "length (i_addrs (inode_at s ip)) = NDIRECT + 1" "fs_layout s" "indirect s ip \<noteq> 0 \<Longrightarrow> data_block s (indirect s ip)"
    "bn < MAXFILE \<Longrightarrow> fblock s ip bn \<noteq> 0 \<Longrightarrow> data_block s (fblock s ip bn)"
    "bn < MAXFILE \<Longrightarrow> fblock s ip bn \<noteq> 0 \<Longrightarrow> fblock s ip bn \<noteq> indirect s ip"
    "m < MAXFILE \<Longrightarrow> n < MAXFILE \<Longrightarrow> fblock s ip m = fblock s ip n \<Longrightarrow> fblock s ip m \<noteq> 0 \<Longrightarrow> m = n"
  using assms by (simp_all add: file_inv_def)

lemma data_block_disk: "fs_layout s \<Longrightarrow> data_block s n \<Longrightarrow> n < disksize s \<and> n < 2 ^ 32"
  by (auto simp: data_block_def fs_layout_def fs_geom_def)

lemma indirect_set_addrs [simp]:
  assumes "ip < length (icache s)"
  shows "indirect (set_addrs ip as s) ip = as ! NDIRECT"
  using assms by (simp add: set_addrs_def indirect_def)

lemma set_addrs_sel [simp]:
  "blk (set_addrs ip as s) = blk s" "used (set_addrs ip as s) = used s" "sb (set_addrs ip as s) = sb s"
  "bitmap_block (set_addrs ip as s) = bitmap_block s" "log_region (set_addrs ip as s) = log_region s"
  "fs_geom (set_addrs ip as s) = fs_geom s" "length (icache (set_addrs ip as s)) = length (icache s)"
  "ip < length (icache s) \<Longrightarrow> inode_at (set_addrs ip as s) ip = (inode_at s ip)\<lparr>i_addrs := as\<rparr>"
  "log_n (set_addrs ip as s) = log_n s" "log_size (set_addrs ip as s) = log_size s"
  "log_outstanding (set_addrs ip as s) = log_outstanding s" "txinv (set_addrs ip as s) i p H = txinv s i p H"
  by (simp_all add: set_addrs_def)

lemma set_addrs_inode_block [simp]: "inode_block (set_addrs ip as s) = inode_block s"
  by (rule ext) (simp add: inode_block_def)

lemma set_addrs_data_block [simp]: "data_block (set_addrs ip as s) = data_block s" "fs_layout (set_addrs ip as s) = fs_layout s"
  by (rule ext, simp add: data_block_def) (simp add: fs_layout_def)

text \<open>Giving a file a block at one of the direct places, or an indirect block.\<close>

lemma link_direct:
  assumes f: "file_inv s ip" and bn: "bn < NDIRECT" "fblock s ip bn = 0" and n: "data_block s n" "n \<noteq> 0"
    "n \<noteq> indirect s ip" "\<forall>m < MAXFILE. fblock s ip m \<noteq> n" and t: "t = set_addrs ip ((i_addrs (inode_at s ip))[bn := n]) s"
  shows "fblock t ip = (fblock s ip)(bn := n)" "indirect t ip = indirect s ip" "file_inv t ip"
proof -
  note F = file_inv_facts [OF f]
  show i: "indirect t ip = indirect s ip" using F(1) bn by (simp add: t indirect_def [of s])
  show b: "fblock t ip = (fblock s ip)(bn := n)"
    using F(1,4) bn i by (auto simp: fblock_def t fun_eq_iff nth_list_update)
  show "file_inv t ip"
    unfolding file_inv_def b i using F n by (auto simp: t)
qed

lemma link_indirect:
  assumes f: "file_inv s ip" and i0: "indirect s ip = 0" and n: "data_block s n" "n \<noteq> 0"
    "\<forall>m < MAXFILE. fblock s ip m \<noteq> n" and z: "blk s n = replicate BSIZE 0" and t: "t = set_addrs ip ((i_addrs (inode_at s ip))[NDIRECT := n]) s"
  shows "m < MAXFILE \<Longrightarrow> fblock t ip m = fblock s ip m" "indirect t ip = n" "file_inv t ip"
proof -
  note F = file_inv_facts [OF f]
  have g0: "get32 (replicate BSIZE 0) k = 0" if "k + 3 < BSIZE" for k using that by (simp add: get32_def)
  show i: "indirect t ip = n" using F(1,4) by (simp add: t)
  have b: "fblock t ip m = fblock s ip m" if "m < MAXFILE" for m
    using F(1,4) i i0 g0 [of "4 * (m - NDIRECT)"] that n(2) z by (auto simp: fblock_def t MAXFILE_def NINDIRECT_def BSIZE_def)
  then show "m < MAXFILE \<Longrightarrow> fblock t ip m = fblock s ip m" .
  show "file_inv t ip"
    unfolding file_inv_def i using F n b by (auto simp: t)
qed

text \<open>A file keeps its blocks when its inode and its indirect block stay and no block in use is freed.\<close>

lemma inode_block_lframe: "lframe s t \<Longrightarrow> inode_block t n = inode_block s n"
  using lframe_fs [of s t] by (simp add: inode_block_def)

lemma layout_grow:
  assumes l: "lframe s t" and u: "\<forall>m < sb_size (sb s). used s m \<longrightarrow> used t m" and g: "fs_geom t"
  shows "fs_layout s \<Longrightarrow> 0 < sb_size (sb s) \<Longrightarrow> fs_layout t" "data_block s n \<Longrightarrow> data_block t n"
  using u g lframe_fs(1) [OF l] lframe_sel(6,8) [OF l] bitmap_block_lframe [OF l] inode_block_lframe [OF l]
  by (auto simp: fs_layout_def data_block_def)

lemma file_inv_keep:
  assumes f: "file_inv s ip" and l: "lframe s t" and u: "\<forall>m < sb_size (sb s). used s m \<longrightarrow> used t m" and g: "fs_geom t"
    and i: "indirect s ip \<noteq> 0 \<Longrightarrow> blk t (indirect s ip) = blk s (indirect s ip)" and pos: "0 < sb_size (sb s)"
  shows "fblock t ip = fblock s ip" "indirect t ip = indirect s ip" "file_inv t ip"
proof -
  note F = file_inv_facts [OF f]
  note L = lframe_fs [OF l]
  show ind: "indirect t ip = indirect s ip" by (simp add: indirect_def L)
  show b: "fblock t ip = fblock s ip" using i by (auto simp: fblock_def fun_eq_iff ind L)
  show "file_inv t ip"
    unfolding file_inv_def ind b using F layout_grow [OF l u g] pos by (auto simp: L)
qed

lemma layout_alloc:
  assumes lay: "fs_layout s" and tx: "txinv s i p H" and st: "txstep s i p H (alloc_updates s n) t"
    and n: "n < sb_size (sb s)" "\<not> used s n"
  shows "\<forall>m < sb_size (sb s). used s m \<longrightarrow> used t m" "fs_layout t" "data_block t n" "n \<noteq> 0"
    "m < sb_size (sb s) \<Longrightarrow> used s m \<Longrightarrow> \<not> bitmap_block s m \<Longrightarrow> blk t m = blk s m" "blk t n = replicate BSIZE 0"
proof -
  have g: "fs_geom s" using lay by (simp add: fs_layout_def)
  note A = alloc_used [OF st tx g n]
  have l: "lframe s t" and b: "blk t = ((blk s)(BBLOCK n (sb s) := bmap_set (n mod BPB) (blk s (BBLOCK n (sb s)))))(n := replicate BSIZE 0)"
    using st by (simp_all add: txstep_def alloc_updates_def)
  show u: "\<forall>m < sb_size (sb s). used s m \<longrightarrow> used t m" using A(1) by blast
  show "fs_layout t" using layout_grow(1) [OF l u A(2)] lay n by simp
  have "n \<notin> log_region s" "\<not> bitmap_block s n" "\<not> inode_block s n" using lay g n by (auto simp: fs_layout_def fs_geom_def)
  then show "data_block t n"
    using A(1) [OF n(1)] n(1) lframe_fs(1) [OF l] lframe_sel(8) [OF l] bitmap_block_lframe [OF l] inode_block_lframe [OF l]
    by (simp add: data_block_def)
  show "n \<noteq> 0" using n lay unfolding fs_layout_def by metis
  show "m < sb_size (sb s) \<Longrightarrow> used s m \<Longrightarrow> \<not> bitmap_block s m \<Longrightarrow> blk t m = blk s m"
    using n by (auto simp: b bitmap_block_def)
  show "blk t n = replicate BSIZE 0" by (simp add: b)
qed

lemma file_inv_alloc:
  assumes f: "file_inv s ip" and tx: "txinv s i p H" and st: "txstep s i p H (alloc_updates s n) t"
    and n: "n < sb_size (sb s)" "\<not> used s n"
  shows "fblock t ip = fblock s ip" "indirect t ip = indirect s ip" "file_inv t ip"
    "n \<noteq> indirect s ip" "\<forall>m < MAXFILE. fblock s ip m \<noteq> n"
proof -
  note F = file_inv_facts [OF f]
  note A = layout_alloc [OF F(5) tx st n]
  have l: "lframe s t" using st by (simp add: txstep_def)
  have i: "indirect s ip \<noteq> 0 \<Longrightarrow> blk t (indirect s ip) = blk s (indirect s ip)"
    using A(5) [of "indirect s ip"] F(6) by (simp add: data_block_def)
  have g: "fs_geom t" using A(2) by (simp add: fs_layout_def)
  have pos: "0 < sb_size (sb s)" using n by simp
  show "fblock t ip = fblock s ip" "indirect t ip = indirect s ip" "file_inv t ip"
    by (rule file_inv_keep [OF f l A(1) g i pos], assumption)+
  show "n \<noteq> indirect s ip" "\<forall>m < MAXFILE. fblock s ip m \<noteq> n" using F(6,7) A(4) n by (auto simp: data_block_def)
qed

text \<open>Writing a block that is not part of the bitmap.\<close>

lemma write_used:
  assumes st: "txstep s i p H [(a, d)] t" and a: "\<not> bitmap_block s a"
  shows "m < sb_size (sb s) \<Longrightarrow> used t m = used s m" "fs_geom s \<Longrightarrow> fs_geom t"
proof -
  have l: "lframe s t" and b: "blk t = (blk s)(a := d)" using st by (simp_all add: txstep_def)
  show u: "m < sb_size (sb s) \<Longrightarrow> used t m = used s m" for m
    using a by (auto simp: used_def b lframe_fs(1) [OF l] bitmap_block_def)
  show "fs_geom s \<Longrightarrow> fs_geom t"
    using u lframe_fs(1) [OF l] lframe_sel(6,8) [OF l] bitmap_block_lframe [OF l] by (auto simp: fs_geom_def)
qed

lemma file_inv_write:
  assumes f: "file_inv s ip" and st: "txstep s i p H [(a, d)] t" and a: "a < sb_size (sb s)" "\<not> bitmap_block s a" "a \<noteq> indirect s ip"
  shows "fblock t ip = fblock s ip" "indirect t ip = indirect s ip" "file_inv t ip"
proof -
  note F = file_inv_facts [OF f]
  have l: "lframe s t" and b: "blk t = (blk s)(a := d)" using st by (simp_all add: txstep_def)
  have g: "fs_geom t" using write_used(2) [OF st a(2)] F(5) by (simp add: fs_layout_def)
  have u: "\<forall>m < sb_size (sb s). used s m \<longrightarrow> used t m" using write_used(1) [OF st a(2)] by simp
  have pos: "0 < sb_size (sb s)" using a by simp
  show "fblock t ip = fblock s ip" "indirect t ip = indirect s ip" "file_inv t ip"
    by (rule file_inv_keep [OF f l u g _ pos], use a(3) b in simp)+
qed

lemma link_entry:
  assumes f: "file_inv s ip" and bn: "NDIRECT \<le> bn" "bn < MAXFILE" "fblock s ip bn = 0" "indirect s ip \<noteq> 0"
    and n: "data_block s n" "n \<noteq> 0" "n \<noteq> indirect s ip" "\<forall>m < MAXFILE. fblock s ip m \<noteq> n" and tx: "txinv s i p G"
    and st: "txstep s i p H [(indirect s ip, set32 (4 * (bn - NDIRECT)) (of_nat n) (blk s (indirect s ip)))] t"
  shows "m < MAXFILE \<Longrightarrow> fblock t ip m = ((fblock s ip)(bn := n)) m" "indirect t ip = indirect s ip" "file_inv t ip"
proof -
  note F = file_inv_facts [OF f]
  let ?i = "indirect s ip" and ?k = "4 * (bn - NDIRECT)"
  have l: "lframe s t" and b: "blk t = (blk s)(?i := set32 ?k (of_nat n) (blk s ?i))" using st by (simp_all add: txstep_def)
  note L = lframe_fs [OF l]
  have di: "data_block s ?i" using F(6) bn(4) by simp
  then have nb: "\<not> bitmap_block s ?i" and pos: "0 < sb_size (sb s)" by (auto simp: data_block_def)
  have len: "length (blk s ?i) = BSIZE" using tx blk_length by (auto simp: txinv_def)
  have n32: "unat (of_nat n :: u32) = n" using data_block_disk [OF F(5) n(1)] by (simp add: unat_of_nat)
  show i: "indirect t ip = ?i" by (simp add: indirect_def L)
  have fb: "fblock t ip m = ((fblock s ip)(bn := n)) m" if m: "m < MAXFILE" for m
  proof (cases "m < NDIRECT")
    case True
    then show ?thesis using bn by (simp add: fblock_def L)
  next
    case False
    have "get32 (blk t ?i) (4 * (m - NDIRECT)) = (if m = bn then of_nat n else get32 (blk s ?i) (4 * (m - NDIRECT)))"
      using bn m False len by (auto simp: b MAXFILE_def NINDIRECT_def BSIZE_def intro!: get32_set32_other)
    then show ?thesis using False bn by (simp add: fblock_def [of t] fblock_def [of s] i n32)
  qed
  then show "m < MAXFILE \<Longrightarrow> fblock t ip m = ((fblock s ip)(bn := n)) m" .
  have g: "fs_geom t" using write_used(2) [OF st nb] F(5) by (simp add: fs_layout_def)
  have u: "\<forall>m < sb_size (sb s). used s m \<longrightarrow> used t m" using write_used(1) [OF st nb] by simp
  note G = layout_grow [OF l u g]
  show "file_inv t ip"
    unfolding file_inv_def i using F n fb G pos by (auto simp: L)
qed

section \<open>Block allocation for a file\<close>

definition nfree :: "'z fstate_scheme \<Rightarrow> nat" where
  "nfree s = card {n. n < sb_size (sb s) \<and> \<not> used s n}"

lemma nfree_alloc:
  assumes "txinv s i p H" and "txstep s i p H (alloc_updates s n) t" and "fs_geom s" and n: "n < sb_size (sb s)" "\<not> used s n"
  shows "nfree s = Suc (nfree t)"
proof -
  have "sb t = sb s" using assms(2) lframe_fs(1) [of s t] by (simp add: txstep_def)
  then have "{m. m < sb_size (sb s) \<and> \<not> used s m} = insert n {m. m < sb_size (sb t) \<and> \<not> used t m}"
    using alloc_used(1) [OF assms(2,1,3) n] n by auto
  moreover have "n \<notin> {m. m < sb_size (sb t) \<and> \<not> used t m}" using alloc_used(1) [OF assms(2,1,3) n n(1)] by simp
  ultimately show ?thesis by (simp add: nfree_def)
qed

lemma nfree_write: "txstep s i p H [(a, d)] t \<Longrightarrow> \<not> bitmap_block s a \<Longrightarrow> nfree t = nfree s"
  using write_used(1) [of s i p H a d t] lframe_fs(1) [of s t] unfolding nfree_def
  by (simp add: txstep_def) (metis (lifting))

lemma balloc_any:
  assumes "txinv s i p H" and lay: "fs_layout s" and free: "0 < nfree s"
    and "\<forall>a\<in>H. \<not> bitmap_block s (b_blockno (buf_at s a)) \<and> used s (b_blockno (buf_at s a))"
    and "card H + nat (log_n s) + 1 < NBUF" "log_n s + 2 < log_size s" "1 \<le> log_outstanding s"
  obtains n t where "balloc ROOTDEV s = Ok n t" "n < sb_size (sb s)" "\<not> used s n" "txstep s i p H (alloc_updates s n) t"
proof -
  define n where "n = (LEAST n. n < sb_size (sb s) \<and> \<not> used s n)"
  have "\<exists>n. n < sb_size (sb s) \<and> \<not> used s n"
    using free unfolding nfree_def by (metis (mono_tags, lifting) card.empty empty_Collect_eq less_irrefl)
  then have n: "n < sb_size (sb s) \<and> \<not> used s n" unfolding n_def by (rule LeastI_ex)
  have before: "\<forall>m < n. used s m" using n not_less_Least unfolding n_def by (metis (no_types, lifting) order.strict_trans)
  have "fs_geom s" using lay by (simp add: fs_layout_def)
  then have "runs (balloc ROOTDEV s) (\<lambda>r t. r = n \<and> txstep s i p H (alloc_updates s n) t)"
    using balloc_runs [OF assms(1) _ assms(4-7)] n before by blast
  then show ?thesis using that n by (auto elim: runsE)
qed

text \<open>A state with the same block contents has the same files.\<close>

lemma same_blocks:
  assumes l: "lframe s t" and b: "blk t = blk s"
  shows "used t = used s" "nfree t = nfree s" "fs_geom t = fs_geom s" "fs_layout t = fs_layout s" "fblock t = fblock s"
    "indirect t = indirect s" "data_block t = data_block s" "file_inv t ip = file_inv s ip"
proof -
  note L = lframe_fs [OF l] lframe_sel(6,8) [OF l] bitmap_block_lframe [OF l] inode_block_lframe [OF l]
  show u: "used t = used s" by (simp add: used_def b L fun_eq_iff)
  show g: "nfree t = nfree s" "fs_geom t = fs_geom s" using L u by (simp_all add: nfree_def fs_geom_def)
  show y: "fs_layout t = fs_layout s" using L u g by (simp add: fs_layout_def)
  show i: "indirect t = indirect s" by (simp add: indirect_def L fun_eq_iff)
  show f: "fblock t = fblock s" by (simp add: fblock_def L fun_eq_iff i b)
  show d: "data_block t = data_block s" using L u by (simp add: data_block_def fun_eq_iff)
  show "file_inv t ip = file_inv s ip" by (simp add: file_inv_def y i f d L)
qed

lemma txstep_same: "txstep s i p H [] t \<Longrightarrow> lframe s t \<and> blk t = blk s"
  by (simp add: txstep_def)

text \<open>What a file operation leaves as it is: a block in use stays in use, and keeps its contents unless it is the
  indirect block of the file or part of the bitmap.\<close>

definition keeps :: "'z fstate_scheme \<Rightarrow> nat \<Rightarrow> 'z fstate_scheme \<Rightarrow> bool" where
  "keeps s ip t \<longleftrightarrow> (\<forall>m < sb_size (sb s). used s m \<longrightarrow> used t m \<and>
     (\<not> bitmap_block s m \<and> m \<noteq> indirect s ip \<longrightarrow> blk t m = blk s m))"

definition bmap_post :: "'z fstate_scheme \<Rightarrow> nat \<Rightarrow> nat \<Rightarrow> nat \<Rightarrow> nat \<Rightarrow> nat \<Rightarrow> nat \<Rightarrow> 'z fstate_scheme \<Rightarrow> bool" where
  "bmap_post s i p ip bn k a t \<longleftrightarrow> (\<exists>us. length us \<le> k \<and> fstep s i p {} ip us t) \<and> file_inv t ip \<and> a \<noteq> 0 \<and> a < sb_size (sb s) \<and> \<not> used s a \<and>
     (\<forall>m < MAXFILE. fblock t ip m = ((fblock s ip)(bn := a)) m) \<and> blk t a = replicate BSIZE 0 \<and>
     keeps s ip t \<and> (indirect t ip = indirect s ip \<or> \<not> used s (indirect t ip)) \<and> nfree s \<le> nfree t + 2"

lemma bmap_direct:
  assumes f: "file_inv s ip" and tx: "txinv s i p {}" and bn: "bn < NDIRECT" "fblock s ip bn = 0" and free: "0 < nfree s"
    and room: "log_n s + 2 < log_size s" "1 \<le> log_outstanding s" "nat (log_n s) + 1 < NBUF"
  shows "runs (bmap ip bn s) (bmap_post s i p ip bn 2)"
proof -
  note F = file_inv_facts [OF f]
  obtain n t where r: "balloc ROOTDEV s = Ok n t" and n: "n < sb_size (sb s)" "\<not> used s n" and st: "txstep s i p {} (alloc_updates s n) t"
    by (rule balloc_any [OF tx F(5) free]) (use room in auto)
  note A = layout_alloc [OF F(5) tx st n] and B = file_inv_alloc [OF f tx st n]
  have l: "lframe s t" using st by (simp add: txstep_def)
  define u where "u = set_addrs ip ((i_addrs (inode_at t ip))[bn := n]) t"
  have pre: "fblock t ip bn = 0" "n \<noteq> indirect t ip" "\<forall>m < MAXFILE. fblock t ip m \<noteq> n" using bn B by simp_all
  note D = link_direct [OF B(3) bn(1) pre(1) A(3,4) pre(2,3) u_def]
  have fs: "fstep s i p {} ip (alloc_updates s n) u" unfolding u_def by (rule fstep_link [OF txstep_fstep [OF F(1) st]])
  have nf: "nfree s = Suc (nfree u)"
    using nfree_alloc [OF tx st _ n] F(5) by (simp add: fs_layout_def nfree_def u_def)
  have "keeps s ip u" using A(1,5) by (simp add: keeps_def u_def)
  then have "bmap_post s i p ip bn 2 n u"
    using fs D B n A nf unfolding bmap_post_def
    by (intro conjI exI [of _ "alloc_updates s n"]) (simp_all add: alloc_updates_def u_def)
  moreover have "bmap ip bn s = Ok n u"
    using bn F(2) r by (simp add: bmap_def fblock_def u_def set_addrs_def upd_inode_def upd_nth_def)
  ultimately show ?thesis by simp
qed

text \<open>The part of \<open>bmap\<close> that works on the indirect block \<open>addr\<close>.\<close>

definition bmap_entry :: "nat \<Rightarrow> nat \<Rightarrow> nat \<Rightarrow> 'z fstate_scheme \<Rightarrow> (nat, 'z fstate_scheme) res" where
  "bmap_entry ip bn addr s =
     bindR (bread (i_dev (inode_at s ip)) addr s) (\<lambda>bp s.
       let addr = unat (get32 (b_data (buf_at s bp)) (4 * (bn - NDIRECT))) in
       bindR (if addr = 0
              then bindR (balloc (i_dev (inode_at s ip)) s) (\<lambda>addr s.
                   bindR (log_write bp (set_bdata bp (set32 (4 * (bn - NDIRECT)) (of_nat addr)) s)) (\<lambda>_ s. Ok addr s))
              else Ok addr s) (\<lambda>addr s.
       bindR (brelse bp s) (\<lambda>_ s. Ok addr s)))"

lemma bmap_indirect:
  assumes "NDIRECT \<le> bn" "bn < MAXFILE"
  shows "bmap ip bn s =
     bindR (if indirect s ip = 0
            then bindR (balloc (i_dev (inode_at s ip)) s) (\<lambda>addr s.
                 Ok addr (upd_inode ip (\<lambda>i. i\<lparr>i_addrs := (i_addrs i)[NDIRECT := addr]\<rparr>) s))
            else Ok (indirect s ip) s) (bmap_entry ip bn)"
  using assms unfolding bmap_def bmap_entry_def indirect_def Let_def
  by (auto simp: MAXFILE_def intro!: arg_cong2 [where f = bindR])

lemma bmap_mapped:
  assumes f: "file_inv s ip" and tx: "txinv s i p {}" and bn: "bn < MAXFILE" "fblock s ip bn \<noteq> 0" and room: "nat (log_n s) < NBUF"
  shows "runs (bmap ip bn s) (\<lambda>a t. a = fblock s ip bn \<and> txstep s i p {} [] t)"
proof (cases "bn < NDIRECT")
  case True
  then show ?thesis using bn(2) tx by (simp add: bmap_def fblock_def txstep_refl)
next
  case False
  note F = file_inv_facts [OF f]
  have i: "indirect s ip \<noteq> 0" using False bn(2) by (simp add: fblock_def split: if_splits)
  then have d: "indirect s ip < disksize s" using data_block_disk [OF F(5) F(6)] by simp
  obtain b u t where r: "bread ROOTDEV (indirect s ip) s = Ok b u" "b_data (buf_at u b) = blk s (indirect s ip)" "lframe s u"
    "brelse b u = Ok () t" and st: "txstep s i p {} [] t"
    by (rule tx_peek [OF tx d]) (use room in simp_all)
  have e: "fblock s ip bn = unat (get32 (blk s (indirect s ip)) (4 * (bn - NDIRECT)))" using False i by (simp add: fblock_def)
  have "bmap_entry ip bn (indirect s ip) s = Ok (fblock s ip bn) t"
    unfolding bmap_entry_def Let_def using r bn(2) F(2) unfolding e by simp
  then show ?thesis using False bn(1) i st by (simp add: bmap_indirect)
qed

text \<open>Allocating a block while a data block \<open>a\<close> is open, and entering its number there.\<close>

lemma tx_alloc_into:
  assumes lay: "fs_layout s" and tx: "txinv s i p {}" and a: "data_block s a" and free: "0 < nfree s"
    and room: "log_n s + 3 < log_size s" "1 \<le> log_outstanding s" "nat (log_n s) + 2 < NBUF"
  obtains b u n t v w where "bread ROOTDEV a s = Ok b u" "b_data (buf_at u b) = blk s a" "lframe s u" "blk u = blk s"
    "balloc ROOTDEV u = Ok n t" "log_write b (set_bdata b (set32 k (of_nat n)) t) = Ok () v" "brelse b v = Ok () w"
    "n < sb_size (sb u)" "\<not> used u n" "txinv u i p {b}" "txstep u i p {b} (alloc_updates u n) t"
    "txstep t i p {} [(a, set32 k (of_nat n) (blk t a))] w"
    "txstep s i p {} (alloc_updates u n @ [(a, set32 k (of_nat n) (blk t a))]) w"
proof -
  have ad: "a < disksize s" using a data_block_disk [OF lay] by simp
  obtain b u where u: "bread ROOTDEV a s = Ok b u" "b_blockno (buf_at u b) = a" "b_data (buf_at u b) = blk s a"
      "txinv u i p {b}" "blk u = blk s" "cframe s u" and step: "\<forall>us w. txstep u i p {} us w \<longrightarrow> txstep s i p {} us w"
    by (rule tx_open [OF tx ad]) (use room in simp_all)
  have l: "lframe s u" by (rule cframe_lframe [OF u(6)])
  note S = same_blocks [OF l u(5)] and L = cframe_log [OF u(6)] lframe_fs [OF l] lframe_sel(8) [OF l] bitmap_block_lframe [OF l]
  have yu: "fs_layout u" and freeu: "0 < nfree u" using lay free by (simp_all add: S)
  have held: "\<forall>c\<in>{b}. \<not> bitmap_block u (b_blockno (buf_at u c)) \<and> used u (b_blockno (buf_at u c))"
    using a by (simp add: u(2) S L data_block_def)
  have roomu: "card {b} + nat (log_n u) + 1 < NBUF" "log_n u + 2 < log_size u" "1 \<le> log_outstanding u" using room L by simp_all
  obtain n t where al: "balloc ROOTDEV u = Ok n t" and n: "n < sb_size (sb u)" "\<not> used u n"
      and st: "txstep u i p {b} (alloc_updates u n) t"
    by (rule balloc_any [OF u(4) yu freeu held roomu])
  have lt: "lframe u t" and nt: "log_n t \<le> log_n u + 2" and ht: "held_same {b} u t" and tt: "txinv t i p {b}"
    using st by (simp_all add: txstep_def alloc_updates_def)
  have bt: "blk t a = blk s a" using layout_alloc(5) [OF yu u(4) st n, of a] a by (simp add: S L u(5) data_block_def)
  have b': "b_blockno (buf_at t b) = a" "b_data (buf_at t b) = blk t a" using ht u(2,3) bt by (simp_all add: held_same_def)
  have len: "length (blk t a) = BSIZE" using blk_length txinv_binv [OF tt] by blast
  have pre: "a \<notin> log_region t" "log_n t < log_size t - 1" "1 \<le> log_outstanding t"
      "length (set32 k (of_nat n) (b_data (buf_at t b))) = BSIZE"
    using a lframe_sel [OF lt] L nt room len b'(2) by (simp_all add: data_block_def)
  have tt': "txinv t i p (insert b {})" and nb: "b \<notin> {}" using tt by simp_all
  obtain v w where w: "log_write b (set_bdata b (set32 k (of_nat n)) t) = Ok () v" "brelse b v = Ok () w"
      "txstep t i p {} [(a, set32 k (of_nat n) (blk t a))] w"
    by (rule tx_finish [where f = "set32 k (of_nat n)", OF tt' nb b'(1) pre]) (simp add: b'(2))
  show ?thesis
    by (rule that [OF u(1,3) l u(5) al w(1,2) n u(4) st w(3)]) (use txstep_trans [OF st w(3)] step in simp)
qed

lemma bmap_entry_alloc:
  assumes f: "file_inv s ip" and tx: "txinv s i p {}" and bn: "NDIRECT \<le> bn" "bn < MAXFILE" "fblock s ip bn = 0"
    and i0: "indirect s ip \<noteq> 0" and free: "0 < nfree s"
    and room: "log_n s + 3 < log_size s" "1 \<le> log_outstanding s" "nat (log_n s) + 2 < NBUF"
  shows "runs (bmap_entry ip bn (indirect s ip) s)
    (\<lambda>a t. bmap_post s i p ip bn 3 a t \<and> indirect t ip = indirect s ip \<and> nfree s = Suc (nfree t))"
proof -
  note F = file_inv_facts [OF f]
  let ?i = "indirect s ip" and ?k = "4 * (bn - NDIRECT)"
  have di: "data_block s ?i" by (rule F(6) [OF i0])
  obtain b u n t v w where r: "bread ROOTDEV ?i s = Ok b u" "b_data (buf_at u b) = blk s ?i" and l: "lframe s u" and bu: "blk u = blk s"
    and r': "balloc ROOTDEV u = Ok n t" "log_write b (set_bdata b (set32 ?k (of_nat n)) t) = Ok () v" "brelse b v = Ok () w"
    and n: "n < sb_size (sb u)" "\<not> used u n" and tu: "txinv u i p {b}" and st: "txstep u i p {b} (alloc_updates u n) t"
    and wt: "txstep t i p {} [(?i, set32 ?k (of_nat n) (blk t ?i))] w"
    and all: "txstep s i p {} (alloc_updates u n @ [(?i, set32 ?k (of_nat n) (blk t ?i))]) w"
    by (rule tx_alloc_into [where k = ?k, OF F(5) tx di free room])
  note S = same_blocks [OF l bu] and L = lframe_fs [OF l] bitmap_block_lframe [OF l]
  have fu: "file_inv u ip" and yu: "fs_layout u" using f F(5) by (simp_all add: S)
  have lt: "lframe u t" and tt: "txinv t i p {b}" using st by (simp_all add: txstep_def)
  note A = layout_alloc [OF yu tu st n] and B = file_inv_alloc [OF fu tu st n] and N = nfree_alloc [OF tu st _ n]
  have it: "indirect t ip = ?i" using B(2) by (simp add: S)
  have lk: "fblock t ip bn = 0" "indirect t ip \<noteq> 0" "n \<noteq> indirect t ip" "\<forall>m < MAXFILE. fblock t ip m \<noteq> n"
    using B it i0 bn(3) S by simp_all
  note D = link_entry [OF B(3) bn(1,2) lk(1,2) A(3,4) lk(3,4) tt wt [folded it]]
  have nbm: "\<not> bitmap_block t ?i" using di bitmap_block_lframe [OF lt] L by (simp add: data_block_def)
  have wb: "blk w m = blk t m" if "m \<noteq> ?i" for m using wt that by (simp add: txstep_def)
  have k: "keeps s ip w"
    using A(1,5) write_used(1) [OF wt nbm] wb unfolding keeps_def by (simp add: S L bu lframe_fs(1) [OF lt])
  have nf: "nfree s = Suc (nfree w)" using N nfree_write [OF wt nbm] yu S by (simp add: fs_layout_def)
  have fb: "\<forall>m < MAXFILE. fblock w ip m = ((fblock s ip)(bn := n)) m" using D(1) B(1) S by simp
  have "length (alloc_updates u n @ [(?i, set32 ?k (of_nat n) (blk t ?i))]) \<le> 3" by (simp add: alloc_updates_def)
  then have us: "\<exists>us. length us \<le> 3 \<and> fstep s i p {} ip us w" using txstep_fstep [OF F(1) all] by blast
  have z: "blk w n = replicate BSIZE 0" using wb [of n] lk(3) it A(6) by simp
  have n': "n < sb_size (sb s)" "\<not> used s n" "n \<noteq> 0" using n S L A(4) by simp_all
  have iw: "indirect w ip = ?i" using D(2) it by simp
  have post: "bmap_post s i p ip bn 3 n w" using us D(3) n' fb z k iw nf by (simp add: bmap_post_def)
  have e: "unat (get32 (blk s ?i) ?k) = 0" using bn(1,3) i0 by (simp add: fblock_def)
  have "bmap_entry ip bn ?i s = Ok n w"
    unfolding bmap_entry_def Let_def using r r' F(2) e L by simp
  then show ?thesis using post iw nf by simp
qed

lemma bmap_post_mono: "bmap_post s i p ip bn k a t \<Longrightarrow> k \<le> k' \<Longrightarrow> bmap_post s i p ip bn k' a t"
  unfolding bmap_post_def by (meson le_trans)

lemma bmap_alloc_indirect:
  assumes f: "file_inv s ip" and tx: "txinv s i p {}" and bn: "NDIRECT \<le> bn" "bn < MAXFILE" and i0: "indirect s ip = 0"
    and free: "2 \<le> nfree s" and room: "log_n s + 5 < log_size s" "1 \<le> log_outstanding s" "nat (log_n s) + 4 < NBUF"
  shows "runs (bmap ip bn s) (bmap_post s i p ip bn 5)"
proof -
  note F = file_inv_facts [OF f]
  have z0: "fblock s ip bn = 0" using bn i0 by (simp add: fblock_def)
  have free': "0 < nfree s" using free by simp
  obtain n t where al: "balloc ROOTDEV s = Ok n t" and n: "n < sb_size (sb s)" "\<not> used s n" and st: "txstep s i p {} (alloc_updates s n) t"
    by (rule balloc_any [OF tx F(5) free']) (use room in auto)
  note A = layout_alloc [OF F(5) tx st n] and B = file_inv_alloc [OF f tx st n] and N = nfree_alloc [OF tx st _ n]
  define u where "u = set_addrs ip ((i_addrs (inode_at t ip))[NDIRECT := n]) t"
  have pre: "indirect t ip = 0" "\<forall>m < MAXFILE. fblock t ip m \<noteq> n" using i0 B by simp_all
  note D = link_indirect [OF B(3) pre(1) A(3,4) pre(2) A(6) u_def]
  have l: "lframe s t" and nt: "log_n t \<le> log_n s + 2" and tt: "txinv t i p {}" using st by (simp_all add: txstep_def alloc_updates_def)
  have su: "fstep s i p {} ip (alloc_updates s n) u" unfolding u_def by (rule fstep_link [OF txstep_fstep [OF F(1) st]])
  have nfu: "nfree s = Suc (nfree u)" using N F(5) by (simp add: fs_layout_def nfree_def u_def)
  have "runs (bmap_entry ip bn (indirect u ip) u)
      (\<lambda>a t. bmap_post u i p ip bn 3 a t \<and> indirect t ip = indirect u ip \<and> nfree u = Suc (nfree t))"
    by (rule bmap_entry_alloc [OF D(3)])
      (use tt bn D A(4) B z0 nfu free nt room lframe_sel [OF l] in \<open>simp_all add: u_def\<close>)
  then obtain a w where r: "bmap_entry ip bn n u = Ok a w" and p: "bmap_post u i p ip bn 3 a w" and iw: "indirect w ip = n"
    and nfw: "nfree u = Suc (nfree w)" using D(2) by (auto elim: runsE)
  obtain us where us: "length us \<le> 3" "fstep u i p {} ip us w" using p by (auto simp: bmap_post_def)
  have uu: "sb u = sb s" "bitmap_block u = bitmap_block s" "used u = used t" "blk u = blk t"
    using lframe_fs(1) [OF l] bitmap_block_lframe [OF l] by (simp_all add: u_def fun_eq_iff)
  have k: "keeps s ip w" using p A(1,5) n D(2) unfolding bmap_post_def keeps_def by (auto simp: uu)
  have ua: "\<not> used s a" "a < sb_size (sb s)" using p A(1) uu by (auto simp: bmap_post_def)
  have fb: "\<forall>m < MAXFILE. fblock w ip m = ((fblock s ip)(bn := a)) m" using p D(1) B(1) by (simp add: bmap_post_def)
  have "\<exists>us. length us \<le> 5 \<and> fstep s i p {} ip us w"
    using fstep_trans [OF su us(2)] us(1) by (intro exI [of _ "alloc_updates s n @ us"]) (simp add: alloc_updates_def)
  then have "bmap_post s i p ip bn 5 a w" using p k ua fb iw n nfu nfw by (simp add: bmap_post_def)
  moreover have "bmap ip bn s = Ok a w"
    using bn i0 F(2) al r by (simp add: bmap_indirect u_def set_addrs_def upd_inode_def upd_nth_def)
  ultimately show ?thesis by simp
qed

lemma bmap_alloc:
  assumes f: "file_inv s ip" and tx: "txinv s i p {}" and bn: "bn < MAXFILE" "fblock s ip bn = 0" and free: "2 \<le> nfree s"
    and room: "log_n s + 5 < log_size s" "1 \<le> log_outstanding s" "nat (log_n s) + 4 < NBUF"
  shows "runs (bmap ip bn s) (bmap_post s i p ip bn 5)"
proof (cases "bn < NDIRECT")
  case True
  have "runs (bmap ip bn s) (bmap_post s i p ip bn 2)"
    by (rule bmap_direct [OF f tx True bn(2)]) (use free room in simp_all)
  then show ?thesis by (rule runs_conseq) (simp add: bmap_post_mono)
next
  case False
  then have ge: "NDIRECT \<le> bn" by simp
  show ?thesis
  proof (cases "indirect s ip = 0")
    case True
    show ?thesis by (rule bmap_alloc_indirect [OF f tx ge bn(1) True free room])
  next
    case ind: False
    have "runs (bmap_entry ip bn (indirect s ip) s)
        (\<lambda>a t. bmap_post s i p ip bn 3 a t \<and> indirect t ip = indirect s ip \<and> nfree s = Suc (nfree t))"
      by (rule bmap_entry_alloc [OF f tx ge bn ind]) (use free room in simp_all)
    then show ?thesis using ge bn ind by (auto simp: bmap_indirect elim!: runs_conseq bmap_post_mono)
  qed
qed

end
