(* ===== verification/Fs.thy ===== *)
theory Fs
  imports Inode
begin

text \<open>
  Files, directories and path names (\<^verbatim>\<open>fs.c\<close>), and the console as a device file
  (\<^verbatim>\<open>console.c\<close>).  A read returns, beside the C result, the bytes it stored at \<^verbatim>\<open>dst\<close>.
\<close>

section \<open>The console device\<close>

definition killed_now :: "'z pstate_scheme \<Rightarrow> (bool, 'z pstate_scheme) res" where
  "killed_now s = bindR (myproc s) (\<lambda>po s.
     case po of None \<Rightarrow> Panic ''null myproc'' | Some p \<Rightarrow> Ok (p_killed (proc_at s p) \<noteq> 0) s)"

definition consoleread_done :: "nat \<Rightarrow> int \<Rightarrow> byte list \<Rightarrow> 'z fstate_scheme \<Rightarrow> (int \<times> byte list, 'z fstate_scheme) res" where
  "consoleread_done ip r got s =
     bindR (release L_cons s) (\<lambda>_ s. bindR (ilock (Some ip) s) (\<lambda>_ s. Ok (r, got) s))"

text \<open>
  The loop with \<open>n\<close> bytes to go of \<open>target\<close>.  Sleeping on an empty buffer suspends the call;
  \<open>consoleread_resume\<close> continues it with the same locals.
\<close>

fun consoleread_loop :: "nat \<Rightarrow> nat \<Rightarrow> nat \<Rightarrow> byte list \<Rightarrow> 'z fstate_scheme \<Rightarrow> (int \<times> byte list, 'z fstate_scheme) res" where
  "consoleread_loop ip target 0 got s = consoleread_done ip (int target) got s"
| "consoleread_loop ip target (Suc n) got s =
     (if input_r s = input_w s
      then bindR (killed_now s) (\<lambda>k s.
        if k then consoleread_done ip (- 1) got s
        else bindR (sleep Ch_input L_cons s) (\<lambda>_ s. Ok (0, got) s))
      else let c = input_buf s ! in_slot (input_r s); s = s\<lparr>input_r := input_r s + 1\<rparr> in
        if sint c = CTRL (CHR ''D'')
        then let s = (if Suc n < target then s\<lparr>input_r := input_r s - 1\<rparr> else s) in
          consoleread_done ip (int (target - Suc n)) got s
        else if c = 10 then consoleread_done ip (int (target - n)) (got @ [c]) s
        else consoleread_loop ip target n (got @ [c]) s)"

definition consoleread :: "nat \<Rightarrow> int \<Rightarrow> 'z fstate_scheme \<Rightarrow> (int \<times> byte list, 'z fstate_scheme) res" where
  "consoleread ip n s =
     bindR (iunlock (Some ip) s) (\<lambda>_ s.
     bindR (acquire L_cons s) (\<lambda>_ s. consoleread_loop ip (nat n) (nat n) [] s))"

definition consoleread_resume :: "nat \<Rightarrow> nat \<Rightarrow> nat \<Rightarrow> nat \<Rightarrow> byte list \<Rightarrow> 'z fstate_scheme \<Rightarrow>
    (int \<times> byte list, 'z fstate_scheme) res" where
  "consoleread_resume p ip target n got s =
     bindR (sleep_resume p L_cons s) (\<lambda>_ s. consoleread_loop ip target n got s)"

definition consolewrite :: "nat \<Rightarrow> byte list \<Rightarrow> 'z fstate_scheme \<Rightarrow> (int, 'z fstate_scheme) res" where
  "consolewrite ip buf s =
     bindR (iunlock (Some ip) s) (\<lambda>_ s.
     bindR (acquire L_cons s) (\<lambda>_ s.
     bindR (forR (map uint buf) consputc s) (\<lambda>_ s.
     bindR (release L_cons s) (\<lambda>_ s.
     bindR (ilock (Some ip) s) (\<lambda>_ s. Ok (int (length buf)) s)))))"

definition CONSOLE :: nat where "CONSOLE = 1"
definition NDEV :: int where "NDEV = 10"

text \<open>The interrupt routing done by \<open>ioapicenable\<close> is not part of the state.\<close>

definition consoleinit :: "'z fstate_scheme \<Rightarrow> 'z fstate_scheme" where
  "consoleinit s =
     (let s = initlock L_cons ''console'' s;
          s = s\<lparr>devsw_write := (devsw_write s)(CONSOLE := Some Console_op)\<rparr>;
          s = s\<lparr>devsw_read := (devsw_read s)(CONSOLE := Some Console_op)\<rparr>
      in s\<lparr>cons_locking := True\<rparr>)"

section \<open>Reading and writing a file\<close>

text \<open>
  The copying loops: \<open>n\<close> bytes still to copy at file offset \<open>off\<close>.  Each round copies at least
  one byte.
\<close>

function readi_loop :: "nat \<Rightarrow> nat \<Rightarrow> nat \<Rightarrow> 'z fstate_scheme \<Rightarrow> (byte list, 'z fstate_scheme) res" where
  "readi_loop ip off n s =
     (if n = 0 then Ok [] s
      else bindR (bmap ip (off div BSIZE) s) (\<lambda>addr s.
        bindR (bread (i_dev (inode_at s ip)) addr s) (\<lambda>bp s.
          let m = min n (BSIZE - off mod BSIZE);
              got = take m (drop (off mod BSIZE) (b_data (buf_at s bp))) in
          bindR (brelse bp s) (\<lambda>_ s.
          bindR (readi_loop ip (off + m) (n - m) s) (\<lambda>rest s. Ok (got @ rest) s)))))"
  by pat_completeness auto
termination
  by (relation "measure (\<lambda>(ip, off, n, s). n)") (auto simp: BSIZE_def)

declare readi_loop.simps [simp del]

definition readi :: "nat \<Rightarrow> u32 \<Rightarrow> u32 \<Rightarrow> 'z fstate_scheme \<Rightarrow> (int \<times> byte list, 'z fstate_scheme) res" where
  "readi ip off n s =
     (if i_type (inode_at s ip) = T_DEV
      then let mj = i_major (inode_at s ip) in
        if mj < 0 \<or> mj \<ge> NDEV then Ok (- 1, []) s
        else case devsw_read s (nat mj) of None \<Rightarrow> Ok (- 1, []) s
          | Some Console_op \<Rightarrow> consoleread ip (sint n) s
      else if off > i_size (inode_at s ip) \<or> off + n < off then Ok (- 1, []) s
      else let n = (if off + n > i_size (inode_at s ip) then i_size (inode_at s ip) - off else n) in
        bindR (readi_loop ip (unat off) (unat n) s) (\<lambda>got s. Ok (sint n, got) s))"

definition put_slice :: "nat \<Rightarrow> byte list \<Rightarrow> byte list \<Rightarrow> byte list" where
  "put_slice k new d = take k d @ new @ drop (k + length new) d"

function writei_loop :: "nat \<Rightarrow> nat \<Rightarrow> byte list \<Rightarrow> 'z fstate_scheme \<Rightarrow> (unit, 'z fstate_scheme) res" where
  "writei_loop ip off src s =
     (if src = [] then Ok () s
      else bindR (bmap ip (off div BSIZE) s) (\<lambda>addr s.
        bindR (bread (i_dev (inode_at s ip)) addr s) (\<lambda>bp s.
          let m = min (length src) (BSIZE - off mod BSIZE);
              s = set_bdata bp (put_slice (off mod BSIZE) (take m src)) s in
          bindR (log_write bp s) (\<lambda>_ s.
          bindR (brelse bp s) (\<lambda>_ s.
            writei_loop ip (off + m) (drop m src) s)))))"
  by pat_completeness auto
termination
  by (relation "measure (\<lambda>(ip, off, src, s). length src)") (auto simp: BSIZE_def)

declare writei_loop.simps [simp del]

definition writei :: "nat \<Rightarrow> byte list \<Rightarrow> u32 \<Rightarrow> 'z fstate_scheme \<Rightarrow> (int, 'z fstate_scheme) res" where
  "writei ip src off s =
     (let n = (of_nat (length src) :: u32) in
      if i_type (inode_at s ip) = T_DEV
      then let mj = i_major (inode_at s ip) in
        if mj < 0 \<or> mj \<ge> NDEV then Ok (- 1) s
        else case devsw_write s (nat mj) of None \<Rightarrow> Ok (- 1) s
          | Some Console_op \<Rightarrow> consolewrite ip src s
      else if off > i_size (inode_at s ip) \<or> off + n < off then Ok (- 1) s
      else if off + n > of_nat (MAXFILE * BSIZE) then Ok (- 1) s
      else bindR (writei_loop ip (unat off) src s) (\<lambda>_ s.
        bindR (if n > 0 \<and> off + n > i_size (inode_at s ip)
               then iupdate ip (upd_inode ip (\<lambda>i. i\<lparr>i_size := off + n\<rparr>) s) else Ok () s) (\<lambda>_ s.
        Ok (sint n) s)))"

section \<open>Directories\<close>

definition DIRSIZ :: nat where "DIRSIZ = 14"
definition sizeof_dirent :: u32 where "sizeof_dirent = 16"

record dirent =
  de_inum :: u16
  de_name :: "byte list"

definition dirent_of :: "byte list \<Rightarrow> dirent" where
  "dirent_of d = \<lparr>de_inum = get16 d 0, de_name = take DIRSIZ (drop 2 d)\<rparr>"

definition dirent_bytes :: "dirent \<Rightarrow> byte list" where
  "dirent_bytes de = [ucast (de_inum de), ucast (drop_bit 8 (de_inum de))] @ de_name de"

definition cptr_of :: "byte list \<Rightarrow> cptr" where
  "cptr_of xs i = (if i < length xs then xs ! i else 0)"

definition namecmp :: "byte list \<Rightarrow> byte list \<Rightarrow> int" where
  "namecmp x y = strncmp (cptr_of x) (cptr_of y) DIRSIZ"

text \<open>The offsets of \<^verbatim>\<open>for(off = 0; off < dp->size; off += sizeof(de))\<close>.\<close>

definition dirent_offs :: "u32 \<Rightarrow> u32 list" where
  "dirent_offs sz = map (\<lambda>k. of_nat (16 * k)) [0..<(unat sz + 15) div 16]"

fun dirlookup_loop :: "nat \<Rightarrow> byte list \<Rightarrow> u32 list \<Rightarrow> 'z fstate_scheme \<Rightarrow> ((nat \<times> u32) option, 'z fstate_scheme) res" where
  "dirlookup_loop dp name [] s = Ok None s"
| "dirlookup_loop dp name (off # offs) s =
     bindR (readi dp off sizeof_dirent s) (\<lambda>(r, d) s.
       if r \<noteq> 16 then Panic ''dirlookup read''
       else if de_inum (dirent_of d) = 0 then dirlookup_loop dp name offs s
       else if namecmp name (de_name (dirent_of d)) = 0
       then bindR (iget (i_dev (inode_at s dp)) (unat (de_inum (dirent_of d))) s) (\<lambda>ip s. Ok (Some (ip, off)) s)
       else dirlookup_loop dp name offs s)"

definition dirlookup :: "nat \<Rightarrow> byte list \<Rightarrow> 'z fstate_scheme \<Rightarrow> ((nat \<times> u32) option, 'z fstate_scheme) res" where
  "dirlookup dp name s =
     (if i_type (inode_at s dp) \<noteq> T_DIR then Panic ''dirlookup not DIR''
      else dirlookup_loop dp name (dirent_offs (i_size (inode_at s dp))) s)"

fun dirlink_slot :: "nat \<Rightarrow> u32 list \<Rightarrow> u32 \<Rightarrow> 'z fstate_scheme \<Rightarrow> (u32, 'z fstate_scheme) res" where
  "dirlink_slot dp [] past s = Ok past s"
| "dirlink_slot dp (off # offs) past s =
     bindR (readi dp off sizeof_dirent s) (\<lambda>(r, d) s.
       if r \<noteq> 16 then Panic ''dirlink read''
       else if de_inum (dirent_of d) = 0 then Ok off s
       else dirlink_slot dp offs (off + sizeof_dirent) s)"

definition dirlink :: "nat \<Rightarrow> byte list \<Rightarrow> nat \<Rightarrow> 'z fstate_scheme \<Rightarrow> (int, 'z fstate_scheme) res" where
  "dirlink dp name inum s =
     bindR (dirlookup dp name s) (\<lambda>found s.
       case found of
         Some (ip, off) \<Rightarrow> bindR (iput ip s) (\<lambda>_ s. Ok (- 1) s)
       | None \<Rightarrow>
         bindR (dirlink_slot dp (dirent_offs (i_size (inode_at s dp))) 0 s) (\<lambda>off s.
           let de = \<lparr>de_inum = of_nat inum, de_name = strncpy (cptr_of name) DIRSIZ\<rparr> in
           bindR (writei dp (dirent_bytes de) off s) (\<lambda>r s.
             if r \<noteq> 16 then Panic ''dirlink'' else Ok 0 s)))"

section \<open>Paths\<close>

definition SLASH :: byte where "SLASH = 0x2F"

text \<open>A path is its bytes up to the terminating zero; the element copied to \<^verbatim>\<open>name\<close> is returned.\<close>

definition skipelem :: "byte list \<Rightarrow> (byte list \<times> byte list) option" where
  "skipelem path =
     (let path = dropWhile (\<lambda>c. c = SLASH) path in
      if path = [] then None
      else let elem = takeWhile (\<lambda>c. c \<noteq> SLASH) path;
               rest = dropWhile (\<lambda>c. c = SLASH) (dropWhile (\<lambda>c. c \<noteq> SLASH) path) in
        Some (rest, take DIRSIZ elem))"

lemma skipelem_shorter: "skipelem path = Some (rest, name) \<Longrightarrow> length rest < length path"
proof -
  assume a: "skipelem path = Some (rest, name)"
  let ?p = "dropWhile (\<lambda>c. c = SLASH) path"
  have p: "?p \<noteq> []" and r: "rest = dropWhile (\<lambda>c. c = SLASH) (dropWhile (\<lambda>c. c \<noteq> SLASH) ?p)"
    using a by (auto simp: skipelem_def Let_def split: if_splits)
  have "hd ?p \<noteq> SLASH" using hd_dropWhile [OF p] by simp
  then have "length (dropWhile (\<lambda>c. c \<noteq> SLASH) ?p) < length ?p"
    using p length_dropWhile_le [of "\<lambda>c. c \<noteq> SLASH" "tl ?p"] by (cases ?p) (auto simp: le_imp_less_Suc)
  then show ?thesis
    unfolding r using length_dropWhile_le [of "\<lambda>c. c = SLASH" "dropWhile (\<lambda>c. c \<noteq> SLASH) ?p"]
      length_dropWhile_le [of "\<lambda>c. c = SLASH" path] by linarith
qed

function namex_loop :: "bool \<Rightarrow> byte list \<Rightarrow> nat \<Rightarrow> byte list \<Rightarrow> 'z fstate_scheme \<Rightarrow>
    ((nat \<times> byte list) option, 'z fstate_scheme) res" where
  "namex_loop parent path ip name s =
     (case skipelem path of
        None \<Rightarrow>
          if parent then bindR (iput ip s) (\<lambda>_ s. Ok None s) else Ok (Some (ip, name)) s
      | Some (path', name) \<Rightarrow>
          bindR (ilock (Some ip) s) (\<lambda>_ s.
            if i_type (inode_at s ip) \<noteq> T_DIR then bindR (iunlockput ip s) (\<lambda>_ s. Ok None s)
            else if parent \<and> path' = [] then bindR (iunlock (Some ip) s) (\<lambda>_ s. Ok (Some (ip, name)) s)
            else bindR (dirlookup ip name s) (\<lambda>next s.
              case next of
                None \<Rightarrow> bindR (iunlockput ip s) (\<lambda>_ s. Ok None s)
              | Some (ip', off) \<Rightarrow>
                bindR (iunlockput ip s) (\<lambda>_ s. namex_loop parent path' ip' name s))))"
  by pat_completeness auto
termination
  by (relation "measure (\<lambda>(parent, path, ip, name, s). length path)") (auto dest: skipelem_shorter)

declare namex_loop.simps [simp del]

definition namex :: "byte list \<Rightarrow> bool \<Rightarrow> 'z fstate_scheme \<Rightarrow> ((nat \<times> byte list) option, 'z fstate_scheme) res" where
  "namex path parent s =
     bindR (if path \<noteq> [] \<and> hd path = SLASH then iget ROOTDEV ROOTINO s
            else bindR (myproc s) (\<lambda>po s.
              case po of None \<Rightarrow> Panic ''null myproc''
              | Some p \<Rightarrow> (case p_cwd (proc_at s p) of None \<Rightarrow> Panic ''null cwd'' | Some d \<Rightarrow> idup d s))) (\<lambda>ip s.
       namex_loop parent path ip [] s)"

definition namei :: "byte list \<Rightarrow> 'z fstate_scheme \<Rightarrow> (nat option, 'z fstate_scheme) res" where
  "namei path s = bindR (namex path False s) (\<lambda>r s. Ok (map_option fst r) s)"

definition nameiparent :: "byte list \<Rightarrow> 'z fstate_scheme \<Rightarrow> ((nat \<times> byte list) option, 'z fstate_scheme) res" where
  "nameiparent path s = namex path True s"

end
