(* ===== verification/FileIO.thy ===== *)
theory FileIO
  imports FileMap Fs
begin

text \<open>
  Reading and writing regular files (\<^verbatim>\<open>readi\<close>, \<^verbatim>\<open>writei\<close>, \<^verbatim>\<open>iupdate\<close> of \<^verbatim>\<open>fs.c\<close>), with the
  contents of a file as a byte list: the copying loops block by block, the growth of a file, and the
  separation of a file from every other block in use.
\<close>

section \<open>The contents of a file\<close>

definition fbyte :: "'z fstate_scheme \<Rightarrow> nat \<Rightarrow> nat \<Rightarrow> byte" where
  "fbyte s ip k = blk s (fblock s ip (k div BSIZE)) ! (k mod BSIZE)"

definition fslice :: "'z fstate_scheme \<Rightarrow> nat \<Rightarrow> nat \<Rightarrow> nat \<Rightarrow> byte list" where
  "fslice s ip off n = map (fbyte s ip) [off..<off + n]"

definition fcontent :: "'z fstate_scheme \<Rightarrow> nat \<Rightarrow> byte list" where
  "fcontent s ip = fslice s ip 0 (unat (i_size (inode_at s ip)))"

lemma length_fslice [simp]: "length (fslice s ip off n) = n"
  by (simp add: fslice_def)

lemma fslice_append: "fslice s ip off m @ fslice s ip (off + m) n = fslice s ip off (m + n)"
proof -
  have "[off..<off + (m + n)] = [off..<off + m] @ [off + m..<off + m + n]"
    using upt_add_eq_append [of off "off + m" n] by (simp add: add.assoc)
  then show ?thesis by (simp add: fslice_def add.assoc)
qed

lemma fslice_content:
  assumes "unat off \<le> unat (i_size (inode_at s ip))" "n \<le> unat (i_size (inode_at s ip)) - unat off"
  shows "fslice s ip (unat off) n = take n (drop (unat off) (fcontent s ip))"
  using assms by (simp add: fcontent_def fslice_def drop_map take_map drop_upt take_upt)

lemma BSIZE_pos: "0 < BSIZE"
  by (simp add: BSIZE_def)

lemma chunk_index:
  assumes "j < BSIZE - off mod BSIZE"
  shows "(off + j) div BSIZE = off div BSIZE" "(off + j) mod BSIZE = off mod BSIZE + j"
proof -
  have l: "off mod BSIZE + j < BSIZE" using assms by simp
  have "(off + j) mod BSIZE = (off mod BSIZE + j) mod BSIZE" by (rule mod_add_left_eq [symmetric])
  then show m: "(off + j) mod BSIZE = off mod BSIZE + j" using mod_less [OF l] by simp
  have "(off + j) div BSIZE = off div BSIZE + (off mod BSIZE + j) div BSIZE"
    using div_mult_self3 [of BSIZE "off div BSIZE" "off mod BSIZE + j"] BSIZE_pos by (simp add: algebra_simps flip: add.assoc)
  then show "(off + j) div BSIZE = off div BSIZE" using div_less [OF l] by simp
qed

lemma fslice_chunk:
  assumes "m \<le> BSIZE - off mod BSIZE" "length (blk s (fblock s ip (off div BSIZE))) = BSIZE"
  shows "take m (drop (off mod BSIZE) (blk s (fblock s ip (off div BSIZE)))) = fslice s ip off m"
proof (rule nth_equalityI)
  show "length (take m (drop (off mod BSIZE) (blk s (fblock s ip (off div BSIZE))))) = length (fslice s ip off m)"
    using assms by simp
  fix j assume "j < length (take m (drop (off mod BSIZE) (blk s (fblock s ip (off div BSIZE)))))"
  then have j: "j < m" "j < BSIZE - off mod BSIZE" using assms by simp_all
  then show "take m (drop (off mod BSIZE) (blk s (fblock s ip (off div BSIZE)))) ! j = fslice s ip off m ! j"
    using chunk_index [OF j(2)] assms(2) by (simp add: fslice_def fbyte_def)
qed

text \<open>Every block of the range is there.\<close>

definition mapped :: "'z fstate_scheme \<Rightarrow> nat \<Rightarrow> nat \<Rightarrow> nat \<Rightarrow> bool" where
  "mapped s ip off n \<longleftrightarrow> (\<forall>k. off \<le> k \<and> k < off + n \<longrightarrow> k div BSIZE < MAXFILE \<and> fblock s ip (k div BSIZE) \<noteq> 0)"

lemma same_content:
  assumes "lframe s t" "blk t = blk s"
  shows "fbyte t = fbyte s" "fslice t = fslice s" "mapped t = mapped s" "fcontent t = fcontent s"
  using same_blocks [OF assms] lframe_fs [OF assms(1)] assms(2)
  by (simp_all add: fbyte_def fslice_def mapped_def fcontent_def fun_eq_iff)

lemma txstep_nil: "txstep s i p H [] t \<Longrightarrow> log_n t = log_n s"
  by (simp add: txstep_def)

lemma readi_loop_runs:
  assumes "file_inv s ip" "txinv s i p {}" "nat (log_n s) < NBUF" "mapped s ip off n"
  shows "runs (readi_loop ip off n s) (\<lambda>got t. got = fslice s ip off n \<and> txstep s i p {} [] t)"
  using assms
proof (induction n arbitrary: s off rule: less_induct)
  case (less n s off)
  note f = less.prems(1) and tx = less.prems(2) and room = less.prems(3) and mp = less.prems(4)
  show ?case
  proof (cases "n = 0")
    case True
    then show ?thesis using txstep_refl [OF tx] by (subst readi_loop.simps) (simp add: fslice_def)
  next
    case False
    note F = file_inv_facts [OF f]
    let ?bn = "off div BSIZE" and ?m = "min n (BSIZE - off mod BSIZE)"
    have m: "0 < ?m" "?m \<le> n" "?m \<le> BSIZE - off mod BSIZE" using False BSIZE_pos by simp_all
    have bn: "?bn < MAXFILE" "fblock s ip ?bn \<noteq> 0" using mp False by (simp_all add: mapped_def)
    obtain t where t: "bmap ip ?bn s = Ok (fblock s ip ?bn) t" and st: "txstep s i p {} [] t"
      using bmap_mapped [OF f tx bn room] by (auto elim: runsE)
    have l: "lframe s t" and bt: "blk t = blk s" and tt: "txinv t i p {}" using st by (simp_all add: txstep_def)
    note S = same_blocks [OF l bt] and C = same_content [OF l bt]
    have d: "fblock s ip ?bn < disksize t" using data_block_disk [OF F(5) F(7) [OF bn]] lframe_sel(6) [OF l] by simp
    have room': "nat (log_n t) < NBUF" using txstep_nil [OF st] room by simp
    obtain b u v where r: "bread ROOTDEV (fblock s ip ?bn) t = Ok b u" "b_data (buf_at u b) = blk t (fblock s ip ?bn)"
      "brelse b u = Ok () v" and sv: "txstep t i p {} [] v"
      by (rule tx_peek [OF tt d]) (use room' in simp_all)
    have lv: "lframe t v" and bv: "blk v = blk t" and tv: "txinv v i p {}" and nv: "nat (log_n v) < NBUF"
      using sv txstep_nil [OF sv] room' by (simp_all add: txstep_def)
    note S' = same_blocks [OF lv bv] and C' = same_content [OF lv bv]
    have "mapped s ip (off + ?m) (n - ?m)" using mp m(2) by (simp add: mapped_def)
    then have "runs (readi_loop ip (off + ?m) (n - ?m) v)
        (\<lambda>got t. got = fslice v ip (off + ?m) (n - ?m) \<and> txstep v i p {} [] t)"
      using less.IH [of "n - ?m" v "off + ?m"] m(1) False f tv nv by (simp add: S S' C C')
    then obtain rest w where w: "readi_loop ip (off + ?m) (n - ?m) v = Ok rest w" "rest = fslice s ip (off + ?m) (n - ?m)"
      and sw: "txstep v i p {} [] w" using C C' by (auto elim: runsE)
    have len: "length (blk s (fblock s ip ?bn)) = BSIZE" using blk_length txinv_binv [OF tx] by blast
    have "readi_loop ip off n s = Ok (fslice s ip off ?m @ rest) w"
      using False t r w(1) F(2) lframe_fs(2) [OF l] bt fslice_chunk [OF m(3) len]
      by (subst readi_loop.simps) (simp add: Let_def del: readi_loop.simps)
    moreover have "fslice s ip off ?m @ rest = fslice s ip off n" unfolding w(2) fslice_append using m(2) by simp
    moreover have "txstep s i p {} [] w"
      using txstep_trans [OF txstep_trans [OF st sv order_refl] sw order_refl] by simp
    ultimately show ?thesis by simp
  qed
qed

section \<open>Writing a file\<close>

text \<open>
  \<open>extends s ip t\<close>: the file may have got blocks that were free, the blocks it had are where they were, and no
  block in use outside the file has changed, the bitmap apart.
\<close>

definition extends :: "'z fstate_scheme \<Rightarrow> nat \<Rightarrow> 'z fstate_scheme \<Rightarrow> bool" where
  "extends s ip t \<longleftrightarrow>
     (\<forall>bn < MAXFILE. fblock t ip bn = fblock s ip bn \<or>
        fblock s ip bn = 0 \<and> fblock t ip bn < sb_size (sb s) \<and> \<not> used s (fblock t ip bn)) \<and>
     (indirect t ip = indirect s ip \<or> indirect t ip < sb_size (sb s) \<and> \<not> used s (indirect t ip)) \<and>
     (\<forall>m < sb_size (sb s). used s m \<longrightarrow> used t m \<and>
        (\<not> bitmap_block s m \<and> m \<noteq> indirect s ip \<and> (\<forall>bn < MAXFILE. fblock s ip bn \<noteq> m) \<longrightarrow> blk t m = blk s m))"

lemma extends_refl: "extends s ip s"
  by (simp add: extends_def)

lemma extends_trans:
  assumes "extends s ip t" "extends t ip u" and sb: "sb t = sb s"
  shows "extends s ip u"
proof -
  have bb: "bitmap_block t = bitmap_block s" using sb by (simp add: bitmap_block_def fun_eq_iff)
  have mono: "\<And>m. m < sb_size (sb s) \<Longrightarrow> \<not> used t m \<Longrightarrow> \<not> used s m" using assms(1) unfolding extends_def by blast
  have f: "\<forall>bn < MAXFILE. fblock u ip bn = fblock s ip bn \<or>
      fblock s ip bn = 0 \<and> fblock u ip bn < sb_size (sb s) \<and> \<not> used s (fblock u ip bn)"
  proof (intro allI impI)
    fix bn assume "bn < MAXFILE"
    then have "fblock t ip bn = fblock s ip bn \<or> fblock s ip bn = 0 \<and> fblock t ip bn < sb_size (sb s) \<and> \<not> used s (fblock t ip bn)"
      "fblock u ip bn = fblock t ip bn \<or> fblock t ip bn = 0 \<and> fblock u ip bn < sb_size (sb s) \<and> \<not> used t (fblock u ip bn)"
      using assms by (auto simp: extends_def)
    then show "fblock u ip bn = fblock s ip bn \<or> fblock s ip bn = 0 \<and> fblock u ip bn < sb_size (sb s) \<and> \<not> used s (fblock u ip bn)"
      using mono by metis
  qed
  have i: "indirect u ip = indirect s ip \<or> indirect u ip < sb_size (sb s) \<and> \<not> used s (indirect u ip)"
    using assms mono unfolding extends_def by metis
  have "used u m \<and> (\<not> bitmap_block s m \<and> m \<noteq> indirect s ip \<and> (\<forall>bn < MAXFILE. fblock s ip bn \<noteq> m) \<longrightarrow> blk u m = blk s m)"
    if m: "m < sb_size (sb s)" "used s m" for m
  proof -
    have 1: "used t m" "\<not> bitmap_block s m \<and> m \<noteq> indirect s ip \<and> (\<forall>bn < MAXFILE. fblock s ip bn \<noteq> m) \<longrightarrow> blk t m = blk s m"
      using assms(1) m by (auto simp: extends_def)
    have 2: "used u m" "\<not> bitmap_block s m \<and> m \<noteq> indirect t ip \<and> (\<forall>bn < MAXFILE. fblock t ip bn \<noteq> m) \<longrightarrow> blk u m = blk t m"
      using assms(2) m 1(1) by (auto simp: extends_def sb bb)
    have 3: "m \<noteq> indirect s ip \<longrightarrow> m \<noteq> indirect t ip" using assms(1) m by (auto simp: extends_def)
    have 4: "(\<forall>bn < MAXFILE. fblock s ip bn \<noteq> m) \<longrightarrow> (\<forall>bn < MAXFILE. fblock t ip bn \<noteq> m)"
      using assms(1) m unfolding extends_def by metis
    show ?thesis using 1 2 3 4 by simp
  qed
  then show ?thesis using f i by (simp add: extends_def)
qed

text \<open>What \<open>bmap\<close> does, whether the block was there or not.\<close>

definition bmap_ok :: "'z fstate_scheme \<Rightarrow> nat \<Rightarrow> nat \<Rightarrow> nat \<Rightarrow> nat \<Rightarrow> nat \<Rightarrow> 'z fstate_scheme \<Rightarrow> bool" where
  "bmap_ok s i p ip bn a t \<longleftrightarrow> (\<exists>us. length us \<le> 5 \<and> fstep s i p {} ip us t) \<and> file_inv t ip \<and> a \<noteq> 0 \<and> fblock t ip bn = a \<and>
     extends s ip t \<and> (\<forall>m < MAXFILE. fblock s ip m \<noteq> 0 \<longrightarrow> blk t (fblock s ip m) = blk s (fblock s ip m)) \<and> nfree s \<le> nfree t + 2 \<and>
     (fblock s ip bn \<noteq> 0 \<longrightarrow> inode_at t ip = inode_at s ip)"

lemma bmap_ok_runs:
  assumes f: "file_inv s ip" and tx: "txinv s i p {}" and bn: "bn < MAXFILE" and free: "2 \<le> nfree s"
    and room: "log_n s + 5 < log_size s" "1 \<le> log_outstanding s" "nat (log_n s) + 4 < NBUF"
  shows "runs (bmap ip bn s) (bmap_ok s i p ip bn)"
proof (cases "fblock s ip bn = 0")
  case True
  note F = file_inv_facts [OF f]
  have "bmap_ok s i p ip bn a t" if p: "bmap_post s i p ip bn 5 a t" for a t
  proof -
    have fb: "\<forall>m < MAXFILE. fblock t ip m = ((fblock s ip)(bn := a)) m" and k: "keeps s ip t"
      and a: "a < sb_size (sb s)" "\<not> used s a" "a \<noteq> 0" and ft: "file_inv t ip"
      and i: "indirect t ip = indirect s ip \<or> \<not> used s (indirect t ip)"
      and st: "\<exists>us. length us \<le> 5 \<and> fstep s i p {} ip us t" and nf: "nfree s \<le> nfree t + 2"
      using p by (simp_all add: bmap_post_def)
    have sb: "sb t = sb s" using st fstep_facts(10) by blast
    have "indirect t ip < sb_size (sb s) \<or> indirect t ip = indirect s ip"
      using file_inv_facts(6) [OF ft] i F(5) sb unfolding data_block_def fs_layout_def by (metis a(1) less_nat_zero_code neq0_conv)
    then have "extends s ip t"
      using fb k a i True unfolding extends_def keeps_def by auto
    moreover have "blk t (fblock s ip m) = blk s (fblock s ip m)" if "m < MAXFILE" "fblock s ip m \<noteq> 0" for m
      using k F(7,8) [OF that] by (simp add: keeps_def data_block_def)
    ultimately show ?thesis using st ft a fb nf bn True by (simp add: bmap_ok_def)
  qed
  then show ?thesis using bmap_alloc [OF f tx bn True free room] by (rule runs_conseq [rotated])
next
  case False
  have "bmap_ok s i p ip bn (fblock s ip bn) t" if st: "txstep s i p {} [] t" for t
  proof -
    have l: "lframe s t" and b: "blk t = blk s" using st by (simp_all add: txstep_def)
    have "fstep s i p {} ip [] t" by (rule txstep_fstep [OF file_inv_facts(1) [OF f] st])
    then show ?thesis
      using same_blocks [OF l b] b f False lframe_fs(1,2) [OF l] unfolding bmap_ok_def extends_def
      by (intro conjI exI [of _ "[]"]) simp_all
  qed
  then show ?thesis using bmap_mapped [OF f tx bn False] room by (auto elim!: runs_conseq)
qed

text \<open>
  \<open>wrote s i p ip k off src t\<close>: the bytes \<open>src\<close> stand in the file at \<open>off\<close>, every other byte of a block it had is as
  before, and \<open>k\<close> blocks have been written.  Where the file had all the blocks, its inode is as before.
\<close>

definition wrote :: "'z fstate_scheme \<Rightarrow> nat \<Rightarrow> nat \<Rightarrow> nat \<Rightarrow> nat \<Rightarrow> nat \<Rightarrow> byte list \<Rightarrow> 'z fstate_scheme \<Rightarrow> bool" where
  "wrote s i p ip k off src t \<longleftrightarrow> (\<exists>us. length us \<le> 6 * k \<and> fstep s i p {} ip us t) \<and> file_inv t ip \<and> extends s ip t \<and>
     nfree s \<le> nfree t + 2 * k \<and> mapped t ip off (length src) \<and> fslice t ip off (length src) = src \<and>
     (\<forall>j. (j < off \<or> off + length src \<le> j) \<and> j div BSIZE < MAXFILE \<and> fblock s ip (j div BSIZE) \<noteq> 0 \<longrightarrow> fbyte t ip j = fbyte s ip j) \<and>
     (mapped s ip off (length src) \<longrightarrow> inode_at t ip = inode_at s ip)"

lemma put_slice_nth:
  assumes "k + length new \<le> length d"
  shows "length (put_slice k new d) = length d"
    and "j < length d \<Longrightarrow> put_slice k new d ! j = (if k \<le> j \<and> j < k + length new then new ! (j - k) else d ! j)"
  using assms by (auto simp: put_slice_def nth_append)

lemma put_slice_file:
  assumes len: "length src \<le> BSIZE - off mod BSIZE" "length d = BSIZE" and x: "x div BSIZE = off div BSIZE"
  shows "put_slice (off mod BSIZE) src d ! (x mod BSIZE) = (if off \<le> x \<and> x < off + length src then src ! (x - off) else d ! (x mod BSIZE))"
proof -
  define q where "q = off div BSIZE * BSIZE"
  have q: "x = q + x mod BSIZE" "off = q + off mod BSIZE"
    using div_mult_mod_eq [of x BSIZE] div_mult_mod_eq [of off BSIZE] by (simp_all add: q_def x)
  have b: "x mod BSIZE < BSIZE" "off mod BSIZE < BSIZE" using BSIZE_pos by simp_all
  have c: "off mod BSIZE \<le> x mod BSIZE \<longleftrightarrow> off \<le> x" "x mod BSIZE < off mod BSIZE + length src \<longleftrightarrow> x < off + length src"
    "x mod BSIZE - off mod BSIZE = x - off" using q by linarith+
  have fit: "off mod BSIZE + length src \<le> length d" using len b by linarith
  show ?thesis using put_slice_nth(2) [OF fit, of "x mod BSIZE"] b(1) len(2) unfolding c by simp
qed

lemma fslice_eqI: "(\<And>j. j < length src \<Longrightarrow> fbyte s ip (off + j) = src ! j) \<Longrightarrow> fslice s ip off (length src) = src"
  by (rule nth_equalityI) (simp_all add: fslice_def)

lemma extends_block: "extends s ip t \<Longrightarrow> bn < MAXFILE \<Longrightarrow> fblock s ip bn \<noteq> 0 \<Longrightarrow> fblock t ip bn = fblock s ip bn"
  by (auto simp: extends_def)

lemma wrote_trans:
  assumes 1: "wrote s i p ip k off a t" and 2: "wrote t i p ip j (off + length a) b u"
  shows "wrote s i p ip (k + j) off (a @ b) u"
proof -
  obtain us vs where us: "length us \<le> 6 * k" "fstep s i p {} ip us t" and vs: "length vs \<le> 6 * j" "fstep t i p {} ip vs u"
    using 1 2 by (auto simp: wrote_def)
  have st: "\<exists>us. length us \<le> 6 * (k + j) \<and> fstep s i p {} ip us u"
    using fstep_trans [OF us(2) vs(2)] us(1) vs(1) by (intro exI [of _ "us @ vs"]) simp
  have e1: "extends s ip t" and e2: "extends t ip u" using 1 2 by (simp_all add: wrote_def)
  have e: "extends s ip u" by (rule extends_trans [OF e1 e2 fstep_facts(10) [OF us(2)]])
  have m1: "mapped t ip off (length a)" and m2: "mapped u ip (off + length a) (length b)" using 1 2 by (simp_all add: wrote_def)
  have old: "fbyte u ip x = fbyte t ip x" if "off \<le> x" "x < off + length a" for x
    using 2 m1 that by (simp add: wrote_def mapped_def)
  have "fslice u ip off (length a) = fslice t ip off (length a)" using old by (simp add: fslice_def)
  then have "fslice u ip off (length a) = a" "fslice u ip (off + length a) (length b) = b" using 1 2 by (simp_all add: wrote_def)
  then have sl: "fslice u ip off (length (a @ b)) = a @ b" by (simp flip: fslice_append)
  have m: "mapped u ip off (length (a @ b))"
    unfolding mapped_def
  proof (intro allI impI)
    fix x assume x: "off \<le> x \<and> x < off + length (a @ b)"
    show "x div BSIZE < MAXFILE \<and> fblock u ip (x div BSIZE) \<noteq> 0"
    proof (cases "x < off + length a")
      case True
      then show ?thesis using m1 x extends_block [OF e2] by (simp add: mapped_def)
    next
      case False
      then show ?thesis using m2 x by (simp add: mapped_def)
    qed
  qed
  have "fbyte u ip x = fbyte s ip x"
    if "x < off \<or> off + length (a @ b) \<le> x" "x div BSIZE < MAXFILE" "fblock s ip (x div BSIZE) \<noteq> 0" for x
  proof -
    have "fblock t ip (x div BSIZE) \<noteq> 0" using extends_block [OF e1] that by simp
    then have "fbyte u ip x = fbyte t ip x" using 2 that by (auto simp: wrote_def)
    also have "\<dots> = fbyte s ip x" using 1 that by (auto simp: wrote_def)
    finally show ?thesis .
  qed
  moreover have "inode_at u ip = inode_at s ip" if ms: "mapped s ip off (length (a @ b))"
  proof -
    have "mapped s ip off (length a)" "mapped s ip (off + length a) (length b)" using ms by (simp_all add: mapped_def)
    moreover from this(2) have "mapped t ip (off + length a) (length b)" using extends_block [OF e1] by (simp add: mapped_def)
    ultimately show ?thesis using 1 2 by (simp add: wrote_def)
  qed
  ultimately show ?thesis using st e m sl 1 2 by (simp add: wrote_def)
qed

lemma wrote_nil: "file_inv s ip \<Longrightarrow> txinv s i p {} \<Longrightarrow> wrote s i p ip 0 off [] s"
  using fstep_refl [of ip s i p "{}"] file_inv_facts(1) [of s ip]
  by (simp add: wrote_def extends_refl mapped_def fslice_def)

text \<open>One block: \<open>t\<close> is the state after \<open>bmap\<close>, \<open>u\<close> after the block has been changed.\<close>

lemma wrote_block:
  assumes f: "file_inv s ip" and tx: "txinv s i p {}" and b: "bmap_ok s i p ip (off div BSIZE) a t"
    and bn: "off div BSIZE < MAXFILE" and len: "length src \<le> BSIZE - off mod BSIZE" and ne: "src \<noteq> []"
    and st: "txstep t i p {} [(a, put_slice (off mod BSIZE) src (blk t a))] u"
  shows "wrote s i p ip 1 off src u"
proof -
  let ?bn = "off div BSIZE"
  obtain us where us: "length us \<le> 5" "fstep s i p {} ip us t" using b by (auto simp: bmap_ok_def)
  have ft: "file_inv t ip" and a: "a \<noteq> 0" "fblock t ip ?bn = a" and e: "extends s ip t" and nf: "nfree s \<le> nfree t + 2"
    and keep: "\<forall>m < MAXFILE. fblock s ip m \<noteq> 0 \<longrightarrow> blk t (fblock s ip m) = blk s (fblock s ip m)"
    using b by (simp_all add: bmap_ok_def)
  note F = file_inv_facts [OF ft]
  have da: "data_block t a" "a \<noteq> indirect t ip" using F(7,8) [OF bn] a by auto
  then have ab: "a < sb_size (sb t)" "\<not> bitmap_block t a" by (simp_all add: data_block_def)
  note W = file_inv_write [OF ft st ab da(2)]
  have bu: "blk u = (blk t)(a := put_slice (off mod BSIZE) src (blk t a))" using st by (simp add: txstep_def)
  have la: "length (blk t a) = BSIZE" using blk_length txinv_binv [OF fstep_facts(2) [OF us(2)]] by blast
  note P = put_slice_file [OF len la]
  have cov: "(off + j) div BSIZE = ?bn" if "j < length src" for j using chunk_index(1) that len by simp
  have bytes: "fbyte u ip (off + j) = src ! j" if "j < length src" for j
    using P [OF cov [OF that]] that by (simp add: fbyte_def W a(2) bu cov)
  have rest: "fbyte u ip x = fbyte s ip x"
    if x: "x < off \<or> off + length src \<le> x" "x div BSIZE < MAXFILE" "fblock s ip (x div BSIZE) \<noteq> 0" for x
  proof -
    have same: "fblock t ip (x div BSIZE) = fblock s ip (x div BSIZE)" using extends_block [OF e] x by simp
    have "fbyte u ip x = fbyte t ip x"
    proof (cases "x div BSIZE = ?bn")
      case True
      then show ?thesis using P [OF True] x(1) a(2) by (auto simp: fbyte_def W bu)
    next
      case False
      then have "fblock t ip (x div BSIZE) \<noteq> a" using F(9) [OF x(2) bn] a by auto
      then show ?thesis by (simp add: fbyte_def W bu)
    qed
    then show ?thesis using keep x same by (simp add: fbyte_def)
  qed
  have e2: "extends t ip u"
    using write_used(1) [OF st ab(2)] a(2) bn unfolding extends_def by (auto simp: W bu)
  have "extends s ip u" by (rule extends_trans [OF e e2 fstep_facts(10) [OF us(2)]])
  moreover have "fstep s i p {} ip (us @ [(a, put_slice (off mod BSIZE) src (blk t a))]) u"
    by (rule fstep_trans [OF us(2) txstep_fstep [OF F(1) st] order_refl])
  then have "\<exists>us. length us \<le> 6 * 1 \<and> fstep s i p {} ip us u" using us(1)
    by (intro exI [of _ "us @ [(a, put_slice (off mod BSIZE) src (blk t a))]"]) simp
  moreover have "mapped u ip off (length src)"
    unfolding mapped_def
  proof (intro allI impI)
    fix x assume "off \<le> x \<and> x < off + length src"
    then have "off + (x - off) = x" "x - off < length src" by linarith+
    then have "x div BSIZE = ?bn" using cov [of "x - off"] by simp
    then show "x div BSIZE < MAXFILE \<and> fblock u ip (x div BSIZE) \<noteq> 0" using a bn W(1) by simp
  qed
  moreover have "nfree s \<le> nfree u + 2 * 1" using nf nfree_write [OF st ab(2)] by simp
  moreover have "fslice u ip off (length src) = src" by (rule fslice_eqI) (rule bytes)
  moreover have "inode_at u ip = inode_at s ip" if "mapped s ip off (length src)"
  proof -
    have "fblock s ip ?bn \<noteq> 0" using that ne by (simp add: mapped_def)
    then show ?thesis using b lframe_fs(2) [of t u] st by (simp add: bmap_ok_def txstep_def)
  qed
  ultimately show ?thesis
    using W(3) rest unfolding wrote_def by blast
qed

text \<open>The number of blocks that \<open>n\<close> bytes at offset \<open>off\<close> touch.\<close>

definition nblocks :: "nat \<Rightarrow> nat \<Rightarrow> nat" where
  "nblocks off n = (if n = 0 then 0 else (off mod BSIZE + n + BSIZE - 1) div BSIZE)"

lemma nblocks_Suc:
  assumes "0 < n" and m: "m = min n (BSIZE - off mod BSIZE)"
  shows "nblocks off n = Suc (nblocks (off + m) (n - m))"
proof (cases "n \<le> BSIZE - off mod BSIZE")
  case True
  have b: "off mod BSIZE < BSIZE" using BSIZE_pos by simp
  have "(off mod BSIZE + n + BSIZE - 1) div BSIZE = 1"
    by (rule div_nat_eqI) (use True assms(1) b in simp_all)
  then show ?thesis using True assms by (simp add: nblocks_def)
next
  case False
  have b: "off mod BSIZE < BSIZE" using BSIZE_pos by simp
  have m': "m = BSIZE - off mod BSIZE" "m < n" using False m by simp_all
  have "(off + m) mod BSIZE = (off mod BSIZE + m) mod BSIZE" by (rule mod_add_left_eq [symmetric])
  also have "\<dots> = 0" using m'(1) b by simp
  finally have z: "(off + m) mod BSIZE = 0" .
  have "off mod BSIZE + n + BSIZE - 1 = (n - m + BSIZE - 1) + BSIZE" using m' b assms(1) by linarith
  then have "(off mod BSIZE + n + BSIZE - 1) div BSIZE = Suc ((n - m + BSIZE - 1) div BSIZE)" 
    using div_add_self2 [of BSIZE "n - m + BSIZE - 1"] BSIZE_pos by (metis Suc_eq_plus1 less_numeral_extra(3))
  then show ?thesis using m'(2) z assms(1) unfolding nblocks_def by simp
qed

lemma div_BSIZE_lt: "k < m * BSIZE \<Longrightarrow> k div BSIZE < m"
  by (simp add: less_mult_imp_div_less)

lemma txinv_room: "txinv s i p H \<Longrightarrow> log_n s + 6 < log_size s \<Longrightarrow> nat (log_n s) + 5 < NBUF"
  by (auto simp: txinv_def log_geometry_def LOGSIZE_def MAXOPBLOCKS_def NBUF_def)

lemma writei_loop_runs:
  assumes "file_inv s ip" "txinv s i p {}" "off + length src \<le> MAXFILE * BSIZE" "2 * nblocks off (length src) \<le> nfree s"
    "log_n s + 6 * int (nblocks off (length src)) < log_size s" "1 \<le> log_outstanding s"
  shows "runs (writei_loop ip off src s) (\<lambda>_. wrote s i p ip (nblocks off (length src)) off src)"
  using assms
proof (induction "length src" arbitrary: s off src rule: less_induct)
  case less
  note f = less.prems(1) and tx = less.prems(2) and size = less.prems(3) and free = less.prems(4) and room = less.prems(5,6)
  show ?case
  proof (cases "src = []")
    case True
    then show ?thesis using wrote_nil [OF f tx] by (subst writei_loop.simps) (simp add: nblocks_def)
  next
    case False
    define m where m_def: "m = min (length src) (BSIZE - off mod BSIZE)"
    define K where "K = nblocks (off + m) (length src - m)"
    let ?bn = "off div BSIZE" and ?a = "take m src" and ?b = "drop m src"
    have m: "0 < m" "m \<le> length src" "length ?a \<le> BSIZE - off mod BSIZE" "length ?a = m" using False BSIZE_pos by (simp_all add: m_def)
    have k: "nblocks off (length src) = Suc K" unfolding K_def by (rule nblocks_Suc) (use False m_def in simp_all)
    have lim: "2 + 2 * K \<le> nfree s" "log_n s + 6 + 6 * int K < log_size s" using free room k by simp_all
    have bn: "?bn < MAXFILE" by (rule div_BSIZE_lt) (use size False in \<open>cases src; simp\<close>)
    have nb: "nat (log_n s) + 5 < NBUF" by (rule txinv_room [OF tx]) (use lim in simp)
    have "runs (bmap ip ?bn s) (bmap_ok s i p ip ?bn)"
      by (rule bmap_ok_runs [OF f tx bn]) (use lim room nb in simp_all)
    then obtain a t where r: "bmap ip ?bn s = Ok a t" and ok: "bmap_ok s i p ip ?bn a t" by (auto elim: runsE)
    then obtain us where us: "length us \<le> 5" "fstep s i p {} ip us t" by (auto simp: bmap_ok_def)
    note T = fstep_facts [OF us(2)]
    have ft: "file_inv t ip" and a: "data_block t a" using ok bn file_inv_facts(7) [of t ip ?bn] by (auto simp: bmap_ok_def)
    note F = file_inv_facts [OF ft]
    have la: "length (blk t a) = BSIZE" using blk_length txinv_binv [OF T(2)] by blast
    have fit: "off mod BSIZE + length ?a \<le> length (blk t a)" using m(3) la mod_less_divisor [OF BSIZE_pos, of off] by linarith
    have nt: "log_n t \<le> log_n s + 5" using T(4) us(1) by simp
    have ad: "a < disksize t" "a \<notin> log_region t" "length (put_slice (off mod BSIZE) ?a (blk t a)) = BSIZE"
      using a data_block_disk [OF F(5) a] put_slice_nth(1) [OF fit] la by (simp_all add: data_block_def)
    have rt: "card ({} :: nat set) + nat (log_n t) < NBUF" "log_n t < log_size t - 1" "1 \<le> log_outstanding t"
      using nt nb room lim T(11,12) unfolding card.empty by linarith+
    obtain b u v w where r': "bread ROOTDEV a t = Ok b u" "log_write b (set_bdata b (put_slice (off mod BSIZE) ?a) u) = Ok () v"
        "brelse b v = Ok () w" and st: "txstep t i p {} [(a, put_slice (off mod BSIZE) ?a (blk t a))] w"
      by (rule tx_modify [where f = "put_slice (off mod BSIZE) ?a", OF T(2) ad(1,2) _ rt ad(3)]) simp
    have W: "wrote s i p ip 1 off ?a w" by (rule wrote_block [OF f tx ok bn m(3) _ st]) (use m(1) False in simp)
    have lw: "lframe t w" and nw: "log_n w \<le> log_n t + 1" and tw: "txinv w i p {}" using st by (simp_all add: txstep_def)
    have fw: "file_inv w ip" "nfree s \<le> nfree w + 2" using W by (simp_all add: wrote_def)
    have "runs (writei_loop ip (off + m) ?b w) (\<lambda>_. wrote w i p ip (nblocks (off + m) (length ?b)) (off + m) ?b)"
    proof (rule less.hyps [OF _ fw(1) tw])
      show "length ?b < length src" "off + m + length ?b \<le> MAXFILE * BSIZE" using m(1,2) size by simp_all
      show "2 * nblocks (off + m) (length ?b) \<le> nfree w" using lim(1) fw(2) by (simp flip: K_def)
      show "log_n w + 6 * int (nblocks (off + m) (length ?b)) < log_size w"
        using lim(2) nw nt T(11) lframe_sel(2) [OF lw] by (simp flip: K_def)
      show "1 \<le> log_outstanding w" using room T(12) lframe_sel(3) [OF lw] by simp
    qed
    then obtain x where rx: "writei_loop ip (off + m) ?b w = Ok () x" and wx: "wrote w i p ip K (off + length ?a) ?b x"
      using m(4) by (auto elim: runsE simp: K_def)
    have "wrote s i p ip (nblocks off (length src)) off src x" using wrote_trans [OF W wx] k by simp
    moreover have "writei_loop ip off src s = Ok () x"
      using False r r' rx F(2) by (subst writei_loop.simps) (simp add: Let_def flip: m_def)
    ultimately show ?thesis by simp
  qed
qed

text \<open>A regular file: the invariant, fields that fit their place on disk, and a block for every byte of its size.\<close>

definition file_ok :: "'z fstate_scheme \<Rightarrow> nat \<Rightarrow> bool" where
  "file_ok s ip \<longleftrightarrow> file_inv s ip \<and> i_type (inode_at s ip) \<noteq> T_DEV \<and>
     short_ok (i_type (inode_at s ip)) \<and> short_ok (i_major (inode_at s ip)) \<and> short_ok (i_minor (inode_at s ip)) \<and>
     short_ok (i_nlink (inode_at s ip)) \<and> unat (i_size (inode_at s ip)) \<le> MAXFILE * BSIZE \<and>
     mapped s ip 0 (unat (i_size (inode_at s ip)))"

lemma file_fits:
  assumes f: "file_inv s ip" and "short_ok (i_type (inode_at s ip))" "short_ok (i_major (inode_at s ip))"
    "short_ok (i_minor (inode_at s ip))" "short_ok (i_nlink (inode_at s ip))"
  shows "inode_fits (inode_at s ip)"
proof -
  note F = file_inv_facts [OF f]
  have "i_addrs (inode_at s ip) ! j < 2 ^ 32" if "j \<le> NDIRECT" for j
  proof (cases "j < NDIRECT")
    case True
    then show ?thesis using F(7) [of j] data_block_disk [OF F(5)]
      by (cases "fblock s ip j = 0") (simp_all add: fblock_def MAXFILE_def)
  next
    case False
    then have "j = NDIRECT" using that by simp
    then show ?thesis using F(6) data_block_disk [OF F(5)] by (cases "indirect s ip = 0") (simp_all add: indirect_def)
  qed
  then show ?thesis using F(4) assms by (auto simp: inode_fits_def in_set_conv_nth)
qed

lemma iupdate_runs:
  assumes f: "file_inv s ip" and tx: "txinv s i p {}" and room: "log_n s < log_size s - 1" "1 \<le> log_outstanding s" "nat (log_n s) < NBUF"
  shows "runs (iupdate ip s) (\<lambda>_. txstep s i p {} [(IBLOCK (i_inum (inode_at s ip)) (sb s),
    dip_put (inode_at s ip) (blk s (IBLOCK (i_inum (inode_at s ip)) (sb s))))])"
proof -
  note F = file_inv_facts [OF f]
  let ?n = "IBLOCK (i_inum (inode_at s ip)) (sb s)"
  have "inode_block s ?n" using F(3) by (auto simp: inode_block_def)
  then have n: "?n < disksize s" "?n \<notin> log_region s" using F(5) by (auto simp: fs_layout_def fs_geom_def)
  have len: "length (dip_put (inode_at s ip) (blk s ?n)) = BSIZE" using blk_length txinv_binv [OF tx] by auto
  have c: "card ({} :: nat set) + nat (log_n s) < NBUF" using room by simp
  obtain b u v t where r: "bread ROOTDEV ?n s = Ok b u" "lframe s u"
    "log_write b (set_bdata b (dip_put (inode_at s ip)) u) = Ok () v" "brelse b v = Ok () t"
    "txstep s i p {} [(?n, dip_put (inode_at s ip) (blk s ?n))] t"
    by (rule tx_modify [where f = "dip_put (inode_at s ip)", OF tx n _ c room(1,2) len]) simp
  then show ?thesis using F(2) lframe_fs(2) [OF r(2)] by (simp add: iupdate_def Let_def)
qed

lemma mapped_mono: "mapped s ip a n \<Longrightarrow> a \<le> off \<Longrightarrow> off + len \<le> a + n \<Longrightarrow> mapped s ip off len"
  by (auto simp: mapped_def)

lemma readi_runs:
  assumes ok: "file_ok s ip" and tx: "txinv s i p {}" and room: "nat (log_n s) < NBUF"
    and le: "unat off \<le> unat (i_size (inode_at s ip))" and nov: "unat off + unat n < 2 ^ 32"
    and len: "len = min (unat n) (unat (i_size (inode_at s ip)) - unat off)"
  shows "runs (readi ip off n s) (\<lambda>(r, got) t. r = int len \<and> got = take len (drop (unat off) (fcontent s ip)) \<and> txstep s i p {} [] t)"
proof -
  let ?z = "i_size (inode_at s ip)"
  have f: "file_inv s ip" and T: "i_type (inode_at s ip) \<noteq> T_DEV" and z: "unat ?z \<le> MAXFILE * BSIZE" and mp: "mapped s ip 0 (unat ?z)"
    using ok by (simp_all add: file_ok_def)
  have un: "unat (off + n) = unat off + unat n" using nov by (simp add: unat_plus_if')
  have c: "\<not> off > ?z" "\<not> off + n < off" using le un by (simp_all add: word_less_nat_alt)
  define k where "k = (if off + n > ?z then ?z - off else n)"
  have uk: "unat k = len"
    using le un unfolding k_def len by (simp add: word_less_nat_alt unat_sub_if' word_le_nat_alt)
  have "len \<le> MAXFILE * BSIZE" using z len by linarith
  then have "unat k < 2 ^ 31" unfolding uk by (simp add: MAXFILE_def NDIRECT_def NINDIRECT_def BSIZE_def)
  then have sk: "sint k = int len" using sint_small [of k] unfolding uk by simp
  have m: "mapped s ip (unat off) len" by (rule mapped_mono [OF mp]) (use le len in linarith)+
  have "fslice s ip (unat off) len = take len (drop (unat off) (fcontent s ip))" by (rule fslice_content) (use le len in simp_all)
  then obtain t where "readi_loop ip (unat off) (unat k) s = Ok (take len (drop (unat off) (fcontent s ip))) t" "txstep s i p {} [] t"
    using readi_loop_runs [OF f tx room m] unfolding uk by (auto elim: runsE)
  then show ?thesis using T c unfolding readi_def Let_def k_def [symmetric] by (simp add: sk)
qed

lemma fcontent_eqI:
  assumes "length xs = unat (i_size (inode_at s ip))" "\<And>j. j < length xs \<Longrightarrow> fbyte s ip j = xs ! j"
  shows "fcontent s ip = xs"
  unfolding fcontent_def by (rule nth_equalityI) (use assms in \<open>simp_all add: fslice_def\<close>)

text \<open>The size of a file does not matter for its blocks.\<close>

definition set_size :: "nat \<Rightarrow> u32 \<Rightarrow> 'z fstate_scheme \<Rightarrow> 'z fstate_scheme" where
  "set_size ip z s = upd_inode ip (\<lambda>i. i\<lparr>i_size := z\<rparr>) s"

lemma set_size_file:
  assumes "ip < length (icache s)"
  shows "fblock (set_size ip z s) ip = fblock s ip" "indirect (set_size ip z s) ip = indirect s ip"
    "file_inv (set_size ip z s) ip = file_inv s ip" "fbyte (set_size ip z s) ip = fbyte s ip"
    "mapped (set_size ip z s) ip = mapped s ip"
proof -
  show i: "indirect (set_size ip z s) ip = indirect s ip" using assms by (simp add: indirect_def set_size_def)
  show f: "fblock (set_size ip z s) ip = fblock s ip" using assms i by (simp add: fblock_def set_size_def fun_eq_iff)
  have b: "inode_block (set_size ip z s) = inode_block s" by (simp add: inode_block_def set_size_def fun_eq_iff)
  have d: "data_block (set_size ip z s) = data_block s" "fs_layout (set_size ip z s) = fs_layout s"
    using b by (simp_all add: data_block_def fs_layout_def set_size_def fun_eq_iff)
  show "file_inv (set_size ip z s) ip = file_inv s ip" using assms by (simp add: file_inv_def i f d) (simp add: set_size_def)
  show "fbyte (set_size ip z s) ip = fbyte s ip" "mapped (set_size ip z s) ip = mapped s ip"
    using f by (simp_all add: fbyte_def mapped_def fun_eq_iff) (simp add: set_size_def)
qed

text \<open>Recording the inode leaves the contents and the blocks of the file as they are.\<close>

lemma inode_block_apart:
  assumes "file_inv s ip" and n: "n = IBLOCK (i_inum (inode_at s ip)) (sb s)"
  shows "n < sb_size (sb s)" "\<not> bitmap_block s n" "n \<noteq> indirect s ip"
    "bn < MAXFILE \<Longrightarrow> fblock s ip bn \<noteq> 0 \<Longrightarrow> fblock s ip bn \<noteq> n"
proof -
  note F = file_inv_facts [OF assms(1)]
  have ib: "inode_block s n" using F(3) by (auto simp: inode_block_def n)
  then show "n < sb_size (sb s)" "\<not> bitmap_block s n" using F(5) by (auto simp: fs_layout_def)
  have "0 < n" using F(5) ib by (simp add: fs_layout_def)
  then show "n \<noteq> indirect s ip" using F(6) ib by (cases "indirect s ip = 0") (auto simp: data_block_def)
  show "bn < MAXFILE \<Longrightarrow> fblock s ip bn \<noteq> 0 \<Longrightarrow> fblock s ip bn \<noteq> n" using F(7) ib by (auto simp: data_block_def)
qed

lemma iupdate_file:
  assumes f: "file_inv s ip" and n: "n = IBLOCK (i_inum (inode_at s ip)) (sb s)" and st: "txstep s i p {} [(n, d)] t"
  shows "file_inv t ip" "fblock t ip = fblock s ip" "inode_at t ip = inode_at s ip" "mapped t ip = mapped s ip"
    "mapped s ip j 1 \<Longrightarrow> fbyte t ip j = fbyte s ip j"
proof -
  note A = inode_block_apart [OF f n]
  note W = file_inv_write [OF f st A(1,2,3)]
  have l: "lframe s t" and b: "blk t = (blk s)(n := d)" using st by (simp_all add: txstep_def)
  show "file_inv t ip" "fblock t ip = fblock s ip" by (rule W)+
  show "inode_at t ip = inode_at s ip" using lframe_fs(2) [OF l] by simp
  show "mapped t ip = mapped s ip" by (simp add: mapped_def W fun_eq_iff)
  show "fbyte t ip j = fbyte s ip j" if "mapped s ip j 1"
  proof -
    have "fblock s ip (j div BSIZE) \<noteq> n" by (rule A(4)) (use that in \<open>simp_all add: mapped_def\<close>)
    then show ?thesis by (simp add: fbyte_def W b)
  qed
qed

lemma put_slice_grow:
  assumes "k \<le> length d"
  shows "length (put_slice k new d) = max (length d) (k + length new)"
    and "j < max (length d) (k + length new) \<Longrightarrow>
      put_slice k new d ! j = (if k \<le> j \<and> j < k + length new then new ! (j - k) else d ! j)"
  using assms by (auto simp: put_slice_def nth_append)

text \<open>What the file holds after the bytes have been written and its size has been set.\<close>

lemma wrote_content:
  assumes ok: "file_ok s ip" and wr: "wrote s i p ip k off src t" and off: "off \<le> unat (i_size (inode_at s ip))"
    and w: "file_inv w ip" "mapped w ip = mapped t ip" "\<And>j. mapped t ip j 1 \<Longrightarrow> fbyte w ip j = fbyte t ip j"
    and x: "inode_at w ip = (inode_at t ip)\<lparr>i_size := z\<rparr>"
    and z: "unat z = max (unat (i_size (inode_at s ip))) (off + length src)" and lim: "off + length src \<le> MAXFILE * BSIZE"
  shows "file_ok w ip \<and> fcontent w ip = put_slice off src (fcontent s ip)"
proof -
  obtain as where as: "inode_at t ip = (inode_at s ip)\<lparr>i_addrs := as\<rparr>" using wr fstep_facts(17) unfolding wrote_def by blast
  let ?n = "unat (i_size (inode_at s ip))"
  have n: "?n \<le> MAXFILE * BSIZE" and ms: "mapped s ip 0 ?n" using ok by (simp_all add: file_ok_def)
  have e: "extends s ip t" and mt: "mapped t ip off (length src)" and sl: "fslice t ip off (length src) = src"
    and rest: "\<forall>j. (j < off \<or> off + length src \<le> j) \<and> j div BSIZE < MAXFILE \<and> fblock s ip (j div BSIZE) \<noteq> 0 \<longrightarrow> fbyte t ip j = fbyte s ip j"
    using wr by (simp_all add: wrote_def)
  have m1: "mapped t ip 0 ?n" using ms extends_block [OF e] by (simp add: mapped_def)
  have m: "mapped t ip 0 (unat z)"
    unfolding mapped_def z
  proof (intro allI impI)
    fix j assume "0 \<le> j \<and> j < 0 + max ?n (off + length src)"
    then consider "j < ?n" | "off \<le> j" "j < off + length src" using off by linarith
    then show "j div BSIZE < MAXFILE \<and> fblock t ip (j div BSIZE) \<noteq> 0"
      by cases (use m1 mt in \<open>simp_all add: mapped_def\<close>)
  qed
  have byte: "fbyte w ip j = put_slice off src (fcontent s ip) ! j" if j: "j < unat z" for j
  proof -
    have "mapped t ip j 1" by (rule mapped_mono [OF m]) (use j in simp_all)
    then have wt: "fbyte w ip j = fbyte t ip j" by (rule w(3))
    have p: "put_slice off src (fcontent s ip) ! j = (if off \<le> j \<and> j < off + length src then src ! (j - off) else fcontent s ip ! j)"
      by (rule put_slice_grow(2)) (use j z off in \<open>simp_all add: fcontent_def\<close>)
    show ?thesis
    proof (cases "off \<le> j \<and> j < off + length src")
      case True
      then have "off + (j - off) = j" "j - off < length src" by linarith+
      then have "fslice t ip off (length src) ! (j - off) = fbyte t ip j" by (simp add: fslice_def)
      then show ?thesis using True sl p wt by simp
    next
      case False
      then have jn: "j < ?n" using j z off by (auto simp: max_def split: if_splits)
      then have "fbyte t ip j = fbyte s ip j" using rest False ms by (auto simp: mapped_def)
      then show ?thesis using False p wt jn by (auto simp: fcontent_def fslice_def)
    qed
  qed
  have "length (put_slice off src (fcontent s ip)) = unat z" using put_slice_grow(1) [of off "fcontent s ip" src] off z
    by (simp add: fcontent_def)
  then have "fcontent w ip = put_slice off src (fcontent s ip)" using byte x by (intro fcontent_eqI) simp_all
  moreover have "file_ok w ip" using w(1,2) x as ok z n lim m by (simp add: file_ok_def)
  ultimately show ?thesis by simp
qed

text \<open>
  The inode of a file of which \<open>len\<close> bytes at \<open>off\<close> were written.  Only its addresses and size change.  When
  the file has grown, its place in the inode block holds exactly the new fields; otherwise inode and inode block are as before.  In
  both cases the other inodes of that block are.
\<close>

definition inode_written :: "'z fstate_scheme \<Rightarrow> nat \<Rightarrow> nat \<Rightarrow> nat \<Rightarrow> 'z fstate_scheme \<Rightarrow> bool" where
  "inode_written s ip off len t \<longleftrightarrow> (let n = IBLOCK (i_inum (inode_at s ip)) (sb s); x = inode_at s ip; y = inode_at t ip in
     y = x\<lparr>i_addrs := i_addrs y, i_size := i_size y\<rparr> \<and>
     (if unat (i_size x) < off + len then dip_get (blk t n) y = y else y = x \<and> blk t n = blk s n) \<and>
     (\<forall>z. dip_off (i_inum z) \<noteq> dip_off (i_inum x) \<longrightarrow> dip_get (blk t n) z = dip_get (blk s n) z))"

text \<open>
  The outcome of a write: the contents of the file, its inode in memory and on disk, and what else stays: other inodes in
  memory, the disk itself (until the commit), and every block in use outside the file, its inode block and the bitmap.
\<close>

definition written :: "'z fstate_scheme \<Rightarrow> nat \<Rightarrow> nat \<Rightarrow> nat \<Rightarrow> nat \<Rightarrow> byte list \<Rightarrow> 'z fstate_scheme \<Rightarrow> bool" where
  "written s i p ip off src t \<longleftrightarrow> txinv t i p {} \<and> file_ok t ip \<and> fcontent t ip = put_slice off src (fcontent s ip) \<and>
     inode_written s ip off (length src) t \<and>
     log_n t \<le> log_n s + 6 * int (nblocks off (length src)) + 1 \<and> disk t = disk s \<and> (\<forall>j. j \<noteq> ip \<longrightarrow> inode_at t j = inode_at s j) \<and>
     (\<forall>m < sb_size (sb s). used s m \<and> \<not> bitmap_block s m \<and> m \<noteq> IBLOCK (i_inum (inode_at s ip)) (sb s) \<and> m \<noteq> indirect s ip \<and>
        (\<forall>bn < MAXFILE. fblock s ip bn \<noteq> m) \<longrightarrow> blk t m = blk s m)"

lemma extends_inode_block:
  assumes "extends s ip t" and f: "file_inv s ip" and n: "n = IBLOCK (i_inum (inode_at s ip)) (sb s)"
  shows "blk t n = blk s n"
proof -
  note A = inode_block_apart [OF f n]
  have "inode_block s n" using file_inv_facts(3) [OF f] by (auto simp: inode_block_def n)
  then have "used s n" "0 < n" using file_inv_facts(5) [OF f] by (simp_all add: fs_layout_def)
  moreover from this(2) have "\<forall>bn < MAXFILE. fblock s ip bn \<noteq> n" using A(4) by (metis less_numeral_extra(3))
  ultimately show ?thesis using assms(1) A(1-3) by (simp add: extends_def)
qed

lemma writei_loop_facts:
  assumes "wrote s i p ip k off src t" and f: "file_inv s ip"
  shows "txinv t i p {}" "log_n t \<le> log_n s + 6 * int k" "disk t = disk s" "j \<noteq> ip \<Longrightarrow> inode_at t j = inode_at s j"
    "sb t = sb s" "log_size t = log_size s" "log_outstanding t = log_outstanding s" "ip < length (icache t)"
    "\<exists>as. inode_at t ip = (inode_at s ip)\<lparr>i_addrs := as\<rparr>"
proof -
  obtain us where us: "length us \<le> 6 * k" "fstep s i p {} ip us t" using assms by (auto simp: wrote_def)
  note F = fstep_facts [OF us(2)]
  show "txinv t i p {}" "log_n t \<le> log_n s + 6 * int k" "disk t = disk s" "j \<noteq> ip \<Longrightarrow> inode_at t j = inode_at s j"
    "sb t = sb s" "log_size t = log_size s" "log_outstanding t = log_outstanding s" "ip < length (icache t)"
    "\<exists>as. inode_at t ip = (inode_at s ip)\<lparr>i_addrs := as\<rparr>"
    using F us(1) by simp_all
qed

text \<open>The end of \<open>writei\<close>: a file that has grown gets its new size, in memory and in its inode on disk.\<close>

lemma writei_finish:
  assumes ok: "file_ok s ip" and wr: "wrote s i p ip (nblocks off (length src)) off src t" and off: "off \<le> unat (i_size (inode_at s ip))"
    and lim: "off + length src \<le> MAXFILE * BSIZE" and grow: "unat (i_size (inode_at s ip)) < off + length src" "unat z = off + length src"
    and room: "log_n s + 6 * int (nblocks off (length src)) + 1 < log_size s" "1 \<le> log_outstanding s"
  shows "runs (iupdate ip (set_size ip z t)) (\<lambda>_. written s i p ip off src)"
proof -
  have fs: "file_inv s ip" using ok by (simp add: file_ok_def)
  note T = writei_loop_facts [OF wr fs]
  obtain as where as: "inode_at t ip = (inode_at s ip)\<lparr>i_addrs := as\<rparr>" using T(9) by blast
  have ft: "file_inv t ip" and e: "extends s ip t" using wr by (simp_all add: wrote_def)
  let ?t = "set_size ip z t"
  note Z = set_size_file [OF T(8), of z]
  have xt: "inode_at ?t ip = (inode_at t ip)\<lparr>i_size := z\<rparr>" "sb ?t = sb s" using T(5,8) by (simp_all add: set_size_def)
  define n where "n = IBLOCK (i_inum (inode_at ?t ip)) (sb ?t)"
  have nI: "n = IBLOCK (i_inum (inode_at s ip)) (sb s)" using xt as by (simp add: n_def)
  have f: "file_inv ?t ip" using ft Z(3) by simp
  have tx: "txinv ?t i p {}" using T(1) by (simp add: set_size_def)
  have "nat (log_n t) + 1 < NBUF" using room T(1,2,6) by (auto simp: txinv_def log_geometry_def LOGSIZE_def MAXOPBLOCKS_def NBUF_def)
  then obtain w where r: "iupdate ip ?t = Ok () w" and st: "txstep ?t i p {} [(n, dip_put (inode_at ?t ip) (blk ?t n))] w"
    using iupdate_runs [OF f tx] room T(2,6,7) unfolding n_def by (auto simp: set_size_def elim: runsE)
  note U = iupdate_file [OF f n_def st]
  have C: "file_ok w ip \<and> fcontent w ip = put_slice off src (fcontent s ip)"
    by (rule wrote_content [OF ok wr off U(1)]) (use U Z xt grow lim in simp_all)
  have w: "txinv w i p {}" "log_n w \<le> log_n ?t + 1" "disk w = disk ?t" "icache w = icache ?t" "blk w = (blk ?t)(n := dip_put (inode_at ?t ip) (blk ?t n))"
    using st lframe_fs(2) [of ?t w] by (simp_all add: txstep_def)
  have len: "length (blk ?t n) = BSIZE" using blk_length txinv_binv [OF tx] by blast
  have fit: "inode_fits (inode_at ?t ip)" using file_fits [OF f] ok xt as by (simp add: file_ok_def)
  have dip: "dip_get (blk w n) (inode_at w ip) = inode_at w ip"
    using dip_get_put [OF fit len refl] w(4,5) by (simp add: copy_disk_fields_def)
  have "blk w m = blk s m" if "m < sb_size (sb s)" "used s m" "\<not> bitmap_block s m" "m \<noteq> n" "m \<noteq> indirect s ip"
    "\<forall>bn < MAXFILE. fblock s ip bn \<noteq> m" for m
    using e that w(5) by (simp add: extends_def set_size_def)
  moreover have "inode_at w j = inode_at s j" if "j \<noteq> ip" for j using T(4) that w(4) by (simp add: set_size_def)
  moreover have "inode_written s ip off (length src) w"
  proof -
    have "blk ?t n = blk s n" using extends_inode_block [OF e fs nI] by (simp add: set_size_def)
    then have "dip_get (blk w n) y = dip_get (blk s n) y" if "dip_off (i_inum y) \<noteq> dip_off (i_inum (inode_at s ip))" for y
      using dip_get_put_other [OF fit, of y "blk s n"] that w(5) xt as by simp
    then show ?thesis using dip w(4) xt as grow(1) unfolding inode_written_def nI [symmetric] Let_def by simp
  qed
  ultimately have "written s i p ip off src w"
    using C w(1-3) T(2,3) nI by (simp add: written_def set_size_def)
  then show ?thesis using r by simp
qed

lemma writei_runs:
  assumes ok: "file_ok s ip" and tx: "txinv s i p {}" and off: "unat off \<le> unat (i_size (inode_at s ip))"
    and lim: "unat off + length src \<le> MAXFILE * BSIZE" and free: "2 * nblocks (unat off) (length src) \<le> nfree s"
    and room: "log_n s + 6 * int (nblocks (unat off) (length src)) + 1 < log_size s" "1 \<le> log_outstanding s"
  shows "runs (writei ip src off s) (\<lambda>r t. r = int (length src) \<and> written s i p ip (unat off) src t)"
proof -
  have f: "file_inv s ip" and T: "i_type (inode_at s ip) \<noteq> T_DEV" using ok by (simp_all add: file_ok_def)
  define n where "n = (of_nat (length src) :: u32)"
  have small: "unat off + length src < 2 ^ 31" using lim by (simp add: MAXFILE_def NDIRECT_def NINDIRECT_def BSIZE_def)
  have un: "unat n = length src" using small by (simp add: n_def unat_of_nat)
  have uo: "unat (off + n) = unat off + length src" using un small by (simp add: unat_plus_if')
  have ls: "unat (of_nat (MAXFILE * BSIZE) :: u32) = MAXFILE * BSIZE"
    by (simp add: unat_of_nat MAXFILE_def NDIRECT_def NINDIRECT_def BSIZE_def)
  have sn: "sint n = int (length src)" using sint_small [of n] un small by simp
  have c: "\<not> (off > i_size (inode_at s ip) \<or> off + n < off)" "\<not> off + n > of_nat (MAXFILE * BSIZE)"
    using off uo lim ls by (simp_all add: word_less_nat_alt)
  obtain t where rt: "writei_loop ip (unat off) src s = Ok () t" and wr: "wrote s i p ip (nblocks (unat off) (length src)) (unat off) src t"
    using writei_loop_runs [OF f tx lim free] room by (auto elim: runsE)
  note F = writei_loop_facts [OF wr f]
  have z: "i_size (inode_at t ip) = i_size (inode_at s ip)" using F(9) by auto
  have step: "writei ip src off s = bindR (if n > 0 \<and> off + n > i_size (inode_at s ip)
      then iupdate ip (set_size ip (off + n) t) else Ok () t) (\<lambda>_ s. Ok (int (length src)) s)"
    using T c rt unfolding writei_def Let_def n_def [symmetric] by (simp add: z sn set_size_def)
  show ?thesis
  proof (cases "n > 0 \<and> off + n > i_size (inode_at s ip)")
    case True
    then have g: "unat (i_size (inode_at s ip)) < unat off + length src" using uo by (simp add: word_less_nat_alt)
    show ?thesis
      using writei_finish [OF ok wr off lim g uo room] True unfolding step by (auto elim!: runsE)
  next
    case False
    have mx: "max (unat (i_size (inode_at s ip))) (unat off + length src) = unat (i_size (inode_at t ip))"
      using False un uo off z by (auto simp: word_less_nat_alt)
    have C: "file_ok t ip \<and> fcontent t ip = put_slice (unat off) src (fcontent s ip)"
      by (rule wrote_content [OF ok wr off, where z = "i_size (inode_at t ip)"]) (use wr mx lim in \<open>simp_all add: wrote_def\<close>)
    have e: "extends s ip t" using wr by (simp add: wrote_def)
    have "mapped s ip (unat off) (length src)"
      by (rule mapped_mono [of s ip 0 "unat (i_size (inode_at s ip))"]) (use ok mx z in \<open>simp_all add: file_ok_def\<close>)
    then have "inode_at t ip = inode_at s ip" using wr by (simp add: wrote_def)
    then have "inode_written s ip (unat off) (length src) t"
      using extends_inode_block [OF e f refl] mx by (simp add: inode_written_def Let_def)
    then have "written s i p ip (unat off) src t" using C F(1-4) e by (simp add: written_def extends_def)
    then show ?thesis unfolding step if_not_P [OF False] by simp
  qed
qed

section \<open>Properties\<close>

text \<open>
  C3. Writing to a regular file: a write of any length that starts behind the end of the file, or would make it longer than
  \<open>MAXFILE\<close> blocks (also when offset plus length wraps around in 32 bits), returns -1 and changes nothing.  Every other
  write that finds two free blocks and six log entries for each block it touches, and one log entry for the inode, returns the
  number of bytes (the chunks of at most 1536 bytes into which \<open>filewrite\<close> cuts a write touch at most four blocks, which an
  empty log of 30 blocks covers).  Then the file's contents are the old ones with the bytes put in at the offset and the file is
  well formed again.  Of its inode only the addresses and the size have changed; a file that has grown has its inode recorded in
  the inode block, where every other inode is as before, and if it has not grown, inode and inode block are unchanged.  Nothing has
  reached the disk before the commit, no other cached inode has changed, and no block in use that belongs neither to the
  file nor to the bitmap nor to the block of its inode has changed.
\<close>

theorem writei_correct:
  assumes ok: "file_ok s ip" and tx: "txinv s i p {}" and len: "length src < 2 ^ 32"
  shows "if unat (i_size (inode_at s ip)) < unat off \<or> MAXFILE * BSIZE < unat off + length src
    then writei ip src off s = Ok (- 1) s
    else 2 * nblocks (unat off) (length src) \<le> nfree s \<and>
      log_n s + 6 * int (nblocks (unat off) (length src)) + 1 < log_size s \<and> 1 \<le> log_outstanding s \<longrightarrow>
      runs (writei ip src off s) (\<lambda>r t. r = int (length src) \<and> written s i p ip (unat off) src t)"
proof (cases "unat (i_size (inode_at s ip)) < unat off \<or> MAXFILE * BSIZE < unat off + length src")
  case True
  define n where "n = (of_nat (length src) :: u32)"
  have un: "unat n = length src" using len by (simp add: n_def unat_of_nat)
  have ls: "unat (of_nat (MAXFILE * BSIZE) :: u32) = MAXFILE * BSIZE"
    by (simp add: unat_of_nat MAXFILE_def NDIRECT_def NINDIRECT_def BSIZE_def)
  have "off > i_size (inode_at s ip) \<or> off + n < off \<or> off + n > of_nat (MAXFILE * BSIZE)"
    using True ls un len by (auto simp: word_less_nat_alt unat_plus_if')
  moreover have "i_type (inode_at s ip) \<noteq> T_DEV" using ok by (simp add: file_ok_def)
  ultimately have "writei ip src off s = Ok (- 1) s" unfolding writei_def Let_def n_def [symmetric] by auto
  then show ?thesis using True by simp
next
  case False
  then have "unat off \<le> unat (i_size (inode_at s ip))" "unat off + length src \<le> MAXFILE * BSIZE" by linarith+
  then show ?thesis using writei_runs [OF ok tx] False by simp
qed

lemma demo_indirect: "indirect demo_fs 0 = 0" "bn < MAXFILE \<Longrightarrow> fblock demo_fs 0 bn = (if bn = 0 then 4 else 0)"
  by (auto simp: indirect_def fblock_def demo_fs_sel demo_file_def NDIRECT_def nth_Cons split: nat.splits)

lemma demo_inode_block: "inode_block demo_fs n \<longleftrightarrow> n = 2"
  by (auto simp: inode_block_def demo_fs_sel demo_sb_def IBLOCK_def IPB_def BSIZE_def sizeof_dinode_def intro!: exI [of _ 0])

lemma demo_file_ok: "file_ok demo_fs 0"
proof -
  have lay: "fs_layout demo_fs"
    using demo_fs_used [of 0] demo_fs_used [of 2]
    by (simp add: fs_layout_def demo_fs_geom demo_inode_block demo_fs_bitmap demo_fs_sel) (simp add: demo_sb_def log_region_def demo_fs_sel)
  have "data_block demo_fs 4"
    using demo_fs_used [of 4] by (simp add: data_block_def demo_inode_block demo_fs_bitmap demo_fs_sel log_region_def) (simp add: demo_sb_def)
  moreover have "icache demo_fs ! 0 = demo_file" "length (icache demo_fs) = 50" by (simp_all add: demo_fs_sel)
  ultimately have "file_inv demo_fs 0"
    using lay by (simp add: file_inv_def demo_indirect) (simp add: demo_file_def demo_fs_sel demo_sb_def NDIRECT_def)
  moreover have "mapped demo_fs 0 0 5"
    by (simp add: mapped_def demo_indirect MAXFILE_def NDIRECT_def BSIZE_def)
  ultimately show ?thesis
    by (simp add: file_ok_def demo_fs_sel)
      (simp add: demo_file_def demo_inode_def T_FILE_def T_DEV_def short_ok_def MAXFILE_def NDIRECT_def BSIZE_def)
qed

lemma demo_nfree: "2 \<le> nfree demo_fs"
proof -
  have "card {5, 6 :: nat} \<le> nfree demo_fs"
    unfolding nfree_def by (rule card_mono) (use demo_fs_used [of 5] demo_fs_used [of 6] in \<open>auto simp: demo_fs_sel demo_sb_def\<close>)
  then show ?thesis by simp
qed

lemma demo_content: "fcontent demo_fs 0 = [1, 2, 3, 4, 5]"
proof -
  have "inode_at demo_fs 0 = demo_file" by (simp add: demo_fs_sel)
  then show ?thesis
    by (simp add: fcontent_def fslice_def demo_file_def upt_rec fbyte_def demo_indirect MAXFILE_def NDIRECT_def BSIZE_def
        demo_fs_blk demo_image_def)
qed

lemma demo_nblocks: "nblocks 4 (Suc (Suc (Suc 0))) = 1" "nblocks 2 (Suc (Suc 0)) = 1" "nblocks 6 (Suc (Suc 0)) = 1"
  by (simp_all add: nblocks_def BSIZE_def)

theorem writei_correct_witness:
  "(\<exists>t. writei 0 [7, 8, 9] 4 demo_fs = Ok 3 t \<and> fcontent t 0 = [1, 2, 3, 4, 7, 8, 9]) \<and>
   writei 0 [7, 8] 6 demo_fs = Ok (- 1) demo_fs \<and> writei 0 (replicate 100000 7) 0 demo_fs = Ok (- 1) demo_fs"
proof -
  have z: "i_size (demo_file) = 5" by (simp add: demo_file_def)
  have "runs (writei 0 [7, 8, 9] 4 demo_fs) (\<lambda>r t. r = 3 \<and> written demo_fs 0 0 0 4 [7, 8, 9] t)"
    using writei_correct [OF demo_file_ok demo_fs_txinv, of "[7, 8, 9]" 4] demo_nfree
    by (simp add: z demo_nblocks demo_fs_sel MAXFILE_def NDIRECT_def BSIZE_def)
  then have 1: "\<exists>t. writei 0 [7, 8, 9] 4 demo_fs = Ok 3 t \<and> fcontent t 0 = [1, 2, 3, 4, 7, 8, 9]"
    by (auto simp: written_def demo_content put_slice_def elim!: runsE)
  have 2: "writei 0 [7, 8] 6 demo_fs = Ok (- 1) demo_fs"
    using writei_correct [OF demo_file_ok demo_fs_txinv, of "[7, 8]" 6] by (simp add: z demo_fs_sel)
  have "writei 0 (replicate 100000 7) 0 demo_fs = Ok (- 1) demo_fs"
    using writei_correct [OF demo_file_ok demo_fs_txinv, of "replicate 100000 7" 0]
    by (simp add: z demo_fs_sel MAXFILE_def NDIRECT_def NINDIRECT_def BSIZE_def)
  then show ?thesis using 1 2 by simp
qed

text \<open>
  C5. Reading a regular file: an offset behind the end of the file, or a length that overflows, gives -1.  Otherwise
  \<open>readi\<close> returns exactly the bytes of the file from the offset on, as many as asked for and there are, and changes no block.
\<close>

theorem readi_correct:
  assumes ok: "file_ok s ip" and tx: "txinv s i p {}" and len: "len = min (unat n) (unat (i_size (inode_at s ip)) - unat off)"
  shows "if unat (i_size (inode_at s ip)) < unat off \<or> 2 ^ 32 \<le> unat off + unat n
    then readi ip off n s = Ok (- 1, []) s
    else runs (readi ip off n s) (\<lambda>(r, got) t. r = int len \<and> got = take len (drop (unat off) (fcontent s ip)) \<and>
      txinv t i p {} \<and> file_ok t ip \<and> blk t = blk s \<and> disk t = disk s \<and> icache t = icache s)"
proof (cases "unat (i_size (inode_at s ip)) < unat off \<or> 2 ^ 32 \<le> unat off + unat n")
  case True
  have "unat n < 2 ^ LENGTH(32)" by (rule unsigned_less)
  then have un: "unat n < 2 ^ 32" by simp
  have "off > i_size (inode_at s ip) \<or> off + n < off"
    using True un by (auto simp: word_less_nat_alt unat_plus_if')
  moreover have "i_type (inode_at s ip) \<noteq> T_DEV" using ok by (simp add: file_ok_def)
  ultimately have "readi ip off n s = Ok (- 1, []) s" unfolding readi_def Let_def by auto
  then show ?thesis using True by simp
next
  case False
  then have c: "unat off \<le> unat (i_size (inode_at s ip))" "unat off + unat n < 2 ^ 32" by linarith+
  have nb: "nat (log_n s) < NBUF" using tx by (auto simp: txinv_def log_geometry_def LOGSIZE_def MAXOPBLOCKS_def NBUF_def)
  obtain got t where r: "readi ip off n s = Ok (int len, got) t" and got: "got = take len (drop (unat off) (fcontent s ip))"
    and st: "txstep s i p {} [] t"
    using readi_runs [OF ok tx nb c len] by (auto elim!: runsE)
  have l: "lframe s t" and b: "blk t = blk s" using st by (simp_all add: txstep_def)
  have "file_ok t ip" using ok same_blocks [OF l b] same_content [OF l b] lframe_fs(2) [OF l] by (simp add: file_ok_def)
  then show ?thesis using r got st b False lframe_fs(2) [OF l] by (simp add: txstep_def)
qed

theorem readi_correct_witness:
  "(\<exists>t. readi 0 1 3 demo_fs = Ok (3, [2, 3, 4]) t) \<and> (\<exists>t. readi 0 3 100 demo_fs = Ok (2, [4, 5]) t) \<and>
   readi 0 9 1 demo_fs = Ok (- 1, []) demo_fs"
proof -
  have z: "i_size (demo_file) = 5" by (simp add: demo_file_def)
  have "runs (readi 0 1 3 demo_fs) (\<lambda>(r, got) t. r = 3 \<and> got = [2, 3, 4])"
    using readi_correct [OF demo_file_ok demo_fs_txinv refl, where n = 3 and off = 1] by (auto simp: z demo_fs_sel demo_content elim!: runsE)
  moreover have "runs (readi 0 3 100 demo_fs) (\<lambda>(r, got) t. r = 2 \<and> got = [4, 5])"
    using readi_correct [OF demo_file_ok demo_fs_txinv refl, where n = 100 and off = 3] by (auto simp: z demo_fs_sel demo_content elim!: runsE)
  moreover have "readi 0 9 1 demo_fs = Ok (- 1, []) demo_fs"
    using readi_correct [OF demo_file_ok demo_fs_txinv refl, where n = 1 and off = 9] by (simp add: z demo_fs_sel)
  ultimately show ?thesis by (auto elim!: runsE)
qed

text \<open>
  C4. What is written to a file can be read back: \<open>readi\<close> after a successful \<open>writei\<close> of the same place returns the bytes.
\<close>

theorem write_then_read:
  assumes ok: "file_ok s ip" and tx: "txinv s i p {}" and off: "unat off \<le> unat (i_size (inode_at s ip))"
    and lim: "unat off + length src \<le> MAXFILE * BSIZE" and free: "2 * nblocks (unat off) (length src) \<le> nfree s"
    and room: "log_n s + 6 * int (nblocks (unat off) (length src)) + 1 < log_size s" "1 \<le> log_outstanding s"
  shows "runs (bindR (writei ip src off s) (\<lambda>_ t. readi ip off (of_nat (length src)) t))
    (\<lambda>(r, got) u. r = int (length src) \<and> got = src)"
proof -
  obtain t where r: "writei ip src off s = Ok (int (length src)) t" and w: "written s i p ip (unat off) src t"
    using writei_runs [OF assms] by (auto elim: runsE)
  have t: "file_ok t ip" "txinv t i p {}" and c: "fcontent t ip = put_slice (unat off) src (fcontent s ip)" using w by (simp_all add: written_def)
  have cs: "length (fcontent s ip) = unat (i_size (inode_at s ip))" "length (fcontent t ip) = unat (i_size (inode_at t ip))"
    by (simp_all add: fcontent_def)
  have small: "unat off + length src < 2 ^ 32" using lim by (simp add: MAXFILE_def NDIRECT_def NINDIRECT_def BSIZE_def)
  have un: "unat (of_nat (length src) :: u32) = length src" using small by (simp add: unat_of_nat)
  have sz: "unat (i_size (inode_at t ip)) = max (unat (i_size (inode_at s ip))) (unat off + length src)"
    using put_slice_grow(1) [of "unat off" "fcontent s ip" src] off cs c by simp
  have nb: "nat (log_n t) < NBUF" using t(2) by (auto simp: txinv_def log_geometry_def LOGSIZE_def MAXOPBLOCKS_def NBUF_def)
  have l: "length src = min (unat (of_nat (length src) :: u32)) (unat (i_size (inode_at t ip)) - unat off)" using un sz by simp
  have "runs (readi ip off (of_nat (length src)) t) (\<lambda>(r, got) u. r = int (length src) \<and>
      got = take (length src) (drop (unat off) (fcontent t ip)) \<and> txstep t i p {} [] u)"
    by (rule readi_runs [OF t nb _ _ l]) (use off sz un small in simp_all)
  moreover have "take (length src) (drop (unat off) (fcontent t ip)) = src"
    using off cs(1) by (simp add: c put_slice_def)
  ultimately show ?thesis using r by (auto elim!: runsE)
qed

theorem write_then_read_witness:
  "\<exists>t. bindR (writei 0 [7, 8] 2 demo_fs) (\<lambda>_ t. readi 0 2 2 t) = Ok (2, [7, 8]) t"
  using write_then_read [OF demo_file_ok demo_fs_txinv, of 2 "[7, 8]"] demo_nfree
  by (auto simp: demo_nblocks demo_fs_sel demo_file_def MAXFILE_def NDIRECT_def BSIZE_def elim!: runsE)

end
