(* ===== verification/Pipe.thy ===== *)
theory Pipe
  imports Fs Ring
begin

text \<open>
  Pipes (\<^verbatim>\<open>pipe.c\<close>): a ring buffer of \<open>PIPESIZE\<close> bytes with free-running 32-bit counters.  A pipe
  lives in a page from \<open>kalloc\<close> and is named by the page's address.  A writer that finds the buffer
  full, or a reader that finds it empty, sleeps; the definitions with suffix \<open>_resume\<close> continue it.
\<close>

record pipe =
  pi_data :: "byte list"
  nread :: u32
  nwrite :: u32
  readopen :: bool
  writeopen :: bool

datatype fdtype = FD_NONE | FD_PIPE | FD_INODE

record kfile =
  f_type :: fdtype
  f_ref :: int
  f_readable :: bool
  f_writable :: bool
  f_pipe :: addr
  f_ip :: nat
  f_off :: u32

record xstate = fstate +
  pipes :: "addr \<Rightarrow> pipe"
  ftable :: "kfile list"

definition PIPESIZE :: u32 where "PIPESIZE = 512"

definition upd_pipe :: "addr \<Rightarrow> (pipe \<Rightarrow> pipe) \<Rightarrow> 'z xstate_scheme \<Rightarrow> 'z xstate_scheme" where
  "upd_pipe p f s = s\<lparr>pipes := (pipes s)(p := f (pipes s p))\<rparr>"

definition pslot :: "u32 \<Rightarrow> nat" where
  "pslot n = unat n mod unat PIPESIZE"

definition pipeclose :: "addr \<Rightarrow> bool \<Rightarrow> 'z xstate_scheme \<Rightarrow> (unit, 'z xstate_scheme) res" where
  "pipeclose p writable s =
     bindR (acquire (L_pipe p) s) (\<lambda>_ s.
     bindR (if writable
            then wakeup (Ch_pipe_nread p) (upd_pipe p (\<lambda>x. x\<lparr>writeopen := False\<rparr>) s)
            else wakeup (Ch_pipe_nwrite p) (upd_pipe p (\<lambda>x. x\<lparr>readopen := False\<rparr>) s)) (\<lambda>_ s.
       if \<not> readopen (pipes s p) \<and> \<not> writeopen (pipes s p)
       then bindR (release (L_pipe p) s) (\<lambda>_ s. kfree p s)
       else release (L_pipe p) s))"

definition pipe_put :: "byte \<Rightarrow> pipe \<Rightarrow> pipe" where
  "pipe_put b x = x\<lparr>pi_data := (pi_data x)[pslot (nwrite x) := b], nwrite := nwrite x + 1\<rparr>"

fun pipewrite_loop :: "addr \<Rightarrow> int \<Rightarrow> byte list \<Rightarrow> 'z xstate_scheme \<Rightarrow> (int, 'z xstate_scheme) res" where
  "pipewrite_loop p n [] s =
     bindR (wakeup (Ch_pipe_nread p) s) (\<lambda>_ s. bindR (release (L_pipe p) s) (\<lambda>_ s. Ok n s))"
| "pipewrite_loop p n (b # bs) s =
     (if nwrite (pipes s p) = nread (pipes s p) + PIPESIZE
      then bindR (if \<not> readopen (pipes s p) then Ok True s else killed_now s) (\<lambda>stop s.
        if stop then bindR (release (L_pipe p) s) (\<lambda>_ s. Ok (- 1) s)
        else bindR (wakeup (Ch_pipe_nread p) s) (\<lambda>_ s.
             bindR (sleep (Ch_pipe_nwrite p) (L_pipe p) s) (\<lambda>_ s. Ok 0 s)))
      else pipewrite_loop p n bs (upd_pipe p (pipe_put b) s))"

definition pipewrite :: "addr \<Rightarrow> byte list \<Rightarrow> 'z xstate_scheme \<Rightarrow> (int, 'z xstate_scheme) res" where
  "pipewrite p src s =
     bindR (acquire (L_pipe p) s) (\<lambda>_ s. pipewrite_loop p (int (length src)) src s)"

definition pipewrite_resume :: "nat \<Rightarrow> addr \<Rightarrow> int \<Rightarrow> byte list \<Rightarrow> 'z xstate_scheme \<Rightarrow> (int, 'z xstate_scheme) res" where
  "pipewrite_resume q p n rest s =
     bindR (sleep_resume q (L_pipe p) s) (\<lambda>_ s. pipewrite_loop p n rest s)"

definition pipe_get :: "pipe \<Rightarrow> pipe" where
  "pipe_get x = x\<lparr>nread := nread x + 1\<rparr>"

fun piperead_copy :: "nat \<Rightarrow> addr \<Rightarrow> 'z xstate_scheme \<Rightarrow> byte list \<times> 'z xstate_scheme" where
  "piperead_copy 0 p s = ([], s)"
| "piperead_copy (Suc n) p s =
     (if nread (pipes s p) = nwrite (pipes s p) then ([], s)
      else let b = pi_data (pipes s p) ! pslot (nread (pipes s p));
               (bs, s) = piperead_copy n p (upd_pipe p pipe_get s) in (b # bs, s))"

definition piperead_loop :: "addr \<Rightarrow> nat \<Rightarrow> 'z xstate_scheme \<Rightarrow> (int \<times> byte list, 'z xstate_scheme) res" where
  "piperead_loop p n s =
     (if nread (pipes s p) = nwrite (pipes s p) \<and> writeopen (pipes s p)
      then bindR (killed_now s) (\<lambda>k s.
        if k then bindR (release (L_pipe p) s) (\<lambda>_ s. Ok (- 1, []) s)
        else bindR (sleep (Ch_pipe_nread p) (L_pipe p) s) (\<lambda>_ s. Ok (0, []) s))
      else case piperead_copy n p s of (got, s) \<Rightarrow>
        bindR (wakeup (Ch_pipe_nwrite p) s) (\<lambda>_ s.
        bindR (release (L_pipe p) s) (\<lambda>_ s. Ok (int (length got), got) s)))"

definition piperead :: "addr \<Rightarrow> nat \<Rightarrow> 'z xstate_scheme \<Rightarrow> (int \<times> byte list, 'z xstate_scheme) res" where
  "piperead p n s = bindR (acquire (L_pipe p) s) (\<lambda>_ s. piperead_loop p n s)"

definition piperead_resume :: "nat \<Rightarrow> addr \<Rightarrow> nat \<Rightarrow> 'z xstate_scheme \<Rightarrow> (int \<times> byte list, 'z xstate_scheme) res" where
  "piperead_resume q p n s = bindR (sleep_resume q (L_pipe p) s) (\<lambda>_ s. piperead_loop p n s)"

section \<open>The ring buffer as a queue of bytes\<close>

definition pipe_content :: "pipe \<Rightarrow> byte list" where
  "pipe_content x = window 512 (pi_data x) (nread x) (nwrite x)"

definition pipe_wf :: "pipe \<Rightarrow> bool" where
  "pipe_wf x \<longleftrightarrow> length (pi_data x) = 512 \<and> live (nread x) (nwrite x) \<le> 512"

abbreviation pipe_is_full :: "pipe \<Rightarrow> bool" where
  "pipe_is_full x \<equiv> nwrite x = nread x + PIPESIZE"

abbreviation pipe_is_empty :: "pipe \<Rightarrow> bool" where
  "pipe_is_empty x \<equiv> nread x = nwrite x"

definition pipe_front :: "pipe \<Rightarrow> byte" where
  "pipe_front x = pi_data x ! pslot (nread x)"

interpretation pring: ring 512
  by unfold_locales simp_all

lemma pslot_ring: "pslot n = ring_slot 512 n"
  by (simp add: pslot_def ring_slot_def PIPESIZE_def)

lemma pipe_full_iff: "pipe_is_full x \<longleftrightarrow> live (nread x) (nwrite x) = 512"
  using live_eq [of 512 "nread x" "nwrite x"] by (auto simp: PIPESIZE_def)

lemma length_pipe_content [simp]: "length (pipe_content x) = live (nread x) (nwrite x)"
  by (simp add: pipe_content_def)

interpretation pq: bounded_queue pipe_put pipe_get pipe_front pipe_is_full pipe_is_empty pipe_wf pipe_content 512
proof
  fix x b assume wf: "pipe_wf x"
  show "pipe_is_full x \<longleftrightarrow> length (pipe_content x) = 512" by (simp add: pipe_full_iff)
  show "length (pipe_content x) \<le> 512" using wf by (simp add: pipe_wf_def)
  show "pipe_is_empty x \<longleftrightarrow> pipe_content x = []"
    using live_0 [of "nread x" "nwrite x"] by (simp flip: length_0_conv)
  { assume "\<not> pipe_is_full x"
    then have lt: "live (nread x) (nwrite x) < 512" using wf by (simp add: pipe_full_iff pipe_wf_def)
    then have "live (nread x) (nwrite x + 1) \<le> 512" by (subst live_Suc) simp_all
    then show "pipe_wf (pipe_put b x) \<and> pipe_content (pipe_put b x) = pipe_content x @ [b]"
      using pring.window_put [of "pi_data x" "nread x" "nwrite x" b] lt wf
      by (simp add: pipe_wf_def pipe_content_def pipe_put_def pslot_ring) }
  { assume ne: "\<not> pipe_is_empty x"
    show "pipe_wf (pipe_get x) \<and> pipe_content x = pipe_front x # pipe_content (pipe_get x)"
      using pring.window_pop [OF ne, of "pi_data x"] live_pop [OF ne] wf
      by (simp add: pipe_wf_def pipe_content_def pipe_get_def pipe_front_def pslot_ring) }
qed

section \<open>What a write and a read do\<close>

lemma upd_pipe_sel [simp]:
  "lapic_id (upd_pipe p f s) = lapic_id s" "ncpu (upd_pipe p f s) = ncpu s" "cpus (upd_pipe p f s) = cpus s"
  "eflags_IF (upd_pipe p f s) = eflags_IF s" "locks (upd_pipe p f s) = locks s"
  "ptable (upd_pipe p f s) = ptable s" "pipes (upd_pipe p f s) = (pipes s)(p := f (pipes s p))"
  by (simp_all add: upd_pipe_def)

lemma upd_pipe_upd [simp]: "upd_pipe p f (upd_pipe p g s) = upd_pipe p (\<lambda>x. f (g x)) s"
  by (simp add: upd_pipe_def)

lemma upd_pipe_id: "f (pipes s p) = pipes s p \<Longrightarrow> upd_pipe p f s = s"
  by (simp add: upd_pipe_def fun_upd_idem)

text \<open>The end of a write: what the loop does once it stops at a full buffer or at the last byte.\<close>

definition pipe_wait :: "addr \<Rightarrow> 'z xstate_scheme \<Rightarrow> (int, 'z xstate_scheme) res" where
  "pipe_wait p s = bindR (if \<not> readopen (pipes s p) then Ok True s else killed_now s) (\<lambda>stop s.
        if stop then bindR (release (L_pipe p) s) (\<lambda>_ s. Ok (- 1) s)
        else bindR (wakeup (Ch_pipe_nread p) s) (\<lambda>_ s.
             bindR (sleep (Ch_pipe_nwrite p) (L_pipe p) s) (\<lambda>_ s. Ok 0 s)))"

definition pipe_written :: "addr \<Rightarrow> int \<Rightarrow> 'z xstate_scheme \<Rightarrow> (int, 'z xstate_scheme) res" where
  "pipe_written p n s =
     bindR (wakeup (Ch_pipe_nread p) s) (\<lambda>_ s. bindR (release (L_pipe p) s) (\<lambda>_ s. Ok n s))"

lemma pipewrite_loop_fill:
  "pipe_wf (pipes s p) \<Longrightarrow> pipewrite_loop p n bs s =
     (let t = upd_pipe p (pq.fill bs) s in
      if length bs + live (nread (pipes s p)) (nwrite (pipes s p)) \<le> 512 then pipe_written p n t
      else pipe_wait p t)"
proof (induction bs arbitrary: s)
  case Nil
  then show ?case by (simp add: pipe_written_def upd_pipe_id pipe_wf_def)
next
  case (Cons b bs)
  show ?case
  proof (cases "pipe_is_full (pipes s p)")
    case True
    then have "live (nread (pipes s p)) (nwrite (pipes s p)) = 512" by (simp add: pipe_full_iff)
    then show ?thesis using True by (simp add: pipe_wait_def upd_pipe_id)
  next
    case False
    have lt: "live (nread (pipes s p)) (nwrite (pipes s p)) < 512"
      using Cons.prems False by (simp add: pipe_full_iff pipe_wf_def)
    let ?s = "upd_pipe p (pipe_put b) s"
    have wf: "pipe_wf (pipes ?s p)" using pq.put_ok [OF Cons.prems False] by simp
    have "live (nread (pipes ?s p)) (nwrite (pipes ?s p)) = Suc (live (nread (pipes s p)) (nwrite (pipes s p)))"
      using lt by (simp add: pipe_put_def) (subst live_Suc, simp_all)
    moreover have "upd_pipe p (pq.fill bs) ?s = upd_pipe p (pq.fill (b # bs)) s"
      using False by (simp add: upd_pipe_def)
    ultimately show ?thesis using Cons.IH [OF wf] False by (simp del: pq.fill.simps)
  qed
qed

lemma piperead_copy_drain:
  "piperead_copy n p s = (let (bs, x) = pq.drain n (pipes s p) in (bs, upd_pipe p (\<lambda>_. x) s))"
proof (induction n arbitrary: s)
  case (Suc n)
  show ?case
  proof (cases "pipe_is_empty (pipes s p)")
    case False
    obtain bs x where "pq.drain n (pipe_get (pipes s p)) = (bs, x)" by fastforce
    then show ?thesis using Suc.IH [of "upd_pipe p pipe_get s"] False by (simp add: pipe_front_def [symmetric])
  qed (simp add: upd_pipe_id)
qed (simp add: upd_pipe_id)

lemma killed_now_section:
  "running s i q \<Longrightarrow> killed_now (acquired l i s) = Ok (p_killed (proc_at s q) \<noteq> 0) (acquired l i s)"
  by (simp add: killed_now_def myproc_acquired [of s i q "acquired l i s" l])

lemma calm_upd_pipe [simp]: "calm (upd_pipe p f s) i = calm s i"
  by (rule calm_cong) simp_all

lemma running_upd_pipe [simp]: "running (upd_pipe p f s) i q = running s i q"
  by (rule running_cong) simp_all

lemma acquired_upd_pipe: "upd_pipe p f (acquired l i s) = acquired l i (upd_pipe p f s)"
  by (rule xstate.equality) (simp_all add: acquired_def pushed_def upd_pipe_def cong: if_cong)

lemma acquired_pipes [simp]: "pipes (acquired l i s) = pipes s"
  by (simp add: acquired_def pushed_def)

lemmas section_simps = acquire_calm release_acquired wakeup_section killed_now_section running_calm

lemma fill_keeps [simp]: "readopen (pq.fill bs x) = readopen x" "writeopen (pq.fill bs x) = writeopen x"
  "nread (pq.fill bs x) = nread x"
  by (induction bs arbitrary: x) (simp_all add: pipe_put_def)

definition pipe_woken :: "addr \<Rightarrow> chan \<Rightarrow> (pipe \<Rightarrow> pipe) \<Rightarrow> 'z xstate_scheme \<Rightarrow> 'z xstate_scheme" where
  "pipe_woken p ch f s = (upd_pipe p f s)\<lparr>ptable := wake_tab (Some ch) (ptable s)\<rparr>"

abbreviation pipe_level :: "pipe \<Rightarrow> nat" where
  "pipe_level x \<equiv> live (nread x) (nwrite x)"

lemma write_loop_fits:
  assumes run: "running s i q" and wf: "pipe_wf (pipes s p)"
    and fits: "length bs + pipe_level (pipes s p) \<le> 512"
  shows "pipewrite_loop p n bs (acquired (L_pipe p) i s) = Ok n (pipe_woken p (Ch_pipe_nread p) (pq.fill bs) s)"
  using wf fits running_calm [OF run]
  by (simp add: section_simps pipewrite_loop_fill acquired_upd_pipe pipe_written_def pipe_woken_def)

lemma write_loop_stops:
  assumes run: "running s i q" and wf: "pipe_wf (pipes s p)"
    and over: "512 < length bs + pipe_level (pipes s p)"
    and stop: "\<not> readopen (pipes s p) \<or> p_killed (proc_at s q) \<noteq> 0"
  shows "pipewrite_loop p n bs (acquired (L_pipe p) i s) = Ok (- 1) (upd_pipe p (pq.fill bs) s)"
proof -
  have k: "killed_now (acquired (L_pipe p) i (upd_pipe p (pq.fill bs) s)) =
    Ok (p_killed (proc_at s q) \<noteq> 0) (acquired (L_pipe p) i (upd_pipe p (pq.fill bs) s))"
    using run killed_now_section [of "upd_pipe p (pq.fill bs) s" i q] by simp
  show ?thesis
    using wf over stop running_calm [OF run]
    by (auto simp: release_acquired pipewrite_loop_fill acquired_upd_pipe pipe_wait_def k Let_def)
qed

lemma write_loop_sleeps:
  assumes run: "running s i q" and n: "ncli (cpus s ! i) = 0" and wf: "pipe_wf (pipes s p)"
    and over: "512 < length bs + pipe_level (pipes s p)"
    and go: "readopen (pipes s p)" "p_killed (proc_at s q) = 0"
  shows "pipewrite_loop p m bs (acquired (L_pipe p) i s) = Swtch (sleeping (Ch_pipe_nwrite p) i q
    (swap_lock (L_pipe p) i (acquired (L_pipe p) i (pipe_woken p (Ch_pipe_nread p) (pq.fill bs) s))))"
proof -
  let ?s = "upd_pipe p (pq.fill bs) s"
  have k: "killed_now (acquired (L_pipe p) i ?s) = Ok False (acquired (L_pipe p) i ?s)"
    using run go(2) killed_now_section [of ?s i q] by simp
  let ?w = "?s\<lparr>ptable := wake_tab (Some (Ch_pipe_nread p)) (ptable s)\<rparr>"
  have "running ?w i q" using run running_wake [of "Some (Ch_pipe_nread p)" ?s i q] by simp
  then have "sleep (Ch_pipe_nwrite p) (L_pipe p) (acquired (L_pipe p) i ?w) =
      Swtch (sleeping (Ch_pipe_nwrite p) i q (swap_lock (L_pipe p) i (acquired (L_pipe p) i ?w)))"
    using n by (intro sleep_running) simp_all
  then show ?thesis
    using wf over go(1) running_calm [OF run]
    by (simp add: section_simps pipewrite_loop_fill acquired_upd_pipe pipe_wait_def k pipe_woken_def)
qed

lemma pipewrite_begin: "running s i q \<Longrightarrow>
   pipewrite p bs s = pipewrite_loop p (int (length bs)) bs (acquired (L_pipe p) i s)"
  by (simp add: pipewrite_def acquire_calm [OF running_calm])

lemma pipewrite_continue: "switched_to s i q \<Longrightarrow>
   pipewrite_resume q p n bs s = pipewrite_loop p n bs (acquired (L_pipe p) i (resumed i q s))"
  by (simp add: pipewrite_resume_def sleep_resume_ok)

lemma resumed_pipes [simp]: "pipes (resumed i q s) = pipes s"
  by (simp add: resumed_def released_def upd_proc_def upd_cpu_def)

lemma sleeping_pipes [simp]: "pipes (sleeping ch i q s) = pipes s" "pipes (swap_lock l i s) = pipes s"
  "pipes (pipe_woken p ch f s) = (pipes s)(p := f (pipes s p))"
  by (simp_all add: sleeping_def swap_lock_def released_def pipe_woken_def)

text \<open>In every outcome the pipe ends as the ring filled with as many bytes as fit.\<close>

lemma write_loop_pipe:
  assumes run: "running s i q" and n: "ncli (cpus s ! i) = 0" and wf: "pipe_wf (pipes s p)"
    and out: "pipewrite_loop p m bs (acquired (L_pipe p) i s) \<in> {Ok r t, Swtch t}"
  shows "pipes t p = pq.fill bs (pipes s p)"
proof (cases "length bs + pipe_level (pipes s p) \<le> 512")
  case True
  then show ?thesis using write_loop_fits [OF run wf True, of m] out by auto
next
  case over: False
  show ?thesis
  proof (cases "readopen (pipes s p) \<and> p_killed (proc_at s q) = 0")
    case True
    then show ?thesis using write_loop_sleeps [OF run n wf, of bs m] over out by auto
  next
    case False
    then show ?thesis using write_loop_stops [OF run wf, of bs m] over out by auto
  qed
qed

lemma read_loop_data:
  assumes run: "running s i q" and d: "pq.drain n (pipes s p) = (got, x)"
    and ne: "\<not> pipe_is_empty (pipes s p) \<or> \<not> writeopen (pipes s p)"
  shows "piperead_loop p n (acquired (L_pipe p) i s) =
    Ok (int (length got), got) (pipe_woken p (Ch_pipe_nwrite p) (\<lambda>_. x) s)"
  using ne running_calm [OF run] d
  by (auto simp: section_simps piperead_loop_def piperead_copy_drain acquired_upd_pipe pipe_woken_def)

lemma read_loop_killed:
  assumes run: "running s i q" and e: "pipe_is_empty (pipes s p)" "writeopen (pipes s p)"
    and k: "p_killed (proc_at s q) \<noteq> 0"
  shows "piperead_loop p n (acquired (L_pipe p) i s) = Ok (- 1, []) s"
  using e k running_calm [OF run] killed_now_section [OF run]
  by (simp add: section_simps piperead_loop_def)

lemma read_loop_sleeps:
  assumes run: "running s i q" and n: "ncli (cpus s ! i) = 0"
    and e: "pipe_is_empty (pipes s p)" "writeopen (pipes s p)" and k: "p_killed (proc_at s q) = 0"
  shows "piperead_loop p m (acquired (L_pipe p) i s) =
    Swtch (sleeping (Ch_pipe_nread p) i q (swap_lock (L_pipe p) i (acquired (L_pipe p) i s)))"
  using e k running_calm [OF run] killed_now_section [OF run] sleep_running [OF run n, of "L_pipe p"]
  by (simp add: section_simps piperead_loop_def)

lemma piperead_begin: "running s i q \<Longrightarrow> piperead p n s = piperead_loop p n (acquired (L_pipe p) i s)"
  by (simp add: piperead_def acquire_calm [OF running_calm])

lemma piperead_continue: "switched_to s i q \<Longrightarrow>
   piperead_resume q p n s = piperead_loop p n (acquired (L_pipe p) i (resumed i q s))"
  by (simp add: piperead_resume_def sleep_resume_ok)

lemma read_loop_pipe:
  assumes run: "running s i q" and n: "ncli (cpus s ! i) = 0" and wf: "pipe_wf (pipes s p)"
    and out: "piperead_loop p m (acquired (L_pipe p) i s) = Ok (r, got) t"
  shows "pipe_wf (pipes t p) \<and> pipe_content (pipes s p) = got @ pipe_content (pipes t p)"
proof (cases "pipe_is_empty (pipes s p) \<and> writeopen (pipes s p)")
  case True
  then show ?thesis using read_loop_killed [OF run, of p m] read_loop_sleeps [OF run n, of p m] out wf
    by (cases "p_killed (proc_at s q) = 0") auto
next
  case False
  obtain g x where d: "pq.drain m (pipes s p) = (g, x)" by fastforce
  then show ?thesis using read_loop_data [OF run d] pq.drain_spec [OF wf d] False out by auto
qed

section \<open>Properties\<close>

text \<open>
  The bytes that calls have put into and taken out of pipe \<open>p\<close>, up to the state \<open>s\<close>.  Between the calls
  anything may happen that leaves the buffer alone.
\<close>

inductive pipe_history :: "addr \<Rightarrow> 'z xstate_scheme \<Rightarrow> byte list \<Rightarrow> byte list \<Rightarrow> bool" for p where
  created: "pipe_wf (pipes s p) \<Longrightarrow> pipe_is_empty (pipes s p) \<Longrightarrow> pipe_history p s [] []"
| other: "pipe_history p s ins outs \<Longrightarrow> pi_data (pipes t p) = pi_data (pipes s p) \<Longrightarrow>
    nread (pipes t p) = nread (pipes s p) \<Longrightarrow> nwrite (pipes t p) = nwrite (pipes s p) \<Longrightarrow>
    pipe_history p t ins outs"
| wrote: "pipe_history p s ins outs \<Longrightarrow> running s i q \<Longrightarrow> ncli (cpus s ! i) = 0 \<Longrightarrow>
    pipewrite p bs s \<in> {Ok r t, Swtch t} \<Longrightarrow>
    pipe_history p t (ins @ take (live (nwrite (pipes s p)) (nwrite (pipes t p))) bs) outs"
| wrote_on: "pipe_history p s ins outs \<Longrightarrow> switched_to s i q \<Longrightarrow>
    pipewrite_resume q p n bs s \<in> {Ok r t, Swtch t} \<Longrightarrow>
    pipe_history p t (ins @ take (live (nwrite (pipes s p)) (nwrite (pipes t p))) bs) outs"
| took: "pipe_history p s ins outs \<Longrightarrow> running s i q \<Longrightarrow> ncli (cpus s ! i) = 0 \<Longrightarrow>
    piperead p n s = Ok (r, got) t \<Longrightarrow> pipe_history p t ins (outs @ got)"
| took_on: "pipe_history p s ins outs \<Longrightarrow> switched_to s i q \<Longrightarrow>
    piperead_resume q p n s = Ok (r, got) t \<Longrightarrow> pipe_history p t ins (outs @ got)"

lemma fill_accepted:
  assumes "pipe_wf x"
  shows "pipe_content (pq.fill bs x) = pipe_content x @ take (live (nwrite x) (nwrite (pq.fill bs x))) bs"
proof -
  note f = pq.fill_spec [OF assms, of bs]
  have "length (pipe_content (pq.fill bs x)) = pipe_level x + min (length bs) (512 - pipe_level x)"
    using f by (simp add: min.commute)
  then have "live (nread x) (nwrite (pq.fill bs x)) = pipe_level x + min (length bs) (512 - pipe_level x)"
    by simp
  then have "live (nwrite x) (nwrite (pq.fill bs x)) = min (length bs) (512 - pipe_level x)"
    using live_split [of "nread x" "nwrite x" "nwrite (pq.fill bs x)"] by simp
  then show ?thesis using f by (simp add: min_def)
qed

lemma pipe_wf_cong:
  assumes "pi_data y = pi_data x" "nread y = nread x" "nwrite y = nwrite x"
  shows "pipe_wf y = pipe_wf x" "pipe_content y = pipe_content x"
  by (simp_all add: pipe_wf_def pipe_content_def assms)

text \<open>
  C18. A pipe is a byte stream of bounded capacity.  Whatever sequence of \<open>pipewrite\<close> and \<open>piperead\<close>
  calls, sleeping and resumed ones included, has run on a pipe, the bytes accepted from the writers
  are the bytes delivered to the readers followed by the buffered ones, in order, and at most 512
  bytes are in flight; the counters may wrap around.
\<close>

theorem pipe_stream:
  assumes "pipe_history p s ins outs"
  shows "pipe_wf (pipes s p) \<and> ins = outs @ pipe_content (pipes s p) \<and> length ins \<le> length outs + 512"
proof -
  have "pipe_wf (pipes s p) \<and> ins = outs @ pipe_content (pipes s p)"
    using assms
  proof (induction rule: pipe_history.induct)
    case (created s)
    then show ?case using pq.empty_iff by simp
  next
    case (other s ins outs t)
    then show ?case using pipe_wf_cong [of "pipes t p" "pipes s p"] by simp
  next
    case (wrote s ins outs i q bs r t)
    then have "pipes t p = pq.fill bs (pipes s p)"
      by (intro write_loop_pipe) (auto simp: pipewrite_begin)
    then show ?case using wrote.IH fill_accepted [of "pipes s p" bs] pq.fill_spec by simp
  next
    case (wrote_on s ins outs i q n bs r t)
    then have "pipes t p = pq.fill bs (pipes (resumed i q s) p)"
      by (intro write_loop_pipe [OF resumed_running]) (auto simp: pipewrite_continue)
    then show ?case using wrote_on.IH fill_accepted [of "pipes s p" bs] pq.fill_spec by simp
  next
    case (took s ins outs i q n r got t)
    then show ?case using read_loop_pipe [of s i q p n r got t] by (simp add: piperead_begin)
  next
    case (took_on s ins outs i q n r got t)
    then show ?case using read_loop_pipe [OF resumed_running, of s i q p n r got t]
      by (simp add: piperead_continue)
  qed
  then show ?thesis by (auto simp: pipe_wf_def)
qed

lemma wake_tab_woken:
  "k < length T \<Longrightarrow> p_state (T ! k) = SLEEPING \<Longrightarrow> p_chan (T ! k) = Some ch \<Longrightarrow>
   p_state (wake_tab (Some ch) T ! k) = RUNNABLE"
  by (simp add: wake_tab_def)

text \<open>Every process that slept on the channel is runnable.\<close>

definition woken_all :: "chan \<Rightarrow> 'z pstate_scheme \<Rightarrow> 'z pstate_scheme \<Rightarrow> bool" where
  "woken_all ch s t \<longleftrightarrow> (\<forall>k < length (ptable s). p_state (proc_at s k) = SLEEPING \<and>
     p_chan (proc_at s k) = Some ch \<longrightarrow> p_state (proc_at t k) = RUNNABLE)"

definition asleep :: "chan \<Rightarrow> nat \<Rightarrow> 'z pstate_scheme \<Rightarrow> bool" where
  "asleep ch q t \<longleftrightarrow> p_state (proc_at t q) = SLEEPING \<and> p_chan (proc_at t q) = Some ch"

lemma woken_all_pipe: "woken_all ch s (pipe_woken p ch f s)"
  by (simp add: woken_all_def pipe_woken_def wake_tab_woken)

lemma asleep_sleeping:
  assumes "q < length (ptable s)" and "p_state (proc_at s q) = RUNNING"
  shows "asleep ch q (sleeping ch i q (swap_lock l i (acquired l' i (pipe_woken p ch' f s))))"
    and "woken_all ch' s (sleeping ch i q (swap_lock l i (acquired l' i (pipe_woken p ch' f s))))"
    and "\<not> lk_locked (locks (sleeping ch i q (swap_lock l i (acquired l' i (pipe_woken p ch' f s)))) l)"
  using assms
  by (auto simp: asleep_def woken_all_def sleeping_def swap_lock_def pipe_woken_def wake_tab_woken nth_upd_nth
      released_def)

definition pipe_room :: "pipe \<Rightarrow> nat" where
  "pipe_room x = 512 - length (pipe_content x)"

definition write_stop :: "'z xstate_scheme \<Rightarrow> nat \<Rightarrow> addr \<Rightarrow> bool" where
  "write_stop s q p \<longleftrightarrow> \<not> readopen (pipes s p) \<or> p_killed (proc_at s q) \<noteq> 0"

text \<open>
  C19. \<open>pipewrite\<close> of a running process: bytes that fit are appended, readers are woken and the call
  returns their number.  Otherwise the buffer is filled up, and the call returns \<open>-1\<close> if the read
  end is closed or the caller killed; if neither, it wakes the readers and sleeps with the pipe's
  lock released.
\<close>

theorem pipewrite_correct:
  assumes "running s i q" and "ncli (cpus s ! i) = 0" and "p_state (proc_at s q) = RUNNING"
    and "pipe_wf (pipes s p)"
  shows "if length bs \<le> pipe_room (pipes s p)
    then \<exists>t. pipewrite p bs s = Ok (int (length bs)) t \<and>
      pipe_content (pipes t p) = pipe_content (pipes s p) @ bs \<and> woken_all (Ch_pipe_nread p) s t
    else if write_stop s q p
    then \<exists>t. pipewrite p bs s = Ok (- 1) t \<and>
      pipe_content (pipes t p) = pipe_content (pipes s p) @ take (pipe_room (pipes s p)) bs
    else \<exists>t. pipewrite p bs s = Swtch t \<and>
      pipe_content (pipes t p) = pipe_content (pipes s p) @ take (pipe_room (pipes s p)) bs \<and>
      asleep (Ch_pipe_nwrite p) q t \<and> woken_all (Ch_pipe_nread p) s t \<and> \<not> lk_locked (locks t (L_pipe p))"
proof -
  note f = pq.fill_spec [OF assms(4), of bs]
  have le: "pipe_level (pipes s p) \<le> 512" using assms(4) by (simp add: pipe_wf_def)
  have q: "q < length (ptable s)" using assms(1) by (simp add: running_def)
  consider (fits) "length bs \<le> pipe_room (pipes s p)"
    | (stop) "\<not> length bs \<le> pipe_room (pipes s p)" "write_stop s q p"
    | (wait) "\<not> length bs \<le> pipe_room (pipes s p)" "\<not> write_stop s q p" by blast
  then show ?thesis
  proof cases
    case fits
    then show ?thesis using write_loop_fits [OF assms(1,4), of bs "int (length bs)"] le f
      by (simp add: pipewrite_begin [OF assms(1)] pipe_room_def woken_all_pipe)
  next
    case stop
    then show ?thesis using write_loop_stops [OF assms(1,4), of bs "int (length bs)"] le f
      by (simp add: pipewrite_begin [OF assms(1)] pipe_room_def write_stop_def)
  next
    case wait
    then show ?thesis
      using write_loop_sleeps [OF assms(1,2,4), of bs "int (length bs)"] le f asleep_sleeping [OF q assms(3)]
      by (simp add: pipewrite_begin [OF assms(1)] pipe_room_def write_stop_def)
  qed
qed

text \<open>
  C20. \<open>piperead\<close> of a running process: if bytes are buffered, or the write end is closed, it takes
  the first \<open>n\<close> buffered bytes (fewer if there are fewer, none at end of file), wakes the writers and
  returns their number.  On an empty open pipe it returns \<open>-1\<close> to a killed caller and sleeps otherwise,
  and takes nothing.
\<close>

theorem piperead_correct:
  assumes "running s i q" and "ncli (cpus s ! i) = 0" and "p_state (proc_at s q) = RUNNING"
    and "pipe_wf (pipes s p)"
  shows "if pipe_content (pipes s p) \<noteq> [] \<or> \<not> writeopen (pipes s p)
    then \<exists>t. piperead p n s =
        Ok (int (min n (length (pipe_content (pipes s p)))), take n (pipe_content (pipes s p))) t \<and>
      pipe_content (pipes t p) = drop n (pipe_content (pipes s p)) \<and> woken_all (Ch_pipe_nwrite p) s t
    else if p_killed (proc_at s q) \<noteq> 0 then piperead p n s = Ok (- 1, []) s
    else \<exists>t. piperead p n s = Swtch t \<and> pipes t = pipes s \<and> asleep (Ch_pipe_nread p) q t \<and>
      \<not> lk_locked (locks t (L_pipe p))"
proof -
  have q: "q < length (ptable s)" using assms(1) by (simp add: running_def)
  have e: "pipe_is_empty (pipes s p) \<longleftrightarrow> pipe_content (pipes s p) = []" by (rule pq.empty_iff [OF assms(4)])
  obtain g x where d: "pq.drain n (pipes s p) = (g, x)" by fastforce
  note ds = pq.drain_spec [OF assms(4) d]
  show ?thesis
  proof (cases "pipe_content (pipes s p) \<noteq> [] \<or> \<not> writeopen (pipes s p)")
    case True
    then have "piperead p n s = Ok (int (length g), g) (pipe_woken p (Ch_pipe_nwrite p) (\<lambda>_. x) s)"
      using read_loop_data [OF assms(1) d] e by (simp add: piperead_begin [OF assms(1)])
    then show ?thesis using True ds by (simp add: woken_all_pipe min.commute)
  next
    case False
    then show ?thesis
      using read_loop_killed [OF assms(1), of p n] read_loop_sleeps [OF assms(1,2), of p n] e q
      by (simp add: piperead_begin [OF assms(1)])
        (simp add: asleep_def sleeping_def swap_lock_def released_def)
  qed
qed

section \<open>A pipe to look at\<close>

definition demo_pipe :: pipe where
  "demo_pipe = \<lparr>pi_data = replicate 512 0, nread = 0xffffffff, nwrite = 0xffffffff, readopen = True, writeopen = True\<rparr>"

definition demo_xstate :: xstate where
  "demo_xstate = fstate.extend (demo_fstate \<lparr>sb_size = 1000, sb_nblocks = 941, sb_ninodes = 200, sb_nlog = 30,
      sb_logstart = 256, sb_inodestart = 290, sb_bmapstart = 320\<rparr> demo_lstate)
     (xstate.fields (\<lambda>_. demo_pipe) [])"

lemma demo_xstate_core: "bstate.truncate demo_xstate = bstate.truncate demo_lstate" "pipes demo_xstate = (\<lambda>_. demo_pipe)"
  by (simp_all add: demo_xstate_def bstate.truncate_def bstate.make_def fstate.extend_def demo_fstate_def cstate.extend_def
      demo_cstate_def lstate.extend_def xstate.fields_def)

lemma demo_xstate_sel: "ptable demo_xstate = ptable demo_bstate0" "cpus demo_xstate = cpus demo_bstate0"
  using core_sel(3,6) [of demo_xstate] core_sel(3,6) [of demo_lstate] binit_keeps_binit [of "demo_bstate0\<lparr>disk := \<lambda>n. replicate BSIZE (of_nat n)\<rparr>"]
  by (simp_all add: demo_xstate_core demo_lstate_sel binit_keeps_def)

lemma demo_xstate_running: "running demo_xstate 0 0"
  using demo_txinv core_cong(1) [OF demo_xstate_core(1)] binv_facts(1) unfolding txinv_def by blast

lemma demo_xstate_calm: "ncli (cpus demo_xstate ! 0) = 0" "p_state (proc_at demo_xstate 0) = RUNNING"
  "p_killed (proc_at demo_xstate 0) = 0"
  by (simp_all add: demo_xstate_sel) (simp_all add: demo_bstate0_def demo_cpu_def demo_proc_def)

lemma demo_pipe_wf: "pipe_wf demo_pipe" "pipe_content demo_pipe = []"
  by (simp_all add: pipe_wf_def pipe_content_def demo_pipe_def window_def)

lemma demo_pipe_filled: "live (nwrite demo_pipe) (nwrite (pq.fill [1, 2, 3] demo_pipe)) = 3"
  unfolding pq.fill.simps by (simp add: demo_pipe_def pipe_put_def PIPESIZE_def live_def)

lemma pipe_woken_sel [simp]: "cpus (pipe_woken p ch f s) = cpus s"
  "running (pipe_woken p ch f s) i q = running s i q"
  using running_wake [of "Some ch" "upd_pipe p f s" i q] by (simp_all add: pipe_woken_def)

theorem pipe_stream_witness:
  "\<exists>t :: xstate. pipe_history 0x1000 t [1, 2, 3] [1, 2] \<and> pipe_content (pipes t 0x1000) = [3]"
proof -
  let ?p = "0x1000 :: addr"
  note run = demo_xstate_running and wf = demo_pipe_wf
  define t where "t = pipe_woken ?p (Ch_pipe_nread ?p) (pq.fill [1, 2, 3]) demo_xstate"
  have pt: "pipes t ?p = pq.fill [1, 2, 3] demo_pipe" by (simp add: t_def demo_xstate_core)
  have w: "pipewrite ?p [1, 2, 3] demo_xstate = Ok 3 t"
    using write_loop_fits [OF run, of ?p "[1, 2, 3]" 3] wf(1)
    by (simp add: pipewrite_begin [OF run] demo_xstate_core t_def demo_pipe_def del: pipewrite_loop.simps)
  have "pipe_history ?p demo_xstate [] []"
    by (rule pipe_history.created) (use wf in \<open>simp_all add: demo_xstate_core demo_pipe_def\<close>)
  from pipe_history.wrote [OF this run _ , of "[1, 2, 3]" 3 t]
  have h: "pipe_history ?p t [1, 2, 3] []"
    using w by (simp add: pt demo_xstate_calm demo_xstate_core demo_pipe_filled del: pq.fill.simps)
  have ct: "pipe_content (pipes t ?p) = [1, 2, 3]" "pipe_wf (pipes t ?p)"
    using pq.fill_spec [OF wf(1), of "[1, 2, 3]"] wf(2) by (simp_all add: pt del: pq.fill.simps)
  have rt: "running t 0 0" "ncli (cpus t ! 0) = 0" using run by (simp_all add: t_def demo_xstate_calm)
  obtain g x where d: "pq.drain 2 (pipes t ?p) = (g, x)" by fastforce
  have g: "g = [1, 2]" using pq.drain_spec [OF ct(2) d] ct(1) by (simp add: numeral_2_eq_2)
  have "\<not> pipe_is_empty (pipes t ?p)" using pq.empty_iff [OF ct(2)] ct(1) by simp
  then obtain u where "piperead ?p 2 t = Ok (2, [1, 2]) u"
    using read_loop_data [OF rt(1) d] g by (simp add: piperead_begin [OF rt(1)])
  from pipe_history.took [OF h rt this] have h2: "pipe_history ?p u [1, 2, 3] [1, 2]" by simp
  have "pipe_content (pipes u ?p) = [3]" using pipe_stream [OF h2] by simp
  with h2 show ?thesis by blast
qed

theorem pipewrite_correct_witness:
  "\<exists>t. pipewrite 0x1000 [7, 8] demo_xstate = Ok 2 t \<and> pipe_content (pipes t 0x1000) = [7, 8]"
  using pipewrite_correct [OF demo_xstate_running demo_xstate_calm(1,2), where p = "0x1000" and bs = "[7, 8]"] demo_pipe_wf
  by (auto simp: demo_xstate_core pipe_room_def)

theorem piperead_correct_witness: "\<exists>t. piperead 0x1000 4 demo_xstate = Swtch t \<and> asleep (Ch_pipe_nread 0x1000) 0 t"
  using piperead_correct [OF demo_xstate_running demo_xstate_calm(1,2), where p = "0x1000" and n = 4] demo_pipe_wf demo_xstate_calm
  by (auto simp: demo_xstate_core) (auto simp: demo_pipe_def)

end
