(* ===== verification/File.thy ===== *)
theory File
  imports Pipe
begin

text \<open>
  The open-file table (\<^verbatim>\<open>file.c\<close>): reference-counted entries that name a pipe or an inode with
  an offset, and the dispatch of reads and writes.
\<close>

definition NFILE :: nat where "NFILE = 100"

definition upd_file :: "nat \<Rightarrow> (kfile \<Rightarrow> kfile) \<Rightarrow> 'z xstate_scheme \<Rightarrow> 'z xstate_scheme" where
  "upd_file f g s = s\<lparr>ftable := upd_nth f g (ftable s)\<rparr>"

abbreviation file_at :: "'z xstate_scheme \<Rightarrow> nat \<Rightarrow> kfile" where
  "file_at s f \<equiv> ftable s ! f"

definition fileinit :: "'z mach_scheme \<Rightarrow> 'z mach_scheme" where
  "fileinit s = initlock L_ftable ''ftable'' s"

definition filealloc :: "'z xstate_scheme \<Rightarrow> (nat option, 'z xstate_scheme) res" where
  "filealloc s =
     bindR (acquire L_ftable s) (\<lambda>_ s.
       case first_idx (\<lambda>f. f_ref f = 0) (ftable s) of
         Some f \<Rightarrow> bindR (release L_ftable (upd_file f (\<lambda>x. x\<lparr>f_ref := 1\<rparr>) s)) (\<lambda>_ s. Ok (Some f) s)
       | None \<Rightarrow> bindR (release L_ftable s) (\<lambda>_ s. Ok None s))"

definition filedup :: "nat \<Rightarrow> 'z xstate_scheme \<Rightarrow> (nat, 'z xstate_scheme) res" where
  "filedup f s =
     bindR (acquire L_ftable s) (\<lambda>_ s.
       if f_ref (file_at s f) < 1 then Panic ''filedup''
       else bindR (release L_ftable (upd_file f (\<lambda>x. x\<lparr>f_ref := f_ref x + 1\<rparr>) s)) (\<lambda>_ s. Ok f s))"

definition fileclose :: "nat \<Rightarrow> 'z xstate_scheme \<Rightarrow> (unit, 'z xstate_scheme) res" where
  "fileclose f s =
     bindR (acquire L_ftable s) (\<lambda>_ s.
       if f_ref (file_at s f) < 1 then Panic ''fileclose''
       else let s = upd_file f (\<lambda>x. x\<lparr>f_ref := f_ref x - 1\<rparr>) s in
         if f_ref (file_at s f) > 0 then release L_ftable s
         else let ff = file_at s f; s = upd_file f (\<lambda>x. x\<lparr>f_ref := 0, f_type := FD_NONE\<rparr>) s in
           bindR (release L_ftable s) (\<lambda>_ s.
             case f_type ff of
               FD_PIPE \<Rightarrow> pipeclose (f_pipe ff) (f_writable ff) s
             | FD_INODE \<Rightarrow>
                 bindR (begin_op s) (\<lambda>_ s. bindR (iput (f_ip ff) s) (\<lambda>_ s. end_op s))
             | FD_NONE \<Rightarrow> Ok () s))"

definition filestat :: "nat \<Rightarrow> 'z xstate_scheme \<Rightarrow> (stat option, 'z xstate_scheme) res" where
  "filestat f s =
     (if f_type (file_at s f) = FD_INODE
      then let ip = f_ip (file_at s f) in
        bindR (ilock (Some ip) s) (\<lambda>_ s.
          let st = stati ip s in
        bindR (iunlock (Some ip) s) (\<lambda>_ s. Ok (Some st) s))
      else Ok None s)"

definition fileread :: "nat \<Rightarrow> int \<Rightarrow> 'z xstate_scheme \<Rightarrow> (int \<times> byte list, 'z xstate_scheme) res" where
  "fileread f n s =
     (if \<not> f_readable (file_at s f) then Ok (- 1, []) s
      else case f_type (file_at s f) of
        FD_PIPE \<Rightarrow> piperead (f_pipe (file_at s f)) (nat n) s
      | FD_INODE \<Rightarrow>
          let ip = f_ip (file_at s f) in
          bindR (ilock (Some ip) s) (\<lambda>_ s.
          bindR (readi ip (f_off (file_at s f)) (of_int n) s) (\<lambda>(r, got) s.
            let s = (if r > 0 then upd_file f (\<lambda>x. x\<lparr>f_off := f_off x + of_int r\<rparr>) s else s) in
          bindR (iunlock (Some ip) s) (\<lambda>_ s. Ok (r, got) s)))
      | FD_NONE \<Rightarrow> Panic ''fileread'')"

definition FW_MAX :: nat where "FW_MAX = (MAXOPBLOCKS - 1 - 1 - 2) div 2 * 512"

text \<open>One transaction of \<open>filewrite\<close>.\<close>

definition filewrite_chunk :: "nat \<Rightarrow> byte list \<Rightarrow> 'z xstate_scheme \<Rightarrow> (int, 'z xstate_scheme) res" where
  "filewrite_chunk f chunk s =
     bindR (begin_op s) (\<lambda>_ s.
       let ip = f_ip (file_at s f) in
     bindR (ilock (Some ip) s) (\<lambda>_ s.
     bindR (writei ip chunk (f_off (file_at s f)) s) (\<lambda>r s.
       let s = (if r > 0 then upd_file f (\<lambda>x. x\<lparr>f_off := f_off x + of_int r\<rparr>) s else s) in
     bindR (iunlock (Some ip) s) (\<lambda>_ s.
     bindR (end_op s) (\<lambda>_ s. Ok r s)))))"

text \<open>The loop over the rest of the buffer: true when all of it was written.\<close>

function filewrite_loop :: "nat \<Rightarrow> byte list \<Rightarrow> 'z xstate_scheme \<Rightarrow> (bool, 'z xstate_scheme) res" where
  "filewrite_loop f rest s =
     (if rest = [] then Ok True s
      else let chunk = take FW_MAX rest in
        bindR (filewrite_chunk f chunk s) (\<lambda>r s.
          if r < 0 then Ok False s
          else if r \<noteq> int (length chunk) then Panic ''short filewrite''
          else filewrite_loop f (drop FW_MAX rest) s))"
  by pat_completeness auto
termination
  by (relation "measure (\<lambda>(f, rest, s). length rest)") (auto simp: FW_MAX_def MAXOPBLOCKS_def)

declare filewrite_loop.simps [simp del]

definition filewrite :: "nat \<Rightarrow> byte list \<Rightarrow> 'z xstate_scheme \<Rightarrow> (int, 'z xstate_scheme) res" where
  "filewrite f src s =
     (if \<not> f_writable (file_at s f) then Ok (- 1) s
      else case f_type (file_at s f) of
        FD_PIPE \<Rightarrow> pipewrite (f_pipe (file_at s f)) src s
      | FD_INODE \<Rightarrow> bindR (filewrite_loop f src s) (\<lambda>full s. Ok (if full then int (length src) else - 1) s)
      | FD_NONE \<Rightarrow> Panic ''filewrite'')"

definition pipe_init :: "pipe \<Rightarrow> pipe" where
  "pipe_init x = x\<lparr>readopen := True, writeopen := True, nwrite := 0, nread := 0\<rparr>"

definition close_opt :: "nat option \<Rightarrow> 'z xstate_scheme \<Rightarrow> (unit, 'z xstate_scheme) res" where
  "close_opt fo s = (case fo of None \<Rightarrow> Ok () s | Some f \<Rightarrow> fileclose f s)"

definition pipealloc :: "'z xstate_scheme \<Rightarrow> ((nat \<times> nat) option, 'z xstate_scheme) res" where
  "pipealloc s =
     bindR (filealloc s) (\<lambda>f0 s.
       case f0 of None \<Rightarrow> Ok None s
       | Some a \<Rightarrow>
         bindR (filealloc s) (\<lambda>f1 s.
           case f1 of None \<Rightarrow> bindR (close_opt f0 s) (\<lambda>_ s. Ok None s)
           | Some b \<Rightarrow>
             bindR (kalloc s) (\<lambda>p s.
               if p = 0
               then bindR (close_opt f0 s) (\<lambda>_ s. bindR (close_opt f1 s) (\<lambda>_ s. Ok None s))
               else let s = upd_pipe p pipe_init s;
                      s = initlock (L_pipe p) ''pipe'' s;
                      s = upd_file a (\<lambda>x. x\<lparr>f_type := FD_PIPE, f_readable := True, f_writable := False, f_pipe := p\<rparr>) s;
                      s = upd_file b (\<lambda>x. x\<lparr>f_type := FD_PIPE, f_readable := False, f_writable := True, f_pipe := p\<rparr>) s in
                 Ok (Some (a, b)) s)))"

end
