(* ===== verification/Exec.thy ===== *)
theory Exec
  imports File
begin

text \<open>
  Program loading (\<^verbatim>\<open>exec.c\<close>, \<open>loaduvm\<close> of \<^verbatim>\<open>vm.c\<close>).  The \<^verbatim>\<open>goto bad\<close> exits are the result
  \<open>None\<close> of the parts below, after which \<open>exec_bad\<close> releases what has been taken.
\<close>

section \<open>ELF headers\<close>

definition ELF_MAGIC :: u32 where "ELF_MAGIC = 0x464C457F"
definition ELF_PROG_LOAD :: u32 where "ELF_PROG_LOAD = 1"
definition sizeof_elfhdr :: u32 where "sizeof_elfhdr = 52"
definition sizeof_proghdr :: u32 where "sizeof_proghdr = 32"
definition MAXARG :: nat where "MAXARG = 32"

record elfhdr =
  elf_magic :: u32
  elf_entry :: u32
  elf_phoff :: u32
  elf_phnum :: u16

record proghdr =
  ph_type :: u32
  ph_off :: u32
  ph_vaddr :: u32
  ph_filesz :: u32
  ph_memsz :: u32

definition elfhdr_of :: "byte list \<Rightarrow> elfhdr" where
  "elfhdr_of d = \<lparr>elf_magic = get32 d 0, elf_entry = get32 d 24, elf_phoff = get32 d 28, elf_phnum = get16 d 44\<rparr>"

definition proghdr_of :: "byte list \<Rightarrow> proghdr" where
  "proghdr_of d = \<lparr>ph_type = get32 d 0, ph_off = get32 d 4, ph_vaddr = get32 d 8,
     ph_filesz = get32 d 16, ph_memsz = get32 d 20\<rparr>"

section \<open>Loading segments\<close>

fun loaduvm_loop :: "nat \<Rightarrow> addr \<Rightarrow> addr \<Rightarrow> nat \<Rightarrow> u32 \<Rightarrow> u32 \<Rightarrow> u32 \<Rightarrow> 'z fstate_scheme \<Rightarrow> (int, 'z fstate_scheme) res" where
  "loaduvm_loop 0 pgdir va ip off i sz s = Spin s"
| "loaduvm_loop (Suc k) pgdir va ip off i sz s =
     (if \<not> i < sz then Ok 0 s
      else bindR (walkpgdir pgdir (va + i) False s) (\<lambda>pte s.
        if pte = 0 then Panic ''loaduvm: address should exist''
        else let pa = PTE_ADDR (pte_at s pte); n = (if sz - i < PGSIZE then sz - i else PGSIZE) in
          bindR (readi ip (off + i) n s) (\<lambda>(r, got) s.
            let s = s\<lparr>mem := store_bytes (mem s) (P2V pa) got\<rparr> in
            if r \<noteq> sint n then Ok (- 1) s
            else loaduvm_loop k pgdir va ip off (i + PGSIZE) sz s)))"

definition loaduvm :: "addr \<Rightarrow> addr \<Rightarrow> nat \<Rightarrow> u32 \<Rightarrow> u32 \<Rightarrow> 'z fstate_scheme \<Rightarrow> (int, 'z fstate_scheme) res" where
  "loaduvm pgdir va ip off sz s =
     (if unat va mod unat PGSIZE \<noteq> 0 then Panic ''loaduvm: addr must be page aligned''
      else loaduvm_loop (Suc (Suc (unat sz div unat PGSIZE))) pgdir va ip off 0 sz s)"

fun exec_load :: "addr \<Rightarrow> nat \<Rightarrow> u32 list \<Rightarrow> u32 \<Rightarrow> 'z fstate_scheme \<Rightarrow> (u32 option, 'z fstate_scheme) res" where
  "exec_load pgdir ip [] sz s = Ok (Some sz) s"
| "exec_load pgdir ip (off # offs) sz s =
     bindR (readi ip off sizeof_proghdr s) (\<lambda>(r, d) s.
       let ph = proghdr_of d in
       if r \<noteq> sint sizeof_proghdr then Ok None s
       else if ph_type ph \<noteq> ELF_PROG_LOAD then exec_load pgdir ip offs sz s
       else if ph_memsz ph < ph_filesz ph then Ok None s
       else if ph_vaddr ph + ph_memsz ph < ph_vaddr ph then Ok None s
       else bindR (allocuvm pgdir sz (ph_vaddr ph + ph_memsz ph) s) (\<lambda>sz s.
         if sz = 0 then Ok None s
         else if unat (ph_vaddr ph) mod unat PGSIZE \<noteq> 0 then Ok None s
         else bindR (loaduvm pgdir (ph_vaddr ph) ip (ph_off ph) (ph_filesz ph) s) (\<lambda>r s.
           if r < 0 then Ok None s else exec_load pgdir ip offs sz s)))"

definition ph_offs :: "elfhdr \<Rightarrow> u32 list" where
  "ph_offs e = map (\<lambda>i. elf_phoff e + sizeof_proghdr * of_nat i) [0..<unat (elf_phnum e)]"

section \<open>The user stack\<close>

text \<open>
  The argument strings are copied below each other; \<open>ustk\<close> collects their addresses.  A string is
  given without its terminating zero.
\<close>

fun exec_args :: "addr \<Rightarrow> byte list list \<Rightarrow> u32 \<Rightarrow> u32 list \<Rightarrow> 'z fstate_scheme \<Rightarrow> ((u32 \<times> u32 list) option, 'z fstate_scheme) res" where
  "exec_args pgdir [] sp ustk s = Ok (Some (sp, ustk)) s"
| "exec_args pgdir (a # as) sp ustk s =
     (if length ustk \<ge> MAXARG then Ok None s
      else let sp = (sp - (of_nat (length a) + 1)) AND NOT 3 in
        bindR (copyout pgdir sp (a @ [0]) s) (\<lambda>r s.
          if r < 0 then Ok None s else exec_args pgdir as sp (ustk @ [sp]) s))"

definition word_bytes :: "u32 \<Rightarrow> byte list" where
  "word_bytes v = [ucast v, ucast (drop_bit 8 v), ucast (drop_bit 16 v), ucast (drop_bit 24 v)]"

definition exec_stack :: "addr \<Rightarrow> byte list list \<Rightarrow> u32 \<Rightarrow> 'z fstate_scheme \<Rightarrow> (u32 option, 'z fstate_scheme) res" where
  "exec_stack pgdir argv sp s =
     bindR (exec_args pgdir argv sp [] s) (\<lambda>r s.
       case r of None \<Rightarrow> Ok None s
       | Some (sp, ustk) \<Rightarrow>
         let argc = (of_nat (length ustk) :: u32);
             words = [0xffffffff, argc, sp - (argc + 1) * 4] @ ustk @ [0];
             sp = sp - (3 + argc + 1) * 4 in
         bindR (copyout pgdir sp (concat (map word_bytes words)) s) (\<lambda>r s.
           if r < 0 then Ok None s else Ok (Some sp) s))"

text \<open>The part of the path after its last slash.\<close>

definition path_last :: "byte list \<Rightarrow> byte list" where
  "path_last path = rev (takeWhile (\<lambda>c. c \<noteq> SLASH) (rev path))"

section \<open>exec\<close>

definition exec_bad :: "addr \<Rightarrow> nat option \<Rightarrow> 'z fstate_scheme \<Rightarrow> (int, 'z fstate_scheme) res" where
  "exec_bad pgdir ipo s =
     bindR (if pgdir \<noteq> 0 then freevm pgdir s else Ok () s) (\<lambda>_ s.
     bindR (case ipo of None \<Rightarrow> Ok () s
            | Some ip \<Rightarrow> bindR (iunlockput ip s) (\<lambda>_ s. end_op s)) (\<lambda>_ s.
     Ok (- 1) s))"

definition exec_commit :: "nat \<Rightarrow> byte list \<Rightarrow> addr \<Rightarrow> u32 \<Rightarrow> u32 \<Rightarrow> u32 \<Rightarrow> 'z fstate_scheme \<Rightarrow> (int, 'z fstate_scheme) res" where
  "exec_commit p path pgdir sz entry sp s =
     (let q = proc_at s p;
          nm = write_prefix (safestrcpy (cptr_of (path_last path)) 16) (p_name q);
          oldpgdir = p_pgdir q;
          s = upd_proc p (\<lambda>x. x\<lparr>p_name := nm, p_pgdir := pgdir, p_sz := sz\<rparr>) s;
          s = s\<lparr>tframes := (tframes s)(p_tf q := (tframes s (p_tf q))\<lparr>tf_eip := entry, tf_esp := sp\<rparr>)\<rparr> in
      bindR (switchuvm (Some p) s) (\<lambda>_ s.
      bindR (freevm oldpgdir s) (\<lambda>_ s. Ok 0 s)))"

definition exec_image :: "nat \<Rightarrow> byte list \<Rightarrow> byte list list \<Rightarrow> addr \<Rightarrow> u32 \<Rightarrow> u32 \<Rightarrow> 'z fstate_scheme \<Rightarrow> (int, 'z fstate_scheme) res" where
  "exec_image p path argv pgdir sz entry s =
     (let sz = PGROUNDUP sz in
      bindR (allocuvm pgdir sz (sz + 2 * PGSIZE) s) (\<lambda>sz s.
        if sz = 0 then exec_bad pgdir None s
        else bindR (clearpteu pgdir (sz - 2 * PGSIZE) s) (\<lambda>_ s.
          bindR (exec_stack pgdir argv sz s) (\<lambda>r s.
            case r of None \<Rightarrow> exec_bad pgdir None s
            | Some sp \<Rightarrow> exec_commit p path pgdir sz entry sp s))))"

text \<open>\<open>data\<close> is the linker symbol that \<open>setupkvm\<close> needs.\<close>

definition exec :: "addr \<Rightarrow> byte list \<Rightarrow> byte list list \<Rightarrow> 'z fstate_scheme \<Rightarrow> (int, 'z fstate_scheme) res" where
  "exec data path argv s =
     bindR (myproc s) (\<lambda>po s. case po of None \<Rightarrow> Panic ''null myproc'' | Some p \<Rightarrow>
     bindR (begin_op s) (\<lambda>_ s.
     bindR (namei path s) (\<lambda>ipo s.
       case ipo of
         None \<Rightarrow> bindR (end_op s) (\<lambda>_ s.
                 bindR (cprintf (Some (''exec: fail'' @ [CHR 0x0A])) [] s) (\<lambda>_ s. Ok (- 1) s))
       | Some ip \<Rightarrow>
         bindR (ilock (Some ip) s) (\<lambda>_ s.
         bindR (readi ip 0 sizeof_elfhdr s) (\<lambda>(r, d) s.
           let elf = elfhdr_of d in
           if r \<noteq> sint sizeof_elfhdr \<or> elf_magic elf \<noteq> ELF_MAGIC then exec_bad 0 (Some ip) s
           else bindR (setupkvm data s) (\<lambda>pgdir s.
             if pgdir = 0 then exec_bad 0 (Some ip) s
             else bindR (exec_load pgdir ip (ph_offs elf) 0 s) (\<lambda>szo s.
               case szo of None \<Rightarrow> exec_bad pgdir (Some ip) s
               | Some sz \<Rightarrow>
                 bindR (iunlockput ip s) (\<lambda>_ s.
                 bindR (end_op s) (\<lambda>_ s.
                 exec_image p path argv pgdir sz (elf_entry elf) s)))))))))"

end
