(* ===== verification/ProcLife.thy ===== *)
theory ProcLife
  imports Exec
begin

text \<open>
  The life cycle of a process (\<^verbatim>\<open>proc.c\<close>): the first process, \<open>growproc\<close>, \<open>fork\<close>, \<open>exit\<close>,
  \<open>wait\<close> and \<open>forkret\<close>.  \<open>data\<close> is the linker symbol that \<open>setupkvm\<close> needs and \<open>initcode\<close> the
  embedded first program.
\<close>

record kstate = xstate +
  ticks :: u32
  forkret_first :: bool

definition cur_proc :: "'z pstate_scheme \<Rightarrow> (nat, 'z pstate_scheme) res" where
  "cur_proc s = bindR (myproc s) (\<lambda>po s. case po of None \<Rightarrow> Panic ''null myproc'' | Some p \<Rightarrow> Ok p s)"

definition upd_tf :: "nat \<Rightarrow> (trapframe \<Rightarrow> trapframe) \<Rightarrow> 'z pstate_scheme \<Rightarrow> 'z pstate_scheme" where
  "upd_tf p f s = s\<lparr>tframes := (tframes s)(p_tf (proc_at s p) := f (tframes s (p_tf (proc_at s p))))\<rparr>"

definition zero_tf :: trapframe where
  "zero_tf = \<lparr>tf_edi = 0, tf_esi = 0, tf_ebp = 0, tf_oesp = 0, tf_ebx = 0, tf_edx = 0, tf_ecx = 0, tf_eax = 0,
     tf_gs = 0, tf_fs = 0, tf_es = 0, tf_ds = 0, tf_trapno = 0, tf_err = 0, tf_eip = 0, tf_cs = 0,
     tf_eflags = 0, tf_esp = 0, tf_ss = 0\<rparr>"

definition FL_IF :: u32 where "FL_IF = 0x200"

definition user_tf :: trapframe where
  "user_tf = zero_tf\<lparr>tf_cs := of_nat (8 * SEG_UCODE) OR 3, tf_ds := of_nat (8 * SEG_UDATA) OR 3,
     tf_es := of_nat (8 * SEG_UDATA) OR 3, tf_ss := of_nat (8 * SEG_UDATA) OR 3,
     tf_eflags := FL_IF, tf_esp := PGSIZE, tf_eip := 0\<rparr>"

definition set_name :: "byte list \<Rightarrow> proc \<Rightarrow> proc" where
  "set_name nm q = q\<lparr>p_name := write_prefix (safestrcpy (cptr_of nm) 16) (p_name q)\<rparr>"

definition userinit :: "addr \<Rightarrow> byte list \<Rightarrow> 'z fstate_scheme \<Rightarrow> (unit, 'z fstate_scheme) res" where
  "userinit data initcode s =
     bindR (allocproc s) (\<lambda>po s. case po of None \<Rightarrow> Panic ''userinit: null process'' | Some p \<Rightarrow>
       let s = s\<lparr>initproc := Some p\<rparr> in
     bindR (setupkvm data s) (\<lambda>d s.
       let s = upd_proc p (\<lambda>q. q\<lparr>p_pgdir := d\<rparr>) s in
       if d = 0 then Panic ''userinit: out of memory?''
       else bindR (inituvm d initcode s) (\<lambda>_ s.
         let s = upd_proc p (\<lambda>q. q\<lparr>p_sz := PGSIZE\<rparr>) s;
             s = upd_tf p (\<lambda>_. user_tf) s;
             s = upd_proc p (set_name (bytes_of ''initcode'')) s in
         bindR (namei [SLASH] s) (\<lambda>ip s.
           let s = upd_proc p (\<lambda>q. q\<lparr>p_cwd := ip\<rparr>) s in
         bindR (acquire L_ptable s) (\<lambda>_ s.
           release L_ptable (upd_proc p (\<lambda>q. q\<lparr>p_state := RUNNABLE\<rparr>) s))))))"

definition growproc :: "int \<Rightarrow> 'z cstate_scheme \<Rightarrow> (int, 'z cstate_scheme) res" where
  "growproc n s =
     bindR (cur_proc s) (\<lambda>p s.
       let sz = p_sz (proc_at s p); d = p_pgdir (proc_at s p) in
     bindR (if n > 0 then bindR (allocuvm d sz (sz + of_int n) s) (\<lambda>z s. Ok (if z = 0 then None else Some z) s)
            else if n < 0 then bindR (deallocuvm d sz (sz + of_int n) s) (\<lambda>z s. Ok (if z = 0 then None else Some z) s)
            else Ok (Some sz) s) (\<lambda>r s.
       case r of None \<Rightarrow> Ok (- 1) s
       | Some sz \<Rightarrow>
         bindR (switchuvm (Some p) (upd_proc p (\<lambda>q. q\<lparr>p_sz := sz\<rparr>) s)) (\<lambda>_ s. Ok 0 s)))"

definition fork_file :: "nat \<Rightarrow> nat \<Rightarrow> nat \<Rightarrow> 'z xstate_scheme \<Rightarrow> (unit, 'z xstate_scheme) res" where
  "fork_file p np i s =
     (case p_ofile (proc_at s p) ! i of None \<Rightarrow> Ok () s
      | Some f \<Rightarrow> bindR (filedup f s) (\<lambda>f s. Ok () (upd_proc np (\<lambda>q. q\<lparr>p_ofile := (p_ofile q)[i := Some f]\<rparr>) s)))"

definition fork :: "addr \<Rightarrow> 'z xstate_scheme \<Rightarrow> (int, 'z xstate_scheme) res" where
  "fork data s =
     bindR (cur_proc s) (\<lambda>p s.
     bindR (allocproc s) (\<lambda>npo s.
       case npo of None \<Rightarrow> Ok (- 1) s
       | Some np \<Rightarrow>
         bindR (copyuvm data (p_pgdir (proc_at s p)) (p_sz (proc_at s p)) s) (\<lambda>d s.
           let s = upd_proc np (\<lambda>q. q\<lparr>p_pgdir := d\<rparr>) s in
           if d = 0
           then bindR (kfree (p_kstack (proc_at s np)) s) (\<lambda>_ s.
                Ok (- 1) (upd_proc np (\<lambda>q. q\<lparr>p_kstack := 0, p_state := UNUSED\<rparr>) s))
           else let
             s = upd_proc np (\<lambda>q. q\<lparr>p_sz := p_sz (proc_at s p), p_parent := Some p\<rparr>) s;
             s = upd_tf np (\<lambda>_. tframes s (p_tf (proc_at s p))) s;
             s = upd_tf np (\<lambda>t. t\<lparr>tf_eax := 0\<rparr>) s in
             bindR (forR [0..<NOFILE] (fork_file p np) s) (\<lambda>_ s.
             bindR (case p_cwd (proc_at s p) of None \<Rightarrow> Panic ''null cwd'' | Some c \<Rightarrow> idup c s) (\<lambda>c s.
               let s = upd_proc np (\<lambda>q. q\<lparr>p_cwd := Some c\<rparr>) s;
                   s = upd_proc np (set_name (p_name (proc_at s p))) s;
                   pid = p_pid (proc_at s np) in
             bindR (acquire L_ptable s) (\<lambda>_ s.
             bindR (release L_ptable (upd_proc np (\<lambda>q. q\<lparr>p_state := RUNNABLE\<rparr>) s)) (\<lambda>_ s. Ok pid s)))))))"

definition exit_file :: "nat \<Rightarrow> nat \<Rightarrow> 'z xstate_scheme \<Rightarrow> (unit, 'z xstate_scheme) res" where
  "exit_file p fd s =
     (case p_ofile (proc_at s p) ! fd of None \<Rightarrow> Ok () s
      | Some f \<Rightarrow> bindR (fileclose f s) (\<lambda>_ s. Ok () (upd_proc p (\<lambda>q. q\<lparr>p_ofile := (p_ofile q)[fd := None]\<rparr>) s)))"

definition reparent_one :: "nat \<Rightarrow> nat \<Rightarrow> 'z pstate_scheme \<Rightarrow> 'z pstate_scheme" where
  "reparent_one p c s =
     (if p_parent (proc_at s c) = Some p
      then let s = upd_proc c (\<lambda>q. q\<lparr>p_parent := initproc s\<rparr>) s in
        if p_state (proc_at s c) = ZOMBIE then wakeup1 (map_option Ch_proc (initproc s)) s else s
      else s)"

definition exit_tail :: "nat \<Rightarrow> 'z pstate_scheme \<Rightarrow> 'z pstate_scheme" where
  "exit_tail p s =
     (let s = wakeup1 (map_option Ch_proc (p_parent (proc_at s p))) s;
          s = fold (reparent_one p) [0..<NPROC] s
      in upd_proc p (\<lambda>q. q\<lparr>p_state := ZOMBIE\<rparr>) s)"

definition exit :: "'z xstate_scheme \<Rightarrow> (unit, 'z xstate_scheme) res" where
  "exit s =
     bindR (cur_proc s) (\<lambda>p s.
       if Some p = initproc s then Panic ''init exiting''
       else bindR (forR [0..<NOFILE] (exit_file p) s) (\<lambda>_ s.
         bindR (begin_op s) (\<lambda>_ s.
         bindR (case p_cwd (proc_at s p) of None \<Rightarrow> Panic ''null cwd'' | Some c \<Rightarrow> iput c s) (\<lambda>_ s.
         bindR (end_op s) (\<lambda>_ s.
           let s = upd_proc p (\<lambda>q. q\<lparr>p_cwd := None\<rparr>) s in
         bindR (acquire L_ptable s) (\<lambda>_ s.
         bindR (sched (exit_tail p s)) (\<lambda>_ s. Panic ''zombie exit'')))))))"

definition wait_loop :: "nat \<Rightarrow> 'z pstate_scheme \<Rightarrow> (int, 'z pstate_scheme) res" where
  "wait_loop p s =
     (case first_idx (\<lambda>q. p_parent q = Some p \<and> p_state q = ZOMBIE) (ptable s) of
        Some c \<Rightarrow>
          let pid = p_pid (proc_at s c) in
          bindR (kfree (p_kstack (proc_at s c)) s) (\<lambda>_ s.
            let s = upd_proc c (\<lambda>q. q\<lparr>p_kstack := 0\<rparr>) s in
          bindR (freevm (p_pgdir (proc_at s c)) s) (\<lambda>_ s.
            let s = upd_proc c (\<lambda>q. q\<lparr>p_pid := 0, p_parent := None, p_name := (p_name q)[0 := 0],
                       p_killed := 0, p_state := UNUSED\<rparr>) s in
          bindR (release L_ptable s) (\<lambda>_ s. Ok pid s)))
      | None \<Rightarrow>
          if (\<forall>q\<in>set (ptable s). p_parent q \<noteq> Some p) \<or> p_killed (proc_at s p) \<noteq> 0
          then bindR (release L_ptable s) (\<lambda>_ s. Ok (- 1) s)
          else bindR (sleep (Ch_proc p) L_ptable s) (\<lambda>_ s. Ok 0 s))"

definition wait :: "'z pstate_scheme \<Rightarrow> (int, 'z pstate_scheme) res" where
  "wait s = bindR (cur_proc s) (\<lambda>p s. bindR (acquire L_ptable s) (\<lambda>_ s. wait_loop p s))"

definition wait_resume :: "nat \<Rightarrow> 'z pstate_scheme \<Rightarrow> (int, 'z pstate_scheme) res" where
  "wait_resume p s = bindR (sleep_resume p L_ptable s) (\<lambda>_ s. wait_loop p s)"

definition forkret :: "'z kstate_scheme \<Rightarrow> (unit, 'z kstate_scheme) res" where
  "forkret s =
     bindR (release L_ptable s) (\<lambda>_ s.
       if forkret_first s
       then let s = s\<lparr>forkret_first := False\<rparr> in
         bindR (iinit ROOTDEV s) (\<lambda>_ s. initlog ROOTDEV s)
       else Ok () s)"

end
