(* ===== verification/Sysfile.thy ===== *)
theory Sysfile
  imports ProcLife
begin

text \<open>
  System-call arguments (\<^verbatim>\<open>syscall.c\<close>) and the file system calls (\<^verbatim>\<open>sysfile.c\<close>).  The kernel
  reads and writes user memory through the page directory in \<^verbatim>\<open>cr3\<close>; an access to an unmapped
  page inside the kernel ends in \<^verbatim>\<open>panic("trap")\<close>.
\<close>

section \<open>User memory\<close>

definition user_ka :: "'z mach_scheme \<Rightarrow> addr \<Rightarrow> addr option" where
  "user_ka s va =
     (let pde = load32 (mem s) (P2V (cr3 s (lapic_id s)) + 4 * PDX va) in
      if pde AND PTE_P = 0 then None
      else let pte = load32 (mem s) (P2V (PTE_ADDR pde) + 4 * PTX va) in
        if pte AND PTE_P = 0 then None else Some (P2V (PTE_ADDR pte) + (va AND 0xFFF)))"

definition uload :: "addr \<Rightarrow> 'z mach_scheme \<Rightarrow> (byte, 'z mach_scheme) res" where
  "uload va s = (case user_ka s va of None \<Rightarrow> Panic ''trap'' | Some a \<Rightarrow> Ok (mem s a) s)"

definition ustore :: "addr \<Rightarrow> byte \<Rightarrow> 'z mach_scheme \<Rightarrow> (unit, 'z mach_scheme) res" where
  "ustore va b s = (case user_ka s va of None \<Rightarrow> Panic ''trap'' | Some a \<Rightarrow> Ok () (s\<lparr>mem := (mem s)(a := b)\<rparr>))"

fun uload_n :: "nat \<Rightarrow> addr \<Rightarrow> 'z mach_scheme \<Rightarrow> (byte list, 'z mach_scheme) res" where
  "uload_n 0 va s = Ok [] s"
| "uload_n (Suc n) va s =
     bindR (uload va s) (\<lambda>b s. bindR (uload_n n (va + 1) s) (\<lambda>bs s. Ok (b # bs) s))"

fun ustore_n :: "addr \<Rightarrow> byte list \<Rightarrow> 'z mach_scheme \<Rightarrow> (unit, 'z mach_scheme) res" where
  "ustore_n va [] s = Ok () s"
| "ustore_n va (b # bs) s = bindR (ustore va b s) (\<lambda>_ s. ustore_n (va + 1) bs s)"

definition uload32 :: "addr \<Rightarrow> 'z mach_scheme \<Rightarrow> (u32, 'z mach_scheme) res" where
  "uload32 va s = bindR (uload_n 4 va s) (\<lambda>bs s. Ok (get32 bs 0) s)"

section \<open>Arguments\<close>

definition fetchint :: "addr \<Rightarrow> 'z pstate_scheme \<Rightarrow> (u32 option, 'z pstate_scheme) res" where
  "fetchint a s =
     bindR (cur_proc s) (\<lambda>p s.
       if a \<ge> p_sz (proc_at s p) \<or> a + 4 > p_sz (proc_at s p) then Ok None s
       else bindR (uload32 a s) (\<lambda>v s. Ok (Some v) s))"

text \<open>The bytes up to the terminating zero, searched below \<open>ep\<close>; at most \<open>n\<close> bytes can be left.\<close>

fun fetchstr_scan :: "nat \<Rightarrow> addr \<Rightarrow> addr \<Rightarrow> 'z mach_scheme \<Rightarrow> (byte list option, 'z mach_scheme) res" where
  "fetchstr_scan 0 a ep s = Ok None s"
| "fetchstr_scan (Suc n) a ep s =
     (if \<not> a < ep then Ok None s
      else bindR (uload a s) (\<lambda>b s.
        if b = 0 then Ok (Some []) s
        else bindR (fetchstr_scan n (a + 1) ep s) (\<lambda>r s. Ok (map_option (Cons b) r) s)))"

definition fetchstr :: "addr \<Rightarrow> 'z pstate_scheme \<Rightarrow> (byte list option, 'z pstate_scheme) res" where
  "fetchstr a s =
     bindR (cur_proc s) (\<lambda>p s.
       if a \<ge> p_sz (proc_at s p) then Ok None s
       else fetchstr_scan (unat (p_sz (proc_at s p) - a)) a (p_sz (proc_at s p)) s)"

definition argint :: "nat \<Rightarrow> 'z pstate_scheme \<Rightarrow> (int option, 'z pstate_scheme) res" where
  "argint n s =
     bindR (cur_proc s) (\<lambda>p s.
     bindR (fetchint (tf_esp (tframes s (p_tf (proc_at s p))) + 4 + 4 * of_nat n) s) (\<lambda>v s.
       Ok (map_option sint v) s))"

definition argptr :: "nat \<Rightarrow> int \<Rightarrow> 'z pstate_scheme \<Rightarrow> (addr option, 'z pstate_scheme) res" where
  "argptr n sz s =
     bindR (cur_proc s) (\<lambda>p s.
     bindR (argint n s) (\<lambda>io s.
       case io of None \<Rightarrow> Ok None s
       | Some i \<Rightarrow>
         let a = (of_int i :: u32) in
         if sz < 0 \<or> a \<ge> p_sz (proc_at s p) \<or> a + of_int sz > p_sz (proc_at s p) then Ok None s
         else Ok (Some a) s))"

definition argstr :: "nat \<Rightarrow> 'z pstate_scheme \<Rightarrow> (byte list option, 'z pstate_scheme) res" where
  "argstr n s =
     bindR (argint n s) (\<lambda>ao s. case ao of None \<Rightarrow> Ok None s | Some a \<Rightarrow> fetchstr (of_int a) s)"

section \<open>File descriptors\<close>

definition argfd :: "nat \<Rightarrow> 'z pstate_scheme \<Rightarrow> ((nat \<times> nat) option, 'z pstate_scheme) res" where
  "argfd n s =
     bindR (argint n s) (\<lambda>fdo s.
       case fdo of None \<Rightarrow> Ok None s
       | Some fd \<Rightarrow>
         if fd < 0 \<or> fd \<ge> int NOFILE then Ok None s
         else bindR (cur_proc s) (\<lambda>p s.
           case p_ofile (proc_at s p) ! nat fd of None \<Rightarrow> Ok None s | Some f \<Rightarrow> Ok (Some (nat fd, f)) s))"

definition fdalloc :: "nat \<Rightarrow> 'z pstate_scheme \<Rightarrow> (nat option, 'z pstate_scheme) res" where
  "fdalloc f s =
     bindR (cur_proc s) (\<lambda>p s.
       case first_idx (\<lambda>x. x = None) (take NOFILE (p_ofile (proc_at s p))) of
         Some fd \<Rightarrow> Ok (Some fd) (upd_proc p (\<lambda>q. q\<lparr>p_ofile := (p_ofile q)[fd := Some f]\<rparr>) s)
       | None \<Rightarrow> Ok None s)"

definition sys_dup :: "'z xstate_scheme \<Rightarrow> (int, 'z xstate_scheme) res" where
  "sys_dup s =
     bindR (argfd 0 s) (\<lambda>r s. case r of None \<Rightarrow> Ok (- 1) s | Some (_, f) \<Rightarrow>
     bindR (fdalloc f s) (\<lambda>fdo s. case fdo of None \<Rightarrow> Ok (- 1) s | Some fd \<Rightarrow>
     bindR (filedup f s) (\<lambda>_ s. Ok (int fd) s)))"

definition sys_read :: "'z xstate_scheme \<Rightarrow> (int, 'z xstate_scheme) res" where
  "sys_read s =
     bindR (argfd 0 s) (\<lambda>r s. case r of None \<Rightarrow> Ok (- 1) s | Some (_, f) \<Rightarrow>
     bindR (argint 2 s) (\<lambda>no s. case no of None \<Rightarrow> Ok (- 1) s | Some n \<Rightarrow>
     bindR (argptr 1 n s) (\<lambda>po s. case po of None \<Rightarrow> Ok (- 1) s | Some p \<Rightarrow>
     bindR (fileread f n s) (\<lambda>(r, got) s.
     bindR (ustore_n p got s) (\<lambda>_ s. Ok r s)))))"

definition sys_write :: "'z xstate_scheme \<Rightarrow> (int, 'z xstate_scheme) res" where
  "sys_write s =
     bindR (argfd 0 s) (\<lambda>r s. case r of None \<Rightarrow> Ok (- 1) s | Some (_, f) \<Rightarrow>
     bindR (argint 2 s) (\<lambda>no s. case no of None \<Rightarrow> Ok (- 1) s | Some n \<Rightarrow>
     bindR (argptr 1 n s) (\<lambda>po s. case po of None \<Rightarrow> Ok (- 1) s | Some p \<Rightarrow>
     bindR (uload_n (nat n) p s) (\<lambda>src s. filewrite f src s))))"

definition sys_close :: "'z xstate_scheme \<Rightarrow> (int, 'z xstate_scheme) res" where
  "sys_close s =
     bindR (argfd 0 s) (\<lambda>r s. case r of None \<Rightarrow> Ok (- 1) s | Some (fd, f) \<Rightarrow>
     bindR (cur_proc s) (\<lambda>p s.
       let s = upd_proc p (\<lambda>q. q\<lparr>p_ofile := (p_ofile q)[fd := None]\<rparr>) s in
     bindR (fileclose f s) (\<lambda>_ s. Ok 0 s)))"

text \<open>The layout of \<^verbatim>\<open>struct stat\<close>: type at 0, dev at 4, ino at 8, nlink at 12, size at 16; 20 bytes.\<close>

definition sizeof_stat :: int where "sizeof_stat = 20"

definition stat_stores :: "addr \<Rightarrow> stat \<Rightarrow> 'z mach_scheme \<Rightarrow> (unit, 'z mach_scheme) res" where
  "stat_stores a st s =
     bindR (ustore_n (a + 4) (word_bytes (of_int (st_dev st))) s) (\<lambda>_ s.
     bindR (ustore_n (a + 8) (word_bytes (of_nat (st_ino st))) s) (\<lambda>_ s.
     bindR (ustore_n a (take 2 (word_bytes (of_int (st_type st)))) s) (\<lambda>_ s.
     bindR (ustore_n (a + 12) (take 2 (word_bytes (of_int (st_nlink st)))) s) (\<lambda>_ s.
     ustore_n (a + 16) (word_bytes (st_size st)) s))))"

definition sys_fstat :: "'z xstate_scheme \<Rightarrow> (int, 'z xstate_scheme) res" where
  "sys_fstat s =
     bindR (argfd 0 s) (\<lambda>r s. case r of None \<Rightarrow> Ok (- 1) s | Some (_, f) \<Rightarrow>
     bindR (argptr 1 sizeof_stat s) (\<lambda>po s. case po of None \<Rightarrow> Ok (- 1) s | Some a \<Rightarrow>
     bindR (filestat f s) (\<lambda>so s. case so of None \<Rightarrow> Ok (- 1) s
       | Some st \<Rightarrow> bindR (stat_stores a st s) (\<lambda>_ s. Ok 0 s))))"

section \<open>Names\<close>

definition end_op_ret :: "int \<Rightarrow> 'z lstate_scheme \<Rightarrow> (int, 'z lstate_scheme) res" where
  "end_op_ret r s = bindR (end_op s) (\<lambda>_ s. Ok r s)"

definition upd_nlink :: "nat \<Rightarrow> int \<Rightarrow> 'z fstate_scheme \<Rightarrow> 'z fstate_scheme" where
  "upd_nlink ip d s = upd_inode ip (\<lambda>i. i\<lparr>i_nlink := i_nlink i + d\<rparr>) s"

definition link_bad :: "nat \<Rightarrow> 'z fstate_scheme \<Rightarrow> (int, 'z fstate_scheme) res" where
  "link_bad ip s =
     bindR (ilock (Some ip) s) (\<lambda>_ s.
     bindR (iupdate ip (upd_nlink ip (- 1) s)) (\<lambda>_ s.
     bindR (iunlockput ip s) (\<lambda>_ s. end_op_ret (- 1) s)))"

definition sys_link :: "'z fstate_scheme \<Rightarrow> (int, 'z fstate_scheme) res" where
  "sys_link s =
     bindR (argstr 0 s) (\<lambda>oldo s. case oldo of None \<Rightarrow> Ok (- 1) s | Some old \<Rightarrow>
     bindR (argstr 1 s) (\<lambda>newo s. case newo of None \<Rightarrow> Ok (- 1) s | Some new \<Rightarrow>
     bindR (begin_op s) (\<lambda>_ s.
     bindR (namei old s) (\<lambda>ipo s. case ipo of None \<Rightarrow> end_op_ret (- 1) s | Some ip \<Rightarrow>
     bindR (ilock (Some ip) s) (\<lambda>_ s.
       if i_type (inode_at s ip) = T_DIR
       then bindR (iunlockput ip s) (\<lambda>_ s. end_op_ret (- 1) s)
       else bindR (iupdate ip (upd_nlink ip 1 s)) (\<lambda>_ s.
         bindR (iunlock (Some ip) s) (\<lambda>_ s.
         bindR (nameiparent new s) (\<lambda>dpo s. case dpo of None \<Rightarrow> link_bad ip s | Some (dp, name) \<Rightarrow>
         bindR (ilock (Some dp) s) (\<lambda>_ s.
         bindR (if i_dev (inode_at s dp) \<noteq> i_dev (inode_at s ip) then Ok (- 1) s
                else dirlink dp name (i_inum (inode_at s ip)) s) (\<lambda>r s.
         bindR (iunlockput dp s) (\<lambda>_ s.
           if r < 0 then link_bad ip s
           else bindR (iput ip s) (\<lambda>_ s. end_op_ret 0 s))))))))))))"

fun isdirempty_loop :: "nat \<Rightarrow> u32 list \<Rightarrow> 'z fstate_scheme \<Rightarrow> (bool, 'z fstate_scheme) res" where
  "isdirempty_loop dp [] s = Ok True s"
| "isdirempty_loop dp (off # offs) s =
     bindR (readi dp off sizeof_dirent s) (\<lambda>(r, d) s.
       if r \<noteq> 16 then Panic ''isdirempty: readi''
       else if de_inum (dirent_of d) \<noteq> 0 then Ok False s
       else isdirempty_loop dp offs s)"

definition isdirempty :: "nat \<Rightarrow> 'z fstate_scheme \<Rightarrow> (bool, 'z fstate_scheme) res" where
  "isdirempty dp s = isdirempty_loop dp (drop 2 (dirent_offs (i_size (inode_at s dp)))) s"

definition unlink_bad :: "nat \<Rightarrow> 'z fstate_scheme \<Rightarrow> (int, 'z fstate_scheme) res" where
  "unlink_bad dp s = bindR (iunlockput dp s) (\<lambda>_ s. end_op_ret (- 1) s)"

text \<open>The part of \<open>sys_unlink\<close> once the entry has been found and its inode locked.\<close>

definition unlink_entry :: "nat \<Rightarrow> nat \<Rightarrow> u32 \<Rightarrow> 'z fstate_scheme \<Rightarrow> (int, 'z fstate_scheme) res" where
  "unlink_entry dp ip off s =
     bindR (if i_type (inode_at s ip) = T_DIR then isdirempty ip s else Ok True s) (\<lambda>ok s.
       if \<not> ok then bindR (iunlockput ip s) (\<lambda>_ s. unlink_bad dp s)
       else bindR (writei dp (replicate 16 0) off s) (\<lambda>r s.
         if r \<noteq> 16 then Panic ''unlink: writei''
         else bindR (if i_type (inode_at s ip) = T_DIR then iupdate dp (upd_nlink dp (- 1) s) else Ok () s) (\<lambda>_ s.
           bindR (iunlockput dp s) (\<lambda>_ s.
           bindR (iupdate ip (upd_nlink ip (- 1) s)) (\<lambda>_ s.
           bindR (iunlockput ip s) (\<lambda>_ s. end_op_ret 0 s))))))"

definition DOT :: byte where "DOT = 0x2E"

definition sys_unlink :: "'z fstate_scheme \<Rightarrow> (int, 'z fstate_scheme) res" where
  "sys_unlink s =
     bindR (argstr 0 s) (\<lambda>po s. case po of None \<Rightarrow> Ok (- 1) s | Some path \<Rightarrow>
     bindR (begin_op s) (\<lambda>_ s.
     bindR (nameiparent path s) (\<lambda>dpo s. case dpo of None \<Rightarrow> end_op_ret (- 1) s | Some (dp, name) \<Rightarrow>
     bindR (ilock (Some dp) s) (\<lambda>_ s.
       if namecmp name [DOT] = 0 \<or> namecmp name [DOT, DOT] = 0 then unlink_bad dp s
       else bindR (dirlookup dp name s) (\<lambda>ipo s. case ipo of None \<Rightarrow> unlink_bad dp s | Some (ip, off) \<Rightarrow>
         bindR (ilock (Some ip) s) (\<lambda>_ s.
           if i_nlink (inode_at s ip) < 1 then Panic ''unlink: nlink < 1''
           else unlink_entry dp ip off s))))))"

definition create_dots :: "nat \<Rightarrow> nat \<Rightarrow> 'z fstate_scheme \<Rightarrow> (unit, 'z fstate_scheme) res" where
  "create_dots dp ip s =
     bindR (iupdate dp (upd_nlink dp 1 s)) (\<lambda>_ s.
     bindR (dirlink ip [DOT] (i_inum (inode_at s ip)) s) (\<lambda>r s.
       if r < 0 then Panic ''create dots''
       else bindR (dirlink ip [DOT, DOT] (i_inum (inode_at s dp)) s) (\<lambda>r s.
         if r < 0 then Panic ''create dots'' else Ok () s)))"

definition create :: "byte list \<Rightarrow> int \<Rightarrow> int \<Rightarrow> int \<Rightarrow> 'z fstate_scheme \<Rightarrow> (nat option, 'z fstate_scheme) res" where
  "create path ty mj mn s =
     bindR (nameiparent path s) (\<lambda>dpo s. case dpo of None \<Rightarrow> Ok None s | Some (dp, name) \<Rightarrow>
     bindR (ilock (Some dp) s) (\<lambda>_ s.
     bindR (dirlookup dp name s) (\<lambda>found s.
       case found of
         Some (ip, off) \<Rightarrow>
           bindR (iunlockput dp s) (\<lambda>_ s.
           bindR (ilock (Some ip) s) (\<lambda>_ s.
             if ty = T_FILE \<and> i_type (inode_at s ip) = T_FILE then Ok (Some ip) s
             else bindR (iunlockput ip s) (\<lambda>_ s. Ok None s)))
       | None \<Rightarrow>
           bindR (ialloc (i_dev (inode_at s dp)) ty s) (\<lambda>ip s.
           bindR (ilock (Some ip) s) (\<lambda>_ s.
             let s = upd_inode ip (\<lambda>i. i\<lparr>i_major := mj, i_minor := mn, i_nlink := 1\<rparr>) s in
           bindR (iupdate ip s) (\<lambda>_ s.
           bindR (if ty = T_DIR then create_dots dp ip s else Ok () s) (\<lambda>_ s.
           bindR (dirlink dp name (i_inum (inode_at s ip)) s) (\<lambda>r s.
             if r < 0 then Panic ''create: dirlink''
             else bindR (iunlockput dp s) (\<lambda>_ s. Ok (Some ip) s)))))))))"

definition O_RDONLY :: u32 where "O_RDONLY = 0x000"
definition O_WRONLY :: u32 where "O_WRONLY = 0x001"
definition O_RDWR :: u32 where "O_RDWR = 0x002"
definition O_CREATE :: u32 where "O_CREATE = 0x200"

definition open_inode :: "byte list \<Rightarrow> u32 \<Rightarrow> 'z fstate_scheme \<Rightarrow> (nat option, 'z fstate_scheme) res" where
  "open_inode path omode s =
     (if omode AND O_CREATE \<noteq> 0 then create path T_FILE 0 0 s
      else bindR (namei path s) (\<lambda>ipo s. case ipo of None \<Rightarrow> Ok None s | Some ip \<Rightarrow>
        bindR (ilock (Some ip) s) (\<lambda>_ s.
          if i_type (inode_at s ip) = T_DIR \<and> omode \<noteq> O_RDONLY
          then bindR (iunlockput ip s) (\<lambda>_ s. Ok None s)
          else Ok (Some ip) s)))"

definition open_fail :: "nat option \<Rightarrow> nat \<Rightarrow> 'z xstate_scheme \<Rightarrow> (int, 'z xstate_scheme) res" where
  "open_fail fo ip s =
     bindR (close_opt fo s) (\<lambda>_ s.
     bindR (iunlockput ip s) (\<lambda>_ s. end_op_ret (- 1) s))"

definition sys_open :: "'z xstate_scheme \<Rightarrow> (int, 'z xstate_scheme) res" where
  "sys_open s =
     bindR (argstr 0 s) (\<lambda>po s. case po of None \<Rightarrow> Ok (- 1) s | Some path \<Rightarrow>
     bindR (argint 1 s) (\<lambda>mo s. case mo of None \<Rightarrow> Ok (- 1) s | Some m \<Rightarrow>
       let omode = (of_int m :: u32) in
     bindR (begin_op s) (\<lambda>_ s.
     bindR (open_inode path omode s) (\<lambda>ipo s. case ipo of None \<Rightarrow> end_op_ret (- 1) s | Some ip \<Rightarrow>
     bindR (filealloc s) (\<lambda>fo s. case fo of None \<Rightarrow> open_fail None ip s | Some f \<Rightarrow>
     bindR (fdalloc f s) (\<lambda>fdo s. case fdo of None \<Rightarrow> open_fail (Some f) ip s | Some fd \<Rightarrow>
     bindR (iunlock (Some ip) s) (\<lambda>_ s.
     bindR (end_op s) (\<lambda>_ s.
       Ok (int fd) (upd_file f (\<lambda>x. x\<lparr>f_type := FD_INODE, f_ip := ip, f_off := 0,
         f_readable := (omode AND O_WRONLY = 0),
         f_writable := (omode AND O_WRONLY \<noteq> 0 \<or> omode AND O_RDWR \<noteq> 0)\<rparr>) s)))))))))"

definition made :: "nat option \<Rightarrow> 'z fstate_scheme \<Rightarrow> (int, 'z fstate_scheme) res" where
  "made ipo s = (case ipo of None \<Rightarrow> end_op_ret (- 1) s
     | Some ip \<Rightarrow> bindR (iunlockput ip s) (\<lambda>_ s. end_op_ret 0 s))"

definition sys_mkdir :: "'z fstate_scheme \<Rightarrow> (int, 'z fstate_scheme) res" where
  "sys_mkdir s =
     bindR (begin_op s) (\<lambda>_ s.
     bindR (argstr 0 s) (\<lambda>po s. case po of None \<Rightarrow> end_op_ret (- 1) s | Some path \<Rightarrow>
     bindR (create path T_DIR 0 0 s) made))"

definition s16 :: "int \<Rightarrow> int" where
  "s16 x = sint (of_int x :: u16)"

definition sys_mknod :: "'z fstate_scheme \<Rightarrow> (int, 'z fstate_scheme) res" where
  "sys_mknod s =
     bindR (begin_op s) (\<lambda>_ s.
     bindR (argstr 0 s) (\<lambda>po s. case po of None \<Rightarrow> end_op_ret (- 1) s | Some path \<Rightarrow>
     bindR (argint 1 s) (\<lambda>mj s. case mj of None \<Rightarrow> end_op_ret (- 1) s | Some major \<Rightarrow>
     bindR (argint 2 s) (\<lambda>mn s. case mn of None \<Rightarrow> end_op_ret (- 1) s | Some minor \<Rightarrow>
     bindR (create path T_DEV (s16 major) (s16 minor) s) made))))"

definition sys_chdir :: "'z fstate_scheme \<Rightarrow> (int, 'z fstate_scheme) res" where
  "sys_chdir s =
     bindR (cur_proc s) (\<lambda>p s.
     bindR (begin_op s) (\<lambda>_ s.
     bindR (argstr 0 s) (\<lambda>po s. case po of None \<Rightarrow> end_op_ret (- 1) s | Some path \<Rightarrow>
     bindR (namei path s) (\<lambda>ipo s. case ipo of None \<Rightarrow> end_op_ret (- 1) s | Some ip \<Rightarrow>
     bindR (ilock (Some ip) s) (\<lambda>_ s.
       if i_type (inode_at s ip) \<noteq> T_DIR then bindR (iunlockput ip s) (\<lambda>_ s. end_op_ret (- 1) s)
       else bindR (iunlock (Some ip) s) (\<lambda>_ s.
         bindR (case p_cwd (proc_at s p) of None \<Rightarrow> Panic ''null cwd'' | Some c \<Rightarrow> iput c s) (\<lambda>_ s.
         bindR (end_op s) (\<lambda>_ s. Ok 0 (upd_proc p (\<lambda>q. q\<lparr>p_cwd := Some ip\<rparr>) s))))))))) "

fun exec_argv :: "nat \<Rightarrow> addr \<Rightarrow> 'z pstate_scheme \<Rightarrow> (byte list list option, 'z pstate_scheme) res" where
  "exec_argv 0 ua s = Ok None s"
| "exec_argv (Suc k) ua s =
     bindR (fetchint ua s) (\<lambda>uo s. case uo of None \<Rightarrow> Ok None s | Some uarg \<Rightarrow>
       if uarg = 0 then Ok (Some []) s
       else bindR (fetchstr uarg s) (\<lambda>ao s. case ao of None \<Rightarrow> Ok None s | Some a \<Rightarrow>
         bindR (exec_argv k (ua + 4) s) (\<lambda>r s. Ok (map_option (Cons a) r) s)))"

definition sys_exec :: "addr \<Rightarrow> 'z fstate_scheme \<Rightarrow> (int, 'z fstate_scheme) res" where
  "sys_exec data s =
     bindR (argstr 0 s) (\<lambda>po s. case po of None \<Rightarrow> Ok (- 1) s | Some path \<Rightarrow>
     bindR (argint 1 s) (\<lambda>uo s. case uo of None \<Rightarrow> Ok (- 1) s | Some uargv \<Rightarrow>
     bindR (exec_argv MAXARG (of_int uargv) s) (\<lambda>ao s. case ao of None \<Rightarrow> Ok (- 1) s
       | Some argv \<Rightarrow> exec data path argv s)))"

definition clear_fd :: "nat option \<Rightarrow> 'z pstate_scheme \<Rightarrow> (unit, 'z pstate_scheme) res" where
  "clear_fd fdo s = (case fdo of None \<Rightarrow> Ok () s
     | Some fd \<Rightarrow> bindR (cur_proc s) (\<lambda>p s. Ok () (upd_proc p (\<lambda>q. q\<lparr>p_ofile := (p_ofile q)[fd := None]\<rparr>) s)))"

definition pipe_fail :: "nat option \<Rightarrow> nat \<Rightarrow> nat \<Rightarrow> 'z xstate_scheme \<Rightarrow> (int, 'z xstate_scheme) res" where
  "pipe_fail fdo rfile wfile s =
     bindR (clear_fd fdo s) (\<lambda>_ s.
     bindR (fileclose rfile s) (\<lambda>_ s.
     bindR (fileclose wfile s) (\<lambda>_ s. Ok (- 1) s)))"

definition sys_pipe :: "'z xstate_scheme \<Rightarrow> (int, 'z xstate_scheme) res" where
  "sys_pipe s =
     bindR (argptr 0 8 s) (\<lambda>po s. case po of None \<Rightarrow> Ok (- 1) s | Some fd \<Rightarrow>
     bindR (pipealloc s) (\<lambda>r s. case r of None \<Rightarrow> Ok (- 1) s | Some (rfile, wfile) \<Rightarrow>
     bindR (fdalloc rfile s) (\<lambda>f0 s. case f0 of None \<Rightarrow> pipe_fail None rfile wfile s | Some fd0 \<Rightarrow>
     bindR (fdalloc wfile s) (\<lambda>f1 s. case f1 of None \<Rightarrow> pipe_fail (Some fd0) rfile wfile s | Some fd1 \<Rightarrow>
     bindR (ustore_n fd (word_bytes (of_nat fd0)) s) (\<lambda>_ s.
     bindR (ustore_n (fd + 4) (word_bytes (of_nat fd1)) s) (\<lambda>_ s. Ok 0 s))))))"

end
