(* ===== verification/Shell.thy ===== *)
theory Shell
  imports Sysfile
begin

text \<open>
  The shell (\<^verbatim>\<open>sh.c\<close>).  The parser works on positions in the input line: \<open>b\<close> holds the characters before
  the terminating NUL, which stands at position \<open>length b\<close>, so the pointer \<^verbatim>\<open>es\<close> is \<open>length b\<close>.  A word is a
  pair of positions (\<^verbatim>\<open>q\<close>, \<^verbatim>\<open>eq\<close>) until \<open>nulterminate\<close> has put NULs behind the words.  A panic ends the parse with the
  text it prints.  The functions that call each other take a bound on the depth of calls; what is out of it is \<open>Deep\<close>.
\<close>

section \<open>Commands\<close>

type_synonym word_at = "nat \<times> nat"

datatype cmd =
    EXEC "word_at list"
  | REDIR cmd word_at u32 int
  | PIPE cmd cmd
  | LIST cmd cmd
  | BACK cmd

definition MAXARGS :: nat where "MAXARGS = 10"

section \<open>Tokens\<close>

definition whitespace :: string where
  "whitespace = [CHR 0x20, CHR 0x09, CHR 0x0D, CHR 0x0A, CHR 0x0B]"

definition symbols :: string where
  "symbols = ''<|>&;()''"

definition char_at :: "string \<Rightarrow> nat \<Rightarrow> char" where
  "char_at b s = (if s < length b then b ! s else CHR 0x00)"

function skip_while :: "(char \<Rightarrow> bool) \<Rightarrow> string \<Rightarrow> nat \<Rightarrow> nat" where
  "skip_while P b s = (if s < length b \<and> P (b ! s) then skip_while P b (Suc s) else s)"
  by pat_completeness auto
termination
  by (relation "measure (\<lambda>(P, b, s). length b - s)") auto

declare skip_while.simps [simp del]

abbreviation skip_ws :: "string \<Rightarrow> nat \<Rightarrow> nat" where
  "skip_ws \<equiv> skip_while (\<lambda>c. c \<in> set whitespace)"

abbreviation wordc :: "char \<Rightarrow> bool" where
  "wordc c \<equiv> c \<notin> set whitespace \<and> c \<notin> set symbols"

definition gettoken :: "string \<Rightarrow> nat \<Rightarrow> char \<times> word_at \<times> nat" where
  "gettoken b s =
     (let q = skip_ws b s; c = char_at b q;
          (ret, eq) =
            (if c = CHR 0x00 then (c, q)
             else if c \<in> set ''|();&<'' then (c, Suc q)
             else if c = CHR ''>''
             then (if char_at b (Suc q) = CHR ''>'' then (CHR ''+'', Suc (Suc q)) else (c, Suc q))
             else (CHR ''a'', skip_while wordc b q))
      in (ret, (q, eq), skip_ws b eq))"

definition peek :: "string \<Rightarrow> nat \<Rightarrow> string \<Rightarrow> bool \<times> nat" where
  "peek b s toks =
     (let s = skip_ws b s in (char_at b s \<noteq> CHR 0x00 \<and> char_at b s \<in> set toks, s))"

lemma skip_while_bounds: "s \<le> skip_while P b s" "s \<le> length b \<Longrightarrow> skip_while P b s \<le> length b"
proof -
  show "s \<le> skip_while P b s"
    by (induction P b s rule: skip_while.induct) (subst skip_while.simps, auto)
  show "s \<le> length b \<Longrightarrow> skip_while P b s \<le> length b"
    by (induction P b s rule: skip_while.induct) (subst skip_while.simps, auto)
qed

lemma skip_while_stop: "skip_while P b s < length b \<Longrightarrow> \<not> P (b ! skip_while P b s)"
  by (induction P b s rule: skip_while.induct) (subst (asm) skip_while.simps, subst skip_while.simps, auto)

lemma skip_while_all: "s \<le> k \<Longrightarrow> k < skip_while P b s \<Longrightarrow> P (b ! k)"
proof (induction P b s rule: skip_while.induct)
  case (1 P b s)
  show ?case
  proof (cases "s < length b \<and> P (b ! s)")
    case True
    then have "k < skip_while P b (Suc s)" using "1.prems"(2) by (subst (asm) skip_while.simps) simp
    then show ?thesis using "1.IH" [OF True] "1.prems"(1) True by (cases "k = s") auto
  next
    case False
    then have "skip_while P b s = s" by (subst skip_while.simps) (simp only: if_False)
    then show ?thesis using "1.prems" by simp
  qed
qed

lemma skip_while_step: "s < length b \<Longrightarrow> P (b ! s) \<Longrightarrow> s < skip_while P b s"
  using skip_while_bounds(1) [of "Suc s" P b] by (subst skip_while.simps) simp

text \<open>What a call of \<open>gettoken\<close> consumes.\<close>

lemma gettoken_cases:
  assumes "gettoken b s = (tok, (q, eq), s')"
  shows "q = skip_ws b s \<and> s' = skip_ws b eq \<and>
    (char_at b q = CHR 0x00 \<and> tok = CHR 0x00 \<and> eq = q \<or>
     char_at b q \<noteq> CHR 0x00 \<and> tok \<noteq> CHR ''a'' \<and> tok \<noteq> CHR 0x00 \<and>
       (eq = Suc q \<or> eq = Suc (Suc q) \<and> char_at b (Suc q) = CHR ''>'') \<or>
     char_at b q \<noteq> CHR 0x00 \<and> tok = CHR ''a'' \<and> eq = skip_while wordc b q \<and> char_at b q \<notin> set symbols)"
proof -
  have q: "q = skip_ws b s" and s': "s' = skip_ws b eq" using assms by (auto simp: gettoken_def Let_def split: if_splits)
  define c where "c = char_at b q"
  define e where "e = (if c = CHR 0x00 then (c, q) else if c \<in> set ''|();&<'' then (c, Suc q)
    else if c = CHR ''>'' then (if char_at b (Suc q) = CHR ''>'' then (CHR ''+'', Suc (Suc q)) else (c, Suc q))
    else (CHR ''a'', skip_while wordc b q))"
  have e: "e = (tok, eq)" using assms unfolding gettoken_def Let_def q [symmetric] c_def [symmetric] e_def [symmetric]
    by (simp split: prod.splits)
  have "c = CHR 0x00 \<and> tok = CHR 0x00 \<and> eq = q \<or> c \<noteq> CHR 0x00 \<and> tok \<noteq> CHR ''a'' \<and> tok \<noteq> CHR 0x00 \<and>
        (eq = Suc q \<or> eq = Suc (Suc q) \<and> char_at b (Suc q) = CHR ''>'') \<or>
      c \<noteq> CHR 0x00 \<and> tok = CHR ''a'' \<and> eq = skip_while wordc b q \<and> c \<notin> set symbols"
    using e unfolding e_def symbols_def by (auto split: if_splits)
  then show ?thesis using q s' unfolding c_def by simp
qed

lemma gettoken_facts:
  assumes "gettoken b s = (tok, (q, eq), s')"
  shows "s \<le> q" "q \<le> eq" "eq \<le> s'" "s \<le> length b \<Longrightarrow> s' \<le> length b" "tok \<noteq> CHR 0x00 \<Longrightarrow> q < eq \<and> q < length b"
    "tok = CHR ''a'' \<Longrightarrow> (\<forall>k. q \<le> k \<and> k < eq \<longrightarrow> wordc (b ! k)) \<and> (eq < length b \<longrightarrow> \<not> wordc (b ! eq)) \<and> eq \<le> length b"
proof -
  note G = gettoken_cases [OF assms, THEN conjunct2, THEN conjunct2]
  have q: "q = skip_ws b s" and s': "s' = skip_ws b eq" using gettoken_cases [OF assms] by blast+
  show "s \<le> q" unfolding q by (rule skip_while_bounds)
  show "eq \<le> s'" unfolding s' by (rule skip_while_bounds)
  have c: "char_at b q \<noteq> CHR 0x00 \<Longrightarrow> q < length b" by (simp add: char_at_def split: if_splits)
  have ws: "q < length b \<Longrightarrow> b ! q \<notin> set whitespace" unfolding q by (rule skip_while_stop)
  have wq: "q < skip_while wordc b q" if "char_at b q \<noteq> CHR 0x00" "char_at b q \<notin> set symbols"
  proof -
    have ql: "q < length b" by (rule c [OF that(1)])
    then have "b ! q \<notin> set symbols" using that(2) by (simp add: char_at_def)
    then show ?thesis using skip_while_step [OF ql, of wordc] ws [OF ql] by blast
  qed
  show "q \<le> eq" using G
  proof (elim disjE conjE)
    assume "char_at b q \<noteq> CHR 0x00" "char_at b q \<notin> set symbols" "eq = skip_while wordc b q"
    then show ?thesis using wq by simp
  qed simp_all
  show "tok \<noteq> CHR 0x00 \<Longrightarrow> q < eq \<and> q < length b" using G
  proof (elim disjE conjE)
    assume "char_at b q \<noteq> CHR 0x00" "char_at b q \<notin> set symbols" "eq = skip_while wordc b q"
    then show ?thesis using wq c by simp
  qed (use c in simp_all)
  have le: "q \<le> length b \<Longrightarrow> eq \<le> length b"
    using G
  proof (elim disjE conjE)
    assume "char_at b q \<noteq> CHR 0x00" "eq = Suc (Suc q)" "char_at b (Suc q) = CHR ''>''"
    then show ?thesis by (simp add: char_at_def split: if_splits)
  qed (use c skip_while_bounds(2) [of q b] in auto)
  then show "s \<le> length b \<Longrightarrow> s' \<le> length b"
    unfolding s' by (intro skip_while_bounds(2)) (simp add: q skip_while_bounds(2))
  show "tok = CHR ''a'' \<Longrightarrow> (\<forall>k. q \<le> k \<and> k < eq \<longrightarrow> wordc (b ! k)) \<and> (eq < length b \<longrightarrow> \<not> wordc (b ! eq)) \<and> eq \<le> length b"
  proof -
    assume "tok = CHR ''a''"
    then have "eq = skip_while wordc b q" "q < length b" using G c by auto
    then show ?thesis using skip_while_all [of q _ wordc b] skip_while_stop [of wordc b q] le by simp
  qed
qed

lemma peek_facts:
  assumes "peek b s toks = (hit, s')"
  shows "s' = skip_ws b s" "s \<le> s'" "s \<le> length b \<Longrightarrow> s' \<le> length b"
    "hit \<Longrightarrow> s' < length b \<and> b ! s' \<in> set toks" "s' < length b \<Longrightarrow> b ! s' \<notin> set whitespace"
proof -
  have e: "s' = skip_ws b s" "hit = (char_at b s' \<noteq> CHR 0x00 \<and> char_at b s' \<in> set toks)"
    using assms by (auto simp: peek_def Let_def)
  show "s' = skip_ws b s" by (rule e)
  show "s \<le> s'" "s \<le> length b \<Longrightarrow> s' \<le> length b" unfolding e(1) by (rule skip_while_bounds, erule skip_while_bounds)
  show "hit \<Longrightarrow> s' < length b \<and> b ! s' \<in> set toks" using e(2) by (simp add: char_at_def split: if_splits)
  show "s' < length b \<Longrightarrow> b ! s' \<notin> set whitespace" unfolding e(1) by (rule skip_while_stop)
qed

lemma gettoken_after_peek:
  assumes "peek b s toks = (hit, s')" "hit \<or> gettoken b s' = (tok, w, t) \<and> tok \<noteq> CHR 0x00" "gettoken b s' = (tok, w, t)" "CHR 0x00 \<notin> set toks"
  shows "s \<le> s'" "s' < t" "t \<le> length b"
proof -
  obtain q e where w: "w = (q, e)" by (cases w)
  note P = peek_facts [OF assms(1)] and G = gettoken_facts [OF assms(3) [unfolded w]]
  have "tok \<noteq> CHR 0x00"
  proof (cases hit)
    case True
    then have l: "s' < length b" "b ! s' \<in> set toks" using P(4) by simp_all
    have "skip_ws b s' = s'" by (subst skip_while.simps) (use P(5) l(1) in simp)
    then show ?thesis
      using gettoken_cases [OF assms(3) [unfolded w]] l assms(4) by (auto simp: char_at_def)
  qed (use assms(2) in simp)
  then have "q < e" "q < length b" using G(5) by simp_all
  then show "s \<le> s'" "s' < t" "t \<le> length b" using P(2) G(1-4) by linarith+
qed

lemma redir_step:
  assumes "(hit, s1) = peek b s ''<>''" hit "(tok, w, s2) = gettoken b s1" "(tok2, w2, s3) = gettoken b s2"
  shows "length b - s3 < length b - s"
proof -
  have "CHR 0x00 \<notin> set ''<>''" by simp
  then have a: "s \<le> s1" "s1 < s2" "s2 \<le> length b"
    by (rule gettoken_after_peek [OF assms(1) [symmetric] disjI1 [OF assms(2)] assms(3) [symmetric]])+
  obtain q e where w: "w2 = (q, e)" by (cases w2)
  have "s2 \<le> s3" using gettoken_facts(1-3) [OF assms(4) [symmetric, unfolded w]] by linarith
  then show ?thesis using a by linarith
qed

section \<open>The parser\<close>

type_synonym redir = "word_at \<times> u32 \<times> int"

definition redir_of :: "char \<Rightarrow> word_at \<Rightarrow> redir" where
  "redir_of tok w = (if tok = CHR ''<'' then (w, O_RDONLY, 0) else (w, O_WRONLY OR O_CREATE, 1))"

text \<open>\<open>parseredirs\<close> wraps its argument in one \<open>REDIR\<close> per redirection; it returns them in their order.\<close>

function parseredirs :: "string \<Rightarrow> nat \<Rightarrow> string + (redir list \<times> nat)" where
  "parseredirs b s =
     (let (hit, s) = peek b s ''<>'' in
      if \<not> hit then Inr ([], s)
      else let (tok, _, s) = gettoken b s; (tok2, w, s) = gettoken b s in
        if tok2 \<noteq> CHR ''a'' then Inl ''missing file for redirection''
        else case parseredirs b s of Inl e \<Rightarrow> Inl e | Inr (rs, s) \<Rightarrow> Inr (redir_of tok w # rs, s))"
  by pat_completeness auto
termination
  by (relation "measure (\<lambda>(b, s). length b - s)", simp, clarify, drule (3) redir_step) simp

declare parseredirs.simps [simp del]

lemma parseredirs_mono: "parseredirs b s = Inr (rs, s') \<Longrightarrow> s \<le> s' \<and> (s \<le> length b \<longrightarrow> s' \<le> length b)"
proof (induction b s arbitrary: rs s' rule: parseredirs.induct)
  case (1 b s)
  obtain hit s1 where p: "peek b s ''<>'' = (hit, s1)" by (cases "peek b s ''<>''")
  note P = peek_facts [OF p]
  show ?case
  proof (cases hit)
    case False
    then show ?thesis using "1.prems" P p by (subst (asm) parseredirs.simps) auto
  next
    case True
    obtain tok w s2 where g: "gettoken b s1 = (tok, w, s2)" by (cases "gettoken b s1") auto
    obtain tok2 q e s3 where g2: "gettoken b s2 = (tok2, (q, e), s3)" by (metis prod.exhaust)
    have ne: "CHR 0x00 \<notin> set ''<>''" by simp
    have a: "s \<le> s1" "s1 < s2" "s2 \<le> length b" by (rule gettoken_after_peek [OF p disjI1 [OF True] g ne])+
    have c: "s2 \<le> s3" "s3 \<le> length b" using gettoken_facts(1-4) [OF g2] a(3) by linarith+
    have "tok2 = CHR ''a''" using "1.prems" p True g g2 by (subst (asm) parseredirs.simps) (auto split: if_splits)
    moreover from this obtain rs1 where "parseredirs b s3 = Inr (rs1, s')"
      using "1.prems" p True g g2 by (subst (asm) parseredirs.simps) (auto split: sum.splits)
    ultimately have "s3 \<le> s' \<and> (s3 \<le> length b \<longrightarrow> s' \<le> length b)"
      using "1.IH" [OF p [symmetric] refl _ g [symmetric] refl refl g2 [symmetric] refl refl] True by auto
    then show ?thesis using a c by auto
  qed
qed

lemma word_progress:
  assumes "(hit, s1) = peek b s toks" "(tok, w, s2) = gettoken b s1" "tok \<noteq> CHR 0x00"
  shows "s \<le> s1" "s1 < s2" "s < length b"
proof -
  obtain q e where w: "w = (q, e)" by (cases w)
  note G = gettoken_facts [OF assms(2) [symmetric, unfolded w]]
  show "s \<le> s1" by (rule peek_facts(2) [OF assms(1) [symmetric]])
  then show "s1 < s2" "s < length b" using G(1-3) G(5) [OF assms(3)] by linarith+
qed

lemma exec_step:
  assumes "(hit, s1) = peek b s toks" "(CHR ''a'', w, s2) = gettoken b s1" "parseredirs b s2 = Inr (rs, s3)"
  shows "length b - s3 < length b - s"
  using word_progress [OF assms(1,2)] parseredirs_mono [OF assms(3)] by simp linarith

text \<open>The loop of \<open>parseexec\<close>: words and redirections in any order.\<close>

function parse_args :: "string \<Rightarrow> nat \<Rightarrow> word_at list \<Rightarrow> redir list \<Rightarrow> string + (word_at list \<times> redir list \<times> nat)" where
  "parse_args b s argv rs =
     (let (hit, s) = peek b s ''|)&;'' in
      if hit then Inr (argv, rs, s)
      else let (tok, w, s) = gettoken b s in
        if tok = CHR 0x00 then Inr (argv, rs, s)
        else if tok \<noteq> CHR ''a'' then Inl ''syntax''
        else let argv = argv @ [w] in
          if length argv \<ge> MAXARGS then Inl ''too many args''
          else case parseredirs b s of Inl e \<Rightarrow> Inl e | Inr (rs', s) \<Rightarrow> parse_args b s argv (rs @ rs'))"
  by pat_completeness auto
termination
  by (relation "measure (\<lambda>(b, s, argv, rs). length b - s)", simp, clarify, drule (2) exec_step) simp

declare parse_args.simps [simp del]

lemma sym_step:
  assumes "(hit, s1) = peek b s toks" hit "(tok, w, s2) = gettoken b s1" "CHR 0x00 \<notin> set toks"
  shows "s \<le> s1" "s1 < s2" "s2 \<le> length b"
  by (rule gettoken_after_peek [OF assms(1) [symmetric] disjI1 [OF assms(2)] assms(3) [symmetric] assms(4)])+

lemma back_step:
  assumes "(hit, s1) = peek b s ''&''" hit "(tok, w, s2) = gettoken b s1"
  shows "length b - s2 < length b - s"
proof -
  have "CHR 0x00 \<notin> set ''&''" by simp
  then show ?thesis using sym_step [OF assms] by simp
qed

text \<open>The loop of \<open>parseline\<close> over \<^verbatim>\<open>&\<close>.\<close>

function back_loop :: "string \<Rightarrow> cmd \<Rightarrow> nat \<Rightarrow> cmd \<times> nat" where
  "back_loop b c s =
     (let (hit, s) = peek b s ''&'' in
      if hit then let (tok, w, s) = gettoken b s in back_loop b (BACK c) s else (c, s))"
  by pat_completeness auto
termination
  by (relation "measure (\<lambda>(b, c, s). length b - s)", simp, clarify, drule (2) back_step) simp

declare back_loop.simps [simp del]

datatype parse = Parsed cmd nat | Syntax string | Deep

definition wrap :: "cmd \<Rightarrow> redir list \<Rightarrow> cmd" where
  "wrap c rs = foldl (\<lambda>c (w, m, fd). REDIR c w m fd) c rs"

fun parseline :: "nat \<Rightarrow> string \<Rightarrow> nat \<Rightarrow> parse"
  and parsepipe :: "nat \<Rightarrow> string \<Rightarrow> nat \<Rightarrow> parse"
  and parseexec :: "nat \<Rightarrow> string \<Rightarrow> nat \<Rightarrow> parse"
  and parseblock :: "nat \<Rightarrow> string \<Rightarrow> nat \<Rightarrow> parse" where
  "parseline 0 b s = Deep"
| "parseline (Suc f) b s =
     (case parsepipe f b s of
        Parsed c s \<Rightarrow>
          let (c, s) = back_loop b c s; (hit, s) = peek b s '';'' in
          if hit
          then (let (tok, w, s) = gettoken b s in
                case parseline f b s of Parsed d s \<Rightarrow> Parsed (LIST c d) s | r \<Rightarrow> r)
          else Parsed c s
      | r \<Rightarrow> r)"
| "parsepipe 0 b s = Deep"
| "parsepipe (Suc f) b s =
     (case parseexec f b s of
        Parsed c s \<Rightarrow>
          let (hit, s) = peek b s ''|'' in
          if hit
          then (let (tok, w, s) = gettoken b s in
                case parsepipe f b s of Parsed d s \<Rightarrow> Parsed (PIPE c d) s | r \<Rightarrow> r)
          else Parsed c s
      | r \<Rightarrow> r)"
| "parseexec 0 b s = Deep"
| "parseexec (Suc f) b s =
     (let (hit, s) = peek b s ''('' in
      if hit then parseblock f b s
      else case parseredirs b s of Inl e \<Rightarrow> Syntax e
        | Inr (rs, s) \<Rightarrow>
          (case parse_args b s [] rs of Inl e \<Rightarrow> Syntax e
           | Inr (argv, rs, s) \<Rightarrow> Parsed (wrap (EXEC argv) rs) s))"
| "parseblock 0 b s = Deep"
| "parseblock (Suc f) b s =
     (let (hit, s) = peek b s ''('' in
      if \<not> hit then Syntax ''parseblock''
      else let (tok, w, s) = gettoken b s in
        case parseline f b s of
          Parsed c s \<Rightarrow>
            let (hit, s) = peek b s '')'' in
            if \<not> hit then Syntax ''syntax - missing )''
            else let (tok, w, s) = gettoken b s in
              (case parseredirs b s of Inl e \<Rightarrow> Syntax e | Inr (rs, s) \<Rightarrow> Parsed (wrap c rs) s)
        | r \<Rightarrow> r)"

section \<open>NUL-terminating the words\<close>

text \<open>The line as it is in memory: the characters and the terminating NUL.\<close>

fun nulterminate :: "cmd \<Rightarrow> string \<Rightarrow> string" where
  "nulterminate (EXEC argv) m = foldl (\<lambda>m (q, eq). m[eq := CHR 0x00]) m argv"
| "nulterminate (REDIR c w mode fd) m = (nulterminate c m)[snd w := CHR 0x00]"
| "nulterminate (PIPE l r) m = nulterminate r (nulterminate l m)"
| "nulterminate (LIST l r) m = nulterminate r (nulterminate l m)"
| "nulterminate (BACK c) m = nulterminate c m"

definition parsecmd :: "string \<Rightarrow> parse \<times> string" where
  "parsecmd b =
     (case parseline (4 * length b + 4) b 0 of
        Parsed c s \<Rightarrow>
          let s = snd (peek b s []) in
          if s \<noteq> length b then (Syntax (''leftovers: '' @ drop s b @ [CHR 0x0A] @ ''syntax''), b @ [CHR 0x00])
          else (Parsed c s, nulterminate c (b @ [CHR 0x00]))
      | r \<Rightarrow> (r, b @ [CHR 0x00]))"

section \<open>Running commands\<close>

text \<open>
  What the shell asks of the kernel: a program is a tree of system calls, with a branch per result where the
  code looks at it.  \<open>S_fork\<close> has the program of the child, of the parent, and of a failed call.  The string at a
  position of the line ends at the next NUL.
\<close>

datatype sysprog =
    S_exit
  | S_exec string "string list" sysprog
  | S_close int sysprog
  | S_open string u32 "int \<Rightarrow> sysprog"
  | S_dup int sysprog
  | S_pipe "(int \<times> int) option \<Rightarrow> sysprog"
  | S_fork sysprog sysprog sysprog
  | S_wait sysprog
  | S_chdir string "int \<Rightarrow> sysprog"
  | S_print int string sysprog

definition cstr :: "string \<Rightarrow> nat \<Rightarrow> string" where
  "cstr m q = takeWhile (\<lambda>c. c \<noteq> CHR 0x00) (drop q m)"

definition sh_panic :: "string \<Rightarrow> sysprog" where
  "sh_panic msg = S_print 2 (msg @ [CHR 0x0A]) S_exit"

definition fork1 :: "sysprog \<Rightarrow> sysprog \<Rightarrow> sysprog" where
  "fork1 child parent = S_fork child parent (sh_panic ''fork'')"

fun runcmd :: "string \<Rightarrow> cmd \<Rightarrow> sysprog" where
  "runcmd m (EXEC argv) =
     (if argv = [] then S_exit
      else S_exec (cstr m (fst (hd argv))) (map (cstr m \<circ> fst) argv)
        (S_print 2 (''exec '' @ cstr m (fst (hd argv)) @ '' failed'' @ [CHR 0x0A]) S_exit))"
| "runcmd m (REDIR c w mode fd) =
     S_close fd (S_open (cstr m (fst w)) mode (\<lambda>r.
       if r < 0 then S_print 2 (''open '' @ cstr m (fst w) @ '' failed'' @ [CHR 0x0A]) S_exit else runcmd m c))"
| "runcmd m (LIST l r) = fork1 (runcmd m l) (S_wait (runcmd m r))"
| "runcmd m (PIPE l r) =
     S_pipe (\<lambda>p. case p of None \<Rightarrow> sh_panic ''pipe''
       | Some (p0, p1) \<Rightarrow>
         fork1 (S_close 1 (S_dup p1 (S_close p0 (S_close p1 (runcmd m l)))))
           (fork1 (S_close 0 (S_dup p0 (S_close p0 (S_close p1 (runcmd m r)))))
             (S_close p0 (S_close p1 (S_wait (S_wait S_exit))))))"
| "runcmd m (BACK c) = fork1 (runcmd m c) S_exit"

text \<open>The loop of \<open>main\<close> over the lines that \<open>getcmd\<close> reads, each with its newline.\<close>

fun sh_main :: "string list \<Rightarrow> sysprog" where
  "sh_main [] = S_print 2 ''$ '' S_exit"
| "sh_main (b # bs) =
     S_print 2 ''$ ''
       (if take 3 b = ''cd ''
        then let dir = drop 3 (butlast b) in
          S_chdir dir (\<lambda>r. if r < 0 then S_print 2 (''cannot cd '' @ dir @ [CHR 0x0A]) (sh_main bs) else sh_main bs)
        else fork1
          (case parsecmd b of (Parsed c s, m) \<Rightarrow> runcmd m c | (Syntax msg, m) \<Rightarrow> sh_panic msg | (Deep, m) \<Rightarrow> S_exit)
          (S_wait (sh_main bs)))"

section \<open>What the parser builds\<close>

text \<open>A word as \<open>gettoken\<close> delimits it, and the commands the parser may build.\<close>

definition word_ok :: "string \<Rightarrow> word_at \<Rightarrow> bool" where
  "word_ok b w \<longleftrightarrow> fst w < snd w \<and> snd w \<le> length b \<and> (\<forall>k. fst w \<le> k \<and> k < snd w \<longrightarrow> wordc (b ! k)) \<and>
     (snd w < length b \<longrightarrow> \<not> wordc (b ! snd w))"

definition redir_ok :: "u32 \<Rightarrow> int \<Rightarrow> bool" where
  "redir_ok m fd \<longleftrightarrow> m = O_RDONLY \<and> fd = 0 \<or> m = (O_WRONLY OR O_CREATE) \<and> fd = 1"

fun cmd_wf :: "string \<Rightarrow> cmd \<Rightarrow> bool" where
  "cmd_wf b (EXEC argv) = (length argv < MAXARGS \<and> list_all (word_ok b) argv)"
| "cmd_wf b (REDIR c w m fd) = (cmd_wf b c \<and> word_ok b w \<and> redir_ok m fd)"
| "cmd_wf b (PIPE l r) = (cmd_wf b l \<and> cmd_wf b r)"
| "cmd_wf b (LIST l r) = (cmd_wf b l \<and> cmd_wf b r)"
| "cmd_wf b (BACK c) = cmd_wf b c"

lemma gettoken_word: "gettoken b s = (CHR ''a'', w, s') \<Longrightarrow> word_ok b w"
  using gettoken_facts(5,6) [of b s "CHR ''a''" "fst w" "snd w" s'] by (simp add: word_ok_def)

definition redirs_wf :: "string \<Rightarrow> redir list \<Rightarrow> bool" where
  "redirs_wf b rs \<longleftrightarrow> (\<forall>(w, m, fd) \<in> set rs. word_ok b w \<and> redir_ok m fd)"

lemma wrap_wf: "cmd_wf b c \<Longrightarrow> redirs_wf b rs \<Longrightarrow> cmd_wf b (wrap c rs)"
  unfolding wrap_def by (induction rs arbitrary: c) (auto simp: redirs_wf_def)

lemma parseredirs_wf: "parseredirs b s = Inr (rs, s') \<Longrightarrow> redirs_wf b rs"
proof (induction b s arbitrary: rs s' rule: parseredirs.induct)
  case (1 b s)
  obtain hit s1 where p: "peek b s ''<>'' = (hit, s1)" by (cases "peek b s ''<>''")
  obtain tok w0 s2 where g: "gettoken b s1 = (tok, w0, s2)" by (cases "gettoken b s1") auto
  obtain tok2 w s3 where g2: "gettoken b s2 = (tok2, w, s3)" by (cases "gettoken b s2") auto
  show ?case
  proof (cases hit)
    case False
    then show ?thesis using "1.prems" p by (subst (asm) parseredirs.simps) (auto simp: redirs_wf_def)
  next
    case True
    have t: "tok2 = CHR ''a''" using "1.prems" p True g g2 by (subst (asm) parseredirs.simps) (auto split: if_splits)
    then obtain rs1 where r: "parseredirs b s3 = Inr (rs1, s')" "rs = redir_of tok w # rs1"
      using "1.prems" p True g g2 by (subst (asm) parseredirs.simps) (auto split: sum.splits)
    have "redirs_wf b rs1"
      using "1.IH" [OF p [symmetric] refl _ g [symmetric] refl refl g2 [symmetric] refl refl _ r(1)] True t by simp
    then show ?thesis using r(2) gettoken_word g2 t by (auto simp: redirs_wf_def redir_of_def redir_ok_def)
  qed
qed

lemma exec_args_ok:
  "parse_args b s argv rs = Inr (argv', rs', s') \<Longrightarrow> s \<le> length b \<Longrightarrow> list_all (word_ok b) argv \<Longrightarrow> length argv < MAXARGS \<Longrightarrow>
    redirs_wf b rs \<Longrightarrow> s \<le> s' \<and> s' \<le> length b \<and> list_all (word_ok b) argv' \<and> length argv' < MAXARGS \<and> redirs_wf b rs'"
proof (induction b s argv rs rule: parse_args.induct)
  case (1 b s argv rs)
  obtain hit s1 where p: "peek b s ''|)&;'' = (hit, s1)" by (cases "peek b s ''|)&;''")
  obtain tok q e s2 where g: "gettoken b s1 = (tok, (q, e), s2)" by (metis prod.exhaust)
  note P = peek_facts [OF p] and G = gettoken_facts [OF g]
  have s2: "s \<le> s2" "s2 \<le> length b" "s1 \<le> length b" using P(2,3) G(1-4) "1.prems"(2) by linarith+
  consider "hit \<or> tok = CHR 0x00" | "\<not> hit" "tok = CHR ''a''"
    using "1.prems"(1) p g by (subst (asm) parse_args.simps) (auto split: if_splits)
  then show ?case
  proof cases
    case 1
    then show ?thesis using "1.prems" p g P s2 by (subst (asm) parse_args.simps) (auto split: if_splits)
  next
    case 2
    then obtain rs1 s3 where r: "parseredirs b s2 = Inr (rs1, s3)" and n: "length (argv @ [(q, e)]) < MAXARGS"
      and rec: "parse_args b s3 (argv @ [(q, e)]) (rs @ rs1) = Inr (argv', rs', s')"
      using "1.prems"(1) p g by (subst (asm) parse_args.simps) (auto simp: Let_def not_le split: if_splits sum.splits)
    have s3: "s2 \<le> s3" "s3 \<le> length b" using parseredirs_mono [OF r] s2 by simp_all
    have wf: "list_all (word_ok b) (argv @ [(q, e)])" "redirs_wf b (rs @ rs1)"
      using "1.prems"(3,5) gettoken_word g 2(2) parseredirs_wf [OF r] by (auto simp: redirs_wf_def)
    have "s3 \<le> s' \<and> s' \<le> length b \<and> list_all (word_ok b) argv' \<and> length argv' < MAXARGS \<and> redirs_wf b rs'"
      using "1.IH" [OF p [symmetric] refl _ g [symmetric] refl refl _ _ refl _ r refl rec s3(2) wf(1) n wf(2)] 2 n by (simp add: not_le)
    then show ?thesis using s2 s3 by simp
  qed
qed

lemma back_loop_ok:
  "back_loop b c s = (c', s') \<Longrightarrow> s \<le> length b \<Longrightarrow> cmd_wf b c \<Longrightarrow> s \<le> s' \<and> s' \<le> length b \<and> cmd_wf b c'"
proof (induction b c s rule: back_loop.induct)
  case (1 b c s)
  obtain hit s1 where p: "peek b s ''&'' = (hit, s1)" by (cases "peek b s ''&''")
  obtain tok w s2 where g: "gettoken b s1 = (tok, w, s2)" by (cases "gettoken b s1") auto
  show ?case
  proof (cases hit)
    case True
    have "CHR 0x00 \<notin> set ''&''" by simp
    note a = sym_step [OF p [symmetric] True g [symmetric] this]
    have "back_loop b (BACK c) s2 = (c', s')" using "1.prems"(1) p g True by (subst (asm) back_loop.simps) simp
    then have "s2 \<le> s' \<and> s' \<le> length b \<and> cmd_wf b c'"
      using "1.IH" [OF p [symmetric] refl True g [symmetric] refl refl] a "1.prems" by simp
    then show ?thesis using a by simp
  next
    case False
    then show ?thesis using "1.prems" p peek_facts [OF p] by (subst (asm) back_loop.simps) auto
  qed
qed

text \<open>
  The outcome of a parsing function called at \<open>s\<close>: a well-formed command and a position not before \<open>s\<close>, or a
  message; too deep only if the bound was not \<open>enough\<close>.
\<close>

definition parse_ok :: "string \<Rightarrow> nat \<Rightarrow> bool \<Rightarrow> parse \<Rightarrow> bool" where
  "parse_ok b s enough r \<longleftrightarrow> (case r of Parsed c s' \<Rightarrow> s \<le> s' \<and> s' \<le> length b \<and> cmd_wf b c | Syntax e \<Rightarrow> True | Deep \<Rightarrow> \<not> enough)"

lemma parse_ok_simps [simp]:
  "parse_ok b s n (Parsed c s') \<longleftrightarrow> s \<le> s' \<and> s' \<le> length b \<and> cmd_wf b c" "parse_ok b s n (Syntax e)"
  "parse_ok b s n Deep \<longleftrightarrow> \<not> n"
  by (simp_all add: parse_ok_def)

lemma parseline_step:
  assumes e: "parse_ok b s n1 (parsepipe f b s)" and r: "\<And>t. s < t \<Longrightarrow> t \<le> length b \<Longrightarrow> parse_ok b t (n2 t) (parseline f b t)"
    and n: "n \<Longrightarrow> n1" "\<And>t. n \<Longrightarrow> s < t \<Longrightarrow> t \<le> length b \<Longrightarrow> n2 t"
  shows "parse_ok b s n (parseline (Suc f) b s)"
proof (cases "parsepipe f b s")
  case (Parsed c s1)
  then have a: "s \<le> s1" "s1 \<le> length b" "cmd_wf b c" using e by simp_all
  obtain c2 s2 where k: "back_loop b c s1 = (c2, s2)" by (cases "back_loop b c s1")
  note K = back_loop_ok [OF k a(2,3)]
  obtain hit s3 where p: "peek b s2 '';'' = (hit, s3)" by (cases "peek b s2 '';''")
  obtain tok w s4 where g: "gettoken b s3 = (tok, w, s4)" by (cases "gettoken b s3") auto
  show ?thesis
  proof (cases hit)
    case True
    have "CHR 0x00 \<notin> set '';''" by simp
    note S = sym_step [OF p [symmetric] True g [symmetric] this]
    have "parse_ok b s4 (n2 s4) (parseline f b s4)" by (rule r) (use a K S in simp_all)
    then show ?thesis using Parsed k p g True a K S n(2) [of s4]
      by (cases "parseline f b s4") auto
  next
    case False
    then show ?thesis using Parsed k p a K peek_facts [OF p] by simp
  qed
next
  case Deep
  then show ?thesis using e n(1) by auto
qed simp

lemma parsepipe_step:
  assumes e: "parse_ok b s n1 (parseexec f b s)" and r: "\<And>t. s < t \<Longrightarrow> t \<le> length b \<Longrightarrow> parse_ok b t (n2 t) (parsepipe f b t)"
    and n: "n \<Longrightarrow> n1" "\<And>t. n \<Longrightarrow> s < t \<Longrightarrow> t \<le> length b \<Longrightarrow> n2 t"
  shows "parse_ok b s n (parsepipe (Suc f) b s)"
proof (cases "parseexec f b s")
  case (Parsed c s1)
  then have a: "s \<le> s1" "s1 \<le> length b" "cmd_wf b c" using e by simp_all
  obtain hit s3 where p: "peek b s1 ''|'' = (hit, s3)" by (cases "peek b s1 ''|''")
  obtain tok w s4 where g: "gettoken b s3 = (tok, w, s4)" by (cases "gettoken b s3") auto
  show ?thesis
  proof (cases hit)
    case True
    have "CHR 0x00 \<notin> set ''|''" by simp
    note S = sym_step [OF p [symmetric] True g [symmetric] this]
    have "parse_ok b s4 (n2 s4) (parsepipe f b s4)" by (rule r) (use a S in simp_all)
    then show ?thesis using Parsed p g True a S n(2) [of s4]
      by (cases "parsepipe f b s4") auto
  next
    case False
    then show ?thesis using Parsed p a peek_facts [OF p] by simp
  qed
next
  case Deep
  then show ?thesis using e n(1) by auto
qed simp

lemma parseexec_step:
  assumes s: "s \<le> length b" and r: "\<And>t. s \<le> t \<Longrightarrow> t \<le> length b \<Longrightarrow> parse_ok b t (n2 t) (parseblock f b t)"
    and n: "\<And>t. n \<Longrightarrow> s \<le> t \<Longrightarrow> t \<le> length b \<Longrightarrow> n2 t"
  shows "parse_ok b s n (parseexec (Suc f) b s)"
proof -
  obtain hit s1 where p: "peek b s ''('' = (hit, s1)" by (cases "peek b s ''(''")
  note P = peek_facts [OF p]
  show ?thesis
  proof (cases hit)
    case True
    then show ?thesis using r [of s1] n [of s1] P(2,3) s p by (cases "parseblock f b s1") auto
  next
    case hit: False
    show ?thesis
    proof (cases "parseredirs b s1")
      case (Inl e)
      then show ?thesis using p hit by simp
    next
      case (Inr a)
      then obtain rs s2 where q: "parseredirs b s1 = Inr (rs, s2)" by (cases a) auto
      have s2: "s1 \<le> s2" "s2 \<le> length b" using parseredirs_mono [OF q] P(3) [OF s] by simp_all
      show ?thesis
      proof (cases "parse_args b s2 [] rs")
        case (Inl e)
        then show ?thesis using p hit q by simp
      next
        case (Inr x)
        then obtain argv rs' s3 where x: "parse_args b s2 [] rs = Inr (argv, rs', s3)" by (cases x) auto
        have "s2 \<le> s3 \<and> s3 \<le> length b \<and> list_all (word_ok b) argv \<and> length argv < MAXARGS \<and> redirs_wf b rs'"
          by (rule exec_args_ok [OF x s2(2)]) (use parseredirs_wf [OF q] in \<open>simp_all add: MAXARGS_def\<close>)
        then show ?thesis using p hit q x P(2) s2 wrap_wf [of b "EXEC argv" rs'] by simp
      qed
    qed
  qed
qed

lemma parseblock_step:
  assumes r: "\<And>t. s < t \<Longrightarrow> t \<le> length b \<Longrightarrow> parse_ok b t (n2 t) (parseline f b t)"
    and n: "\<And>t. n \<Longrightarrow> s < t \<Longrightarrow> t \<le> length b \<Longrightarrow> n2 t"
  shows "parse_ok b s n (parseblock (Suc f) b s)"
proof -
  obtain hit s1 where p: "peek b s ''('' = (hit, s1)" by (cases "peek b s ''(''")
  obtain tok w s2 where g: "gettoken b s1 = (tok, w, s2)" by (cases "gettoken b s1") auto
  show ?thesis
  proof (cases hit)
    case False
    then show ?thesis using p by simp
  next
    case True
    have "CHR 0x00 \<notin> set ''(''" by simp
    note S = sym_step [OF p [symmetric] True g [symmetric] this]
    have ok: "parse_ok b s2 (n2 s2) (parseline f b s2)" by (rule r) (use S in simp_all)
    show ?thesis
    proof (cases "parseline f b s2")
      case (Parsed c s3)
      then have a: "s2 \<le> s3" "s3 \<le> length b" "cmd_wf b c" using ok by simp_all
      obtain hit2 s4 where p2: "peek b s3 '')'' = (hit2, s4)" by (cases "peek b s3 '')''")
      obtain tok2 w2 s5 where g2: "gettoken b s4 = (tok2, w2, s5)" by (cases "gettoken b s4") auto
      show ?thesis
      proof (cases "hit2")
        case False
        then show ?thesis using p g True Parsed p2 by simp
      next
        case h2: True
        have "CHR 0x00 \<notin> set '')''" by simp
        note S2 = sym_step [OF p2 [symmetric] h2 g2 [symmetric] this]
        show ?thesis
        proof (cases "parseredirs b s5")
          case (Inl e)
          then show ?thesis using p g True Parsed p2 h2 g2 by simp
        next
          case (Inr x)
          then obtain rs s6 where q: "parseredirs b s5 = Inr (rs, s6)" by (cases x) auto
          then show ?thesis
            using p g True Parsed p2 h2 g2 S S2 a parseredirs_mono [OF q] wrap_wf [OF a(3) parseredirs_wf [OF q]] by simp
        qed
      qed
    next
      case (Syntax e)
      then show ?thesis using p g True by simp
    next
      case Deep
      then show ?thesis using p g True ok S n [of s2] by auto
    qed
  qed
qed

lemma parser_ok:
  "s \<le> length b \<Longrightarrow> parse_ok b s (4 * (length b - s) + 4 \<le> f) (parseline f b s) \<and>
    parse_ok b s (4 * (length b - s) + 3 \<le> f) (parsepipe f b s) \<and>
    parse_ok b s (4 * (length b - s) + 2 \<le> f) (parseexec f b s) \<and>
    parse_ok b s (4 * (length b - s) + 1 \<le> f) (parseblock f b s)"
proof (induction f arbitrary: s)
  case 0
  then show ?case by simp
next
  case (Suc f)
  note IH = Suc.IH
  have "parse_ok b s (4 * (length b - s) + 4 \<le> Suc f) (parseline (Suc f) b s)"
    by (rule parseline_step [where ?n2.0 = "\<lambda>t. 4 * (length b - t) + 4 \<le> f" and ?n1.0 = "4 * (length b - s) + 3 \<le> f"])
      (use IH Suc.prems in auto)
  moreover have "parse_ok b s (4 * (length b - s) + 3 \<le> Suc f) (parsepipe (Suc f) b s)"
    by (rule parsepipe_step [where ?n2.0 = "\<lambda>t. 4 * (length b - t) + 3 \<le> f" and ?n1.0 = "4 * (length b - s) + 2 \<le> f"])
      (use IH Suc.prems in auto)
  moreover have "parse_ok b s (4 * (length b - s) + 2 \<le> Suc f) (parseexec (Suc f) b s)"
    by (rule parseexec_step [where ?n2.0 = "\<lambda>t. 4 * (length b - t) + 1 \<le> f"]) (use IH Suc.prems in auto)
  moreover have "parse_ok b s (4 * (length b - s) + 1 \<le> Suc f) (parseblock (Suc f) b s)"
    by (rule parseblock_step [where ?n2.0 = "\<lambda>t. 4 * (length b - t) + 4 \<le> f"]) (use IH Suc.prems in auto)
  ultimately show ?case by blast
qed

fun words :: "cmd \<Rightarrow> word_at list" where
  "words (EXEC argv) = argv"
| "words (REDIR c w mode fd) = words c @ [w]"
| "words (PIPE l r) = words l @ words r"
| "words (LIST l r) = words l @ words r"
| "words (BACK c) = words c"

lemma length_foldl_nul: "length (foldl (\<lambda>m (q, eq). m[eq := CHR 0x00]) m ws) = length m"
  by (induction ws arbitrary: m) auto

lemma foldl_nul_nth:
  "k < length m \<Longrightarrow> foldl (\<lambda>m (q, eq). m[eq := CHR 0x00]) m ws ! k = (if k \<in> snd ` set ws then CHR 0x00 else m ! k)"
proof (induction ws arbitrary: m)
  case (Cons a ws)
  then show ?case using Cons.IH [of "m[snd a := CHR 0x00]"] by (cases a) (simp add: nth_list_update)
qed simp

lemma nulterminate_nth:
  "length (nulterminate c m) = length m \<and>
   (\<forall>k < length m. nulterminate c m ! k = (if k \<in> snd ` set (words c) then CHR 0x00 else m ! k))"
proof (induction c arbitrary: m)
  case (EXEC argv)
  then show ?case by (simp add: length_foldl_nul foldl_nul_nth)
next
  case (REDIR c w mode fd)
  have "(nulterminate c m)[snd w := CHR 0x00] ! k = (if k \<in> insert (snd w) (snd ` set (words c)) then CHR 0x00 else m ! k)"
    if "k < length m" for k
    using REDIR [of m] that by (cases "k = snd w") (simp_all add: nth_list_update)
  then show ?case using REDIR [of m] by simp
qed (simp_all add: image_Un)

lemma cmd_wf_words: "cmd_wf b c \<Longrightarrow> w \<in> set (words c) \<Longrightarrow> word_ok b w"
  by (induction c) (auto simp: list_all_iff)

lemma nulterminate_word:
  assumes wf: "cmd_wf b c" and w: "w \<in> set (words c)" and nn: "CHR 0x00 \<notin> set b"
  shows "cstr (nulterminate c (b @ [CHR 0x00])) (fst w) = take (snd w - fst w) (drop (fst w) b)"
proof -
  let ?m = "nulterminate c (b @ [CHR 0x00])"
  have N: "length ?m = Suc (length b)"
    "\<And>k. k < Suc (length b) \<Longrightarrow> ?m ! k = (if k \<in> snd ` set (words c) then CHR 0x00 else (b @ [CHR 0x00]) ! k)"
    using nulterminate_nth [of c "b @ [CHR 0x00]"] by auto
  have o: "word_ok b w" by (rule cmd_wf_words [OF wf w])
  then have le: "fst w < snd w" "snd w \<le> length b" by (simp_all add: word_ok_def)
  have keep: "?m ! k = b ! k" if k: "fst w \<le> k" "k < snd w" for k
  proof -
    have "k \<noteq> snd v" if v: "v \<in> set (words c)" for v
    proof
      assume e: "k = snd v"
      have "wordc (b ! k)" using o k by (simp add: word_ok_def)
      moreover have "\<not> wordc (b ! k)" using cmd_wf_words [OF wf v] k le unfolding e word_ok_def by simp
      ultimately show False by simp
    qed
    then have "k \<notin> snd ` set (words c)" by auto
    then show ?thesis using N(2) [of k] k le by (simp add: nth_append)
  qed
  have slice: "drop (fst w) ?m = take (snd w - fst w) (drop (fst w) b) @ CHR 0x00 # drop (Suc (snd w)) ?m"
  proof -
    have "drop (fst w) ?m = take (snd w - fst w) (drop (fst w) ?m) @ drop (snd w) ?m"
      using le by (metis append_take_drop_id drop_drop le_add_diff_inverse2 less_imp_le)
    moreover have "drop (snd w) ?m = CHR 0x00 # drop (Suc (snd w)) ?m"
      using N(1) N(2) [of "snd w"] le w by (subst Cons_nth_drop_Suc [symmetric]) auto
    moreover have "take (snd w - fst w) (drop (fst w) ?m) = take (snd w - fst w) (drop (fst w) b)"
      by (rule nth_equalityI) (use le N(1) keep in auto)
    ultimately show ?thesis by simp
  qed
  have "CHR 0x00 \<notin> set (take (snd w - fst w) (drop (fst w) b))" using nn by (meson in_set_dropD in_set_takeD)
  then show ?thesis unfolding cstr_def slice by (subst takeWhile_append2) auto
qed

section \<open>Properties\<close>

text \<open>
  C31. The parser ends on every line: a depth of calls of four per character and four more is enough, so the outcome is a command or
  a message and never a call that is too deep.
\<close>

theorem parsecmd_terminates: "\<exists>c s msg. fst (parsecmd b) = Parsed c s \<or> fst (parsecmd b) = Syntax msg"
proof -
  have "parse_ok b 0 True (parseline (4 * length b + 4) b 0)" using parser_ok [of 0 b "4 * length b + 4"] by simp
  then show ?thesis by (auto simp: parsecmd_def Let_def split: parse.splits)
qed

text \<open>
  C32. Every command the parser builds is well formed: no more than \<open>MAXARGS - 1\<close> words per program, so that the terminating null
  pointer fits, every word a nonempty part of the line without blanks and symbols that ends at one, and every redirection either input
  from descriptor 0 or created output on descriptor 1; and the whole line has been read.
\<close>

theorem parsecmd_well_formed:
  assumes "fst (parsecmd b) = Parsed c s"
  shows "cmd_wf b c \<and> s = length b"
proof -
  have "parse_ok b 0 True (parseline (4 * length b + 4) b 0)" using parser_ok [of 0 b "4 * length b + 4"] by simp
  then show ?thesis using assms by (auto simp: parsecmd_def Let_def split: parse.splits if_splits)
qed

definition demo_line :: string where
  "demo_line = ''cat<in|wc'' @ [CHR 0x0A]"

lemma demo_parse:
  "parseline 44 demo_line 0 = Parsed (PIPE (REDIR (EXEC [(0, 3)]) (4, 6) O_RDONLY 0) (EXEC [(7, 9)])) 10"
  by code_simp

theorem parsecmd_well_formed_witness:
  "cmd_wf demo_line (PIPE (REDIR (EXEC [(0, 3)]) (4, 6) O_RDONLY 0) (EXEC [(7, 9)]))"
proof -
  have "length demo_line = 10" "skip_ws demo_line 10 = 10" by code_simp+
  then have "fst (parsecmd demo_line) = Parsed (PIPE (REDIR (EXEC [(0, 3)]) (4, 6) O_RDONLY 0) (EXEC [(7, 9)])) 10"
    using demo_parse by (simp add: parsecmd_def peek_def)
  then show ?thesis using parsecmd_well_formed by blast
qed

text \<open>
  C33. Putting NULs behind the words in place spoils no other word: afterwards the C string at each word of the command is exactly the
  word as it stood in the line.
\<close>

theorem nulterminate_correct:
  assumes "parsecmd b = (Parsed c s, m)" and "CHR 0x00 \<notin> set b" and "w \<in> set (words c)"
  shows "cstr m (fst w) = take (snd w - fst w) (drop (fst w) b)"
proof -
  have "parse_ok b 0 True (parseline (4 * length b + 4) b 0)" using parser_ok [of 0 b "4 * length b + 4"] by simp
  then have "cmd_wf b c" "m = nulterminate c (b @ [CHR 0x00])"
    using assms(1) by (auto simp: parsecmd_def Let_def split: parse.splits if_splits)
  then show ?thesis using nulterminate_word assms(2,3) by simp
qed

theorem nulterminate_correct_witness:
  "\<exists>c s m. parsecmd demo_line = (Parsed c s, m) \<and> cstr m 0 = ''cat'' \<and> cstr m 4 = ''in'' \<and> cstr m 7 = ''wc''"
proof -
  have "length demo_line = 10" "skip_ws demo_line 10 = 10" by code_simp+
  then obtain m where p: "parsecmd demo_line = (Parsed (PIPE (REDIR (EXEC [(0, 3)]) (4, 6) O_RDONLY 0) (EXEC [(7, 9)])) 10, m)"
    using demo_parse by (simp add: parsecmd_def peek_def)
  have n: "CHR 0x00 \<notin> set demo_line" by (simp add: demo_line_def)
  have "cstr m 0 = ''cat''" using nulterminate_correct [OF p n, of "(0, 3)"] by (simp add: demo_line_def)
  moreover have "cstr m 4 = ''in''" using nulterminate_correct [OF p n, of "(4, 6)"] by (simp add: demo_line_def)
  moreover have "cstr m 7 = ''wc''" using nulterminate_correct [OF p n, of "(7, 9)"] by (simp add: demo_line_def)
  ultimately show ?thesis using p by blast
qed

end
