(* ===== verification/Trap.thy ===== *)
theory Trap
  imports Sysfile
begin

text \<open>
  System calls and traps (\<^verbatim>\<open>sysproc.c\<close>, \<^verbatim>\<open>syscall.c\<close>, \<^verbatim>\<open>trap.c\<close>).  \<open>data\<close> is the linker symbol
  that \<open>setupkvm\<close> needs.  Acknowledging an interrupt (\<open>lapiceoi\<close>) and the disk interrupt, which the
  in-memory disk does not raise, leave the modelled state unchanged.
\<close>

section \<open>Process system calls\<close>

definition sys_fork :: "addr \<Rightarrow> 'z xstate_scheme \<Rightarrow> (int, 'z xstate_scheme) res" where
  "sys_fork data s = fork data s"

definition sys_exit :: "'z xstate_scheme \<Rightarrow> (int, 'z xstate_scheme) res" where
  "sys_exit s = bindR (exit s) (\<lambda>_ s. Ok 0 s)"

definition sys_wait :: "'z pstate_scheme \<Rightarrow> (int, 'z pstate_scheme) res" where
  "sys_wait s = wait s"

definition sys_kill :: "'z pstate_scheme \<Rightarrow> (int, 'z pstate_scheme) res" where
  "sys_kill s = bindR (argint 0 s) (\<lambda>po s. case po of None \<Rightarrow> Ok (- 1) s | Some pid \<Rightarrow> kill pid s)"

definition sys_getpid :: "'z pstate_scheme \<Rightarrow> (int, 'z pstate_scheme) res" where
  "sys_getpid s = mypid s"

definition sys_sbrk :: "'z cstate_scheme \<Rightarrow> (int, 'z cstate_scheme) res" where
  "sys_sbrk s =
     bindR (argint 0 s) (\<lambda>no s. case no of None \<Rightarrow> Ok (- 1) s | Some n \<Rightarrow>
     bindR (cur_proc s) (\<lambda>p s.
       let a = sint (p_sz (proc_at s p)) in
     bindR (growproc n s) (\<lambda>r s. if r < 0 then Ok (- 1) s else Ok a s)))"

definition sys_sleep_loop :: "int \<Rightarrow> u32 \<Rightarrow> 'z kstate_scheme \<Rightarrow> (int, 'z kstate_scheme) res" where
  "sys_sleep_loop n ticks0 s =
     (if ticks s - ticks0 < of_int n
      then bindR (killed_now s) (\<lambda>k s.
        if k then bindR (release L_ticks s) (\<lambda>_ s. Ok (- 1) s)
        else bindR (sleep Ch_ticks L_ticks s) (\<lambda>_ s. Ok 0 s))
      else bindR (release L_ticks s) (\<lambda>_ s. Ok 0 s))"

definition sys_sleep :: "'z kstate_scheme \<Rightarrow> (int, 'z kstate_scheme) res" where
  "sys_sleep s =
     bindR (argint 0 s) (\<lambda>no s. case no of None \<Rightarrow> Ok (- 1) s | Some n \<Rightarrow>
     bindR (acquire L_ticks s) (\<lambda>_ s. sys_sleep_loop n (ticks s) s))"

definition sys_sleep_resume :: "nat \<Rightarrow> int \<Rightarrow> u32 \<Rightarrow> 'z kstate_scheme \<Rightarrow> (int, 'z kstate_scheme) res" where
  "sys_sleep_resume p n ticks0 s = bindR (sleep_resume p L_ticks s) (\<lambda>_ s. sys_sleep_loop n ticks0 s)"

definition sys_uptime :: "'z kstate_scheme \<Rightarrow> (int, 'z kstate_scheme) res" where
  "sys_uptime s =
     bindR (acquire L_ticks s) (\<lambda>_ s.
       let x = ticks s in
     bindR (release L_ticks s) (\<lambda>_ s. Ok (sint x) s))"

definition sys_setnice :: "'z pstate_scheme \<Rightarrow> (int, 'z pstate_scheme) res" where
  "sys_setnice s =
     bindR (argint 0 s) (\<lambda>po s. case po of None \<Rightarrow> Ok (- 1) s | Some pid \<Rightarrow>
     bindR (argint 1 s) (\<lambda>no s. case no of None \<Rightarrow> Ok (- 1) s | Some n \<Rightarrow> setnice pid n s))"

definition sys_getnice :: "'z pstate_scheme \<Rightarrow> (int, 'z pstate_scheme) res" where
  "sys_getnice s = bindR (argint 0 s) (\<lambda>po s. case po of None \<Rightarrow> Ok (- 1) s | Some pid \<Rightarrow> getnice pid s)"

definition sys_ps :: "'z cstate_scheme \<Rightarrow> (unit, 'z cstate_scheme) res" where
  "sys_ps s = bindR (argint 0 s) (\<lambda>po s. case po of None \<Rightarrow> Ok () s | Some pid \<Rightarrow> ps pid s)"

section \<open>Dispatch\<close>

text \<open>
  The table \<^verbatim>\<open>syscalls[]\<close>.  \<open>sys_ps\<close> returns nothing although it is called through a pointer to a
  function returning \<^verbatim>\<open>int\<close>; \<open>junk\<close> is what is then found in \<^verbatim>\<open>%eax\<close>.
\<close>

definition syscalls :: "addr \<Rightarrow> int \<Rightarrow> int \<Rightarrow> ('z kstate_scheme \<Rightarrow> (int, 'z kstate_scheme) res) option" where
  "syscalls data junk num =
     (if num = 1 then Some (sys_fork data) else if num = 2 then Some sys_exit
      else if num = 3 then Some sys_wait else if num = 4 then Some sys_pipe
      else if num = 5 then Some sys_read else if num = 6 then Some sys_kill
      else if num = 7 then Some (sys_exec data) else if num = 8 then Some sys_fstat
      else if num = 9 then Some sys_chdir else if num = 10 then Some sys_dup
      else if num = 11 then Some sys_getpid else if num = 12 then Some sys_sbrk
      else if num = 13 then Some sys_sleep else if num = 14 then Some sys_uptime
      else if num = 15 then Some sys_open else if num = 16 then Some sys_write
      else if num = 17 then Some sys_mknod else if num = 18 then Some sys_unlink
      else if num = 19 then Some sys_link else if num = 20 then Some sys_mkdir
      else if num = 21 then Some sys_close else if num = 22 then Some sys_setnice
      else if num = 23 then Some sys_getnice
      else if num = 24 then Some (\<lambda>s. bindR (sys_ps s) (\<lambda>_ s. Ok junk s))
      else None)"

definition set_eax :: "nat \<Rightarrow> int \<Rightarrow> 'z pstate_scheme \<Rightarrow> 'z pstate_scheme" where
  "set_eax p r s = upd_tf p (\<lambda>t. t\<lparr>tf_eax := of_int r\<rparr>) s"

definition syscall :: "addr \<Rightarrow> int \<Rightarrow> 'z kstate_scheme \<Rightarrow> (unit, 'z kstate_scheme) res" where
  "syscall data junk s =
     bindR (cur_proc s) (\<lambda>p s.
       let num = sint (tf_eax (tframes s (p_tf (proc_at s p)))) in
       case syscalls data junk num of
         Some f \<Rightarrow> bindR (f s) (\<lambda>r s. Ok () (set_eax p r s))
       | None \<Rightarrow>
           bindR (cprintf (Some (''%d %s: unknown sys call %d'' @ [CHR 0x0A]))
             [A_int (of_int (p_pid (proc_at s p))), A_str (Some (p_name (proc_at s p))), A_int (of_int num)] s) (\<lambda>_ s.
           Ok () (set_eax p (- 1) s)))"

section \<open>Traps\<close>

definition T_SYSCALL :: u32 where "T_SYSCALL = 64"
definition T_IRQ0 :: u32 where "T_IRQ0 = 32"
definition IRQ_TIMER :: u32 where "IRQ_TIMER = 0"
definition IRQ_KBD :: u32 where "IRQ_KBD = 1"
definition IRQ_COM1 :: u32 where "IRQ_COM1 = 4"
definition IRQ_IDE :: u32 where "IRQ_IDE = 14"
definition IRQ_SPURIOUS :: u32 where "IRQ_SPURIOUS = 31"

definition exit_if_killed :: "'z xstate_scheme \<Rightarrow> (unit, 'z xstate_scheme) res" where
  "exit_if_killed s = bindR (killed_now s) (\<lambda>k s. if k then exit s else Ok () s)"

definition trap_syscall :: "addr \<Rightarrow> int \<Rightarrow> addr \<Rightarrow> 'z kstate_scheme \<Rightarrow> (unit, 'z kstate_scheme) res" where
  "trap_syscall data junk tf s =
     bindR (exit_if_killed s) (\<lambda>_ s.
     bindR (cur_proc s) (\<lambda>p s.
     bindR (syscall data junk (upd_proc p (\<lambda>q. q\<lparr>p_tf := tf\<rparr>) s)) (\<lambda>_ s.
     exit_if_killed s)))"

definition timer_tick :: "'z kstate_scheme \<Rightarrow> (unit, 'z kstate_scheme) res" where
  "timer_tick s =
     bindR (cpuid s) (\<lambda>c s.
       if c = 0
       then bindR (acquire L_ticks s) (\<lambda>_ s.
            bindR (wakeup Ch_ticks (s\<lparr>ticks := ticks s + 1\<rparr>)) (\<lambda>_ s. release L_ticks s))
       else Ok () s)"

definition trap_fault :: "trapframe \<Rightarrow> u32 \<Rightarrow> 'z kstate_scheme \<Rightarrow> (unit, 'z kstate_scheme) res" where
  "trap_fault t cr2 s =
     bindR (myproc s) (\<lambda>po s.
     bindR (cpuid s) (\<lambda>c s.
       if po = None \<or> tf_cs t AND 3 = 0
       then bindR (cprintf (Some (''unexpected trap %d from cpu %d eip %x (cr2=0x%x)'' @ [CHR 0x0A]))
              [A_int (tf_trapno t), A_int (of_nat c), A_int (tf_eip t), A_int cr2] s) (\<lambda>_ s. Panic ''trap'')
       else let p = the po in
         bindR (cprintf (Some (''pid %d %s: trap %d err %d on cpu %d eip 0x%x addr 0x%x--kill proc'' @ [CHR 0x0A]))
           [A_int (of_int (p_pid (proc_at s p))), A_str (Some (p_name (proc_at s p))), A_int (tf_trapno t),
            A_int (tf_err t), A_int (of_nat c), A_int (tf_eip t), A_int cr2] s) (\<lambda>_ s.
         Ok () (upd_proc p (\<lambda>q. q\<lparr>p_killed := 1\<rparr>) s))))"

definition trap_irq :: "trapframe \<Rightarrow> u32 \<Rightarrow> 'z kstate_scheme \<Rightarrow> (unit, 'z kstate_scheme) res" where
  "trap_irq t cr2 s =
     (let n = tf_trapno t in
      if n = T_IRQ0 + IRQ_TIMER then timer_tick s
      else if n = T_IRQ0 + IRQ_IDE \<or> n = T_IRQ0 + IRQ_IDE + 1 then Ok () s
      else if n = T_IRQ0 + IRQ_KBD then kbdintr s
      else if n = T_IRQ0 + IRQ_COM1 then uartintr s
      else if n = T_IRQ0 + 7 \<or> n = T_IRQ0 + IRQ_SPURIOUS
      then bindR (cpuid s) (\<lambda>c s.
           cprintf (Some (''cpu%d: spurious interrupt at %x:%x'' @ [CHR 0x0A]))
             [A_int (of_nat c), A_int (ucast (tf_cs t)), A_int (tf_eip t)] s)
      else trap_fault t cr2 s)"

definition exit_if_killed_user :: "trapframe \<Rightarrow> 'z xstate_scheme \<Rightarrow> (unit, 'z xstate_scheme) res" where
  "exit_if_killed_user t s =
     bindR (myproc s) (\<lambda>po s. case po of None \<Rightarrow> Ok () s
       | Some p \<Rightarrow> if p_killed (proc_at s p) \<noteq> 0 \<and> tf_cs t AND 3 = 3 then exit s else Ok () s)"

text \<open>
  The handler up to the point where a clock tick makes the process give up the CPU; after it is
  switched to again, \<open>trap_resume\<close> checks for a kill once more.
\<close>

definition trap :: "addr \<Rightarrow> int \<Rightarrow> addr \<Rightarrow> u32 \<Rightarrow> 'z kstate_scheme \<Rightarrow> (unit, 'z kstate_scheme) res" where
  "trap data junk tf cr2 s =
     (let t = tframes s tf in
      if tf_trapno t = T_SYSCALL then trap_syscall data junk tf s
      else bindR (trap_irq t cr2 s) (\<lambda>_ s.
        bindR (exit_if_killed_user t s) (\<lambda>_ s.
        bindR (myproc s) (\<lambda>po s.
        bindR (case po of None \<Rightarrow> Ok () s
               | Some p \<Rightarrow> if p_state (proc_at s p) = RUNNING \<and> tf_trapno t = T_IRQ0 + IRQ_TIMER
                          then yield s else Ok () s) (\<lambda>_ s.
        exit_if_killed_user t s)))))"

definition trap_resume :: "nat \<Rightarrow> trapframe \<Rightarrow> 'z kstate_scheme \<Rightarrow> (unit, 'z kstate_scheme) res" where
  "trap_resume p t s = bindR (yield_resume p s) (\<lambda>_ s. exit_if_killed_user t s)"

end
