(* ===== verification/Ports.thy ===== *)
theory Ports
  imports Trap
begin

text \<open>
  Talking to devices (\<^verbatim>\<open>x86.h\<close>) and the interrupt controllers: the two 8259 chips (\<^verbatim>\<open>picirq.c\<close>), the I/O APIC
  (\<^verbatim>\<open>ioapic.c\<close>), the local APIC and the real-time clock (\<^verbatim>\<open>lapic.c\<close>).  The hardware is a parameter: what a port or a
  memory-mapped register will return to successive reads is a list in the state, and every write is put on a record of
  writes.  A loop that polls a register goes through its list; when the list is used up the CPU is still polling (\<open>Spin\<close>).
\<close>

section \<open>Ports and memory-mapped registers\<close>

datatype io = Outb u16 byte | Outsl u16 "byte list" | Mmiow addr u32

record ports =
  inb_in :: "u16 \<Rightarrow> byte list"
  insl_in :: "u16 \<Rightarrow> byte list"
  mmio_in :: "addr \<Rightarrow> u32 list"
  io_log :: "io list"

definition inb :: "u16 \<Rightarrow> 'z ports_scheme \<Rightarrow> (byte, 'z ports_scheme) res" where
  "inb p h = (case inb_in h p of [] \<Rightarrow> Spin h | v # vs \<Rightarrow> Ok v (h\<lparr>inb_in := (inb_in h)(p := vs)\<rparr>))"

definition outb :: "u16 \<Rightarrow> byte \<Rightarrow> 'z ports_scheme \<Rightarrow> 'z ports_scheme" where
  "outb p v h = h\<lparr>io_log := io_log h @ [Outb p v]\<rparr>"

text \<open>\<open>cnt\<close> counts words of four bytes.\<close>

definition insl :: "u16 \<Rightarrow> nat \<Rightarrow> 'z ports_scheme \<Rightarrow> (byte list, 'z ports_scheme) res" where
  "insl p cnt h =
     (if length (insl_in h p) < 4 * cnt then Spin h
      else Ok (take (4 * cnt) (insl_in h p)) (h\<lparr>insl_in := (insl_in h)(p := drop (4 * cnt) (insl_in h p))\<rparr>))"

definition outsl :: "u16 \<Rightarrow> byte list \<Rightarrow> nat \<Rightarrow> 'z ports_scheme \<Rightarrow> 'z ports_scheme" where
  "outsl p d cnt h = h\<lparr>io_log := io_log h @ [Outsl p (take (4 * cnt) d)]\<rparr>"

definition mmior :: "addr \<Rightarrow> 'z ports_scheme \<Rightarrow> (u32, 'z ports_scheme) res" where
  "mmior a h = (case mmio_in h a of [] \<Rightarrow> Spin h | v # vs \<Rightarrow> Ok v (h\<lparr>mmio_in := (mmio_in h)(a := vs)\<rparr>))"

definition mmiow :: "addr \<Rightarrow> u32 \<Rightarrow> 'z ports_scheme \<Rightarrow> 'z ports_scheme" where
  "mmiow a v h = h\<lparr>io_log := io_log h @ [Mmiow a v]\<rparr>"

section \<open>The 8259 interrupt controllers\<close>

definition IO_PIC1 :: u16 where "IO_PIC1 = 0x20"
definition IO_PIC2 :: u16 where "IO_PIC2 = 0xA0"

definition picinit :: "'z ports_scheme \<Rightarrow> 'z ports_scheme" where
  "picinit h = outb (IO_PIC2 + 1) 0xFF (outb (IO_PIC1 + 1) 0xFF h)"

section \<open>The I/O APIC\<close>

definition IOAPIC :: addr where "IOAPIC = 0xFEC00000"
definition REG_ID :: u32 where "REG_ID = 0"
definition REG_VER :: u32 where "REG_VER = 1"
definition REG_TABLE :: u32 where "REG_TABLE = 0x10"
definition INT_DISABLED :: u32 where "INT_DISABLED = 0x10000"

text \<open>The registers \<^verbatim>\<open>reg\<close> and \<^verbatim>\<open>data\<close> of \<^verbatim>\<open>struct ioapic\<close> are 16 bytes apart.\<close>

definition ioapicread :: "u32 \<Rightarrow> 'z ports_scheme \<Rightarrow> (u32, 'z ports_scheme) res" where
  "ioapicread reg h = mmior (IOAPIC + 16) (mmiow IOAPIC reg h)"

definition ioapicwrite :: "u32 \<Rightarrow> u32 \<Rightarrow> 'z ports_scheme \<Rightarrow> 'z ports_scheme" where
  "ioapicwrite reg v h = mmiow (IOAPIC + 16) v (mmiow IOAPIC reg h)"

definition ioapic_mask_all :: "nat \<Rightarrow> 'z ports_scheme \<Rightarrow> 'z ports_scheme" where
  "ioapic_mask_all maxintr h =
     foldl (\<lambda>h i. ioapicwrite (REG_TABLE + 2 * of_nat i + 1) 0
                    (ioapicwrite (REG_TABLE + 2 * of_nat i) (INT_DISABLED OR (T_IRQ0 + of_nat i)) h))
       h [0..<Suc maxintr]"

text \<open>The flag returned says that the message about a wrong id is printed.\<close>

definition ioapicinit :: "u32 \<Rightarrow> 'z ports_scheme \<Rightarrow> (bool, 'z ports_scheme) res" where
  "ioapicinit ioapicid h =
     bindR (ioapicread REG_VER h) (\<lambda>v h.
     let maxintr = unat (drop_bit 16 v AND 0xFF) in
     bindR (ioapicread REG_ID h) (\<lambda>v h.
     Ok (drop_bit 24 v \<noteq> ioapicid) (ioapic_mask_all maxintr h)))"

definition ioapicenable :: "u32 \<Rightarrow> u32 \<Rightarrow> 'z ports_scheme \<Rightarrow> 'z ports_scheme" where
  "ioapicenable irq cpunum h =
     ioapicwrite (REG_TABLE + 2 * irq + 1) (push_bit 24 cpunum) (ioapicwrite (REG_TABLE + 2 * irq) (T_IRQ0 + irq) h)"

text \<open>
  What the chip makes of the writes: \<^verbatim>\<open>data\<close> goes to the register that was selected last.
\<close>

fun ioapic_regs :: "io list \<Rightarrow> u32 \<Rightarrow> (u32 \<rightharpoonup> u32) \<Rightarrow> u32 \<times> (u32 \<rightharpoonup> u32)" where
  "ioapic_regs [] sel m = (sel, m)"
| "ioapic_regs (Mmiow a v # xs) sel m =
     (if a = IOAPIC then ioapic_regs xs v m
      else if a = IOAPIC + 16 then ioapic_regs xs sel (m(sel \<mapsto> v)) else ioapic_regs xs sel m)"
| "ioapic_regs (_ # xs) sel m = ioapic_regs xs sel m"

lemma ioapic_regs_append: "ioapic_regs (xs @ ys) sel m = (case ioapic_regs xs sel m of (sel, m) \<Rightarrow> ioapic_regs ys sel m)"
  by (induction xs sel m rule: ioapic_regs.induct) (auto simp: fun_upd_def)

lemma ioapicwrite_regs:
  "ioapic_regs (io_log (ioapicwrite r v h)) sel m =
    (r, (snd (ioapic_regs (io_log h) sel m))(r \<mapsto> v))"
  by (simp add: ioapicwrite_def mmiow_def ioapic_regs_append IOAPIC_def split: prod.splits)

text \<open>
  Enabling an interrupt routes it, unmasked and edge-triggered, to one CPU and leaves the entries of the others alone.
\<close>

lemma ioapicenable_routes:
  assumes "snd (ioapic_regs (io_log h) sel m) = r"
  shows "snd (ioapic_regs (io_log (ioapicenable irq c h)) sel m) =
    r(REG_TABLE + 2 * irq \<mapsto> T_IRQ0 + irq, REG_TABLE + 2 * irq + 1 \<mapsto> push_bit 24 c)"
  using assms by (simp add: ioapicenable_def ioapicwrite_regs)

section \<open>The local APIC\<close>

record apic = ports +
  lapic :: addr
  low_mem :: memory

definition IRQ_ERROR :: u32 where "IRQ_ERROR = 19"
text \<open>The registers, by their byte offset.\<close>

datatype lapic_reg = LAPIC_ID | LAPIC_VER | LAPIC_TPR | LAPIC_EOI | LAPIC_SVR | LAPIC_ESR
  | LAPIC_ICRLO | LAPIC_ICRHI | LAPIC_TIMER | LAPIC_PCINT | LAPIC_LINT0 | LAPIC_LINT1 | LAPIC_ERROR | LAPIC_TICR | LAPIC_TDCR

primrec lapic_off :: "lapic_reg \<Rightarrow> addr" where
  "lapic_off LAPIC_ID = 0x20"
| "lapic_off LAPIC_VER = 0x30"
| "lapic_off LAPIC_TPR = 0x80"
| "lapic_off LAPIC_EOI = 0xB0"
| "lapic_off LAPIC_SVR = 0xF0"
| "lapic_off LAPIC_ESR = 0x280"
| "lapic_off LAPIC_ICRLO = 0x300"
| "lapic_off LAPIC_ICRHI = 0x310"
| "lapic_off LAPIC_TIMER = 0x320"
| "lapic_off LAPIC_PCINT = 0x340"
| "lapic_off LAPIC_LINT0 = 0x350"
| "lapic_off LAPIC_LINT1 = 0x360"
| "lapic_off LAPIC_ERROR = 0x370"
| "lapic_off LAPIC_TICR = 0x380"
| "lapic_off LAPIC_TDCR = 0x3E0"

abbreviation ICR_INIT :: u32 where "ICR_INIT \<equiv> 0x500"
abbreviation ICR_STARTUP :: u32 where "ICR_STARTUP \<equiv> 0x600"
abbreviation ICR_DELIVS :: u32 where "ICR_DELIVS \<equiv> 0x1000"
abbreviation ICR_ASSERT :: u32 where "ICR_ASSERT \<equiv> 0x4000"
abbreviation ICR_LEVEL :: u32 where "ICR_LEVEL \<equiv> 0x8000"
abbreviation ICR_BCAST :: u32 where "ICR_BCAST \<equiv> 0x80000"
abbreviation LVT_MASKED :: u32 where "LVT_MASKED \<equiv> 0x10000"

text \<open>The write is followed by a read of the id register whose value is dropped.\<close>

definition lapicw :: "lapic_reg \<Rightarrow> u32 \<Rightarrow> 'z apic_scheme \<Rightarrow> 'z apic_scheme" where
  "lapicw r v h =
     (let h = mmiow (lapic h + lapic_off r) v h; k = lapic h + lapic_off LAPIC_ID in
      h\<lparr>mmio_in := (mmio_in h)(k := tl (mmio_in h k))\<rparr>)"

fun poll_clear :: "u32 \<Rightarrow> u32 list \<Rightarrow> u32 list option" where
  "poll_clear m [] = None"
| "poll_clear m (v # vs) = (if v AND m \<noteq> 0 then poll_clear m vs else Some vs)"

definition lapic_wait :: "'z apic_scheme \<Rightarrow> (unit, 'z apic_scheme) res" where
  "lapic_wait h =
     (let k = lapic h + lapic_off LAPIC_ICRLO in
      case poll_clear ICR_DELIVS (mmio_in h k) of
        None \<Rightarrow> Spin (h\<lparr>mmio_in := (mmio_in h)(k := [])\<rparr>)
      | Some vs \<Rightarrow> Ok () (h\<lparr>mmio_in := (mmio_in h)(k := vs)\<rparr>))"

definition lapicinit :: "'z apic_scheme \<Rightarrow> (unit, 'z apic_scheme) res" where
  "lapicinit h =
     (if lapic h = 0 then Ok () h
      else let h = lapicw LAPIC_SVR (0x100 OR (T_IRQ0 + IRQ_SPURIOUS)) h;
               h = lapicw LAPIC_TDCR 0xB h;
               h = lapicw LAPIC_TIMER (0x20000 OR (T_IRQ0 + IRQ_TIMER)) h;
               h = lapicw LAPIC_TICR 10000000 h;
               h = lapicw LAPIC_LINT0 LVT_MASKED h;
               h = lapicw LAPIC_LINT1 LVT_MASKED h in
        bindR (mmior (lapic h + lapic_off LAPIC_VER) h) (\<lambda>v h.
          let h = (if drop_bit 16 v AND 0xFF \<ge> 4 then lapicw LAPIC_PCINT LVT_MASKED h else h);
              h = lapicw LAPIC_ERROR (T_IRQ0 + IRQ_ERROR) h;
              h = lapicw LAPIC_ESR 0 h;
              h = lapicw LAPIC_ESR 0 h;
              h = lapicw LAPIC_EOI 0 h;
              h = lapicw LAPIC_ICRHI 0 h;
              h = lapicw LAPIC_ICRLO (ICR_BCAST OR ICR_INIT OR ICR_LEVEL) h in
          bindR (lapic_wait h) (\<lambda>_ h. Ok () (lapicw LAPIC_TPR 0 h))))"

definition lapicid :: "'z apic_scheme \<Rightarrow> (u32, 'z apic_scheme) res" where
  "lapicid h =
     (if lapic h = 0 then Ok 0 h else bindR (mmior (lapic h + lapic_off LAPIC_ID) h) (\<lambda>v h. Ok (drop_bit 24 v) h))"

definition lapiceoi :: "'z apic_scheme \<Rightarrow> 'z apic_scheme" where
  "lapiceoi h = (if lapic h \<noteq> 0 then lapicw LAPIC_EOI 0 h else h)"

definition store16 :: "memory \<Rightarrow> addr \<Rightarrow> u16 \<Rightarrow> memory" where
  "store16 m a v = m(a := ucast v, a + 1 := ucast (drop_bit 8 v))"

abbreviation CMOS_PORT :: u16 where "CMOS_PORT \<equiv> 0x70"
abbreviation CMOS_RETURN :: u16 where "CMOS_RETURN \<equiv> 0x71"

definition lapicstartap :: "byte \<Rightarrow> addr \<Rightarrow> 'z apic_scheme \<Rightarrow> 'z apic_scheme" where
  "lapicstartap apid a h =
     (let h = outb (CMOS_PORT + 1) 0x0A (outb CMOS_PORT 0xF h);
          wrv = P2V 0x467;
          h = h\<lparr>low_mem := store16 (low_mem h) wrv 0\<rparr>;
          h = h\<lparr>low_mem := store16 (low_mem h) (wrv + 2) (ucast (drop_bit 4 a))\<rparr>;
          h = lapicw LAPIC_ICRHI (push_bit 24 (ucast apid)) h;
          h = lapicw LAPIC_ICRLO (ICR_INIT OR ICR_LEVEL OR ICR_ASSERT) h;
          h = lapicw LAPIC_ICRLO (ICR_INIT OR ICR_LEVEL) h
      in foldl (\<lambda>h i. lapicw LAPIC_ICRLO (ICR_STARTUP OR drop_bit 12 a)
                        (lapicw LAPIC_ICRHI (push_bit 24 (ucast apid)) h)) h [0..<(2 :: nat)])"

section \<open>The real-time clock\<close>

record rtcdate =
  second :: u32
  minute :: u32
  hour :: u32
  day :: u32
  month :: u32
  year :: u32

abbreviation CMOS_STATA :: byte where "CMOS_STATA \<equiv> 0x0a"
abbreviation CMOS_STATB :: byte where "CMOS_STATB \<equiv> 0x0b"
abbreviation CMOS_UIP :: u32 where "CMOS_UIP \<equiv> push_bit 7 1"
abbreviation RTC_SECS :: byte where "RTC_SECS \<equiv> 0"
abbreviation RTC_MINS :: byte where "RTC_MINS \<equiv> 2"
abbreviation RTC_HOURS :: byte where "RTC_HOURS \<equiv> 4"
abbreviation RTC_DAY :: byte where "RTC_DAY \<equiv> 7"
abbreviation RTC_MONTH :: byte where "RTC_MONTH \<equiv> 8"
abbreviation RTC_YEAR :: byte where "RTC_YEAR \<equiv> 9"

definition cmos_read :: "byte \<Rightarrow> 'z ports_scheme \<Rightarrow> (u32, 'z ports_scheme) res" where
  "cmos_read reg h = bindR (inb CMOS_RETURN (outb CMOS_PORT reg h)) (\<lambda>v h. Ok (ucast v) h)"

definition fill_rtcdate :: "'z ports_scheme \<Rightarrow> (rtcdate, 'z ports_scheme) res" where
  "fill_rtcdate h =
     bindR (cmos_read RTC_SECS h) (\<lambda>sc h.
     bindR (cmos_read RTC_MINS h) (\<lambda>mi h.
     bindR (cmos_read RTC_HOURS h) (\<lambda>ho h.
     bindR (cmos_read RTC_DAY h) (\<lambda>da h.
     bindR (cmos_read RTC_MONTH h) (\<lambda>mo h.
     bindR (cmos_read RTC_YEAR h) (\<lambda>ye h.
     Ok \<lparr>second = sc, minute = mi, hour = ho, day = da, month = mo, year = ye\<rparr> h))))))"

abbreviation rtc_left :: "'z ports_scheme \<Rightarrow> nat" where
  "rtc_left h \<equiv> length (inb_in h CMOS_RETURN)"

lemma cmos_read_left: "cmos_read r h = Ok v t \<Longrightarrow> Suc (rtc_left t) = rtc_left h"
  by (auto simp: cmos_read_def inb_def outb_def bindR_Ok_iff split: list.splits)

lemma fill_rtcdate_left: "fill_rtcdate h = Ok d t \<Longrightarrow> rtc_left t + 6 = rtc_left h"
  by (auto simp: fill_rtcdate_def bindR_Ok_iff dest!: cmos_read_left)

text \<open>The loop that reads the date until two readings agree.\<close>

function rtc_stable :: "'z ports_scheme \<Rightarrow> (rtcdate, 'z ports_scheme) res" where
  "rtc_stable h =
     bindR (fill_rtcdate h) (\<lambda>t1 h1.
     bindR (cmos_read CMOS_STATA h1) (\<lambda>a h2.
       if a AND CMOS_UIP \<noteq> 0 then rtc_stable h2
       else bindR (fill_rtcdate h2) (\<lambda>t2 h3. if t1 = t2 then Ok t1 h3 else rtc_stable h3)))"
  by pat_completeness auto
termination
  by (relation "measure rtc_left") (auto dest!: fill_rtcdate_left cmos_read_left)

declare rtc_stable.simps [simp del]

definition CONV :: "u32 \<Rightarrow> u32" where
  "CONV x = drop_bit 4 x * 10 + (x AND 0xf)"

definition cmostime :: "'z ports_scheme \<Rightarrow> (rtcdate, 'z ports_scheme) res" where
  "cmostime h =
     bindR (cmos_read CMOS_STATB h) (\<lambda>b h.
     let bcd = (b AND push_bit 2 1 = 0) in
     bindR (rtc_stable h) (\<lambda>t h.
     let t = (if bcd
              then \<lparr>second = CONV (second t), minute = CONV (minute t), hour = CONV (hour t), day = CONV (day t),
                    month = CONV (month t), year = CONV (year t)\<rparr>
              else t) in
     Ok (t\<lparr>year := year t + 2000\<rparr>) h))"

text \<open>Binary-coded decimal and back, and a date that is read twice without change.\<close>

definition bcd :: "nat \<Rightarrow> byte" where
  "bcd n = of_nat (16 * (n div 10) + n mod 10)"

lemma CONV_bcd:
  assumes "n < 100"
  shows "CONV (ucast (bcd n)) = of_nat n"
proof -
  have "list_all (\<lambda>n. CONV (ucast (bcd n)) = of_nat n) [0..<100]" by code_simp
  then show ?thesis using assms by (simp add: list_all_iff)
qed

lemma cmostime_stable:
  assumes "inb_in h CMOS_RETURN = 0 # ds @ 0 # ds @ rest" and "ds = map bcd [s, mi, ho, da, mo, ye]"
    and "s < 100" "mi < 100" "ho < 100" "da < 100" "mo < 100" "ye < 100"
  shows "runs (cmostime h) (\<lambda>r t. r = \<lparr>second = of_nat s, minute = of_nat mi, hour = of_nat ho, day = of_nat da,
    month = of_nat mo, year = of_nat ye + 2000\<rparr>)"
  using assms(1) unfolding assms(2) cmostime_def
  by (simp add: cmos_read_def inb_def outb_def rtc_stable.simps fill_rtcdate_def CONV_bcd assms(3-))

end
