(* ===== verification/Ide.thy ===== *)
theory Ide
  imports Ports
begin

text \<open>
  The interrupt-driven disk driver (\<^verbatim>\<open>ide.c\<close>): the queue of buffers linked by \<^verbatim>\<open>qnext\<close>, the program of port writes that starts
  a request, the interrupt handler and the submission that sleeps until the request is done.  The abstract view is a
  list of buffers, and the drive is specified by what it makes of the port writes: the commands \<open>issued\<close> to it.
\<close>

section \<open>The driver\<close>

record idestate = bstate +
  hw :: ports
  havedisk1 :: bool
  idequeue :: "nat option"
  qnext :: "nat \<Rightarrow> nat option"

definition FSSIZE :: nat where "FSSIZE = 1000"
definition SECTOR_SIZE :: nat where "SECTOR_SIZE = 512"
definition IDE_BSY :: byte where "IDE_BSY = 0x80"
definition IDE_DRDY :: byte where "IDE_DRDY = 0x40"
definition IDE_DF :: byte where "IDE_DF = 0x20"
definition IDE_ERR :: byte where "IDE_ERR = 0x01"
definition IDE_CMD_READ :: byte where "IDE_CMD_READ = 0x20"
definition IDE_CMD_WRITE :: byte where "IDE_CMD_WRITE = 0x30"
definition IDE_CMD_RDMUL :: byte where "IDE_CMD_RDMUL = 0xc4"
definition IDE_CMD_WRMUL :: byte where "IDE_CMD_WRMUL = 0xc5"

text \<open>A call on the ports within the kernel's state.\<close>

fun on_hw :: "('a, ports) res \<Rightarrow> 'z idestate_scheme \<Rightarrow> ('a, 'z idestate_scheme) res" where
  "on_hw (Ok x h) s = Ok x (s\<lparr>hw := h\<rparr>)"
| "on_hw (Panic m) s = Panic m"
| "on_hw (Swtch h) s = Swtch (s\<lparr>hw := h\<rparr>)"
| "on_hw (Spin h) s = Spin (s\<lparr>hw := h\<rparr>)"

fun ide_poll :: "byte list \<Rightarrow> (byte \<times> byte list) option" where
  "ide_poll [] = None"
| "ide_poll (r # rs) = (if r AND (IDE_BSY OR IDE_DRDY) \<noteq> IDE_DRDY then ide_poll rs else Some (r, rs))"

definition idewait :: "bool \<Rightarrow> ports \<Rightarrow> (int, ports) res" where
  "idewait checkerr h =
     (case ide_poll (inb_in h 0x1f7) of
        None \<Rightarrow> Spin (h\<lparr>inb_in := (inb_in h)(0x1f7 := [])\<rparr>)
      | Some (r, rs) \<Rightarrow>
          Ok (if checkerr \<and> r AND (IDE_DF OR IDE_ERR) \<noteq> 0 then - 1 else 0) (h\<lparr>inb_in := (inb_in h)(0x1f7 := rs)\<rparr>))"

text \<open>The loop of at most 1000 reads that looks for disk 1.\<close>

fun ide_probe :: "nat \<Rightarrow> ports \<Rightarrow> (bool, ports) res" where
  "ide_probe 0 h = Ok False h"
| "ide_probe (Suc n) h = bindR (inb 0x1f7 h) (\<lambda>v h. if v \<noteq> 0 then Ok True h else ide_probe n h)"

definition ideinit :: "'z idestate_scheme \<Rightarrow> (unit, 'z idestate_scheme) res" where
  "ideinit s =
     (let s = initlock L_ide ''ide'' s;
          s = s\<lparr>hw := ioapicenable IRQ_IDE (of_nat (ncpu s) - 1) (hw s)\<rparr> in
      bindR (on_hw (idewait False (hw s)) s) (\<lambda>_ s.
        let s = s\<lparr>hw := outb 0x1f6 (0xe0 OR push_bit 4 1) (hw s)\<rparr> in
        bindR (on_hw (ide_probe 1000 (hw s)) s) (\<lambda>found s.
          let s = (if found then s\<lparr>havedisk1 := True\<rparr> else s) in
          Ok () (s\<lparr>hw := outb 0x1f6 (0xe0 OR push_bit 4 0) (hw s)\<rparr>))))"

definition idestart_ports :: "buf \<Rightarrow> ports \<Rightarrow> (unit, ports) res" where
  "idestart_ports b h =
     (let sector_per_block = BSIZE div SECTOR_SIZE;
          sector = (of_nat (b_blockno b * sector_per_block) :: u32);
          read_cmd = (if sector_per_block = 1 then IDE_CMD_READ else IDE_CMD_RDMUL);
          write_cmd = (if sector_per_block = 1 then IDE_CMD_WRITE else IDE_CMD_WRMUL) in
      if sector_per_block > 7 then Panic ''idestart''
      else bindR (idewait False h) (\<lambda>_ h.
        let h = outb 0x3f6 0 h;
            h = outb 0x1f2 (of_nat sector_per_block) h;
            h = outb 0x1f3 (ucast (sector AND 0xff)) h;
            h = outb 0x1f4 (ucast (drop_bit 8 sector AND 0xff)) h;
            h = outb 0x1f5 (ucast (drop_bit 16 sector AND 0xff)) h;
            h = outb 0x1f6 (0xe0 OR push_bit 4 (of_nat (b_dev b) AND 1) OR ucast (drop_bit 24 sector AND 0x0f)) h in
        Ok () (if b_dirty b then outsl 0x1f0 (b_data b) (BSIZE div 4) (outb 0x1f7 write_cmd h)
               else outb 0x1f7 read_cmd h)))"

definition idestart :: "nat option \<Rightarrow> 'z idestate_scheme \<Rightarrow> (unit, 'z idestate_scheme) res" where
  "idestart bo s =
     (case bo of None \<Rightarrow> Panic ''idestart''
      | Some b \<Rightarrow>
          if b_blockno (buf_at s b) \<ge> FSSIZE then Panic ''incorrect blockno''
          else on_hw (idestart_ports (buf_at s b) (hw s)) s)"

definition ideintr :: "'z idestate_scheme \<Rightarrow> (unit, 'z idestate_scheme) res" where
  "ideintr s =
     bindR (acquire L_ide s) (\<lambda>_ s.
       case idequeue s of None \<Rightarrow> release L_ide s
       | Some b \<Rightarrow>
         let s = s\<lparr>idequeue := qnext s b\<rparr> in
         bindR (if \<not> b_dirty (buf_at s b)
                then bindR (on_hw (idewait True (hw s)) s) (\<lambda>r s.
                     if r \<ge> 0
                     then bindR (on_hw (insl 0x1f0 (BSIZE div 4) (hw s)) s) (\<lambda>d s.
                          Ok () (upd_buf b (\<lambda>x. x\<lparr>b_data := d\<rparr>) s))
                     else Ok () s)
                else Ok () s) (\<lambda>_ s.
         let s = upd_buf b (\<lambda>x. x\<lparr>b_valid := True, b_dirty := False\<rparr>) s in
         bindR (wakeup (Ch_buf b) s) (\<lambda>_ s.
         bindR (if idequeue s \<noteq> None then idestart (idequeue s) s else Ok () s) (\<lambda>_ s.
         release L_ide s))))"

text \<open>
  The walk of \<^verbatim>\<open>pp\<close> to the end of the queue.  There are \<open>NBUF\<close> buffers, so a walk that is longer follows a cycle and does
  not end.
\<close>

fun ide_last :: "nat \<Rightarrow> (nat \<Rightarrow> nat option) \<Rightarrow> nat \<Rightarrow> nat option" where
  "ide_last 0 nx b = None"
| "ide_last (Suc f) nx b = (case nx b of None \<Rightarrow> Some b | Some c \<Rightarrow> ide_last f nx c)"

definition ide_append :: "nat \<Rightarrow> 'z idestate_scheme \<Rightarrow> (unit, 'z idestate_scheme) res" where
  "ide_append b s =
     (let s = s\<lparr>qnext := (qnext s)(b := None)\<rparr> in
      case idequeue s of None \<Rightarrow> Ok () (s\<lparr>idequeue := Some b\<rparr>)
      | Some h \<Rightarrow>
          (case ide_last NBUF (qnext s) h of None \<Rightarrow> Spin s
           | Some l \<Rightarrow> Ok () (s\<lparr>qnext := (qnext s)(l := Some b)\<rparr>)))"

text \<open>One turn of the loop that waits for the request, and the rest of the call.\<close>

definition ide_wait :: "nat \<Rightarrow> 'z idestate_scheme \<Rightarrow> (unit, 'z idestate_scheme) res" where
  "ide_wait b s =
     (if \<not> (b_valid (buf_at s b) \<and> \<not> b_dirty (buf_at s b)) then sleep (Ch_buf b) L_ide s else release L_ide s)"

definition ide_iderw :: "nat \<Rightarrow> 'z idestate_scheme \<Rightarrow> (unit, 'z idestate_scheme) res" where
  "ide_iderw b s =
     bindR (holdingsleep (L_bufsleep b) s) (\<lambda>h s.
       if \<not> h then Panic ''iderw: buf not locked''
       else if b_valid (buf_at s b) \<and> \<not> b_dirty (buf_at s b) then Panic ''iderw: nothing to do''
       else if b_dev (buf_at s b) \<noteq> 0 \<and> \<not> havedisk1 s then Panic ''iderw: ide disk 1 not present''
       else bindR (acquire L_ide s) (\<lambda>_ s.
         bindR (ide_append b s) (\<lambda>_ s.
         bindR (if idequeue s = Some b then idestart (Some b) s else Ok () s) (\<lambda>_ s.
         ide_wait b s))))"

definition ide_iderw_resume :: "nat \<Rightarrow> nat \<Rightarrow> 'z idestate_scheme \<Rightarrow> (unit, 'z idestate_scheme) res" where
  "ide_iderw_resume p b s = bindR (sleep_resume p L_ide s) (\<lambda>_ s. ide_wait b s)"

section \<open>What the drive makes of the port writes\<close>

datatype ide_cmd = ReadSector nat nat | WriteSector nat nat "byte list"

record drive =
  dr_lba0 :: byte
  dr_lba1 :: byte
  dr_lba2 :: byte
  dr_head :: byte
  dr_writing :: bool
  dr_cmds :: "ide_cmd list"

definition dr_unit :: "drive \<Rightarrow> nat" where
  "dr_unit d = unat (drop_bit 4 (dr_head d) AND 1)"

definition dr_sector :: "drive \<Rightarrow> nat" where
  "dr_sector d = unat (dr_lba0 d) + 256 * (unat (dr_lba1 d) + 256 * (unat (dr_lba2 d) + 256 * unat (dr_head d AND 0x0f)))"

fun drive_step :: "drive \<Rightarrow> io \<Rightarrow> drive" where
  "drive_step d (Outb p v) =
     (if p = 0x1f3 then d\<lparr>dr_lba0 := v\<rparr> else if p = 0x1f4 then d\<lparr>dr_lba1 := v\<rparr>
      else if p = 0x1f5 then d\<lparr>dr_lba2 := v\<rparr> else if p = 0x1f6 then d\<lparr>dr_head := v\<rparr>
      else if p = 0x1f7
      then (if v = 0x20 then d\<lparr>dr_cmds := dr_cmds d @ [ReadSector (dr_unit d) (dr_sector d)], dr_writing := False\<rparr>
            else if v = 0x30 then d\<lparr>dr_writing := True\<rparr> else d)
      else d)"
| "drive_step d (Outsl p x) =
     (if p = 0x1f0 \<and> dr_writing d
      then d\<lparr>dr_cmds := dr_cmds d @ [WriteSector (dr_unit d) (dr_sector d) x], dr_writing := False\<rparr> else d)"
| "drive_step d (Mmiow a v) = d"

definition drive_of :: "io list \<Rightarrow> drive" where
  "drive_of xs = foldl drive_step \<lparr>dr_lba0 = 0, dr_lba1 = 0, dr_lba2 = 0, dr_head = 0, dr_writing = False, dr_cmds = []\<rparr> xs"

definition issued :: "'z idestate_scheme \<Rightarrow> ide_cmd list" where
  "issued s = dr_cmds (drive_of (io_log (hw s)))"

definition request :: "buf \<Rightarrow> ide_cmd" where
  "request b = (if b_dirty b then WriteSector (b_dev b mod 2) (b_blockno b) (b_data b)
                else ReadSector (b_dev b mod 2) (b_blockno b))"


section \<open>Starting a request\<close>

definition start_regs :: "nat \<Rightarrow> nat \<Rightarrow> drive \<Rightarrow> drive" where
  "start_regs n u d =
     (let sector = (of_nat n :: u32) in
      d\<lparr>dr_lba0 := ucast (sector AND 0xff), dr_lba1 := ucast (drop_bit 8 sector AND 0xff),
        dr_lba2 := ucast (drop_bit 16 sector AND 0xff),
        dr_head := 0xe0 OR push_bit 4 (of_nat u) OR ucast (drop_bit 24 sector AND 0x0f)\<rparr>)"

lemma sector_bits:
  assumes "n < 2 ^ 32"
  shows "unat (drop_bit k (of_nat n :: u32)) = n div 2 ^ k"
proof -
  have "take_bit 32 n = n" using assms by (simp add: take_bit_nat_eq_self)
  then have "unat (drop_bit k (of_nat n :: u32)) = drop_bit k n" by (simp add: unsigned_drop_bit_eq unsigned_of_nat)
  then show ?thesis by (simp only: drop_bit_eq_div)
qed

lemma sector_byte:
  assumes "n < 2 ^ 32"
  shows "unat (ucast (drop_bit k (of_nat n :: u32) AND 0xff) :: byte) = n div 2 ^ k mod 256"
proof -
  have a: "x AND 0xff = take_bit 8 x" for x :: u32 by (simp add: take_bit_eq_mask mask_eq_exp_minus_1)
  have "unat (ucast (take_bit 8 x) :: byte) = take_bit 8 (unat x)" for x :: u32
    by (simp add: unsigned_ucast_eq unsigned_take_bit_eq)
  then show ?thesis unfolding a by (simp add: sector_bits [OF assms] take_bit_eq_mod)
qed

lemma sector_low:
  assumes "n < FSSIZE"
  shows "drop_bit 16 (of_nat n :: u32) = 0" and "drop_bit 24 (of_nat n :: u32) = 0"
proof -
  have l: "n < 2 ^ 32" using assms by (simp add: FSSIZE_def)
  have "unat (drop_bit 16 (of_nat n :: u32)) = 0" "unat (drop_bit 24 (of_nat n :: u32)) = 0"
    using sector_bits [OF l, of 16] sector_bits [OF l, of 24] assms by (simp_all add: FSSIZE_def)
  then show "drop_bit 16 (of_nat n :: u32) = 0" "drop_bit 24 (of_nat n :: u32) = 0" by (simp_all only: unat_eq_0)
qed

lemma start_regs_decode:
  assumes "n < FSSIZE" and "u < 2"
  shows "dr_sector (start_regs n u d) = n" and "dr_unit (start_regs n u d) = u"
proof -
  have l: "n < 2 ^ 32" using assms(1) by (simp add: FSSIZE_def)
  have n: "unat (ucast ((of_nat n :: u32) AND 0xff) :: byte) = n mod 256" using sector_byte [OF l, of 0] by simp
  have m: "unat (ucast (drop_bit 8 (of_nat n :: u32) AND 0xff) :: byte) = n div 256"
    using sector_byte [OF l, of 8] assms(1) by (simp add: FSSIZE_def)
  have u: "u = 0 \<or> u = 1" using assms(2) by auto
  show "dr_sector (start_regs n u d) = n" using n m u sector_low [OF assms(1)] by (auto simp: dr_sector_def start_regs_def Let_def)
  show "dr_unit (start_regs n u d) = u" using u sector_low [OF assms(1)] by (auto simp: dr_unit_def start_regs_def Let_def)
qed

lemma dev_bit: "(of_nat k :: byte) AND 1 = of_nat (k mod 2)"
proof (cases "even k")
  case True
  then obtain m where "k = 2 * m" by blast
  then show ?thesis by (simp add: and_one_eq mod_2_eq_odd)
next
  case False
  then obtain m where "k = 2 * m + 1" by (rule oddE)
  then show ?thesis by (simp add: and_one_eq mod_2_eq_odd)
qed

text \<open>The port writes of a request.\<close>

definition start_log :: "buf \<Rightarrow> io list" where
  "start_log b =
     (let sector = (of_nat (b_blockno b) :: u32) in
      [Outb 0x3f6 0, Outb 0x1f2 1, Outb 0x1f3 (ucast (sector AND 0xff)), Outb 0x1f4 (ucast (drop_bit 8 sector AND 0xff)),
       Outb 0x1f5 (ucast (drop_bit 16 sector AND 0xff)),
       Outb 0x1f6 (0xe0 OR push_bit 4 (of_nat (b_dev b mod 2)) OR ucast (drop_bit 24 sector AND 0x0f))] @
      (if b_dirty b then [Outb 0x1f7 IDE_CMD_WRITE, Outsl 0x1f0 (b_data b)] else [Outb 0x1f7 IDE_CMD_READ]))"

lemma idestart_ports_eq:
  assumes "ide_poll (inb_in h 0x1f7) = Some (r, rs)" and "length (b_data b) = BSIZE"
  shows "idestart_ports b h = Ok () (h\<lparr>inb_in := (inb_in h)(0x1f7 := rs), io_log := io_log h @ start_log b\<rparr>)"
proof -
  have d: "BSIZE div SECTOR_SIZE = 1" "4 * (BSIZE div 4) = BSIZE" by (simp_all add: BSIZE_def SECTOR_SIZE_def)
  have w: "idewait False h = Ok 0 (h\<lparr>inb_in := (inb_in h)(0x1f7 := rs)\<rparr>)" using assms(1) by (simp add: idewait_def)
  show ?thesis
    unfolding idestart_ports_def w start_log_def Let_def d outb_def outsl_def dev_bit using assms(2) by (cases "b_dirty b") simp_all
qed

lemma drive_regs:
  "foldl drive_step d [Outb 0x3f6 0, Outb 0x1f2 1, Outb 0x1f3 a, Outb 0x1f4 b, Outb 0x1f5 c, Outb 0x1f6 e] =
    d\<lparr>dr_lba0 := a, dr_lba1 := b, dr_lba2 := c, dr_head := e\<rparr>"
  by simp

lemma drive_start:
  assumes "b_blockno b < FSSIZE"
  shows "dr_cmds (foldl drive_step d (start_log b)) = dr_cmds d @ [request b]"
proof -
  define dr where "dr = start_regs (b_blockno b) (b_dev b mod 2) d"
  have dec: "dr_sector dr = b_blockno b" "dr_unit dr = b_dev b mod 2"
    unfolding dr_def using start_regs_decode [OF assms, of "b_dev b mod 2"] by simp_all
  have keep: "dr_sector (dr\<lparr>dr_writing := w\<rparr>) = dr_sector dr" "dr_unit (dr\<lparr>dr_writing := w\<rparr>) = dr_unit dr" for w
    by (simp_all add: dr_sector_def dr_unit_def)
  have c: "dr_cmds dr = dr_cmds d" by (simp add: dr_def start_regs_def Let_def)
  have e: "foldl drive_step d (start_log b) =
      foldl drive_step dr (if b_dirty b then [Outb 0x1f7 IDE_CMD_WRITE, Outsl 0x1f0 (b_data b)] else [Outb 0x1f7 IDE_CMD_READ])"
    unfolding start_log_def Let_def foldl_append drive_regs dr_def start_regs_def ..
  show ?thesis
    unfolding e using dec keep c by (cases "b_dirty b") (simp_all add: IDE_CMD_READ_def IDE_CMD_WRITE_def request_def)
qed


section \<open>The queue as a list\<close>

fun links :: "(nat \<Rightarrow> nat option) \<Rightarrow> nat list \<Rightarrow> bool" where
  "links nx [] = True"
| "links nx [b] = (nx b = None)"
| "links nx (b # c # bs) = (nx b = Some c \<and> links nx (c # bs))"

lemma links_other [simp]: "b \<notin> set q \<Longrightarrow> links (nx(b := v)) q = links nx q"
  by (induction nx q rule: links.induct) auto

lemma links_tl: "links nx (b # bs) \<Longrightarrow> links nx bs \<and> nx b = (case bs of [] \<Rightarrow> None | c # _ \<Rightarrow> Some c)"
  by (cases bs) auto

lemma ide_last_links: "links nx (b # bs) \<Longrightarrow> length (b # bs) \<le> f \<Longrightarrow> ide_last f nx b = Some (last (b # bs))"
  by (induction bs arbitrary: b f) (case_tac f; auto)+

lemma links_append:
  "links nx q \<Longrightarrow> distinct q \<Longrightarrow> q \<noteq> [] \<Longrightarrow> b \<notin> set q \<Longrightarrow> nx b = None \<Longrightarrow> links (nx(last q := Some b)) (q @ [b])"
  by (induction nx q rule: links.induct) auto

text \<open>A buffer that waits for the disk: it has work to do and is in range.\<close>

definition pending :: "buf \<Rightarrow> bool" where
  "pending x \<longleftrightarrow> \<not> (b_valid x \<and> \<not> b_dirty x) \<and> b_blockno x < FSSIZE \<and> length (b_data x) = BSIZE"

text \<open>The state represents the queue \<open>q\<close>, whose head is the request the drive was given last.\<close>

definition ide_ok :: "'z idestate_scheme \<Rightarrow> nat list \<Rightarrow> bool" where
  "ide_ok s q \<longleftrightarrow> idequeue s = (case q of [] \<Rightarrow> None | b # _ \<Rightarrow> Some b) \<and> links (qnext s) q \<and> distinct q \<and>
     length (bufs s) = NBUF \<and> (\<forall>b \<in> set q. b < NBUF \<and> pending (buf_at s b)) \<and>
     (case q of [] \<Rightarrow> True | b # _ \<Rightarrow> issued s \<noteq> [] \<and> last (issued s) = request (buf_at s b))"

lemma ide_ok_short: "ide_ok s q \<Longrightarrow> length q \<le> NBUF"
proof -
  assume a: "ide_ok s q"
  then have "set q \<subseteq> {..<NBUF}" and "distinct q" by (auto simp: ide_ok_def)
  then have "card (set q) \<le> card {..<NBUF}" by (intro card_mono) auto
  then show ?thesis using \<open>distinct q\<close> by (simp add: distinct_card)
qed

lemma ide_ok_cong:
  assumes "idequeue t = idequeue s" "qnext t = qnext s" "bufs t = bufs s" "hw t = hw s"
  shows "ide_ok t q = ide_ok s q"
  using assms by (simp add: ide_ok_def issued_def cong: list.case_cong)

text \<open>Submitting: the buffer goes to the end of the queue.\<close>

definition queued :: "nat \<Rightarrow> nat list \<Rightarrow> 'z idestate_scheme \<Rightarrow> 'z idestate_scheme" where
  "queued b q s = (if q = [] then s\<lparr>qnext := (qnext s)(b := None), idequeue := Some b\<rparr>
                   else s\<lparr>qnext := (qnext s)(b := None, last q := Some b)\<rparr>)"

lemma ide_append_eq:
  assumes "ide_ok s q" and "b \<notin> set q"
  shows "ide_append b s = Ok () (queued b q s)"
proof (cases q)
  case Nil
  then show ?thesis using assms by (simp add: ide_append_def ide_ok_def queued_def)
next
  case (Cons h bs)
  have "links ((qnext s)(b := None)) (h # bs)" using assms Cons by (simp add: ide_ok_def)
  then have "ide_last NBUF ((qnext s)(b := None)) h = Some (last q)"
    using ide_last_links [of "(qnext s)(b := None)" h bs NBUF] ide_ok_short [OF assms(1)] Cons by simp
  then show ?thesis using assms Cons by (simp add: ide_append_def ide_ok_def queued_def)
qed

lemma queued_ok:
  assumes "ide_ok s q" and "b \<notin> set q" and "b < NBUF" and "pending (buf_at s b)" and "q \<noteq> []"
  shows "ide_ok (queued b q s) (q @ [b])"
proof -
  have "links ((qnext s)(b := None, last q := Some b)) (q @ [b])"
    using assms by (intro links_append) (auto simp: ide_ok_def)
  then show ?thesis using assms by (cases q) (auto simp: ide_ok_def queued_def issued_def)
qed

lemma idestart_eq:
  assumes "ide_poll (inb_in (hw s) 0x1f7) = Some (r, rs)" and "pending (buf_at s b)"
  shows "\<exists>t. idestart (Some b) s = Ok () t \<and> t = s\<lparr>hw := hw t\<rparr> \<and> issued t = issued s @ [request (buf_at s b)]"
proof -
  let ?h = "(hw s)\<lparr>inb_in := (inb_in (hw s))(0x1f7 := rs), io_log := io_log (hw s) @ start_log (buf_at s b)\<rparr>"
  have "idestart (Some b) s = Ok () (s\<lparr>hw := ?h\<rparr>)"
    using assms idestart_ports_eq [OF assms(1), of "buf_at s b"] by (simp add: idestart_def pending_def)
  moreover have "issued (s\<lparr>hw := ?h\<rparr>) = issued s @ [request (buf_at s b)]"
    using drive_start [of "buf_at s b"] assms(2) by (simp add: issued_def drive_of_def pending_def)
  ultimately show ?thesis by (intro exI [of _ "s\<lparr>hw := ?h\<rparr>"]) simp
qed


section \<open>Submission and interrupt\<close>

lemma acquired_ide [simp]:
  "bufs (acquired l i s) = bufs s" "hw (acquired l i s) = hw s" "idequeue (acquired l i s) = idequeue s"
  "qnext (acquired l i s) = qnext s" "havedisk1 (acquired l i s) = havedisk1 s"
  by (simp_all add: acquired_def pushed_def)

lemma queued_sel [simp]: "bufs (queued b q s) = bufs s" "hw (queued b q s) = hw s"
  by (simp_all add: queued_def)

lemma queued_acquired: "(queued b q (acquired l i s))\<lparr>hw := h\<rparr> = acquired l i ((queued b q s)\<lparr>hw := h\<rparr>)"
  by (simp add: queued_def acquired_def pushed_def cong: if_cong)

text \<open>The part of a submission under the driver's lock: append, and start the drive if it is idle.\<close>

lemma ide_enqueue:
  assumes "ide_ok s q" and "b \<notin> set q" and "b < NBUF" and "pending (buf_at s b)"
    and "ide_poll (inb_in (hw s) 0x1f7) = Some (r, rs)"
  shows "\<exists>h. bindR (ide_append b s) (\<lambda>_ s. if idequeue s = Some b then idestart (Some b) s else Ok () s) =
      Ok () ((queued b q s)\<lparr>hw := h\<rparr>) \<and>
    ide_ok ((queued b q s)\<lparr>hw := h\<rparr>) (q @ [b]) \<and>
    issued ((queued b q s)\<lparr>hw := h\<rparr>) = issued s @ (if q = [] then [request (buf_at s b)] else [])"
proof (cases "q = []")
  case True
  let ?t = "queued b q s"
  have "\<exists>u. idestart (Some b) ?t = Ok () u \<and> u = ?t\<lparr>hw := hw u\<rparr> \<and> issued u = issued ?t @ [request (buf_at ?t b)]"
    using assms(4,5) by (intro idestart_eq) simp_all
  then obtain u where u: "idestart (Some b) ?t = Ok () u" "u = ?t\<lparr>hw := hw u\<rparr>" "issued u = issued ?t @ [request (buf_at ?t b)]"
    by blast
  have i: "issued ?t = issued s" by (simp add: issued_def)
  have f: "idequeue u = Some b" "qnext u b = None" "bufs u = bufs s"
    by (subst u(2), simp add: queued_def True)+
  have "ide_ok u [b]" using assms(1,3,4) u(3) f by (simp add: ide_ok_def)
  then show ?thesis
    using u i True ide_append_eq [OF assms(1,2)] by (intro exI [of _ "hw u"]) (simp add: queued_def)
next
  case False
  have "idequeue (queued b q s) \<noteq> Some b" using assms(1,2) False by (cases q) (auto simp: queued_def ide_ok_def)
  moreover have "ide_ok ((queued b q s)\<lparr>hw := hw s\<rparr>) (q @ [b])"
    using queued_ok [OF assms(1-4) False] ide_ok_cong [of "(queued b q s)\<lparr>hw := hw s\<rparr>" "queued b q s"] by simp
  ultimately show ?thesis
    using False ide_append_eq [OF assms(1,2)] by (intro exI [of _ "hw s"]) (simp add: issued_def)
qed

lemma sleeping_ide [simp]:
  "bufs (sleeping ch i p (swap_lock l i (acquired l i s))) = bufs s" "hw (sleeping ch i p (swap_lock l i (acquired l i s))) = hw s"
  "idequeue (sleeping ch i p (swap_lock l i (acquired l i s))) = idequeue s"
  "qnext (sleeping ch i p (swap_lock l i (acquired l i s))) = qnext s"
  by (simp_all add: sleeping_def swap_lock_def released_def acquired_def pushed_def)


lemma ide_submit:
  assumes run: "running s i p" and n: "ncli (cpus s ! i) = 0" and q: "ide_ok s q" "b \<notin> set q" "b < NBUF" "pending (buf_at s b)"
    and poll: "ide_poll (inb_in (hw s) 0x1f7) = Some (r, rs)"
    and lk: "sl_locked (slocks s (L_bufsleep b))" "sl_pid (slocks s (L_bufsleep b)) = p_pid (proc_at s p)"
    and dev: "b_dev (buf_at s b) = 0 \<or> havedisk1 s"
  shows "\<exists>t. ide_iderw b s = Swtch t \<and> ide_ok t (q @ [b]) \<and>
    issued t = issued s @ (if q = [] then [request (buf_at s b)] else []) \<and>
    p_state (proc_at t p) = SLEEPING \<and> p_chan (proc_at t p) = Some (Ch_buf b)"
proof -
  let ?a = "acquired L_ide i s"
  have q0: "ide_ok ?a q" using ide_ok_cong [of ?a s q] q(1) by simp
  obtain h where h: "bindR (ide_append b ?a) (\<lambda>_ s. if idequeue s = Some b then idestart (Some b) s else Ok () s) =
      Ok () ((queued b q ?a)\<lparr>hw := h\<rparr>)" "ide_ok ((queued b q ?a)\<lparr>hw := h\<rparr>) (q @ [b])"
    "issued ((queued b q ?a)\<lparr>hw := h\<rparr>) = issued ?a @ (if q = [] then [request (buf_at ?a b)] else [])"
    using ide_enqueue [OF q0 q(2,3), of r rs] q(4) poll by auto
  define s2 where "s2 = (queued b q s)\<lparr>hw := h\<rparr>"
  have e: "(queued b q ?a)\<lparr>hw := h\<rparr> = acquired L_ide i s2" unfolding s2_def by (rule queued_acquired)
  have same: "lapic_id s2 = lapic_id s" "ncpu s2 = ncpu s" "cpus s2 = cpus s" "eflags_IF s2 = eflags_IF s" "locks s2 = locks s"
    "ptable s2 = ptable s" "bufs s2 = bufs s" by (simp_all add: s2_def queued_def)
  have run2: "running s2 i p" using running_cong [of s2 s i p] run same by simp
  let ?t = "sleeping (Ch_buf b) i p (swap_lock L_ide i (acquired L_ide i s2))"
  have "ide_wait b (acquired L_ide i s2) = Swtch ?t"
    using sleep_running [OF run2, of L_ide "Ch_buf b"] n q(4) same by (simp add: ide_wait_def pending_def)
  moreover have "ide_iderw b s = bindR (bindR (ide_append b ?a) (\<lambda>_ s. if idequeue s = Some b then idestart (Some b) s else Ok () s))
      (\<lambda>_. ide_wait b)"
    using q(4) dev lk unfolding ide_iderw_def holdingsleep_ok [OF run] bindR_assoc
    by (auto simp: pending_def acquire_calm [OF running_calm [OF run]])
  ultimately have "ide_iderw b s = Swtch ?t" by (simp add: h(1) e)
  moreover have "ide_ok ?t (q @ [b])" using h(2) ide_ok_cong [of ?t "acquired L_ide i s2"] by (simp add: e)
  moreover have "issued ?t = issued s @ (if q = [] then [request (buf_at s b)] else [])" using h(3) e by (simp add: issued_def)
  moreover have "p < length (ptable (swap_lock L_ide i (acquired L_ide i s2)))"
    using run same by (simp add: running_def swap_lock_def released_def acquired_def pushed_def)
  ultimately show ?thesis by (intro exI [of _ ?t]) (simp add: sleeping_def upd_nth_def)
qed

text \<open>The drive answers \<open>n\<close> times.\<close>

fun polls :: "nat \<Rightarrow> byte list \<Rightarrow> bool" where
  "polls 0 vs = True"
| "polls (Suc n) vs = (case ide_poll vs of None \<Rightarrow> False | Some (r, rs) \<Rightarrow> polls n rs)"

definition ide_error :: "byte list \<Rightarrow> bool" where
  "ide_error vs = (case ide_poll vs of None \<Rightarrow> False | Some (r, rs) \<Rightarrow> r AND (IDE_DF OR IDE_ERR) \<noteq> 0)"

text \<open>The contents of a buffer after its interrupt.\<close>

definition received :: "buf \<Rightarrow> ports \<Rightarrow> byte list" where
  "received x h = (if b_dirty x \<or> ide_error (inb_in h 0x1f7) then b_data x else take BSIZE (insl_in h 0x1f0))"

lemma ide_fetch:
  assumes "polls 2 (inb_in (hw s) 0x1f7)" and "BSIZE \<le> length (insl_in (hw s) 0x1f0)" and "b < length (bufs s)"
  shows "\<exists>h. (if \<not> b_dirty (buf_at s b)
                then bindR (on_hw (idewait True (hw s)) s) (\<lambda>r s.
                     if r \<ge> 0
                     then bindR (on_hw (insl 0x1f0 (BSIZE div 4) (hw s)) s) (\<lambda>d s.
                          Ok () (upd_buf b (\<lambda>x. x\<lparr>b_data := d\<rparr>) s))
                     else Ok () s)
                else Ok () s) = Ok () (upd_buf b (\<lambda>x. x\<lparr>b_data := received (buf_at s b) (hw s)\<rparr>) (s\<lparr>hw := h\<rparr>)) \<and>
    polls 1 (inb_in h 0x1f7) \<and> io_log h = io_log (hw s)"
proof -
  obtain r rs where p: "ide_poll (inb_in (hw s) 0x1f7) = Some (r, rs)" "polls 1 rs"
    using assms(1) by (auto simp: numeral_2_eq_2 split: option.splits)
  have z: "4 * (BSIZE div 4) = BSIZE" by (simp add: BSIZE_def)
  have id: "upd_buf b (\<lambda>x. x\<lparr>b_data := b_data (buf_at s b)\<rparr>) (s\<lparr>hw := h\<rparr>) = s\<lparr>hw := h\<rparr>" for h
    using assms(3) by (simp add: upd_buf_def upd_nth_def)
  let ?h = "(hw s)\<lparr>inb_in := (inb_in (hw s))(0x1f7 := rs)\<rparr>"
  consider "b_dirty (buf_at s b)" | "\<not> b_dirty (buf_at s b)" "r AND (IDE_DF OR IDE_ERR) \<noteq> 0"
    | "\<not> b_dirty (buf_at s b)" "r AND (IDE_DF OR IDE_ERR) = 0" by blast
  then show ?thesis
  proof cases
    case 1
    then show ?thesis using p id [of "hw s"] by (intro exI [of _ "hw s"]) (simp add: received_def)
  next
    case 2
    then show ?thesis using p id [of ?h] by (intro exI [of _ ?h]) (simp add: received_def idewait_def ide_error_def)
  next
    case 3
    then show ?thesis using p assms(2)
      by (intro exI [of _ "?h\<lparr>insl_in := (insl_in (hw s))(0x1f0 := drop BSIZE (insl_in (hw s) 0x1f0))\<rparr>"])
        (simp add: received_def idewait_def ide_error_def insl_def z)
  qed
qed


lemma ide_complete_ok:
  assumes "ide_ok s (b # bs)" and "bufs t = upd_nth b f (bufs s)" and "idequeue t = qnext s b" and "qnext t = qnext s"
    and "case bs of [] \<Rightarrow> True | c # _ \<Rightarrow> issued t \<noteq> [] \<and> last (issued t) = request (buf_at s c)"
  shows "ide_ok t bs"
  using assms links_tl [of "qnext s" b bs] by (cases bs) (auto simp: ide_ok_def nth_upd_nth)

lemma ide_next:
  assumes "idequeue s = (case bs of [] \<Rightarrow> None | c # _ \<Rightarrow> Some c)" and "\<forall>c \<in> set bs. pending (buf_at s c)"
    and "polls 1 (inb_in (hw s) 0x1f7)"
  shows "\<exists>h. (if idequeue s \<noteq> None then idestart (idequeue s) s else Ok () s) = Ok () (s\<lparr>hw := h\<rparr>) \<and>
    issued (s\<lparr>hw := h\<rparr>) = issued s @ (case bs of [] \<Rightarrow> [] | c # _ \<Rightarrow> [request (buf_at s c)])"
proof (cases bs)
  case Nil
  then show ?thesis using assms(1) by (intro exI [of _ "hw s"]) simp
next
  case (Cons c cs)
  obtain r rs where p: "ide_poll (inb_in (hw s) 0x1f7) = Some (r, rs)" using assms(3) by (auto split: option.splits)
  have "pending (buf_at s c)" using assms(2) Cons by simp
  then obtain t where t: "idestart (Some c) s = Ok () t" "t = s\<lparr>hw := hw t\<rparr>" "issued t = issued s @ [request (buf_at s c)]"
    using idestart_eq [OF p] by blast
  have "idestart (Some c) s = Ok () (s\<lparr>hw := hw t\<rparr>)" "issued (s\<lparr>hw := hw t\<rparr>) = issued s @ [request (buf_at s c)]"
    using t(1,3) t(2) [symmetric] by simp_all
  then show ?thesis using assms(1) Cons by (intro exI [of _ "hw t"]) simp
qed

lemma ide_interrupt:
  assumes calm: "calm s i" and q: "ide_ok s (b # bs)" and dev: "polls 2 (inb_in (hw s) 0x1f7)" "BSIZE \<le> length (insl_in (hw s) 0x1f0)"
  shows "\<exists>t. ideintr s = Ok () t \<and> ide_ok t bs \<and>
    issued t = issued s @ (case bs of [] \<Rightarrow> [] | c # _ \<Rightarrow> [request (buf_at s c)]) \<and>
    bufs t = upd_nth b (\<lambda>x. x\<lparr>b_data := received x (hw s), b_valid := True, b_dirty := False\<rparr>) (bufs s) \<and>
    ptable t = wake_tab (Some (Ch_buf b)) (ptable s)"
proof -
  define u where "u = (acquired L_ide i s)\<lparr>idequeue := qnext s b\<rparr>"
  have lb: "b < length (bufs s)" and hd: "idequeue s = Some b" and pend: "\<forall>c \<in> set bs. pending (buf_at s c) \<and> c \<noteq> b"
    using q by (auto simp: ide_ok_def)
  have us: "bufs u = bufs s" "hw u = hw s" by (simp_all add: u_def)
  obtain h where h: "(if \<not> b_dirty (buf_at u b)
                then bindR (on_hw (idewait True (hw u)) u) (\<lambda>r s.
                     if r \<ge> 0
                     then bindR (on_hw (insl 0x1f0 (BSIZE div 4) (hw s)) s) (\<lambda>d s.
                          Ok () (upd_buf b (\<lambda>x. x\<lparr>b_data := d\<rparr>) s))
                     else Ok () s)
                else Ok () u) = Ok () (upd_buf b (\<lambda>x. x\<lparr>b_data := received (buf_at u b) (hw u)\<rparr>) (u\<lparr>hw := h\<rparr>))"
    "polls 1 (inb_in h 0x1f7)" "io_log h = io_log (hw s)"
    using ide_fetch [of u b] dev lb us by auto
  define v where "v = upd_buf b (\<lambda>x. x\<lparr>b_valid := True, b_dirty := False\<rparr>)
    (upd_buf b (\<lambda>x. x\<lparr>b_data := received (buf_at u b) (hw u)\<rparr>) (u\<lparr>hw := h\<rparr>))"
  have vs: "bufs v = upd_nth b (\<lambda>x. x\<lparr>b_data := received x (hw s), b_valid := True, b_dirty := False\<rparr>) (bufs s)"
    "idequeue v = qnext s b" "hw v = h" "qnext v = qnext s"
    using lb by (simp_all add: v_def upd_buf_def u_def upd_nth_def)
  have mach: "lapic_id v = lapic_id s" "ncpu v = ncpu s" "cpus v = cpus (acquired L_ide i s)"
    "eflags_IF v = eflags_IF (acquired L_ide i s)" "locks v = locks (acquired L_ide i s)" "ptable v = ptable s"
    by (simp_all add: v_def upd_buf_def u_def)
  define w where "w = v\<lparr>ptable := wake_tab (Some (Ch_buf b)) (ptable v)\<rparr>"
  have wake: "wakeup (Ch_buf b) v = Ok () w"
    unfolding w_def by (rule wakeup_acquired [OF calm _ mach(1-5)]) simp
  have nx: "idequeue w = (case bs of [] \<Rightarrow> None | c # _ \<Rightarrow> Some c)"
    using links_tl [of "qnext s" b bs] q by (simp add: w_def vs ide_ok_def)
  have wp: "\<forall>c \<in> set bs. pending (buf_at w c)" using pend by (auto simp: w_def vs)
  obtain h' where h': "(if idequeue w \<noteq> None then idestart (idequeue w) w else Ok () w) = Ok () (w\<lparr>hw := h'\<rparr>)"
    "issued (w\<lparr>hw := h'\<rparr>) = issued w @ (case bs of [] \<Rightarrow> [] | c # _ \<Rightarrow> [request (buf_at w c)])"
    using ide_next [OF nx wp] h(2) by (auto simp: w_def vs)
  define t where "t = w\<lparr>hw := h', locks := locks s, cpus := cpus s, eflags_IF := eflags_IF s\<rparr>"
  have rel: "release L_ide (w\<lparr>hw := h'\<rparr>) = Ok () t"
    unfolding t_def using mach by (intro release_calm [OF calm]) (simp_all add: w_def)
  have "ideintr s = Ok () t"
    unfolding ideintr_def acquire_calm [OF calm] bindR.simps acquired_ide hd option.case Let_def u_def [symmetric]
    unfolding h(1) bindR.simps v_def [symmetric] wake h'(1) rel ..
  moreover have iss: "issued t = issued s @ (case bs of [] \<Rightarrow> [] | c # _ \<Rightarrow> [request (buf_at s c)])"
  proof -
    have "issued t = issued (w\<lparr>hw := h'\<rparr>)" and "issued w = issued s" by (simp_all add: issued_def t_def w_def vs h(3))
    moreover have "buf_at w c = buf_at s c" if "c \<in> set bs" for c using pend that by (auto simp: w_def vs)
    ultimately show ?thesis using h'(2) by (cases bs) auto
  qed
  moreover have "ide_ok t bs"
    by (rule ide_complete_ok [OF q, of t "\<lambda>x. x\<lparr>b_data := received x (hw s), b_valid := True, b_dirty := False\<rparr>"])
      (simp_all add: t_def w_def vs iss [unfolded t_def w_def] split: list.splits)
  ultimately show ?thesis by (intro exI [of _ t]) (simp add: t_def w_def vs mach)
qed

text \<open>A read that fails is not reported: the buffer counts as valid, with the contents it had before.\<close>

lemma ide_error_stale:
  assumes "calm s i" and "ide_ok s (b # bs)" and "polls 2 (inb_in (hw s) 0x1f7)" and "BSIZE \<le> length (insl_in (hw s) 0x1f0)"
    and "ide_error (inb_in (hw s) 0x1f7)"
  shows "\<exists>t. ideintr s = Ok () t \<and> b_valid (buf_at t b) \<and> b_data (buf_at t b) = b_data (buf_at s b)"
proof -
  have "b < length (bufs s)" using assms(2) by (simp add: ide_ok_def)
  then show ?thesis using ide_interrupt [OF assms(1-4)] assms(5) by (auto simp: received_def)
qed


section \<open>Properties\<close>

text \<open>
  C35. The driver is a first-in first-out queue in front of the drive.  A submission puts the buffer at the end of the queue, gives the
  drive the buffer's command exactly if the queue was empty, and leaves the caller asleep on the buffer.  An interrupt finishes the head:
  the buffer becomes valid and clean, with the sector the drive delivered if it was a read that did not fail, the sleepers on it
  are woken, and the drive is given the command of the next buffer, if any.  In both cases the linked list represents the new
  queue, and the drive decodes from the port writes just the unit, sector and data of the buffer.
\<close>

theorem ide_fifo:
  assumes "ide_ok s q"
  shows "(\<forall>i p b. running s i p \<and> ncli (cpus s ! i) = 0 \<and> b \<notin> set q \<and> b < NBUF \<and> pending (buf_at s b) \<and>
      polls 1 (inb_in (hw s) 0x1f7) \<and> sl_locked (slocks s (L_bufsleep b)) \<and> sl_pid (slocks s (L_bufsleep b)) = p_pid (proc_at s p) \<and>
      (b_dev (buf_at s b) = 0 \<or> havedisk1 s) \<longrightarrow>
      (\<exists>t. ide_iderw b s = Swtch t \<and> ide_ok t (q @ [b]) \<and>
        issued t = issued s @ (if q = [] then [request (buf_at s b)] else []) \<and>
        p_state (proc_at t p) = SLEEPING \<and> p_chan (proc_at t p) = Some (Ch_buf b))) \<and>
    (\<forall>i b bs. calm s i \<and> q = b # bs \<and> polls 2 (inb_in (hw s) 0x1f7) \<and> BSIZE \<le> length (insl_in (hw s) 0x1f0) \<longrightarrow>
      (\<exists>t. ideintr s = Ok () t \<and> ide_ok t bs \<and>
        issued t = issued s @ (case bs of [] \<Rightarrow> [] | c # _ \<Rightarrow> [request (buf_at s c)]) \<and>
        bufs t = upd_nth b (\<lambda>x. x\<lparr>b_data := received x (hw s), b_valid := True, b_dirty := False\<rparr>) (bufs s) \<and>
        ptable t = wake_tab (Some (Ch_buf b)) (ptable s)))"
proof -
  have "\<exists>r rs. ide_poll vs = Some (r, rs)" if "polls 1 vs" for vs using that by (auto split: option.splits)
  then show ?thesis using ide_submit [OF _ _ assms] ide_interrupt assms by blast
qed

definition demo_ports :: ports where
  "demo_ports = \<lparr>inb_in = (\<lambda>_. [0x40, 0x40]), insl_in = (\<lambda>_. replicate BSIZE 7), mmio_in = (\<lambda>_. []), io_log = []\<rparr>"

definition demo_ide :: idestate where
  "demo_ide = bstate.extend (demo_bstate0\<lparr>slocks := (\<lambda>_. \<lparr>sl_locked = True, sl_name = [], sl_pid = 1\<rparr>)\<rparr>)
     (idestate.fields demo_ports True None (\<lambda>_. None))"

definition demo_busy :: idestate where
  "demo_busy = demo_ide\<lparr>hw := demo_ports\<lparr>io_log := start_log zero_buf\<rparr>, idequeue := Some 0\<rparr>"

lemmas demo_ide_simps = demo_ide_def demo_busy_def bstate.defs idestate.defs demo_ports_def

lemma demo_ide_running: "running demo_ide 0 0" "running demo_busy 0 0" "ncli (cpus demo_ide ! 0) = 0"
  by (simp_all add: demo_ide_simps running_def calm_def int_ok_def on_cpu_def first_idx_def lock_free_def demo_bstate0_def demo_cpu_def)

lemma demo_ide_bufs: "bufs demo_ide = replicate NBUF zero_buf" "bufs demo_busy = replicate NBUF zero_buf" "pending zero_buf" "0 < NBUF"
  by (simp_all add: demo_ide_simps demo_bstate0_def pending_def zero_buf_def FSSIZE_def NBUF_def MAXOPBLOCKS_def)

lemma demo_ide_ok: "ide_ok demo_ide []" "ide_ok demo_busy [0]"
proof -
  show "ide_ok demo_ide []" using demo_ide_bufs by (simp add: ide_ok_def) (simp add: demo_ide_simps)
  have "issued demo_busy = [request zero_buf]"
    using drive_start [of zero_buf] demo_ide_bufs(3) by (simp add: issued_def demo_busy_def drive_of_def pending_def)
  then show "ide_ok demo_busy [0]" using demo_ide_bufs by (simp add: ide_ok_def) (simp add: demo_ide_simps)
qed

theorem ide_fifo_witness:
  "(\<exists>t. ide_iderw 0 demo_ide = Swtch t \<and> ide_ok t [0] \<and> issued t = [ReadSector 0 0]) \<and>
   (\<exists>t. ideintr demo_busy = Ok () t \<and> ide_ok t [] \<and> b_valid (buf_at t 0) \<and> b_data (buf_at t 0) = replicate BSIZE 7)"
proof
  have r: "request zero_buf = ReadSector 0 0" by (simp add: request_def zero_buf_def)
  have i: "issued demo_ide = []" by (simp add: issued_def demo_ide_simps drive_of_def)
  have p: "polls 1 (inb_in (hw demo_ide) 0x1f7)" "polls 2 (inb_in (hw demo_busy) 0x1f7)"
    "BSIZE \<le> length (insl_in (hw demo_busy) 0x1f0)"
    by (simp_all add: demo_ide_simps numeral_2_eq_2 IDE_BSY_def IDE_DRDY_def)
  have l: "sl_locked (slocks demo_ide (L_bufsleep 0))" "sl_pid (slocks demo_ide (L_bufsleep 0)) = p_pid (proc_at demo_ide 0)"
    "b_dev (buf_at demo_ide 0) = 0"
    by (simp_all add: demo_ide_simps demo_bstate0_def demo_proc_def zero_buf_def NBUF_def MAXOPBLOCKS_def)
  have "\<exists>t. ide_iderw 0 demo_ide = Swtch t \<and> ide_ok t ([] @ [0]) \<and>
      issued t = issued demo_ide @ (if [] = [] then [request (buf_at demo_ide 0)] else [])"
    using ide_fifo [OF demo_ide_ok(1), THEN conjunct1, rule_format, of 0 0 0] demo_ide_running p(1) l demo_ide_bufs by auto
  then show "\<exists>t. ide_iderw 0 demo_ide = Swtch t \<and> ide_ok t [0] \<and> issued t = [ReadSector 0 0]"
    using i r demo_ide_bufs by simp
  have e: "received zero_buf (hw demo_busy) = replicate BSIZE 7"
    by (simp add: received_def zero_buf_def demo_ide_simps ide_error_def IDE_BSY_def IDE_DRDY_def IDE_DF_def IDE_ERR_def)
  have "\<exists>t. ideintr demo_busy = Ok () t \<and> ide_ok t [] \<and>
      bufs t = upd_nth 0 (\<lambda>x. x\<lparr>b_data := received x (hw demo_busy), b_valid := True, b_dirty := False\<rparr>) (bufs demo_busy)"
    using ide_fifo [OF demo_ide_ok(2), THEN conjunct2, rule_format, of 0 0 "[]"] running_calm [OF demo_ide_running(2)] p(2,3) by blast
  then show "\<exists>t. ideintr demo_busy = Ok () t \<and> ide_ok t [] \<and> b_valid (buf_at t 0) \<and> b_data (buf_at t 0) = replicate BSIZE 7"
    using e demo_ide_bufs by auto
qed

end
