(* ===== verification/Mp.thy ===== *)
theory Mp
  imports Ports
begin

text \<open>
  Finding the processors (\<^verbatim>\<open>mp.c\<close>): the search for the floating pointer structure that the BIOS leaves in low memory, the
  checks of the configuration table, and the walk over its entries.  The table is related to a list of entries.  The walk has a bound
  on its steps, because an entry of an unknown type keeps it in place forever.
\<close>

section \<open>Search\<close>

record mpstate = mach +
  mp_lapic :: u32
  ioapicid :: byte
  mp_hw :: ports

definition sizeof_mp :: nat where "sizeof_mp = 16"
definition sizeof_mpconf :: nat where "sizeof_mpconf = 44"
definition sizeof_mpproc :: nat where "sizeof_mpproc = 20"
definition sizeof_mpioapic :: nat where "sizeof_mpioapic = 8"
definition MPPROC :: byte where "MPPROC = 0"
definition MPBUS :: byte where "MPBUS = 1"
definition MPIOAPIC :: byte where "MPIOAPIC = 2"
definition MPIOINTR :: byte where "MPIOINTR = 3"
definition MPLINTR :: byte where "MPLINTR = 4"

definition bytes_at :: "memory \<Rightarrow> addr \<Rightarrow> nat \<Rightarrow> byte list" where
  "bytes_at m a n = map (\<lambda>i. m (a + of_nat i)) [0..<n]"

definition mp_sum :: "memory \<Rightarrow> addr \<Rightarrow> nat \<Rightarrow> byte" where
  "mp_sum m a len = of_int (foldl (\<lambda>t b. t + uint b) 0 (bytes_at m a len))"

definition mp_sig :: "byte list" where "mp_sig = [0x5f, 0x4d, 0x50, 0x5f]"
definition pcmp_sig :: "byte list" where "pcmp_sig = [0x50, 0x43, 0x4d, 0x50]"

text \<open>The candidates are the multiples of the size of the structure.\<close>

definition mpsearch1 :: "memory \<Rightarrow> u32 \<Rightarrow> nat \<Rightarrow> addr option" where
  "mpsearch1 m a len =
     find (\<lambda>p. bytes_at m p 4 = mp_sig \<and> mp_sum m p sizeof_mp = 0)
       (map (\<lambda>k. P2V a + of_nat (sizeof_mp * k)) [0..<(len + sizeof_mp - 1) div sizeof_mp])"

definition mpsearch :: "memory \<Rightarrow> addr option" where
  "mpsearch m =
     (let bda = P2V 0x400;
          p = push_bit 4 (push_bit 8 (ucast (m (bda + 0x0F))) OR ucast (m (bda + 0x0E))) :: u32;
          q = (push_bit 8 (ucast (m (bda + 0x14))) OR ucast (m (bda + 0x13))) * 1024 :: u32;
          r = (if p \<noteq> 0 then mpsearch1 m p 1024 else mpsearch1 m (q - 1024) 1024)
      in case r of Some mp \<Rightarrow> Some mp | None \<Rightarrow> mpsearch1 m 0xF0000 0x10000)"

definition mp_physaddr :: "memory \<Rightarrow> addr \<Rightarrow> u32" where "mp_physaddr m mp = load32 m (mp + 4)"
definition mp_imcrp :: "memory \<Rightarrow> addr \<Rightarrow> byte" where "mp_imcrp m mp = m (mp + 12)"
definition conf_length :: "memory \<Rightarrow> addr \<Rightarrow> nat" where
  "conf_length m c = unat (m (c + 4)) + 256 * unat (m (c + 5))"
definition conf_version :: "memory \<Rightarrow> addr \<Rightarrow> byte" where "conf_version m c = m (c + 6)"
definition conf_lapicaddr :: "memory \<Rightarrow> addr \<Rightarrow> u32" where "conf_lapicaddr m c = load32 m (c + 36)"

definition mpconfig :: "memory \<Rightarrow> (addr \<times> addr) option" where
  "mpconfig m =
     (case mpsearch m of None \<Rightarrow> None
      | Some mp \<Rightarrow>
          if mp_physaddr m mp = 0 then None
          else let conf = P2V (mp_physaddr m mp) in
            if bytes_at m conf 4 \<noteq> pcmp_sig then None
            else if conf_version m conf \<noteq> 1 \<and> conf_version m conf \<noteq> 4 then None
            else if mp_sum m conf (conf_length m conf) \<noteq> 0 then None
            else Some (mp, conf))"

section \<open>The table\<close>

definition add_cpu :: "byte \<Rightarrow> 'z mpstate_scheme \<Rightarrow> 'z mpstate_scheme" where
  "add_cpu a s =
     (if ncpu s < NCPU
      then s\<lparr>cpus := upd_nth (ncpu s) (\<lambda>c. c\<lparr>apicid := uint a\<rparr>) (cpus s), ncpu := ncpu s + 1\<rparr> else s)"

text \<open>
  The loop from the entry at \<open>k\<close> bytes into the table.  The result is \<^verbatim>\<open>ismp\<close>; \<open>None\<close> means that \<open>f\<close> steps were not enough.
\<close>

fun mp_scan :: "nat \<Rightarrow> addr \<Rightarrow> nat \<Rightarrow> nat \<Rightarrow> bool \<Rightarrow> 'z mpstate_scheme \<Rightarrow> (bool \<times> 'z mpstate_scheme) option" where
  "mp_scan 0 conf len k ismp s = None"
| "mp_scan (Suc f) conf len k ismp s =
     (if k < len
      then let p = conf + of_nat k; ty = mem s p in
        if ty = MPPROC then mp_scan f conf len (k + sizeof_mpproc) ismp (add_cpu (mem s (p + 1)) s)
        else if ty = MPIOAPIC then mp_scan f conf len (k + sizeof_mpioapic) ismp (s\<lparr>ioapicid := mem s (p + 1)\<rparr>)
        else if ty = MPBUS \<or> ty = MPIOINTR \<or> ty = MPLINTR then mp_scan f conf len (k + 8) ismp s
        else mp_scan f conf len k False s
      else Some (ismp, s))"

definition mp_imcr :: "ports \<Rightarrow> (unit, ports) res" where
  "mp_imcr h = bindR (inb 0x23 (outb 0x22 0x70 h)) (\<lambda>v h. Ok () (outb 0x23 (v OR 1) h))"

definition mpinit :: "nat \<Rightarrow> 'z mpstate_scheme \<Rightarrow> (unit, 'z mpstate_scheme) res option" where
  "mpinit f s =
     (case mpconfig (mem s) of None \<Rightarrow> Some (Panic ''Expect to run on an SMP'')
      | Some (mp, conf) \<Rightarrow>
          (case mp_scan f conf (conf_length (mem s) conf) sizeof_mpconf True (s\<lparr>mp_lapic := conf_lapicaddr (mem s) conf\<rparr>) of
             None \<Rightarrow> None
           | Some (ismp, t) \<Rightarrow>
               Some (if \<not> ismp then Panic ''Didn't find a suitable machine''
                     else if mp_imcrp (mem t) mp \<noteq> 0
                     then (case mp_imcr (mp_hw t) of Ok _ h \<Rightarrow> Ok () (t\<lparr>mp_hw := h\<rparr>) | Panic m \<Rightarrow> Panic m
                           | Swtch h \<Rightarrow> Swtch (t\<lparr>mp_hw := h\<rparr>) | Spin h \<Rightarrow> Spin (t\<lparr>mp_hw := h\<rparr>))
                     else Ok () t)))"

section \<open>The table as a list of entries\<close>

datatype mpentry = MP_proc byte | MP_ioapic byte | MP_other byte

fun entry_size :: "mpentry \<Rightarrow> nat" where
  "entry_size (MP_proc a) = sizeof_mpproc"
| "entry_size (MP_ioapic a) = sizeof_mpioapic"
| "entry_size (MP_other t) = 8"

fun entry_at :: "memory \<Rightarrow> addr \<Rightarrow> mpentry \<Rightarrow> bool" where
  "entry_at m p (MP_proc a) = (m p = MPPROC \<and> m (p + 1) = a)"
| "entry_at m p (MP_ioapic a) = (m p = MPIOAPIC \<and> m (p + 1) = a)"
| "entry_at m p (MP_other t) = (m p = t \<and> t \<in> {MPBUS, MPIOINTR, MPLINTR})"

fun entries_at :: "memory \<Rightarrow> addr \<Rightarrow> nat \<Rightarrow> mpentry list \<Rightarrow> bool" where
  "entries_at m c k [] = True"
| "entries_at m c k (e # es) = (entry_at m (c + of_nat k) e \<and> entries_at m c (k + entry_size e) es)"

definition table_size :: "mpentry list \<Rightarrow> nat" where
  "table_size es = sum_list (map entry_size es)"

fun proc_ids :: "mpentry list \<Rightarrow> byte list" where
  "proc_ids [] = []"
| "proc_ids (MP_proc a # es) = a # proc_ids es"
| "proc_ids (_ # es) = proc_ids es"

fun run_entry :: "mpentry \<Rightarrow> 'z mpstate_scheme \<Rightarrow> 'z mpstate_scheme" where
  "run_entry (MP_proc a) s = add_cpu a s"
| "run_entry (MP_ioapic a) s = s\<lparr>ioapicid := a\<rparr>"
| "run_entry (MP_other t) s = s"

lemma run_entry_mem [simp]: "mem (run_entry e s) = mem s"
  by (cases e) (simp_all add: add_cpu_def)

lemma entry_pos: "0 < entry_size e"
  by (cases e) (simp_all add: sizeof_mpproc_def sizeof_mpioapic_def)

lemmas mp_types = MPPROC_def MPBUS_def MPIOAPIC_def MPIOINTR_def MPLINTR_def

lemma mp_scan_entries:
  "entries_at (mem s) conf k es \<Longrightarrow> k + table_size es \<le> len \<Longrightarrow>
   mp_scan (length es + f) conf len k ismp s = mp_scan f conf len (k + table_size es) ismp (fold run_entry es s)"
proof (induction es arbitrary: k s)
  case Nil
  then show ?case by (simp add: table_size_def)
next
  case (Cons e es)
  have p: "0 < entry_size e" by (rule entry_pos)
  have sz: "k + table_size (e # es) = (k + entry_size e) + table_size es" by (simp add: table_size_def)
  have IH: "mp_scan (length es + f) conf len (k + entry_size e) ismp (run_entry e s) =
      mp_scan f conf len (k + entry_size e + table_size es) ismp (fold run_entry es (run_entry e s))"
    using Cons.prems sz by (intro Cons.IH) simp_all
  show ?case using Cons.prems p IH unfolding sz by (cases e) (auto simp: Let_def mp_types)
qed

lemma mp_scan_all:
  assumes "entries_at (mem s) conf k es" and "length es < f"
  shows "mp_scan f conf (k + table_size es) k ismp s = Some (ismp, fold run_entry es s)"
proof -
  obtain g where f: "f = length es + Suc g" using assms(2) less_imp_Suc_add by fastforce
  show ?thesis unfolding f mp_scan_entries [OF assms(1) order_refl] by simp
qed

lemma mp_scan_mono: "mp_scan f conf len k ismp s = Some r \<Longrightarrow> mp_scan (g + f) conf len k ismp s = Some r"
proof (induction f arbitrary: k ismp s)
  case (Suc f)
  then show ?case by (auto simp: Let_def split: if_splits)
qed simp

lemma fold_entries_keep:
  "mem (fold run_entry es s) = mem s" "mp_lapic (fold run_entry es s) = mp_lapic s" "mp_hw (fold run_entry es s) = mp_hw s"
  by (induction es rule: rev_induct) (simp_all, (case_tac x; simp add: add_cpu_def)+)

text \<open>The CPUs found are those of the table, in its order, as long as there is room for them.\<close>

lemma add_cpu_ids:
  assumes "length (cpus s) = NCPU" and "ncpu s \<le> NCPU"
  shows "map apicid (take (ncpu (add_cpu a s)) (cpus (add_cpu a s))) = take NCPU (map apicid (take (ncpu s) (cpus s)) @ [uint a])"
    and "length (cpus (add_cpu a s)) = NCPU" "ncpu (add_cpu a s) \<le> NCPU"
proof -
  show "map apicid (take (ncpu (add_cpu a s)) (cpus (add_cpu a s))) = take NCPU (map apicid (take (ncpu s) (cpus s)) @ [uint a])"
  proof (cases "ncpu s < NCPU")
    case True
    then show ?thesis using assms by (simp add: add_cpu_def take_Suc_conv_app_nth upd_nth_def)
  next
    case False
    then show ?thesis using assms by (simp add: add_cpu_def)
  qed
qed (use assms in \<open>simp_all add: add_cpu_def\<close>)

lemma take_take_append: "take n (take n xs @ ys) = take n (xs @ ys)"
  by (cases "n \<le> length xs") (simp_all add: min_def)

lemma fold_entries_cpus:
  "length (cpus s) = NCPU \<Longrightarrow> ncpu s \<le> NCPU \<Longrightarrow>
   map apicid (take (ncpu (fold run_entry es s)) (cpus (fold run_entry es s))) =
     take NCPU (map apicid (take (ncpu s) (cpus s)) @ map uint (proc_ids es)) \<and>
   length (cpus (fold run_entry es s)) = NCPU \<and> ncpu (fold run_entry es s) \<le> NCPU"
proof (induction es arbitrary: s)
  case Nil
  then show ?case by simp
next
  case (Cons e es)
  show ?case
  proof (cases e)
    case (MP_proc a)
    have "take NCPU (map apicid (take (ncpu (add_cpu a s)) (cpus (add_cpu a s))) @ map uint (proc_ids es)) =
        take NCPU (map apicid (take (ncpu s) (cpus s)) @ map uint (a # proc_ids es))"
      unfolding add_cpu_ids(1) [OF Cons.prems] take_take_append by simp
    then show ?thesis
      using Cons.IH [OF add_cpu_ids(2,3) [OF Cons.prems], of a] unfolding MP_proc fold_simps run_entry.simps proc_ids.simps by metis
  next
    case (MP_ioapic a)
    then show ?thesis using Cons.IH [of "s\<lparr>ioapicid := a\<rparr>"] Cons.prems by simp
  next
    case (MP_other a)
    then show ?thesis using Cons by simp
  qed
qed

text \<open>An entry of another type is never left: no bound on the steps is enough, and the panic after the loop is not reached.\<close>

lemma mp_scan_stuck:
  assumes "k < len" and "mem s (conf + of_nat k) \<notin> {MPPROC, MPIOAPIC, MPBUS, MPIOINTR, MPLINTR}"
  shows "mp_scan f conf len k ismp s = None"
  using assms by (induction f arbitrary: ismp) (simp_all add: Let_def)

lemma mp_scan_stuck_after:
  assumes "entries_at (mem s) conf k es" and "k + table_size es < len"
    and "mem s (conf + of_nat (k + table_size es)) \<notin> {MPPROC, MPIOAPIC, MPBUS, MPIOINTR, MPLINTR}"
  shows "mp_scan f conf len k ismp s = None"
proof (rule ccontr)
  assume "mp_scan f conf len k ismp s \<noteq> None"
  then obtain r where "mp_scan f conf len k ismp s = Some r" by blast
  then have "mp_scan (length es + f) conf len k ismp s = Some r" by (rule mp_scan_mono)
  then have "mp_scan f conf len (k + table_size es) ismp (fold run_entry es s) = Some r"
    using mp_scan_entries [OF assms(1), of len f ismp] assms(2) by simp
  then show False using mp_scan_stuck [OF assms(2), of "fold run_entry es s" conf f ismp] assms(3) by (simp add: fold_entries_keep)
qed


section \<open>Properties\<close>

text \<open>
  C38. Detection of the processors, on a board without the interrupt mode register (\<open>mp_imcrp\<close> is 0): if the BIOS has left
  a structure and a table that pass the checks, and the table is a sequence
  of entries of the known types, then \<open>mpinit\<close> ends after a step per entry; the CPUs it has recorded are the processors of the
  table in their order, cut at the \<open>NCPU\<close> there is room for, and the local APIC is at the address of the table.  If the walk
  comes to an entry of another type it never ends, whatever the number of steps.
\<close>

theorem mpinit_correct:
  assumes "mpconfig (mem s) = Some (mp, conf)" and "entries_at (mem s) conf sizeof_mpconf es"
    and "mp_imcrp (mem s) mp = 0" and "ncpu s = 0" and "length (cpus s) = NCPU"
  shows "(conf_length (mem s) conf = sizeof_mpconf + table_size es \<longrightarrow>
      (\<exists>t. \<forall>f > length es. mpinit f s = Some (Ok () t) \<and> map apicid (take (ncpu t) (cpus t)) = take NCPU (map uint (proc_ids es)) \<and>
        ncpu t = min NCPU (length (proc_ids es)) \<and> mp_lapic t = conf_lapicaddr (mem s) conf)) \<and>
    (sizeof_mpconf + table_size es < conf_length (mem s) conf \<and>
      mem s (conf + of_nat (sizeof_mpconf + table_size es)) \<notin> {MPPROC, MPIOAPIC, MPBUS, MPIOINTR, MPLINTR} \<longrightarrow>
      (\<forall>f. mpinit f s = None))"
proof (intro conjI impI allI)
  let ?s = "s\<lparr>mp_lapic := conf_lapicaddr (mem s) conf\<rparr>"
  assume len: "conf_length (mem s) conf = sizeof_mpconf + table_size es"
  let ?t = "fold run_entry es ?s"
  have run: "mp_scan f conf (conf_length (mem s) conf) sizeof_mpconf True ?s = Some (True, ?t)" if "length es < f" for f
    unfolding len using that assms(2) by (intro mp_scan_all) simp_all
  have "mpinit f s = Some (Ok () ?t)" if "length es < f" for f
    using assms(1,3) run [OF that] by (simp add: mpinit_def fold_entries_keep)
  moreover have "map apicid (take (ncpu ?t) (cpus ?t)) = take NCPU (map uint (proc_ids es))" "ncpu ?t \<le> length (cpus ?t)"
    using fold_entries_cpus [of ?s es] assms(4,5) by simp_all
  moreover from this have "ncpu ?t = min NCPU (length (proc_ids es))" by (metis length_map length_take min.absorb2 min.commute)
  moreover have "mp_lapic ?t = conf_lapicaddr (mem s) conf" by (simp add: fold_entries_keep)
  ultimately show "\<exists>t. \<forall>f > length es. mpinit f s = Some (Ok () t) \<and> map apicid (take (ncpu t) (cpus t)) = take NCPU (map uint (proc_ids es)) \<and>
      ncpu t = min NCPU (length (proc_ids es)) \<and> mp_lapic t = conf_lapicaddr (mem s) conf" by (intro exI [of _ ?t]) simp
next
  fix f
  assume "sizeof_mpconf + table_size es < conf_length (mem s) conf \<and>
    mem s (conf + of_nat (sizeof_mpconf + table_size es)) \<notin> {MPPROC, MPIOAPIC, MPBUS, MPIOINTR, MPLINTR}"
  then have "mp_scan f conf (conf_length (mem s) conf) sizeof_mpconf True (s\<lparr>mp_lapic := conf_lapicaddr (mem s) conf\<rparr>) = None"
    using mp_scan_stuck_after [of "s\<lparr>mp_lapic := conf_lapicaddr (mem s) conf\<rparr>" conf sizeof_mpconf es] assms(2) by simp
  then show "mpinit f s = None" using assms(1) by (simp add: mpinit_def)
qed

text \<open>A machine with two processors and an I/O APIC; the structure is at \<^verbatim>\<open>0x2000\<close>, where the BIOS data area points, the table at \<^verbatim>\<open>0x1000\<close>.\<close>

definition demo_table :: "byte list" where
  "demo_table = pcmp_sig @ [92, 0, 4, 123] @ replicate 28 0 @ [0, 0, 0xe0, 0xfe] @ replicate 4 0 @
     (0 # 5 # replicate 18 0) @ (0 # 7 # replicate 18 0) @ (2 # 9 # replicate 6 0)"

definition demo_mp :: "byte list" where
  "demo_mp = mp_sig @ [0, 0x10, 0, 0] @ [1, 4, 144, 0] @ replicate 4 0"

definition demo_mem :: memory where
  "demo_mem a = (if a < P2V 0x1000 then if a = P2V 0x40F then 2 else 0
     else if a < P2V 0x1000 + 92 then demo_table ! unat (a - P2V 0x1000)
     else if P2V 0x2000 \<le> a \<and> a < P2V 0x2000 + 16 then demo_mp ! unat (a - P2V 0x2000) else 0)"

definition demo_mpstate :: mpstate where
  "demo_mpstate = \<lparr>lapic_id = 0, eflags_IF = (\<lambda>_. False), cr3 = (\<lambda>_. 0), tr = (\<lambda>_. 0), cpus = replicate NCPU demo_cpu, ncpu = 0,
     locks = (\<lambda>_. \<lparr>lk_locked = False, lk_name = [], lk_cpu = None\<rparr>), mem = demo_mem, mp_lapic = 0, ioapicid = 0,
     mp_hw = \<lparr>inb_in = (\<lambda>_. []), insl_in = (\<lambda>_. []), mmio_in = (\<lambda>_. []), io_log = []\<rparr>\<rparr>"

lemma demo_config: "mpconfig demo_mem = Some (P2V 0x2000, P2V 0x1000)"
  by code_simp

lemma demo_entries:
  "entries_at demo_mem (P2V 0x1000) sizeof_mpconf [MP_proc 5, MP_proc 7, MP_ioapic 9]" "mp_imcrp demo_mem (P2V 0x2000) = 0"
  "conf_length demo_mem (P2V 0x1000) = sizeof_mpconf + table_size [MP_proc 5, MP_proc 7, MP_ioapic 9]"
  by code_simp+

theorem mpinit_correct_witness:
  "\<exists>t. mpinit 4 demo_mpstate = Some (Ok () t) \<and> map apicid (take (ncpu t) (cpus t)) = [5, 7] \<and> ncpu t = 2"
proof -
  let ?es = "[MP_proc 5, MP_proc 7, MP_ioapic 9]"
  have d: "mem demo_mpstate = demo_mem" "ncpu demo_mpstate = 0" "length (cpus demo_mpstate) = NCPU" by (simp_all add: demo_mpstate_def)
  have "\<exists>t. \<forall>f > length ?es. mpinit f demo_mpstate = Some (Ok () t) \<and>
      map apicid (take (ncpu t) (cpus t)) = take NCPU (map uint (proc_ids ?es)) \<and> ncpu t = min NCPU (length (proc_ids ?es)) \<and>
      mp_lapic t = conf_lapicaddr (mem demo_mpstate) (P2V 0x1000)"
    by (rule mpinit_correct [of demo_mpstate "P2V 0x2000" "P2V 0x1000" ?es, THEN conjunct1, rule_format])
      (simp_all only: d demo_config demo_entries)
  then obtain t where t: "mpinit 4 demo_mpstate = Some (Ok () t)"
      "map apicid (take (ncpu t) (cpus t)) = take NCPU (map uint (proc_ids ?es))" "ncpu t = min NCPU (length (proc_ids ?es))"
    by fastforce
  then show ?thesis by (intro exI [of _ t]) (simp add: NCPU_def)
qed

end
