(* ===== verification/Umalloc.thy ===== *)
theory Umalloc
  imports Xv6Prelude
begin

text \<open>
  The user-level storage allocator (\<^verbatim>\<open>umalloc.c\<close>): a circular free list in address order, first fit from the place of the last
  search, joined with its neighbours on \<open>free\<close>.  Memory is counted in units of \<^verbatim>\<open>sizeof(Header)\<close> = 8 bytes: the pointer to a header is
  its unit, the pointer that \<open>malloc\<close> returns is the unit behind it.  The two fields of the headers are functions of the unit.
  The loops have a bound on their steps; \<open>None\<close> says that it was not enough.
\<close>

section \<open>The allocator\<close>

record ualloc =
  hptr :: "nat \<Rightarrow> nat"
  hsize :: "nat \<Rightarrow> nat"
  freep :: "nat option"
  ubase :: nat
  ubrk :: nat
  ulimit :: nat

text \<open>
  The system call that moves the end of the heap, a byte address (\<open>ubrk\<close>): it returns the old end, or fails if there is no
  memory up to the new one.  A move below address 0 leaves the end where it is.
\<close>

definition sbrk :: "int \<Rightarrow> ualloc \<Rightarrow> nat option \<times> ualloc" where
  "sbrk n s =
     (if int (ubrk s) + n > int (ulimit s) then (None, s)
      else if int (ubrk s) + n < 0 then (Some (ubrk s), s)
      else (Some (ubrk s), s\<lparr>ubrk := nat (int (ubrk s) + n)\<rparr>))"

fun free_search :: "nat \<Rightarrow> nat \<Rightarrow> nat \<Rightarrow> ualloc \<Rightarrow> nat option" where
  "free_search 0 bp p s = None"
| "free_search (Suc f) bp p s =
     (if bp > p \<and> bp < hptr s p then Some p
      else if p \<ge> hptr s p \<and> (bp > p \<or> bp < hptr s p) then Some p
      else free_search f bp (hptr s p) s)"

definition ufuel :: "ualloc \<Rightarrow> nat" where
  "ufuel s = ubrk s div 8 + 2"

text \<open>Joining the block with the free block behind it, and with the one in front of it.\<close>

definition ufree_upper :: "nat \<Rightarrow> nat \<Rightarrow> ualloc \<Rightarrow> ualloc" where
  "ufree_upper bp p s =
     (if bp + hsize s bp = hptr s p
      then s\<lparr>hsize := (hsize s)(bp := hsize s bp + hsize s (hptr s p)), hptr := (hptr s)(bp := hptr s (hptr s p))\<rparr>
      else s\<lparr>hptr := (hptr s)(bp := hptr s p)\<rparr>)"

definition ufree_lower :: "nat \<Rightarrow> nat \<Rightarrow> ualloc \<Rightarrow> ualloc" where
  "ufree_lower bp p s =
     (if p + hsize s p = bp
      then s\<lparr>hsize := (hsize s)(p := hsize s p + hsize s bp), hptr := (hptr s)(p := hptr s bp)\<rparr>
      else s\<lparr>hptr := (hptr s)(p := bp)\<rparr>)"

definition ufree :: "nat \<Rightarrow> ualloc \<Rightarrow> ualloc option" where
  "ufree ap s =
     (let bp = ap - 1 in
      case freep s of None \<Rightarrow> None
      | Some q \<Rightarrow> (case free_search (ufuel s) bp q s of None \<Rightarrow> None | Some p \<Rightarrow> Some ((ufree_lower bp p (ufree_upper bp p s))\<lparr>freep := Some p\<rparr>)))"

definition morecore :: "u32 \<Rightarrow> ualloc \<Rightarrow> (nat option \<times> ualloc) option" where
  "morecore nu s =
     (let nu = (if nu < 4096 then 4096 else nu) in
      case sbrk (sint (nu * 8)) s of (None, s) \<Rightarrow> Some (None, s)
      | (Some p, s) \<Rightarrow>
          let hp = p div 8; s = s\<lparr>hsize := (hsize s)(hp := unat nu)\<rparr> in
          (case ufree (hp + 1) s of None \<Rightarrow> None | Some s \<Rightarrow> Some (freep s, s)))"

definition take_units :: "nat \<Rightarrow> nat \<Rightarrow> nat \<Rightarrow> ualloc \<Rightarrow> nat \<times> ualloc" where
  "take_units n prevp p s =
     (let (p, s) = (if hsize s p = n then (p, s\<lparr>hptr := (hptr s)(prevp := hptr s p)\<rparr>)
                    else let s = s\<lparr>hsize := (hsize s)(p := hsize s p - n)\<rparr>; p = p + hsize s p in
                      (p, s\<lparr>hsize := (hsize s)(p := n)\<rparr>))
      in (p + 1, s\<lparr>freep := Some prevp\<rparr>))"

fun malloc_loop :: "nat \<Rightarrow> u32 \<Rightarrow> nat \<Rightarrow> nat \<Rightarrow> ualloc \<Rightarrow> (nat option \<times> ualloc) option" where
  "malloc_loop 0 n prevp p s = None"
| "malloc_loop (Suc f) n prevp p s =
     (if hsize s p \<ge> unat n then (case take_units (unat n) prevp p s of (r, s) \<Rightarrow> Some (Some r, s))
      else if Some p = freep s
      then (case morecore n s of None \<Rightarrow> None
            | Some (None, s) \<Rightarrow> Some (None, s)
            | Some (Some p, s) \<Rightarrow> malloc_loop f n p (hptr s p) s)
      else malloc_loop f n p (hptr s p) s)"

definition nunits :: "u32 \<Rightarrow> u32" where
  "nunits nbytes = (nbytes + 8 - 1) div 8 + 1"

definition malloc_start :: "ualloc \<Rightarrow> nat \<times> ualloc" where
  "malloc_start s =
     (case freep s of Some q \<Rightarrow> (q, s)
      | None \<Rightarrow> (ubase s, s\<lparr>hptr := (hptr s)(ubase s := ubase s), freep := Some (ubase s), hsize := (hsize s)(ubase s := 0)\<rparr>))"

definition malloc :: "u32 \<Rightarrow> ualloc \<Rightarrow> (nat option \<times> ualloc) option" where
  "malloc nbytes s = (case malloc_start s of (q, s) \<Rightarrow> malloc_loop (2 * ufuel s + 4) (nunits nbytes) q (hptr s q) s)"

section \<open>Circular lists\<close>

fun path :: "(nat \<Rightarrow> nat) \<Rightarrow> nat \<Rightarrow> nat list \<Rightarrow> nat \<Rightarrow> bool" where
  "path nx x [] z = (nx x = z)"
| "path nx x (y # ys) z = (nx x = y \<and> path nx y ys z)"

fun circ :: "(nat \<Rightarrow> nat) \<Rightarrow> nat list \<Rightarrow> bool" where
  "circ nx [] = False"
| "circ nx (x # xs) = path nx x xs x"

lemma path_append [simp]: "path nx x (xs @ p # ys) z = (path nx x xs p \<and> path nx p ys z)"
  by (induction xs arbitrary: x) auto

lemma path_upd [simp]: "p \<noteq> x \<Longrightarrow> p \<notin> set xs \<Longrightarrow> path (nx(p := v)) x xs z = path nx x xs z"
  by (induction xs arbitrary: x) auto

lemma circ_rotate: "circ nx (xs @ ys) \<Longrightarrow> circ nx (ys @ xs)"
proof (cases xs)
  case (Cons a as)
  then show "circ nx (xs @ ys) \<Longrightarrow> circ nx (ys @ xs)" by (cases ys) simp_all
qed simp

lemma circ_remove: "circ nx (r # p # vs) \<Longrightarrow> distinct (r # p # vs) \<Longrightarrow> circ (nx(r := nx p)) (r # vs)"
  by (cases vs) auto

lemma circ_insert:
  assumes "circ nx (p # ys)" and "b \<notin> set (p # ys)" and "distinct (p # ys)"
  shows "circ (nx(b := nx p, p := b)) (p # b # ys)"
  using assms by (cases ys) auto

lemma circ_replace:
  assumes "circ nx (p # y # ys)" and "b \<notin> set (p # y # ys)" and "distinct (p # y # ys)"
  shows "circ (nx(b := nx y, p := b)) (p # b # ys)"
  using assms by (cases ys) auto

lemma circ_upd: "b \<notin> set ns \<Longrightarrow> circ (nx(b := v)) ns = circ nx ns"
  by (cases ns) auto

section \<open>Invariant\<close>

definition blk :: "ualloc \<Rightarrow> nat \<Rightarrow> nat set" where
  "blk s a = {a..<a + hsize s a}"

text \<open>The blocks at \<open>S\<close> tile the units from \<open>h\<close> to \<open>e\<close>.\<close>

definition tiles :: "ualloc \<Rightarrow> nat set \<Rightarrow> nat \<Rightarrow> nat \<Rightarrow> bool" where
  "tiles s S h e \<longleftrightarrow> (\<forall>a \<in> S. 0 < hsize s a) \<and> (\<forall>a \<in> S. \<forall>b \<in> S. a \<noteq> b \<longrightarrow> blk s a \<inter> blk s b = {}) \<and> (\<Union>a \<in> S. blk s a) = {h..<e}"

text \<open>The free list holds \<^verbatim>\<open>base\<close>, of size 0, and the free blocks in address order, no two of them adjacent.\<close>

definition freelist :: "ualloc \<Rightarrow> nat list \<Rightarrow> bool" where
  "freelist s as \<longleftrightarrow> circ (hptr s) (ubase s # as) \<and> sorted_wrt (\<lambda>a b. a + hsize s a < b) (ubase s # as) \<and>
     hsize s (ubase s) = 0 \<and> (\<exists>q \<in> set (ubase s # as). freep s = Some q)"

lemma tiles_order:
  assumes "tiles s S h e" and "a \<in> S" and "b \<in> S" and "a < b"
  shows "a + hsize s a \<le> b"
proof (rule ccontr)
  assume "\<not> a + hsize s a \<le> b"
  moreover have "0 < hsize s b" using assms by (simp add: tiles_def)
  ultimately have "b \<in> blk s a \<inter> blk s b" using assms(4) by (simp add: blk_def)
  moreover have "blk s a \<inter> blk s b = {}" using assms by (simp add: tiles_def)
  ultimately show False by simp
qed

lemma tiles_range:
  assumes "tiles s S h e" and "a \<in> S"
  shows "h \<le> a" "a + hsize s a \<le> e"
proof -
  have pos: "0 < hsize s a" using assms by (simp add: tiles_def)
  have "blk s a \<subseteq> {h..<e}" using assms by (auto simp: tiles_def)
  moreover have "a \<in> blk s a" "a + hsize s a - 1 \<in> blk s a" using pos by (auto simp: blk_def)
  ultimately have "a \<in> {h..<e}" "a + hsize s a - 1 \<in> {h..<e}" by blast+
  then show "h \<le> a" "a + hsize s a \<le> e" using pos by auto
qed

lemma tiles_merge:
  assumes "tiles s S h e" and "a \<in> S" and "b \<in> S" and "a + hsize s a = b" and "hsize t = (hsize s)(a := hsize s a + hsize s b)"
  shows "tiles t (S - {b}) h e"
proof -
  have pos: "0 < hsize s a" "0 < hsize s b" using assms by (auto simp: tiles_def)
  have ab: "blk t a = blk s a \<union> blk s b" and ne: "a \<noteq> b" using assms(4,5) pos by (auto simp: blk_def)
  have other: "blk t c = blk s c" if "c \<noteq> a" for c using that assms(5) by (simp add: blk_def)
  have "blk t c \<inter> blk t d = {}" if cd: "c \<in> S - {b}" "d \<in> S - {b}" "c \<noteq> d" for c d
  proof -
    have "blk s x \<inter> blk s y = {}" if "x \<in> S" "y \<in> S" "x \<noteq> y" for x y using assms(1) that by (simp add: tiles_def)
    then show ?thesis using cd assms(2,3) ab other by (cases "c = a"; cases "d = a") (simp_all add: Int_Un_distrib Int_Un_distrib2)
  qed
  moreover have "(\<Union>c \<in> S - {b}. blk t c) = (\<Union>c \<in> S. blk s c)"
  proof -
    have "(\<Union>c \<in> S - {b}. blk t c) = blk t a \<union> (\<Union>c \<in> S - {b} - {a}. blk t c)" using assms(2) ne by blast
    also have "\<dots> = blk s a \<union> blk s b \<union> (\<Union>c \<in> S - {b} - {a}. blk s c)" using ab other by simp
    also have "\<dots> = (\<Union>c \<in> S. blk s c)" using assms(2,3) by blast
    finally show ?thesis .
  qed
  moreover have "\<forall>c \<in> S - {b}. 0 < hsize t c" using assms(1,5) pos by (auto simp: tiles_def)
  ultimately show ?thesis using assms(1) by (simp add: tiles_def)
qed

lemma tiles_cong: "hsize t = hsize s \<Longrightarrow> tiles t S h e = tiles s S h e"
  by (simp add: tiles_def blk_def)

section \<open>Freeing\<close>

lemma sorted_nodes: "sorted_wrt (\<lambda>a b. a + hsize s a < b) ns \<Longrightarrow> sorted_wrt (<) ns"
  by (induction ns) auto

lemma sorted_wrt_distinct: "sorted_wrt (<) (ns :: nat list) \<Longrightarrow> distinct ns"
  by (induction ns) auto

text \<open>The node before \<open>bp\<close> in address order.\<close>

lemma split_at:
  fixes ns :: "nat list"
  assumes "sorted_wrt (<) ns" and "ns \<noteq> []" and "hd ns < bp" and "bp \<notin> set ns"
  obtains xs p ys where "ns = xs @ p # ys" "p < bp" "\<forall>y \<in> set ys. bp < y"
proof -
  let ?us = "takeWhile (\<lambda>x. x < bp) ns"
  let ?ys = "dropWhile (\<lambda>x. x < bp) ns"
  have ne: "?us \<noteq> []" using assms(2,3) by (cases ns) auto
  have "ns = butlast ?us @ last ?us # ?ys" using ne by (metis append_assoc append_Cons append_Nil append_butlast_last_id takeWhile_dropWhile_id)
  moreover have "last ?us < bp" using ne by (meson last_in_set set_takeWhileD)
  moreover have "\<forall>y \<in> set ?ys. bp < y"
  proof (cases ?ys)
    case (Cons z zs)
    have "bp \<le> z" using Cons by (simp add: dropWhile_eq_Cons_conv)
    moreover have "z \<noteq> bp" using assms(4) Cons by (metis set_dropWhileD list.set_intros(1))
    moreover have "sorted_wrt (<) ?ys" using assms(1) by (metis sorted_wrt_append takeWhile_dropWhile_id)
    ultimately show ?thesis using Cons by fastforce
  next
    case Nil
    then show ?thesis by (simp only: list.set empty_iff) simp
  qed
  ultimately show ?thesis by (rule that)
qed

lemma free_walk:
  assumes "path (hptr s) x zs z" and "\<forall>y \<in> set (x # zs). \<not> (bp > y \<and> bp < hptr s y) \<and> \<not> (y \<ge> hptr s y \<and> (bp > y \<or> bp < hptr s y))"
  shows "free_search (Suc (length zs) + f) bp x s = free_search f bp z s"
  using assms by (induction zs arbitrary: x) auto

lemma path_next: "path nx x zs z \<Longrightarrow> y \<in> set (x # zs) \<Longrightarrow> nx y \<in> set (zs @ [z])"
  by (induction zs arbitrary: x) auto

lemma path_next_sorted: "path nx x zs z \<Longrightarrow> sorted_wrt (<) (x # zs @ [z]) \<Longrightarrow> y \<in> set (x # zs) \<Longrightarrow> y < (nx y :: nat)"
  by (induction zs arbitrary: x) auto

lemma path_up: "path nx x zs z \<Longrightarrow> sorted_wrt (<) (x # zs) \<Longrightarrow> y \<in> set (x # zs) \<Longrightarrow> nx y = z \<or> y < (nx y :: nat)"
  by (induction zs arbitrary: x) auto

text \<open>The places of a node in the ring.\<close>

lemma circ_path:
  assumes "circ nx (xs @ p # ys)"
  shows "path nx p (ys @ xs) p" and "ys = [] \<Longrightarrow> nx p = hd (xs @ [p])" and "ys = y # zs \<Longrightarrow> nx p = y"
    and "xs = us @ q # vs \<Longrightarrow> path nx q vs p" and "ys = us @ q # vs \<Longrightarrow> path nx q vs (hd (xs @ [p]))"
proof -
  show pp: "path nx p (ys @ xs) p" using circ_rotate [OF assms] by simp
  then show "ys = [] \<Longrightarrow> nx p = hd (xs @ [p])" "ys = y # zs \<Longrightarrow> nx p = y" by (cases xs; simp)+
  show "path nx q vs p" if "xs = us @ q # vs" using pp that path_append [of nx p "ys @ us" q vs p] by simp
  show "path nx q vs (hd (xs @ [p]))" if "ys = us @ q # vs"
  proof (cases xs)
    case Nil
    then show ?thesis using pp that by simp
  next
    case (Cons x xs')
    then show ?thesis using pp that path_append [of nx p "us @ q # vs" x xs' p] by simp
  qed
qed

lemma free_search_up:
  assumes "circ (hptr s) (xs @ p # ys)" and "sorted_wrt (<) (xs @ p # ys)" and "p < bp" and "\<forall>y \<in> set ys. bp < y"
    and "q \<in> set (xs @ [p])" and "length xs < f"
  shows "free_search f bp q s = Some p"
proof -
  have stop: "free_search (Suc g) bp p s = Some p" for g
  proof (cases ys)
    case Nil
    have "hd (xs @ [p]) \<le> p" using assms(2) by (cases xs) auto
    then show ?thesis using circ_path(2) [OF assms(1) Nil] assms(3) by simp
  next
    case (Cons y zs)
    then show ?thesis using circ_path(3) [OF assms(1) Cons] assms(3,4) by simp
  qed
  show ?thesis
  proof (cases "q \<in> set xs")
    case True
    then obtain us vs where xs: "xs = us @ q # vs" by (meson split_list)
    have path: "path (hptr s) q vs p" by (rule circ_path(4) [OF assms(1) xs])
    have srt: "sorted_wrt (<) (q # vs @ [p])" using assms(2) xs by (simp add: sorted_wrt_append)
    have "y < hptr s y \<and> hptr s y \<le> p" if "y \<in> set (q # vs)" for y
      using path_next_sorted [OF path srt that] path_next [OF path that] srt by (auto simp: sorted_wrt_append)
    then have "free_search (Suc (length vs) + Suc g) bp q s = free_search (Suc g) bp p s" for g
      using assms(3) by (intro free_walk [OF path]) fastforce
    moreover obtain g where "f = Suc (length vs) + Suc g"
      using assms(6) xs less_imp_Suc_add [of "Suc (length vs)" f] by fastforce
    ultimately show ?thesis using stop by simp
  next
    case False
    then show ?thesis using assms(5,6) stop by (cases f) auto
  qed
qed

lemma free_search_finds:
  assumes "circ (hptr s) (xs @ p # ys)" and "sorted_wrt (<) (xs @ p # ys)" and "p < bp" and "\<forall>y \<in> set ys. bp < y"
    and "q \<in> set (xs @ p # ys)" and "length (xs @ p # ys) < f"
  shows "free_search f bp q s = Some p"
proof (cases "q \<in> set ys")
  case True
  then obtain us vs where ys: "ys = us @ q # vs" by (meson split_list)
  let ?b = "hd (xs @ [p])"
  have path: "path (hptr s) q vs ?b" by (rule circ_path(5) [OF assms(1) ys])
  have b: "?b \<le> p" using assms(2) by (cases xs) auto
  have srt: "sorted_wrt (<) (q # vs)" using assms(2) ys by (simp add: sorted_wrt_append)
  have "bp < y \<and> (hptr s y = ?b \<or> y < hptr s y)" if y: "y \<in> set (q # vs)" for y
  proof -
    have "hptr s y = ?b \<or> y < hptr s y" by (rule path_up [OF path srt y])
    then show ?thesis using y ys assms(4) by auto
  qed
  then have "free_search (Suc (length vs) + g) bp q s = free_search g bp ?b s" for g
    using assms(3) b by (intro free_walk [OF path]) fastforce
  moreover obtain g where "f = Suc (length vs) + g" "length xs < g"
    using assms(6) ys by (intro that [of "f - Suc (length vs)"]) auto
  moreover have "?b \<in> set (xs @ [p])" by (cases xs) auto
  ultimately show ?thesis using free_search_up [OF assms(1-4)] by simp
next
  case False
  then show ?thesis using assms by (intro free_search_up) auto
qed

lemma path_from: "path nx x zs z \<Longrightarrow> b \<notin> set zs \<Longrightarrow> path (nx(b := nx x)) b zs z"
  by (cases zs) auto

text \<open>The part of the ring behind \<open>bp\<close> after the first join.\<close>

lemma upper_ok:
  assumes c: "circ (hptr s) (xs @ p # ys)" and srt: "sorted_wrt (\<lambda>a b. a + hsize s a < b) (xs @ p # ys)"
    and tl: "tiles s S h e" "bp \<in> S" "set ys \<subseteq> S" and bp: "bp \<notin> set (xs @ p # ys)" "p < bp" "\<forall>y \<in> set ys. bp < y"
  shows "\<exists>ys'. path (hptr (ufree_upper bp p s)) bp (ys' @ xs) p \<and> tiles (ufree_upper bp p s) (S - (set ys - set ys')) h e \<and>
    set ys' \<subseteq> set ys \<and> length ys' \<le> length ys \<and> sorted_wrt (\<lambda>a b. a + hsize (ufree_upper bp p s) a < b) (xs @ p # ys') \<and>
    (\<forall>y \<in> set ys'. bp + hsize (ufree_upper bp p s) bp < y) \<and> hsize s bp \<le> hsize (ufree_upper bp p s) bp"
proof -
  let ?t = "ufree_upper bp p s"
  have pp: "path (hptr s) p (ys @ xs) p" by (rule circ_path(1) [OF c])
  have lt: "sorted_wrt (<) (xs @ p # ys)" by (rule sorted_nodes [OF srt])
  have le: "bp + hsize s bp \<le> y" if "y \<in> set ys" for y using tiles_order [OF tl(1,2)] tl(3) bp(3) that by blast
  show ?thesis
  proof (cases "bp + hsize s bp = hptr s p")
    case False
    then have t: "hsize ?t = hsize s" "hptr ?t = (hptr s)(bp := hptr s p)" by (simp_all add: ufree_upper_def)
    have "bp + hsize s bp < y" if y: "y \<in> set ys" for y
    proof (cases ys)
      case (Cons z zs)
      have "bp + hsize s bp < z" using False le [of z] circ_path(3) [OF c Cons] Cons by simp
      moreover have "z \<le> y" using lt y Cons by (auto simp: sorted_wrt_append)
      ultimately show ?thesis by simp
    qed (use y in simp)
    moreover have "path ((hptr s)(bp := hptr s p)) bp (ys @ xs) p" using bp(1) by (intro path_from [OF pp]) auto
    ultimately show ?thesis using srt tl(1) by (intro exI [of _ ys]) (simp add: t tiles_cong [OF t(1)])
  next
    case True
    have "ys \<noteq> []"
    proof
      assume "ys = []"
      then have "hptr s p = hd (xs @ [p])" by (rule circ_path(2) [OF c])
      moreover have "hd (xs @ [p]) \<le> p" using lt by (cases xs) auto
      ultimately show False using True bp(2) by simp
    qed
    then obtain z zs where ys: "ys = z # zs" by (cases ys) auto
    have z: "hptr s p = z" by (rule circ_path(3) [OF c ys])
    have t: "hsize ?t = (hsize s)(bp := hsize s bp + hsize s z)" "hptr ?t = (hptr s)(bp := hptr s z)"
      using True z by (simp_all add: ufree_upper_def)
    have "path (hptr s) z (zs @ xs) p" using pp ys z by simp
    then have "path (hptr ?t) bp (zs @ xs) p" using path_from [of "hptr s" z "zs @ xs" p bp] bp(1) ys t(2) by simp
    moreover have "tiles ?t (S - {z}) h e" using tiles_merge [OF tl(1,2) _ _ t(1)] tl(3) ys True z by simp
    moreover have "set ys - set zs = {z}" using sorted_wrt_distinct [OF lt] ys by auto
    moreover have "\<forall>y \<in> set zs. z + hsize s z < y" "sorted_wrt (\<lambda>a b. a + hsize s a < b) (xs @ p # zs)"
      using srt ys by (simp_all add: sorted_wrt_append)
    moreover have "sorted_wrt (\<lambda>a b. a + hsize ?t a < b) (xs @ p # zs)"
      using \<open>sorted_wrt (\<lambda>a b. a + hsize s a < b) (xs @ p # zs)\<close> bp(1) ys t(1)
      by (intro sorted_wrt_mono_rel [of _ "\<lambda>a b. a + hsize s a < b" "\<lambda>a b. a + hsize ?t a < b"]) auto
    ultimately show ?thesis using True z ys by (intro exI [of _ zs]) (auto simp: t)
  qed
qed

lemma lower_ok:
  assumes path: "path (hptr s) bp (ys @ xs) p" and srt: "sorted_wrt (\<lambda>a b. a + hsize s a < b) (xs @ p # ys)"
    and tl: "tiles s S h e" "bp \<in> S" and bp: "bp \<notin> set (xs @ p # ys)" "\<forall>y \<in> set ys. bp + hsize s bp < y"
    and p: "p + hsize s p \<le> bp" "p + hsize s p = bp \<Longrightarrow> p \<in> S"
  shows "\<exists>zs. circ (hptr (ufree_lower bp p s)) (xs @ p # zs) \<and> sorted_wrt (\<lambda>a b. a + hsize (ufree_lower bp p s) a < b) (xs @ p # zs) \<and>
    (zs = bp # ys \<and> hsize (ufree_lower bp p s) = hsize s \<or>
     zs = ys \<and> p \<in> S \<and> hsize (ufree_lower bp p s) = (hsize s)(p := hsize s p + hsize s bp) \<and> tiles (ufree_lower bp p s) (S - {bp}) h e)"
proof -
  let ?t = "ufree_lower bp p s"
  have lt: "sorted_wrt (<) (xs @ p # ys)" by (rule sorted_nodes [OF srt])
  then have np: "p \<notin> set (ys @ xs)" using sorted_wrt_distinct by fastforce
  have pos: "0 < hsize s bp" using tl by (simp add: tiles_def)
  have xp: "a + hsize s a < bp" if "a \<in> set xs" for a
  proof -
    have "a + hsize s a < p" using srt that by (auto simp: sorted_wrt_append)
    then show ?thesis using p(1) by simp
  qed
  show ?thesis
  proof (cases "p + hsize s p = bp")
    case True
    then have t: "hsize ?t = (hsize s)(p := hsize s p + hsize s bp)" "hptr ?t = (hptr s)(p := hptr s bp)" by (simp_all add: ufree_lower_def)
    have "circ (hptr ?t) (p # ys @ xs)" unfolding t circ.simps by (rule path_from [OF path np])
    then have "circ (hptr ?t) (xs @ p # ys)" using circ_rotate [of "hptr ?t" "p # ys" xs] by simp
    moreover have "tiles ?t (S - {bp}) h e" by (rule tiles_merge [OF tl(1) p(2) [OF True] tl(2) True t(1)])
    moreover have "sorted_wrt (\<lambda>a b. a + hsize ?t a < b) (xs @ p # ys)"
      using srt bp(2) True lt by (auto simp: sorted_wrt_append t intro!: sorted_wrt_mono_rel [of _ "\<lambda>a b. a + hsize s a < b"])
    ultimately show ?thesis using t(1) p(2) [OF True] by blast
  next
    case False
    then have t: "hsize ?t = hsize s" "hptr ?t = (hptr s)(p := bp)" by (simp_all add: ufree_lower_def)
    have "path ((hptr s)(p := bp)) p (bp # ys @ xs) p" using path np bp(1) by simp
    then have "circ (hptr ?t) ((p # bp # ys) @ xs)" by (simp add: t)
    then have "circ (hptr ?t) (xs @ p # bp # ys)" using circ_rotate by fastforce
    moreover have "p + hsize s p < bp" using False p(1) by simp
    then have "sorted_wrt (\<lambda>a b. a + hsize ?t a < b) (xs @ p # bp # ys)"
      using srt bp(2) xp by (auto simp: sorted_wrt_append t)
    ultimately show ?thesis using t(1) by blast
  qed
qed

lemma free_list_short:
  assumes "freelist s as" and "tiles s S h e" and "set as \<subseteq> S" and "ubase s < h"
  shows "length as < e \<or> as = []"
proof -
  have "distinct as" using assms(1) sorted_wrt_distinct [OF sorted_nodes [of s as]] by (simp add: freelist_def)
  moreover have "set as \<subseteq> {h..<e}"
  proof
    fix a assume "a \<in> set as"
    then have "a \<in> S" "0 < hsize s a" using assms(2,3) by (auto simp: tiles_def)
    then show "a \<in> {h..<e}" using tiles_range [OF assms(2), of a] by auto
  qed
  ultimately have "length as \<le> card {h..<e}" by (metis card_mono distinct_card finite_atLeastLessThan)
  then show ?thesis using assms(4) by (cases as) auto
qed

lemma upper_same:
  "freep (ufree_upper bp p s) = freep s" "ubase (ufree_upper bp p s) = ubase s" "ubrk (ufree_upper bp p s) = ubrk s"
  "ulimit (ufree_upper bp p s) = ulimit s" "a \<noteq> bp \<Longrightarrow> hsize (ufree_upper bp p s) a = hsize s a"
  by (simp_all add: ufree_upper_def)

lemma lower_same:
  "ubase (ufree_lower bp p s) = ubase s" "ubrk (ufree_lower bp p s) = ubrk s" "ulimit (ufree_lower bp p s) = ulimit s"
  by (simp_all add: ufree_lower_def)

lemma ufree_ok:
  assumes fl: "freelist s as" and tl: "tiles s (insert bp (set as \<union> A)) h e" and new: "bp \<notin> set as \<union> A" "set as \<inter> A = {}"
    and base: "ubase s < h" "e \<le> ubrk s div 8"
  shows "\<exists>t bs. ufree (Suc bp) s = Some t \<and> freelist t bs \<and> tiles t (set bs \<union> A) h e \<and> set bs \<inter> A = {} \<and>
    (\<forall>a \<in> A. hsize t a = hsize s a) \<and> (\<exists>c \<in> set bs. hsize s bp \<le> hsize t c) \<and>
    ubase t = ubase s \<and> ubrk t = ubrk s \<and> ulimit t = ulimit s \<and> length bs \<le> Suc (length as)"
proof -
  let ?S = "insert bp (set as \<union> A)"
  let ?ns = "ubase s # as"
  have c: "circ (hptr s) ?ns" and srt: "sorted_wrt (\<lambda>a b. a + hsize s a < b) ?ns" and z: "hsize s (ubase s) = 0"
    and q: "\<exists>q \<in> set ?ns. freep s = Some q" using fl by (auto simp: freelist_def)
  have bph: "h \<le> bp" using tiles_range(1) [OF tl] by simp
  have lt: "sorted_wrt (<) ?ns" by (rule sorted_nodes [OF srt])
  have nb: "bp \<notin> set ?ns" using new(1) bph base(1) by auto
  obtain xs p ys where ns: "?ns = xs @ p # ys" and p: "p < bp" "\<forall>y \<in> set ys. bp < y"
    using split_at [OF lt, of bp] nb bph base(1) by auto
  have ysS: "set ys \<subseteq> ?S" using ns by (cases xs) auto
  have "p \<in> set ?ns" unfolding ns by simp
  then have pS: "p \<in> set as \<or> p = ubase s" by auto
  let ?u = "ufree_upper bp p s"
  obtain ys' where u: "path (hptr ?u) bp (ys' @ xs) p" "tiles ?u (?S - (set ys - set ys')) h e" "set ys' \<subseteq> set ys" "length ys' \<le> length ys"
    "sorted_wrt (\<lambda>a b. a + hsize ?u a < b) (xs @ p # ys')" "\<forall>y \<in> set ys'. bp + hsize ?u bp < y" "hsize s bp \<le> hsize ?u bp"
    using upper_ok [OF c [unfolded ns] srt [unfolded ns] tl _ ysS _ p] nb ns by auto
  have dis: "distinct (xs @ p # ys)" using sorted_wrt_distinct [OF lt] ns by simp
  have as: "as = tl (xs @ p # ys)" "hd (xs @ p # ys) = ubase s" using ns by (metis list.sel(3), metis list.sel(1))
  have S1: "?S - (set ys - set ys') = insert bp (set (tl (xs @ p # ys')) \<union> A)"
    using dis u(3) new nb as(1) by (cases xs) (auto simp: ns)
  have pu: "hsize ?u p = hsize s p" using p(1) by (simp add: upper_same)
  have pb: "p + hsize ?u p \<le> bp" using pS p(1) z tiles_order [OF tl, of p bp] pu by auto
  have pin: "p \<in> ?S - (set ys - set ys')" if "p + hsize ?u p = bp" using that pS p(1) z pu dis by auto
  have bin: "bp \<in> ?S - (set ys - set ys')" using p(2) by auto
  have nb': "bp \<notin> set (xs @ p # ys')" using nb ns u(3) by auto
  let ?t = "(ufree_lower bp p ?u)\<lparr>freep := Some p\<rparr>"
  obtain zs where zs: "circ (hptr (ufree_lower bp p ?u)) (xs @ p # zs)" "sorted_wrt (\<lambda>a b. a + hsize (ufree_lower bp p ?u) a < b) (xs @ p # zs)"
    and cs: "zs = bp # ys' \<and> hsize (ufree_lower bp p ?u) = hsize ?u \<or>
     zs = ys' \<and> p \<in> ?S - (set ys - set ys') \<and> hsize (ufree_lower bp p ?u) = (hsize ?u)(p := hsize ?u p + hsize ?u bp) \<and>
       tiles (ufree_lower bp p ?u) (?S - (set ys - set ys') - {bp}) h e"
    using lower_ok [OF u(1,5,2) bin nb' u(6) pb pin] by blast
  let ?bs = "tl (xs @ p # zs)"
  have ns': "xs @ p # zs = ubase s # ?bs" using as(2) by (cases xs) auto
  obtain q0 where q0: "q0 \<in> set (xs @ p # ys)" "freep s = Some q0" using q ns by auto
  have "length as < e \<or> as = []" by (rule free_list_short [OF fl tl _ base(1)]) auto
  then have "length (xs @ p # ys) < ufuel s" using base(2) arg_cong [OF ns, of length] by (auto simp: ufuel_def)
  then have "free_search (ufuel s) bp q0 s = Some p"
    by (rule free_search_finds [OF c [unfolded ns] lt [unfolded ns] p q0(1)])
  then have res: "ufree (Suc bp) s = Some ?t" using q0(2) by (simp add: ufree_def)
  have baseS: "ubase s \<notin> ?S" using tiles_range(1) [OF tl, of "ubase s"] base(1) by auto
  have hs: "hsize ?t a = hsize s a" if "a \<notin> set as" "a \<noteq> bp" for a
    using cs that pS baseS by (auto simp: upper_same)
  have fl': "freelist ?t ?bs"
    using zs ns' hs [of "ubase s"] z baseS by (auto simp: freelist_def lower_same upper_same simp flip: ns')
  have sets: "set ?bs = (if zs = ys' then set (tl (xs @ p # ys')) else insert bp (set (tl (xs @ p # ys'))))"
    using cs by (cases xs) auto
  have ti: "tiles ?t (set ?bs \<union> A) h e"
  proof -
    have "bp \<notin> set (tl (xs @ p # ys')) \<union> A" using nb' new(1) by (cases xs) auto
    then show ?thesis using cs u(2) unfolding S1 sets
      by (auto simp: tiles_cong [of "ufree_lower bp p ?u" ?u] tiles_cong [of ?t "ufree_lower bp p ?u"])
  qed
  have sub: "set ?bs \<subseteq> insert bp (set as)" using sets u(3) as(1) by (cases xs) auto
  have "\<exists>c \<in> set ?bs. hsize s bp \<le> hsize ?t c" using cs u(7) baseS ns' sets by (cases xs) auto
  moreover have "length ?bs \<le> Suc (length as)" using cs u(4) as(1) by (cases xs) auto
  moreover have "set ?bs \<inter> A = {}" "\<forall>a \<in> A. hsize ?t a = hsize s a" using sub new hs by blast+
  moreover have "ubase ?t = ubase s" "ubrk ?t = ubrk s" "ulimit ?t = ulimit s" by (simp_all add: lower_same upper_same)
  ultimately show ?thesis using res fl' ti by blast
qed

section \<open>Taking units from a block\<close>

lemma tiles_split:
  assumes "tiles s S h e" and "p \<in> S" and "0 < k" "k < hsize s p" and "hsize t = (hsize s)(p := k, p + k := hsize s p - k)"
  shows "tiles t (insert (p + k) S) h e" and "p + k \<notin> S"
proof -
  have dis: "blk s x \<inter> blk s y = {}" if "x \<in> S" "y \<in> S" "x \<noteq> y" for x y using assms(1) that by (simp add: tiles_def)
  have own: "a \<in> blk s a" if "a \<in> S" for a using assms(1) that by (auto simp: tiles_def blk_def)
  have "p + k \<in> blk s p" using assms(4) by (simp add: blk_def)
  then show new: "p + k \<notin> S" using dis [OF assms(2), of "p + k"] own [of "p + k"] assms(3) by auto
  have parts: "blk t p = {p..<p + k}" "blk t (p + k) = {p + k..<p + hsize s p}" "blk s p = {p..<p + hsize s p}"
    using assms(3-5) by (auto simp: blk_def)
  then have un: "blk s p = blk t p \<union> blk t (p + k)" "blk t p \<inter> blk t (p + k) = {}" using assms(4) by auto
  have other: "blk t c = blk s c" if "c \<in> S" "c \<noteq> p" for c using that new assms(5) by (auto simp: blk_def)
  have "blk t x \<inter> blk t y = {}" if xy: "x \<in> insert (p + k) S" "y \<in> insert (p + k) S" "x \<noteq> y" for x y
  proof -
    have o: "blk t c \<inter> blk s p = {}" if "c \<in> S" "c \<noteq> p" for c using dis [OF that(1) assms(2) that(2)] other [OF that] by simp
    have e: "blk t c \<inter> blk t p = {}" "blk t c \<inter> blk t (p + k) = {}" if "c \<in> S" "c \<noteq> p" for c
      using o [OF that] un(1) by auto
    have d: "blk t c \<inter> blk t d = {}" if "c \<in> S" "c \<noteq> p" "d \<in> S" "d \<noteq> p" "c \<noteq> d" for c d
      using dis that other by simp
    consider "x = p + k" "y = p" | "x = p" "y = p + k" | "x = p + k" "y \<in> S" "y \<noteq> p" | "y = p + k" "x \<in> S" "x \<noteq> p"
      | "x = p" "y \<in> S" "y \<noteq> p" | "y = p" "x \<in> S" "x \<noteq> p" | "x \<in> S" "x \<noteq> p" "y \<in> S" "y \<noteq> p"
      using xy by blast
    then show ?thesis using un(2) e d xy(3) by cases (metis Int_commute)+
  qed
  moreover have "(\<Union>c \<in> insert (p + k) S. blk t c) = (\<Union>c \<in> S. blk s c)"
  proof -
    have "(\<Union>c \<in> insert (p + k) S. blk t c) = (\<Union>c \<in> S - {p}. blk t c) \<union> (blk t p \<union> blk t (p + k))" using assms(2) by blast
    also have "\<dots> = (\<Union>c \<in> S - {p}. blk s c) \<union> blk s p" using other un(1) by simp
    finally show ?thesis using assms(2) by blast
  qed
  moreover have "\<forall>c \<in> insert (p + k) S. 0 < hsize t c" using assms new by (auto simp: tiles_def)
  ultimately show "tiles t (insert (p + k) S) h e" using assms(1) by (simp add: tiles_def)
qed

lemma ring_next:
  assumes "circ nx (b # as)" and "r \<in> set (b # as)" and "nx r = p" and "p \<noteq> b"
  shows "\<exists>xs zs. b # as = xs @ r # p # zs"
proof -
  obtain xs ys where ns: "b # as = xs @ r # ys" using split_list [OF assms(2)] by blast
  have "hd (xs @ [r]) = b" using ns by (cases xs) auto
  then have "ys \<noteq> []" using circ_path(2) [OF assms(1) [unfolded ns]] assms(3,4) by auto
  then obtain z zs where "ys = z # zs" by (cases ys) auto
  then show ?thesis using ns circ_path(3) [OF assms(1) [unfolded ns]] assms(3) by auto
qed

lemma take_units_ok:
  assumes fl: "freelist s as" and tl: "tiles s (set as \<union> A) h e" and dis: "set as \<inter> A = {}" and base: "ubase s < h"
    and r: "r \<in> set (ubase s # as)" "hptr s r = p" and fit: "n \<le> hsize s p" "0 < n"
  shows "\<exists>b t bs. take_units n r p s = (Suc b, t) \<and> b \<notin> set bs \<union> A \<and> hsize t b = n \<and> freelist t bs \<and>
    tiles t (insert b (set bs \<union> A)) h e \<and> set bs \<inter> A = {} \<and> (\<forall>a \<in> A. hsize t a = hsize s a) \<and>
    ubase t = ubase s \<and> ubrk t = ubrk s \<and> ulimit t = ulimit s"
proof -
  have c: "circ (hptr s) (ubase s # as)" and srt: "sorted_wrt (\<lambda>a b. a + hsize s a < b) (ubase s # as)" and z: "hsize s (ubase s) = 0"
    using fl by (auto simp: freelist_def)
  have pb: "p \<noteq> ubase s" using fit z by auto
  obtain xs zs where ns: "ubase s # as = xs @ r # p # zs" using ring_next [OF c r pb] by blast
  have dn: "distinct (xs @ r # p # zs)" using sorted_wrt_distinct [OF sorted_nodes [OF srt]] ns by simp
  have pin: "p \<in> set as" using ns pb by (cases xs) auto
  have baseS: "ubase s \<notin> set as \<union> A" using tiles_range(1) [OF tl, of "ubase s"] base by auto
  show ?thesis
  proof (cases "hsize s p = n")
    case True
    let ?t = "s\<lparr>hptr := (hptr s)(r := hptr s p), freep := Some r\<rparr>"
    let ?bs = "tl (xs @ r # zs)"
    have ns': "ubase s # ?bs = xs @ r # zs" using ns by (cases xs) auto
    have "circ (hptr s) ((r # p # zs) @ xs)" using circ_rotate [of "hptr s" xs "r # p # zs"] c ns by simp
    then have "circ ((hptr s)(r := hptr s p)) (r # zs @ xs)" using dn by (intro circ_remove) auto
    then have "circ (hptr ?t) (ubase s # ?bs)" using circ_rotate [of "hptr ?t" "r # zs" xs] by (simp add: ns')
    moreover have "sorted_wrt (\<lambda>a b. a + hsize s a < b) (ubase s # ?bs)" using srt ns unfolding ns' by (auto simp: sorted_wrt_append)
    moreover have "r \<in> set (ubase s # ?bs)" unfolding ns' by simp
    ultimately have "freelist ?t ?bs" using z by (simp add: freelist_def)
    moreover have ss: "set as = insert p (set ?bs)" "p \<notin> set ?bs" using ns dn by (cases xs; auto)+
    moreover have "tiles ?t (insert p (set ?bs \<union> A)) h e" using tl ss(1) tiles_cong [of ?t s] by simp
    ultimately show ?thesis using True dis pin by (intro exI [of _ p] exI [of _ ?t] exI [of _ ?bs]) (auto simp: take_units_def)
  next
    case False
    let ?k = "hsize s p - n"
    let ?t = "s\<lparr>hsize := (hsize s)(p := ?k, p + ?k := n), freep := Some r\<rparr>"
    have k: "0 < ?k" "?k < hsize s p" using False fit by auto
    have "hsize s p - ?k = n" using fit by simp
    then have ti: "tiles ?t (insert (p + ?k) (set as \<union> A)) h e" and nw: "p + ?k \<notin> set as \<union> A"
      using tiles_split [OF tl _ k, of ?t] pin by auto
    have "h \<le> p" using tiles_range(1) [OF tl, of p] pin by simp
    then have nb: "p + ?k \<notin> set (ubase s # as)" using nw base by auto
    have "sorted_wrt (\<lambda>a b. a + hsize ?t a < b) (ubase s # as)"
      using srt nb by (intro sorted_wrt_mono_rel [of "ubase s # as" "\<lambda>a b. a + hsize s a < b" "\<lambda>a b. a + hsize ?t a < b"]) auto
    then have "freelist ?t as" using c z nb pb r(1) by (auto simp: freelist_def)
    moreover have "take_units n r p s = (Suc (p + ?k), ?t)" using False by (simp add: take_units_def Let_def)
    moreover have "hsize ?t a = hsize s a" if "a \<in> A" for a using that nw dis pin by auto
    ultimately show ?thesis using ti nw dis by (intro exI [of _ "p + ?k"] exI [of _ ?t] exI [of _ as]) auto
  qed
qed

section \<open>First fit\<close>

lemma malloc_walk:
  assumes "path (hptr s) x us p" and "\<forall>u \<in> set us. hsize s u < unat n \<and> freep s \<noteq> Some u"
  shows "malloc_loop (length us + f) n x (hptr s x) s = malloc_loop f n (last (x # us)) p s"
  using assms by (induction us arbitrary: x) auto

lemma path_prefix: "path nx x zs z \<Longrightarrow> zs @ [z] = us @ p # vs \<Longrightarrow> path nx x us p"
proof (induction zs arbitrary: x us)
  case Nil
  then show ?case by (cases us) auto
next
  case (Cons y zs)
  then show ?case by (cases us) auto
qed

lemma path_last: "path nx x us p \<Longrightarrow> nx (last (x # us)) = p"
  by (induction us arbitrary: x) auto

lemma freelist_ring:
  assumes "freelist s as" and "freep s = Some q"
  obtains xs ys where "ubase s # as = xs @ q # ys" "path (hptr s) q (ys @ xs) q" "distinct (xs @ q # ys)" "length (ys @ xs) = length as"
proof -
  have c: "circ (hptr s) (ubase s # as)" and srt: "sorted_wrt (<) (ubase s # as)" and "q \<in> set (ubase s # as)"
    using assms sorted_nodes [of s "ubase s # as"] by (auto simp: freelist_def)
  then obtain xs ys where ns: "ubase s # as = xs @ q # ys" by (meson split_list)
  moreover have "path (hptr s) q (ys @ xs) q" by (rule circ_path(1) [OF c [unfolded ns]])
  moreover have "distinct (xs @ q # ys)" using sorted_wrt_distinct [OF srt] ns by simp
  moreover have "length (ys @ xs) = length as" using arg_cong [OF ns, of length] by simp
  ultimately show ?thesis by (rule that)
qed

lemma malloc_fit:
  assumes fl: "freelist s as" and q: "freep s = Some q" and fit: "c \<in> set as" "unat n \<le> hsize s c" and n: "0 < unat n" and f: "length as < f"
  shows "\<exists>r p. r \<in> set (ubase s # as) \<and> hptr s r = p \<and> unat n \<le> hsize s p \<and>
    malloc_loop f n q (hptr s q) s = (case take_units (unat n) r p s of (m, t) \<Rightarrow> Some (Some m, t))"
proof -
  obtain xs ys where ns: "ubase s # as = xs @ q # ys" and path: "path (hptr s) q (ys @ xs) q" and dis: "distinct (xs @ q # ys)"
    and len: "length (ys @ xs) = length as" by (rule freelist_ring [OF fl q])
  have "c \<in> set ((ys @ xs) @ [q])" using fit(1) ns by (cases xs) auto
  then obtain us p vs where sp: "(ys @ xs) @ [q] = us @ p # vs" and p: "unat n \<le> hsize s p" and us: "\<forall>u \<in> set us. \<not> unat n \<le> hsize s u"
    using split_list_first_prop [of "(ys @ xs) @ [q]" "\<lambda>p. unat n \<le> hsize s p"] fit(2) by blast
  have pu: "path (hptr s) q us p" by (rule path_prefix [OF path sp])
  have lu: "length us \<le> length as" using arg_cong [OF sp, of length] len by simp
  have us': "set us \<subseteq> set (ys @ xs)"
  proof -
    have "us = take (length us) ((ys @ xs) @ [q])" using sp by (metis append_eq_conv_conj)
    moreover have "length us \<le> length (ys @ xs)" using lu len by simp
    ultimately have "us = take (length us) (ys @ xs)" by (simp add: take_append)
    then show ?thesis by (metis set_take_subset)
  qed
  have nq: "q \<notin> set us" using us' dis by auto
  obtain g where g: "f = length us + Suc g" using lu f less_imp_Suc_add [of "length us" f] by (metis add_Suc_right le_less_trans)
  have "\<forall>u \<in> set us. hsize s u < unat n \<and> freep s \<noteq> Some u" using us nq q by (auto simp: not_le)
  then have "malloc_loop f n q (hptr s q) s = malloc_loop (Suc g) n (last (q # us)) p s"
    unfolding g by (rule malloc_walk [OF pu])
  moreover have "last (q # us) \<in> set (ubase s # as)" unfolding ns using us' by (cases "us = []") (auto dest: last_in_set)
  moreover have "hptr s (last (q # us)) = p" by (rule path_last [OF pu])
  ultimately show ?thesis using p by (intro exI [of _ "last (q # us)"] exI [of _ p]) simp
qed

lemma malloc_nofit:
  assumes fl: "freelist s as" and q: "freep s = Some q" and nofit: "\<forall>c \<in> set as. hsize s c < unat n" and n: "0 < unat n"
  shows "malloc_loop (length as + Suc f) n q (hptr s q) s =
    (case morecore n s of None \<Rightarrow> None | Some (None, t) \<Rightarrow> Some (None, t) | Some (Some p, t) \<Rightarrow> malloc_loop f n p (hptr t p) t)"
proof -
  obtain xs ys where ns: "ubase s # as = xs @ q # ys" and path: "path (hptr s) q (ys @ xs) q" and dis: "distinct (xs @ q # ys)"
    and len: "length (ys @ xs) = length as" by (rule freelist_ring [OF fl q])
  have z: "hsize s (ubase s) = 0" using fl by (simp add: freelist_def)
  have all: "hsize s c < unat n" if "c \<in> set (xs @ q # ys)" for c using that nofit n z unfolding ns [symmetric] by auto
  have "malloc_loop (length (ys @ xs) + Suc f) n q (hptr s q) s = malloc_loop (Suc f) n (last (q # ys @ xs)) q s"
    using all dis q by (intro malloc_walk [OF path]) auto
  then show ?thesis using all [of q] q unfolding len by simp
qed

section \<open>Growing the heap\<close>

lemma tiles_extend:
  assumes "tiles s S h e" and "h \<le> e" and "0 < n" and "hsize t = (hsize s)(e := n)"
  shows "tiles t (insert e S) h (e + n)" and "e \<notin> S"
proof -
  have lt: "a < e \<and> a + hsize s a \<le> e" if "a \<in> S" for a
    using tiles_range [OF assms(1) that] assms(1) that by (force simp: tiles_def)
  then show ne: "e \<notin> S" by blast
  have other: "blk t a = blk s a" if "a \<in> S" for a using that ne assms(4) by (auto simp: blk_def)
  have new: "blk t e = {e..<e + n}" using assms(4) by (simp add: blk_def)
  have out: "blk t a \<inter> blk t e = {}" "blk t e \<inter> blk t a = {}" if "a \<in> S" for a
    using other [OF that] new lt [OF that] by (auto simp: blk_def)
  have dis: "blk t a \<inter> blk t b = {}" if "a \<in> S" "b \<in> S" "a \<noteq> b" for a b
    using assms(1) that other by (simp add: tiles_def)
  have "(\<Union>a \<in> insert e S. blk t a) = {e..<e + n} \<union> (\<Union>a \<in> S. blk s a)" using new other by simp
  also have "\<dots> = {h..<e + n}" using assms(1,2) by (auto simp: tiles_def)
  finally show "tiles t (insert e S) h (e + n)"
    using out dis assms(1,3,4) ne unfolding tiles_def by auto
qed

lemma units_small:
  fixes k :: u32
  assumes "unat k < 2 ^ 28"
  shows "unat (k * 8) = 8 * unat k" "sint (k * 8) = 8 * int (unat k)"
proof -
  show u: "unat (k * 8) = 8 * unat k" using assms by (simp add: unat_word_ariths)
  show "sint (k * 8) = 8 * int (unat k)" using sint_small [of "k * 8"] assms u by simp
qed

text \<open>
  The invariant for the set \<open>A\<close> of the headers of the blocks in use, for a heap that began at the unit \<open>h\<close>: the free
  blocks and the blocks in use tile the heap without overlap and without a leak.  Before the first call nothing is in use
  and the heap is empty.
\<close>

definition uinv :: "ualloc \<Rightarrow> nat set \<Rightarrow> nat \<Rightarrow> bool" where
  "uinv s A h \<longleftrightarrow> ubase s < h \<and> 8 * h \<le> ubrk s \<and> 8 dvd ubrk s \<and>
     (if freep s = None then A = {} \<and> ubrk s = 8 * h
      else \<exists>as. freelist s as \<and> tiles s (set as \<union> A) h (ubrk s div 8) \<and> set as \<inter> A = {})"

definition core_units :: "u32 \<Rightarrow> nat" where
  "core_units n = max (unat n) 4096"

lemma morecore_ok:
  assumes fl: "freelist s as" and tl: "tiles s (set as \<union> A) h (ubrk s div 8)" and dis: "set as \<inter> A = {}" and base: "ubase s < h"
    and brk: "8 * h \<le> ubrk s" "8 dvd ubrk s" and n: "unat n < 2 ^ 28"
  shows "(ubrk s + 8 * core_units n > ulimit s \<and> morecore n s = Some (None, s)) \<or>
    (\<exists>t bs. morecore n s = Some (freep t, t) \<and> freelist t bs \<and> tiles t (set bs \<union> A) h (ubrk t div 8) \<and> set bs \<inter> A = {} \<and>
      (\<forall>a \<in> A. hsize t a = hsize s a) \<and> (\<exists>c \<in> set bs. unat n \<le> hsize t c) \<and> ubase t = ubase s \<and>
      ubrk t = ubrk s + 8 * core_units n \<and> length bs \<le> Suc (length as))"
proof -
  let ?nu = "if n < 4096 then 4096 else n"
  have nu: "unat ?nu = core_units n" "unat ?nu < 2 ^ 28" using n by (auto simp: core_units_def word_less_nat_alt max_def)
  have sb: "sint (?nu * 8) = 8 * int (core_units n)" using units_small(2) [OF nu(2)] nu(1) by simp
  show ?thesis
  proof (cases "ubrk s + 8 * core_units n > ulimit s")
    case True
    then have "sbrk (sint (?nu * 8)) s = (None, s)" unfolding sb by (simp add: sbrk_def)
    then have "morecore n s = Some (None, s)" unfolding morecore_def Let_def by simp
    then show ?thesis using True by blast
  next
    case False
    let ?e = "ubrk s div 8"
    let ?u = "s\<lparr>ubrk := ubrk s + 8 * core_units n, hsize := (hsize s)(?e := core_units n)\<rparr>"
    have he: "h \<le> ?e" using brk(1) by simp
    have pos: "0 < core_units n" by (simp add: core_units_def)
    have ext: "tiles ?u (insert ?e (set as \<union> A)) h (?e + core_units n)" and ne: "?e \<notin> set as \<union> A"
      using tiles_extend [OF tl he pos, of ?u] by auto
    have eb: "?e \<notin> set (ubase s # as)" using ne base he by auto
    have "sorted_wrt (\<lambda>a b. a + hsize ?u a < b) (ubase s # as)"
      using fl eb unfolding freelist_def
      by (intro sorted_wrt_mono_rel [of "ubase s # as" "\<lambda>a b. a + hsize s a < b" "\<lambda>a b. a + hsize ?u a < b"]) auto
    then have flu: "freelist ?u as" using fl eb by (simp add: freelist_def)
    have sz: "ubrk ?u div 8 = ?e + core_units n" by simp
    obtain t bs where t: "ufree (Suc ?e) ?u = Some t" "freelist t bs" "tiles t (set bs \<union> A) h (?e + core_units n)" "set bs \<inter> A = {}"
      "\<forall>a \<in> A. hsize t a = hsize ?u a" "\<exists>c \<in> set bs. hsize ?u ?e \<le> hsize t c" "ubase t = ubase s" "ubrk t = ubrk ?u" "length bs \<le> Suc (length as)"
      using ufree_ok [OF flu ext ne dis, unfolded sz] base by auto
    have "sbrk (sint (?nu * 8)) s = (Some (ubrk s), s\<lparr>ubrk := ubrk s + 8 * core_units n\<rparr>)"
      unfolding sb using False by (simp add: sbrk_def nat_add_distrib nat_mult_distrib)
    then have "morecore n s = Some (freep t, t)" unfolding morecore_def Let_def using t(1) nu(1) by simp
    moreover have "\<forall>a \<in> A. hsize t a = hsize s a" using t(5) ne by auto
    moreover have "\<exists>c \<in> set bs. unat n \<le> hsize t c" using t(6) by (auto simp: core_units_def)
    moreover have "ubrk t div 8 = ?e + core_units n" "ubrk t = ubrk s + 8 * core_units n" using t(8) by simp_all
    ultimately show ?thesis using t by metis
  qed
qed

section \<open>Properties\<close>

lemma nunits_small:
  assumes "unat b < 2 ^ 31 - 16"
  shows "unat (nunits b) = (unat b + 7) div 8 + 1" "unat (nunits b) < 2 ^ 28" "unat b \<le> 8 * (unat (nunits b) - 1)"
proof -
  have s: "b + 8 - 1 = b + 7" by simp
  have "unat (b + 7) = unat b + 7" using assms by (simp add: unat_word_ariths)
  then have "unat ((b + 7) div 8) = (unat b + 7) div 8" by (simp add: unat_div)
  moreover have "(unat b + 7) div 8 + 1 < 2 ^ 28" using assms by simp
  ultimately show u: "unat (nunits b) = (unat b + 7) div 8 + 1" unfolding nunits_def s by (simp add: unat_word_ariths)
  then show "unat (nunits b) < 2 ^ 28" "unat b \<le> 8 * (unat (nunits b) - 1)" using assms by simp_all
qed

lemma tiles_disjoint: "tiles s S h e \<Longrightarrow> a \<in> S \<Longrightarrow> b \<in> S \<Longrightarrow> a \<noteq> b \<Longrightarrow> blk s a \<inter> blk s b = {}"
  by (simp add: tiles_def)

lemma malloc_start_ok:
  assumes "uinv s A h"
  shows "\<exists>q u as. malloc_start s = (q, u) \<and> freep u = Some q \<and> freelist u as \<and> tiles u (set as \<union> A) h (ubrk u div 8) \<and>
    set as \<inter> A = {} \<and> ubase u = ubase s \<and> ubrk u = ubrk s \<and> ulimit u = ulimit s \<and> (\<forall>a \<in> A. hsize u a = hsize s a)"
proof (cases "freep s")
  case None
  then have A: "A = {}" "ubrk s = 8 * h" using assms by (simp_all add: uinv_def)
  let ?u = "s\<lparr>hptr := (hptr s)(ubase s := ubase s), freep := Some (ubase s), hsize := (hsize s)(ubase s := 0)\<rparr>"
  have "malloc_start s = (ubase s, ?u)" using None by (simp add: malloc_start_def)
  moreover have "freelist ?u []" by (simp add: freelist_def)
  moreover have "tiles ?u {} h (ubrk ?u div 8)" using A by (simp add: tiles_def)
  ultimately show ?thesis using A by (intro exI [of _ "ubase s"] exI [of _ ?u] exI [of _ "[]"]) simp
next
  case (Some q)
  then obtain as where "freelist s as" "tiles s (set as \<union> A) h (ubrk s div 8)" "set as \<inter> A = {}" using assms by (auto simp: uinv_def)
  then show ?thesis using Some by (intro exI [of _ q] exI [of _ s] exI [of _ as]) (simp add: malloc_start_def)
qed

text \<open>A search that finds a block, in the terms of the invariant.\<close>

lemma malloc_fit_inv:
  assumes fl: "freelist s as" and tl: "tiles s (set as \<union> A) h (ubrk s div 8)" and dis: "set as \<inter> A = {}" and base: "ubase s < h"
    and brk: "8 * h \<le> ubrk s" "8 dvd ubrk s" and fit: "c \<in> set as" "unat n \<le> hsize s c" and n: "0 < unat n" and f: "length as < f"
    and q: "freep s = Some q"
  shows "\<exists>b t. malloc_loop f n q (hptr s q) s = Some (Some (Suc b), t) \<and> b \<notin> A \<and> uinv t (insert b A) h \<and> hsize t b = unat n \<and>
    (\<forall>a \<in> A. hsize t a = hsize s a \<and> blk t b \<inter> blk t a = {})"
proof -
  obtain r p where r: "r \<in> set (ubase s # as)" "hptr s r = p" "unat n \<le> hsize s p"
      "malloc_loop f n q (hptr s q) s = (case take_units (unat n) r p s of (m, t) \<Rightarrow> Some (Some m, t))"
    using malloc_fit [OF fl q fit n f] by blast
  obtain b t bs where t: "take_units (unat n) r p s = (Suc b, t)" "b \<notin> set bs \<union> A" "hsize t b = unat n" "freelist t bs"
      "tiles t (insert b (set bs \<union> A)) h (ubrk s div 8)" "set bs \<inter> A = {}" "\<forall>a \<in> A. hsize t a = hsize s a"
      "ubase t = ubase s" "ubrk t = ubrk s"
    using take_units_ok [OF fl tl dis base r(1,2,3) n] by auto
  have "freep t \<noteq> None" using t(4) by (auto simp: freelist_def)
  moreover have "freelist t bs \<and> tiles t (set bs \<union> insert b A) h (ubrk t div 8) \<and> set bs \<inter> insert b A = {}"
    using t(2,4,5,6,9) by simp
  ultimately have "uinv t (insert b A) h" unfolding uinv_def using t(8,9) base brk by auto
  moreover have "\<forall>a \<in> A. blk t b \<inter> blk t a = {}"
  proof
    fix a assume "a \<in> A"
    then show "blk t b \<inter> blk t a = {}" using t(2) by (intro tiles_disjoint [OF t(5)]) auto
  qed
  ultimately show ?thesis using r(4) t by (intro exI [of _ b] exI [of _ t]) simp
qed

lemma malloc_ok:
  assumes inv: "uinv s A h" and small: "unat nbytes < 2 ^ 31 - 16"
  shows "\<exists>r t. malloc nbytes s = Some (r, t) \<and> (\<forall>a \<in> A. hsize t a = hsize s a) \<and>
    (case r of None \<Rightarrow> uinv t A h \<and> ubrk s + 8 * core_units (nunits nbytes) > ulimit s
     | Some m \<Rightarrow> \<exists>b. m = Suc b \<and> b \<notin> A \<and> uinv t (insert b A) h \<and> unat nbytes \<le> 8 * (hsize t b - 1) \<and> (\<forall>a \<in> A. blk t b \<inter> blk t a = {}))"
proof -
  let ?n = "nunits nbytes"
  note ns = nunits_small [OF small]
  have n: "0 < unat ?n" unfolding ns(1) by simp
  obtain q u as where u: "malloc_start s = (q, u)" "freep u = Some q" and fl: "freelist u as" and tl: "tiles u (set as \<union> A) h (ubrk u div 8)"
    and dis: "set as \<inter> A = {}" and same: "ubase u = ubase s" "ubrk u = ubrk s" "ulimit u = ulimit s" "\<forall>a \<in> A. hsize u a = hsize s a"
    using malloc_start_ok [OF inv] by blast
  have base: "ubase u < h" "8 * h \<le> ubrk u" "8 dvd ubrk u" using inv same by (simp_all add: uinv_def)
  have ml: "malloc nbytes s = malloc_loop (2 * ufuel u + 4) ?n q (hptr u q) u" using u(1) by (simp add: malloc_def)
  have short: "length as < ufuel u" using free_list_short [OF fl tl _ base(1)] by (auto simp: ufuel_def)
  show ?thesis
  proof (cases "\<exists>c \<in> set as. unat ?n \<le> hsize u c")
    case True
    then obtain c where c: "c \<in> set as" "unat ?n \<le> hsize u c" by blast
    obtain b t where "malloc nbytes s = Some (Some (Suc b), t) \<and> b \<notin> A \<and> uinv t (insert b A) h \<and> hsize t b = unat ?n \<and>
        (\<forall>a \<in> A. hsize t a = hsize u a \<and> blk t b \<inter> blk t a = {})"
      unfolding ml using malloc_fit_inv [OF fl tl dis base c n _ u(2), of "2 * ufuel u + 4"] short by auto
    then show ?thesis using same(4) ns(3) by (intro exI [of _ "Some (Suc b)"] exI [of _ t]) simp
  next
    case False
    then have no: "\<forall>c \<in> set as. hsize u c < unat ?n" by (meson not_le)
    define g where "g = 2 * ufuel u + 3 - length as"
    have g: "2 * ufuel u + 4 = length as + Suc g" "Suc (length as) < g" using short by (simp_all add: g_def)
    have step: "malloc nbytes s = (case morecore ?n u of None \<Rightarrow> None | Some (None, t) \<Rightarrow> Some (None, t)
        | Some (Some p, t) \<Rightarrow> malloc_loop g ?n p (hptr t p) t)"
      unfolding ml g(1) by (rule malloc_nofit [OF fl u(2) no n])
    from morecore_ok [OF fl tl dis base ns(2)] show ?thesis
    proof
      assume "ubrk u + 8 * core_units ?n > ulimit u \<and> morecore ?n u = Some (None, u)"
      moreover have "uinv u A h" using base fl tl dis u(2) by (auto simp: uinv_def)
      ultimately show ?thesis using step same by (intro exI [of _ None] exI [of _ u]) simp
    next
      assume "\<exists>t bs. morecore ?n u = Some (freep t, t) \<and> freelist t bs \<and> tiles t (set bs \<union> A) h (ubrk t div 8) \<and> set bs \<inter> A = {} \<and>
        (\<forall>a \<in> A. hsize t a = hsize u a) \<and> (\<exists>c \<in> set bs. unat ?n \<le> hsize t c) \<and> ubase t = ubase u \<and>
        ubrk t = ubrk u + 8 * core_units ?n \<and> length bs \<le> Suc (length as)"
      then obtain v bs c where v: "morecore ?n u = Some (freep v, v)" "freelist v bs" "tiles v (set bs \<union> A) h (ubrk v div 8)" "set bs \<inter> A = {}"
          "\<forall>a \<in> A. hsize v a = hsize u a" "c \<in> set bs" "unat ?n \<le> hsize v c" "ubase v = ubase u" "ubrk v = ubrk u + 8 * core_units ?n"
          "length bs \<le> Suc (length as)" by blast
      obtain p where p: "freep v = Some p" using v(2) by (auto simp: freelist_def)
      have vb: "ubase v < h" "8 * h \<le> ubrk v" "8 dvd ubrk v" using base v(8,9) by auto
      obtain b t where "malloc_loop g ?n p (hptr v p) v = Some (Some (Suc b), t) \<and> b \<notin> A \<and> uinv t (insert b A) h \<and> hsize t b = unat ?n \<and>
          (\<forall>a \<in> A. hsize t a = hsize v a \<and> blk t b \<inter> blk t a = {})"
        using malloc_fit_inv [OF v(2-4) vb v(6,7) n _ p, of g] v(10) g(2) by auto
      then show ?thesis using step v(1,5) p same(4) ns(3) by (intro exI [of _ "Some (Suc b)"] exI [of _ t]) simp
    qed
  qed
qed

lemma free_ok:
  assumes inv: "uinv s A h" and "b \<in> A"
  shows "\<exists>t. ufree (Suc b) s = Some t \<and> uinv t (A - {b}) h \<and> (\<forall>a \<in> A - {b}. hsize t a = hsize s a)"
proof -
  have "freep s \<noteq> None" using assms by (auto simp: uinv_def split: if_splits)
  then obtain as where fl: "freelist s as" "tiles s (set as \<union> A) h (ubrk s div 8)" "set as \<inter> A = {}"
    and base: "ubase s < h" "8 * h \<le> ubrk s" "8 dvd ubrk s" using inv by (auto simp: uinv_def)
  have S: "insert b (set as \<union> (A - {b})) = set as \<union> A" using assms(2) by blast
  obtain t bs where t: "ufree (Suc b) s = Some t" "freelist t bs" "tiles t (set bs \<union> (A - {b})) h (ubrk s div 8)" "set bs \<inter> (A - {b}) = {}"
      "\<forall>a \<in> A - {b}. hsize t a = hsize s a" "ubase t = ubase s" "ubrk t = ubrk s"
    using ufree_ok [of s as b "A - {b}" h "ubrk s div 8"] fl base(1) assms(2) unfolding S by auto
  moreover have "freep t \<noteq> None" using t(2) by (auto simp: freelist_def)
  then have "uinv t (A - {b}) h" using t base by (auto simp: uinv_def)
  ultimately show ?thesis by blast
qed

section \<open>Programs that use the allocator\<close>

text \<open>
  A program as the sequence of its requests; \<open>Free k\<close> gives back the block that the \<open>k\<close>-th request got, counted from the last.
  A step returns the blocks it holds, the last one first.  A failed request leaves them as they are.
\<close>

datatype 'n request = Get 'n | Free nat

fun use_step :: "('n \<Rightarrow> 's \<Rightarrow> (nat option \<times> 's) option) \<Rightarrow> (nat \<Rightarrow> 's \<Rightarrow> 's option) \<Rightarrow> 'n request \<Rightarrow> nat list \<Rightarrow> 's \<Rightarrow> (nat list \<times> 's) option" where
  "use_step alloc release (Get n) ms s =
     (case alloc n s of None \<Rightarrow> None | Some (None, t) \<Rightarrow> Some (ms, t) | Some (Some m, t) \<Rightarrow> Some (m # ms, t))"
| "use_step alloc release (Free k) ms s =
     (if k < length ms then (case release (ms ! k) s of None \<Rightarrow> None | Some t \<Rightarrow> Some (take k ms @ drop (Suc k) ms, t)) else Some (ms, s))"

fun use_all :: "('n \<Rightarrow> 's \<Rightarrow> (nat option \<times> 's) option) \<Rightarrow> (nat \<Rightarrow> 's \<Rightarrow> 's option) \<Rightarrow> 'n request list \<Rightarrow> nat list \<Rightarrow> 's \<Rightarrow> (nat list \<times> 's) option" where
  "use_all alloc release [] ms s = Some (ms, s)"
| "use_all alloc release (r # rs) ms s =
     (case use_step alloc release r ms s of None \<Rightarrow> None | Some (ms, s) \<Rightarrow> use_all alloc release rs ms s)"

locale block_allocator =
  fixes alloc :: "'n \<Rightarrow> 's \<Rightarrow> (nat option \<times> 's) option" and release :: "nat \<Rightarrow> 's \<Rightarrow> 's option"
    and inv :: "'s \<Rightarrow> nat set \<Rightarrow> bool" and block :: "'s \<Rightarrow> nat \<Rightarrow> nat set" and valid :: "'n \<Rightarrow> bool"
  assumes alloc: "inv s M \<Longrightarrow> valid n \<Longrightarrow> \<exists>r t. alloc n s = Some (r, t) \<and> (case r of None \<Rightarrow> inv t M | Some m \<Rightarrow> m \<notin> M \<and> inv t (insert m M))"
    and release: "inv s M \<Longrightarrow> m \<in> M \<Longrightarrow> \<exists>t. release m s = Some t \<and> inv t (M - {m})"
    and disjoint: "inv s M \<Longrightarrow> m \<in> M \<Longrightarrow> m' \<in> M \<Longrightarrow> m \<noteq> m' \<Longrightarrow> block s m \<inter> block s m' = {}"
begin

lemma step_ok:
  assumes "inv s (set ms)" and "distinct ms" and "\<And>n. r = Get n \<Longrightarrow> valid n"
  shows "\<exists>ms' t. use_step alloc release r ms s = Some (ms', t) \<and> inv t (set ms') \<and> distinct ms'"
proof (cases r)
  case (Get n)
  obtain x t where x: "alloc n s = Some (x, t)" "case x of None \<Rightarrow> inv t (set ms) | Some m \<Rightarrow> m \<notin> set ms \<and> inv t (insert m (set ms))"
    using alloc [OF assms(1) assms(3) [OF Get]] by blast
  then show ?thesis using Get assms(2) by (cases x) auto
next
  case (Free k)
  show ?thesis
  proof (cases "k < length ms")
    case True
    obtain t where t: "release (ms ! k) s = Some t" "inv t (set ms - {ms ! k})" using release [OF assms(1), of "ms ! k"] True by auto
    have e: "ms = take k ms @ ms ! k # drop (Suc k) ms" by (rule id_take_nth_drop [OF True])
    have d: "distinct (take k ms @ ms ! k # drop (Suc k) ms)" using assms(2) e by simp
    have "set ms - {ms ! k} = set (take k ms @ drop (Suc k) ms)"
      using d arg_cong [OF e, of set] by auto
    then show ?thesis using Free True t d by simp
  next
    case False
    then show ?thesis using Free assms by simp
  qed
qed

lemma run_ok:
  "inv s (set ms) \<Longrightarrow> distinct ms \<Longrightarrow> (\<And>n. Get n \<in> set rs \<Longrightarrow> valid n) \<Longrightarrow>
   \<exists>ms' t. use_all alloc release rs ms s = Some (ms', t) \<and> inv t (set ms') \<and> distinct ms'"
proof (induction rs arbitrary: ms s)
  case (Cons r rs)
  obtain ms1 t1 where s1: "use_step alloc release r ms s = Some (ms1, t1)" "inv t1 (set ms1)" "distinct ms1"
    using step_ok [OF Cons.prems(1,2)] Cons.prems(3) by (metis list.set_intros(1))
  show ?case using Cons.IH [OF s1(2,3)] Cons.prems(3) s1(1) by simp
qed simp

lemma run_disjoint:
  assumes "inv s (set ms)" and "distinct ms" and "\<And>n. Get n \<in> set rs \<Longrightarrow> valid n"
  shows "\<exists>ms' t. use_all alloc release rs ms s = Some (ms', t) \<and>
    (\<forall>i < length ms'. \<forall>j < length ms'. i \<noteq> j \<longrightarrow> block t (ms' ! i) \<inter> block t (ms' ! j) = {})"
proof -
  obtain ms' t where r: "use_all alloc release rs ms s = Some (ms', t)" "inv t (set ms')" "distinct ms'" using run_ok [OF assms] by blast
  then show ?thesis using disjoint [OF r(2)] by (metis nth_eq_iff_index_eq nth_mem)
qed

end

text \<open>The allocator of \<^verbatim>\<open>umalloc.c\<close>: the pointers in use are those behind the headers, and a block is what lies behind the header.\<close>

definition uheap :: "ualloc \<Rightarrow> nat set \<Rightarrow> bool" where
  "uheap s M \<longleftrightarrow> (\<exists>A h. M = Suc ` A \<and> uinv s A h)"

definition payload :: "ualloc \<Rightarrow> nat \<Rightarrow> nat set" where
  "payload s m = {m..<m + (hsize s (m - 1) - 1)}"

lemma payload_blk: "payload s (Suc b) \<subseteq> blk s b"
  by (auto simp: payload_def blk_def)

interpretation um: block_allocator malloc ufree uheap payload "\<lambda>n. unat n < 2 ^ 31 - 16"
proof
  fix s M and n :: u32
  assume "uheap s M" and "unat n < 2 ^ 31 - 16"
  then obtain A h where A: "M = Suc ` A" "uinv s A h" by (auto simp: uheap_def)
  obtain r t where r: "malloc n s = Some (r, t)"
      "case r of None \<Rightarrow> uinv t A h \<and> ubrk s + 8 * core_units (nunits n) > ulimit s
       | Some m \<Rightarrow> \<exists>b. m = Suc b \<and> b \<notin> A \<and> uinv t (insert b A) h \<and> unat n \<le> 8 * (hsize t b - 1) \<and> (\<forall>a \<in> A. blk t b \<inter> blk t a = {})"
    using malloc_ok [OF A(2) \<open>unat n < 2 ^ 31 - 16\<close>] by blast
  have "case r of None \<Rightarrow> uheap t M | Some m \<Rightarrow> m \<notin> M \<and> uheap t (insert m M)"
    using r(2) A(1) by (auto simp: uheap_def split: option.splits) (metis image_insert)
  then show "\<exists>r t. malloc n s = Some (r, t) \<and> (case r of None \<Rightarrow> uheap t M | Some m \<Rightarrow> m \<notin> M \<and> uheap t (insert m M))"
    using r(1) by blast
next
  fix s M m
  assume "uheap s M" and m: "m \<in> M"
  then obtain A h where A: "M = Suc ` A" "uinv s A h" by (auto simp: uheap_def)
  then obtain b where b: "m = Suc b" "b \<in> A" using m by auto
  obtain t where "ufree (Suc b) s = Some t" "uinv t (A - {b}) h" using free_ok [OF A(2) b(2)] by blast
  moreover have "M - {m} = Suc ` (A - {b})" using A(1) b(1) by auto
  ultimately show "\<exists>t. ufree m s = Some t \<and> uheap t (M - {m})" using b(1) by (auto simp: uheap_def)
next
  fix s M m m'
  assume "uheap s M" and m: "m \<in> M" "m' \<in> M" "m \<noteq> m'"
  then obtain A h where A: "M = Suc ` A" "uinv s A h" by (auto simp: uheap_def)
  obtain b b' where b: "m = Suc b" "b \<in> A" "m' = Suc b'" "b' \<in> A" using m A(1) by auto
  obtain as where "tiles s (set as \<union> A) h (ubrk s div 8)" using A(2) b(2) by (auto simp: uinv_def split: if_splits)
  then have "blk s b \<inter> blk s b' = {}" using b m(3) by (intro tiles_disjoint [of s "set as \<union> A"]) auto
  then show "payload s m \<inter> payload s m' = {}" using payload_blk [of s b] payload_blk [of s b'] b by blast
qed

section \<open>Correctness\<close>

text \<open>
  Any program of requests below \<^verbatim>\<open>2^31 - 16\<close> bytes and of frees of the blocks it holds runs to its end, and what it holds then
  is pairwise disjoint.
\<close>

theorem malloc_program:
  assumes "uinv s {} h" and "\<And>n. Get n \<in> set rs \<Longrightarrow> unat n < 2 ^ 31 - 16"
  shows "\<exists>ms t. use_all malloc ufree rs [] s = Some (ms, t) \<and>
    (\<forall>i < length ms. \<forall>j < length ms. i \<noteq> j \<longrightarrow> payload t (ms ! i) \<inter> payload t (ms ! j) = {})"
proof (rule um.run_disjoint)
  show "uheap s (set [])" using assms(1) by (auto simp: uheap_def)
qed (use assms(2) in auto)

text \<open>
  C36. The allocator keeps its invariant, that the free blocks and the blocks in use tile the heap.  A request below \<^verbatim>\<open>2^31 - 16\<close> bytes
  always ends.  It fails only if the kernel gives no more memory; otherwise it returns a block large enough that overlaps no block in use.
  Freeing a block in use ends as well and takes just that block out of use.  Neither touches the size of another block in use.
\<close>

theorem malloc_free_correct:
  assumes "uinv s A h"
  shows "(\<forall>nbytes. unat nbytes < 2 ^ 31 - 16 \<longrightarrow>
      (\<exists>r t. malloc nbytes s = Some (r, t) \<and> (\<forall>a \<in> A. hsize t a = hsize s a) \<and>
        (case r of None \<Rightarrow> uinv t A h \<and> ubrk s + 8 * core_units (nunits nbytes) > ulimit s
         | Some m \<Rightarrow> \<exists>b. m = Suc b \<and> b \<notin> A \<and> uinv t (insert b A) h \<and> unat nbytes \<le> 8 * (hsize t b - 1) \<and>
             (\<forall>a \<in> A. blk t b \<inter> blk t a = {})))) \<and>
    (\<forall>b \<in> A. \<exists>t. ufree (Suc b) s = Some t \<and> uinv t (A - {b}) h \<and> (\<forall>a \<in> A - {b}. hsize t a = hsize s a))"
  using malloc_ok [OF assms] free_ok [OF assms] by blast

text \<open>
  A process whose heap begins at byte 16384 with a megabyte to grow: the first request gives the last units of the first
  chunk, and giving it back leaves nothing in use.
\<close>

definition demo_heap :: ualloc where
  "demo_heap = \<lparr>hptr = (\<lambda>_. 0), hsize = (\<lambda>_. 0), freep = None, ubase = 100, ubrk = 16384, ulimit = 1048576\<rparr>"

lemma demo_heap_inv: "uinv demo_heap {} 2048"
  by (simp add: uinv_def demo_heap_def)

theorem malloc_free_correct_witness:
  "\<exists>b t u. malloc 100 demo_heap = Some (Some (Suc b), t) \<and> uinv t {b} 2048 \<and> 100 \<le> 8 * (hsize t b - 1) \<and>
    ufree (Suc b) t = Some u \<and> uinv u {} 2048"
proof -
  have "\<exists>r t. malloc 100 demo_heap = Some (r, t) \<and> (\<forall>a \<in> {}. hsize t a = hsize demo_heap a) \<and>
      (case r of None \<Rightarrow> uinv t {} 2048 \<and> ubrk demo_heap + 8 * core_units (nunits 100) > ulimit demo_heap
       | Some m \<Rightarrow> \<exists>b. m = Suc b \<and> b \<notin> {} \<and> uinv t (insert b {}) 2048 \<and> unat (100 :: u32) \<le> 8 * (hsize t b - 1) \<and>
           (\<forall>a \<in> {}. blk t b \<inter> blk t a = {}))"
    by (rule malloc_free_correct [OF demo_heap_inv, THEN conjunct1, rule_format]) simp
  then obtain r t where r: "malloc 100 demo_heap = Some (r, t)"
      "case r of None \<Rightarrow> uinv t {} 2048 \<and> ubrk demo_heap + 8 * core_units (nunits 100) > ulimit demo_heap
       | Some m \<Rightarrow> \<exists>b. m = Suc b \<and> b \<notin> {} \<and> uinv t {b} 2048 \<and> unat (100 :: u32) \<le> 8 * (hsize t b - 1) \<and>
           (\<forall>a \<in> {}. blk t b \<inter> blk t a = {})" by blast
  have "\<not> ubrk demo_heap + 8 * core_units (nunits 100) > ulimit demo_heap"
    by (simp add: demo_heap_def core_units_def nunits_def)
  then obtain b where b: "r = Some (Suc b)" "uinv t {b} 2048" "100 \<le> 8 * (hsize t b - 1)" using r(2) by (auto split: option.splits)
  obtain u where "ufree (Suc b) t = Some u" "uinv u ({b} - {b}) 2048" using malloc_free_correct [OF b(2)] by blast
  then show ?thesis using r(1) b by auto
qed

text \<open>
  Larger requests are not safe: the number of units is computed in 32 bits, so the largest request of all is served like a request for
  nothing, with a block that has no room behind its header.
\<close>

theorem malloc_overflow: "malloc 0xFFFFFFFF s = malloc 0 s"
proof -
  have "nunits 0xFFFFFFFF = nunits 0" by (simp add: nunits_def)
  then show ?thesis by (simp only: malloc_def)
qed

end
