(* ===== verification/Pgtab.thy ===== *)
theory Pgtab
  imports Vm
begin

text \<open>
  What the page tables of \<^verbatim>\<open>vm.c\<close> mean: the two-level tree in memory as a map from virtual pages to entries, as the hardware walks
  it, and the effect of \<open>mappages\<close> on that map.
\<close>

section \<open>Entries of a table page\<close>

definition slot :: "addr \<Rightarrow> nat \<Rightarrow> addr" where
  "slot p k = p + of_nat (4 * k)"

abbreviation pdx :: "addr \<Rightarrow> nat" where "pdx va \<equiv> unat (PDX va)"
abbreviation ptx :: "addr \<Rightarrow> nat" where "ptx va \<equiv> unat (PTX va)"

lemma pdx_bound [simp]: "pdx va < 1024" and ptx_bound [simp]: "ptx va < 1024"
  using PDX_bound [of va] PTX_bound [of va] by (simp_all add: NPDENTRIES_def NPTENTRIES_def)

lemma slot_word: "p + 4 * w = slot p (unat (w :: u32))"
  by (simp add: slot_def)

lemma unat_slot:
  assumes "page_aligned p" and "k < 1024" and "i < 4"
  shows "unat (slot p k + of_nat i) = unat p + 4 * k + i"
proof -
  obtain a where a: "unat p = 4096 * a" using assms(1) by (auto simp: page_aligned_def)
  have "4096 * a < 2 ^ 32" using unat_u32_lt [of p] a by simp
  then have "a < 1048576" by simp
  then have "unat p + (4 * k + i) \<le> 4096 * 1048575 + 4 * 1023 + 3" using assms(2,3) a by linarith
  then have l: "unat p + (4 * k + i) < 2 ^ 32" by simp
  have e: "slot p k + of_nat i = p + of_nat (4 * k + i)" by (simp add: slot_def)
  have "unat (of_nat (4 * k + i) :: addr) = 4 * k + i" using assms(2,3) by (subst unat_of_nat) simp
  then show ?thesis unfolding e using l by (subst unat_add_u32) simp_all
qed

lemma slot_aligned: "page_aligned p \<Longrightarrow> k < 1024 \<Longrightarrow> aligned4 (slot p k)"
  using unat_slot [of p k 0] page_aligned4 [of p] by (simp add: aligned4_def mod_add_eq [symmetric])

lemma slot_eq_iff:
  assumes "page_aligned p" and "page_aligned q" and "k < 1024" and "j < 1024"
  shows "slot p k = slot q j \<longleftrightarrow> p = q \<and> k = j"
proof
  assume "slot p k = slot q j"
  then have e: "unat p + 4 * k = unat q + 4 * j" using unat_slot [of p k 0] unat_slot [of q j 0] assms by simp
  obtain a where a: "unat p = 4096 * a" using assms(1) by (auto simp: page_aligned_def)
  obtain b where b: "unat q = 4096 * b" using assms(2) by (auto simp: page_aligned_def)
  note ab = a b
  have "(4096 * a + 4 * k) div 4096 = a" "(4096 * b + 4 * j) div 4096 = b" using assms(3,4) by simp_all
  then have "a = b" "k = j" using e unfolding ab by simp_all
  then show "p = q \<and> k = j" using ab by (simp add: word_unat_eq_iff)
qed simp

lemma load_store_slot:
  assumes "page_aligned p" and "page_aligned q" and "k < 1024" and "j < 1024"
  shows "load32 (store32 m (slot p k) v) (slot q j) = (if p = q \<and> k = j then v else load32 m (slot q j))"
proof (cases "p = q \<and> k = j")
  case True
  then show ?thesis by (simp add: mem_simps)
next
  case False
  then have "slot q j \<noteq> slot p k" using slot_eq_iff [OF assms] by metis
  then show ?thesis using False load32_store32_other slot_aligned [OF assms(1,3)] slot_aligned [OF assms(2,4)] by auto
qed

lemma in_page_slot:
  assumes "page_aligned p" and "page_aligned q" and "j < 1024" and "i < 4"
  shows "in_page p (slot q j + of_nat i) \<longleftrightarrow> p = q"
proof
  have e: "slot q j + of_nat i = q + of_nat (4 * j + i)" by (simp add: slot_def)
  show "p = q" if "in_page p (slot q j + of_nat i)"
    using that pages_disjoint [OF assms(2,1), of "4 * j + i"] assms(3,4) unfolding e by fastforce
  have "unat (of_nat (4 * j + i) :: addr) = 4 * j + i" using assms(3,4) by (subst unat_of_nat) simp
  moreover have "slot q j + of_nat i - q = of_nat (4 * j + i)" by (simp add: slot_def)
  ultimately have "unat (slot q j + of_nat i - q) = 4 * j + i" by (simp only:)
  then show "in_page p (slot q j + of_nat i)" if "p = q" using that assms(3,4) by (simp only: in_page_def)
qed

lemma load_memset_slot:
  assumes "page_aligned p" and "page_aligned q" and "j < 1024"
  shows "load32 (memset m p 0 PGSIZE) (slot q j) = (if p = q then 0 else load32 m (slot q j))"
proof -
  have b: "memset m p 0 PGSIZE (slot q j + of_nat i) = (if p = q then 0 else m (slot q j + of_nat i))" if "i < 4" for i
    using in_page_slot [OF assms that] by (simp add: memset_eq in_page_def PGSIZE_def)
  from b [of 0] b [of 1] b [of 2] b [of 3] show ?thesis by (simp add: load32_def)
qed

lemma store_slot_outside:
  assumes "page_aligned p" and "k < 1024" and "\<not> in_page p x"
  shows "store32 m (slot p k) v x = m x"
proof -
  have "slot p k + of_nat i \<noteq> x" if "i < 4" for i using in_page_slot [OF assms(1,1,2) that] assms(3) by auto
  from this [of 0] this [of 1] this [of 2] this [of 3] show ?thesis by (auto simp: store32_def)
qed

lemma pool_mem:
  assumes "kmem_pool s pl" and "page_aligned p" and "p \<notin> set pl" and "\<And>x. \<not> in_page p x \<Longrightarrow> m x = mem s x"
  shows "kmem_pool (s\<lparr>mem := m\<rparr>) pl"
proof -
  have "load32 m q = load32 (mem s) q" if "q \<in> set pl" for q
    using assms that by (intro load32_in_page [of q p]) (auto simp: kmem_pool_def valid_page_def)
  then have "flist m (freelist s) pl" using assms(1) flist_cong [of pl m "mem s"] by (simp add: kmem_pool_def)
  moreover have "kmem_ready (s\<lparr>mem := m\<rparr>) i = kmem_ready s i" for i
    using int_ok_cong [of "s\<lparr>mem := m\<rparr>" s i] by (simp add: kmem_ready_def lock_free_def)
  ultimately show ?thesis using assms(1) by (simp add: kmem_pool_def valid_page_def)
qed

section \<open>The tree and its meaning\<close>

definition present :: "u32 \<Rightarrow> bool" where
  "present w \<longleftrightarrow> w AND PTE_P \<noteq> 0"

definition pde_of :: "'z mach_scheme \<Rightarrow> addr \<Rightarrow> nat \<Rightarrow> u32" where
  "pde_of s d i = load32 (mem s) (slot d i)"

definition tab_of :: "'z mach_scheme \<Rightarrow> addr \<Rightarrow> nat \<Rightarrow> addr" where
  "tab_of s d i = P2V (PTE_ADDR (pde_of s d i))"

text \<open>The entry that the hardware finds for a virtual address, 0 where the table is missing, and the translation it gives.\<close>

definition pte_of :: "'z mach_scheme \<Rightarrow> addr \<Rightarrow> addr \<Rightarrow> u32" where
  "pte_of s d va = (if present (pde_of s d (pdx va)) then load32 (mem s) (slot (tab_of s d (pdx va)) (ptx va)) else 0)"

definition xlate :: "'z mach_scheme \<Rightarrow> addr \<Rightarrow> addr \<Rightarrow> u32 option" where
  "xlate s d va = (if present (pte_of s d va) then Some (pte_of s d va) else None)"

text \<open>
  A well-formed tree: the directory and the tables are pages outside the pool \<open>pl\<close> of free pages, each table hangs on one entry.
\<close>

definition vm_ok :: "'z kmem_state_scheme \<Rightarrow> addr \<Rightarrow> addr list \<Rightarrow> bool" where
  "vm_ok s d pl \<longleftrightarrow> kmem_pool s pl \<and> valid_page s d \<and> d \<notin> set pl \<and>
     (\<forall>i < 1024. present (pde_of s d i) \<longrightarrow> valid_page s (tab_of s d i) \<and> tab_of s d i \<notin> set pl \<and> tab_of s d i \<noteq> d) \<and>
     (\<forall>i < 1024. \<forall>j < 1024. i \<noteq> j \<and> present (pde_of s d i) \<and> present (pde_of s d j) \<longrightarrow> tab_of s d i \<noteq> tab_of s d j)"

lemma vm_okD:
  assumes "vm_ok s d pl"
  shows "kmem_pool s pl" "valid_page s d" "page_aligned d" "d \<notin> set pl"
    and "i < 1024 \<Longrightarrow> present (pde_of s d i) \<Longrightarrow> page_aligned (tab_of s d i) \<and> tab_of s d i \<notin> set pl \<and> tab_of s d i \<noteq> d \<and> tab_of s d i \<noteq> 0"
    and "i < 1024 \<Longrightarrow> j < 1024 \<Longrightarrow> present (pde_of s d i) \<Longrightarrow> present (pde_of s d j) \<Longrightarrow> tab_of s d i = tab_of s d j \<Longrightarrow> i = j"
  using assms valid_page_nonzero [of s "tab_of s d i"] by (auto simp: vm_ok_def valid_page_def)

lemma new_pde: "page_aligned p \<Longrightarrow> P2V (PTE_ADDR (V2P p OR PTE_P OR PTE_W OR PTE_U)) = p" "present (V2P p OR PTE_P OR PTE_W OR PTE_U)"
proof -
  have "unat (PTE_P OR PTE_W OR PTE_U) < 4096" by (simp add: PTE_P_def PTE_W_def PTE_U_def)
  then show "page_aligned p \<Longrightarrow> P2V (PTE_ADDR (V2P p OR PTE_P OR PTE_W OR PTE_U)) = p"
    using PTE_ADDR_or(1) [of "V2P p" "PTE_P OR PTE_W OR PTE_U"] page_aligned_V2P by (simp add: or.assoc)
  show "present (V2P p OR PTE_P OR PTE_W OR PTE_U)"
  proof -
    have "bit ((V2P p OR PTE_P OR PTE_W OR PTE_U) AND PTE_P) 0" by (simp add: PTE_P_def bit_simps)
    then show ?thesis unfolding present_def by auto
  qed
qed

lemma or_present: "present (w OR PTE_P)"
proof -
  have "bit ((w OR PTE_P) AND PTE_P) 0" by (simp add: PTE_P_def bit_simps)
  then show ?thesis unfolding present_def by auto
qed

text \<open>Writing an entry of a table changes the tree at one page only.\<close>

lemma set_entry:
  assumes ok: "vm_ok s d pl" and i: "i < 1024" "k < 1024" and pr: "present (pde_of s d i)"
  shows "vm_ok (set_pte (slot (tab_of s d i) k) w s) d pl"
    and "pte_of (set_pte (slot (tab_of s d i) k) w s) d va = (if pdx va = i \<and> ptx va = k then w else pte_of s d va)"
    and "j < 1024 \<Longrightarrow> pde_of (set_pte (slot (tab_of s d i) k) w s) d j = pde_of s d j"
proof -
  let ?t = "set_pte (slot (tab_of s d i) k) w s"
  note D = vm_okD [OF ok]
  have al: "page_aligned (tab_of s d i)" and nd: "tab_of s d i \<noteq> d" and np: "tab_of s d i \<notin> set pl" using D(5) [OF i(1) pr] by auto
  show pde: "pde_of ?t d j = pde_of s d j" if "j < 1024" for j
    using load_store_slot [OF al D(3) i(2) that] nd by (simp add: pde_of_def set_pte_def)
  have tab: "tab_of ?t d j = tab_of s d j" if "j < 1024" for j using pde [OF that] by (simp add: tab_of_def)
  have "kmem_pool ?t pl" unfolding set_pte_def
    by (rule pool_mem [OF D(1) al np]) (rule store_slot_outside [OF al i(2)])
  then show "vm_ok ?t d pl" using ok pde tab unfolding vm_ok_def by (simp add: valid_page_def set_pte_def)
  show "pte_of ?t d va = (if pdx va = i \<and> ptx va = k then w else pte_of s d va)"
  proof (cases "present (pde_of s d (pdx va))")
    case True
    have "load32 (mem ?t) (slot (tab_of s d (pdx va)) (ptx va)) =
        (if tab_of s d i = tab_of s d (pdx va) \<and> k = ptx va then w else load32 (mem s) (slot (tab_of s d (pdx va)) (ptx va)))"
      using D(5) [OF _ True] al i(2) by (simp add: set_pte_def load_store_slot)
    moreover have "tab_of s d i = tab_of s d (pdx va) \<longleftrightarrow> pdx va = i" using D(6) [OF i(1) _ pr True] by auto
    ultimately show ?thesis using True pde tab by (auto simp: pte_of_def)
  next
    case False
    then show ?thesis using pde pr by (auto simp: pte_of_def)
  qed
qed

section \<open>The walk\<close>

lemma vm_ok_mem:
  assumes "vm_ok s d pl" and "mem t = mem s" and "kend t = kend s" and "kmem_pool t pl'" and "set pl' \<subseteq> set pl"
  shows "vm_ok t d pl'" and "pte_of t d va = pte_of s d va"
proof -
  have e: "pde_of t d i = pde_of s d i" "tab_of t d i = tab_of s d i" for i using assms(2) by (simp_all add: pde_of_def tab_of_def)
  show "vm_ok t d pl'" using assms e unfolding vm_ok_def by (auto simp: valid_page_def)
  show "pte_of t d va = pte_of s d va" using assms(2) e by (simp add: pte_of_def)
qed

text \<open>Hanging a new, zeroed table into the directory leaves the meaning of the tree as it is.\<close>

lemma new_table:
  assumes ok: "vm_ok s d (p # pl)" and pool: "kmem_pool t pl" and same: "mem t = mem s" "kend t = kend s"
    and i: "i < 1024" "\<not> present (pde_of s d i)"
    and u: "u = set_pte (slot d i) (V2P p OR PTE_P OR PTE_W OR PTE_U) (t\<lparr>mem := memset (mem t) p 0 PGSIZE\<rparr>)"
  shows "vm_ok u d pl" and "pte_of u d va = pte_of s d va" and "present (pde_of u d i)" and "tab_of u d i = p"
proof -
  note D = vm_okD [OF ok]
  have p: "page_aligned p" "p \<noteq> d" "p \<notin> set pl" "valid_page s p"
    using ok by (auto simp: vm_ok_def kmem_pool_def valid_page_def)
  have pde: "pde_of u d j = (if j = i then V2P p OR PTE_P OR PTE_W OR PTE_U else pde_of s d j)" if "j < 1024" for j
    using load_store_slot [OF D(3) D(3) i(1) that] load_memset_slot [OF p(1) D(3) that] p(2) by (simp add: u pde_of_def set_pte_def same)
  show pr: "present (pde_of u d i)" using pde [OF i(1)] new_pde(2) by simp
  show ti: "tab_of u d i = p" using pde [OF i(1)] new_pde(1) [OF p(1)] by (simp add: tab_of_def)
  have tj: "tab_of u d j = tab_of s d j" if "j < 1024" "j \<noteq> i" for j using pde [OF that(1)] that(2) by (simp add: tab_of_def)
  have np: "tab_of s d j \<noteq> p" if "j < 1024" "present (pde_of s d j)" for j using D(5) [OF that] by auto
  have ma: "mem u = store32 (memset (mem s) p 0 PGSIZE) (slot d i) (V2P p OR PTE_P OR PTE_W OR PTE_U)" and ke: "kend u = kend s"
    by (simp_all add: u set_pte_def same)
  have "kmem_pool (t\<lparr>mem := memset (mem t) p 0 PGSIZE\<rparr>) pl"
    by (rule pool_mem [OF pool p(1,3)]) (simp add: memset_eq in_page_def PGSIZE_def)
  then have kp: "kmem_pool u pl" unfolding u set_pte_def
    by (rule pool_mem [OF _ D(3)]) (use D(4) store_slot_outside [OF D(3) i(1)] in auto)
  have v: "valid_page u x = valid_page s x" for x by (simp add: valid_page_def ke)
  have one: "valid_page s (tab_of u d j) \<and> tab_of u d j \<notin> set pl \<and> tab_of u d j \<noteq> d" if "j < 1024" "present (pde_of u d j)" for j
    using that ok pde [OF that(1)] tj [OF that(1)] ti p by (cases "j = i") (auto simp: vm_ok_def)
  have two: "tab_of u d j \<noteq> tab_of u d k" if "j < 1024" "k < 1024" "j \<noteq> k" "present (pde_of u d j)" "present (pde_of u d k)" for j k
    using that D(6) [of j k] pde [of j] pde [of k] tj [of j] tj [of k] ti np [of j] np [of k] by (cases "j = i"; cases "k = i") auto
  show "vm_ok u d pl" unfolding vm_ok_def v using kp ok one two D(4) by (auto simp: vm_ok_def)
  show "pte_of u d va = pte_of s d va"
  proof (cases "pdx va = i")
    case True
    have "load32 (mem u) (slot p (ptx va)) = 0"
      unfolding ma using load_store_slot [OF D(3) p(1) i(1)] load_memset_slot [OF p(1) p(1)] p(2) by auto
    then show ?thesis using True pr ti i(2) by (simp add: pte_of_def)
  next
    case False
    then have e: "pde_of u d (pdx va) = pde_of s d (pdx va)" "tab_of u d (pdx va) = tab_of s d (pdx va)" using pde tj by auto
    have "load32 (mem u) (slot (tab_of s d (pdx va)) (ptx va)) = load32 (mem s) (slot (tab_of s d (pdx va)) (ptx va))"
      if pr: "present (pde_of s d (pdx va))"
    proof -
      have al: "page_aligned (tab_of s d (pdx va))" "tab_of s d (pdx va) \<noteq> d" "tab_of s d (pdx va) \<noteq> p"
        using D(5) [OF _ pr] np [OF _ pr] by auto
      show ?thesis unfolding ma using load_store_slot [OF D(3) al(1) i(1)] load_memset_slot [OF p(1) al(1)] al(2,3) by auto
    qed
    then show ?thesis using e by (simp add: pte_of_def)
  qed
qed

lemma slot_nonzero: "page_aligned p \<Longrightarrow> p \<noteq> 0 \<Longrightarrow> k < 1024 \<Longrightarrow> slot p k \<noteq> 0"
  using unat_slot [of p k 0] by (auto simp: unat_eq_0 [symmetric])

lemma walk_ok:
  assumes ok: "vm_ok s d pl"
  shows "\<exists>pte t pl'. walkpgdir d va True s = Ok pte t \<and> vm_ok t d pl' \<and> (\<forall>v. pte_of t d v = pte_of s d v) \<and>
    (if pte = 0 then pl' = [] else present (pde_of t d (pdx va)) \<and> pte = slot (tab_of t d (pdx va)) (ptx va))"
proof -
  note D = vm_okD [OF ok]
  have pde: "pte_at s (d + 4 * PDX va) = pde_of s d (pdx va)" unfolding slot_word by (simp add: pte_at_def pde_of_def)
  show ?thesis
  proof (cases "present (pde_of s d (pdx va))")
    case True
    have "walkpgdir d va True s = Ok (slot (tab_of s d (pdx va)) (ptx va)) s"
      using True pde by (simp add: walkpgdir_def tab_of_def present_def slot_word)
    moreover have "slot (tab_of s d (pdx va)) (ptx va) \<noteq> 0" using D(5) [OF _ True] by (intro slot_nonzero) auto
    ultimately show ?thesis using ok True by (intro exI [of _ "slot (tab_of s d (pdx va)) (ptx va)"] exI [of _ s] exI [of _ pl]) simp
  next
    case False
    show ?thesis
    proof (cases pl)
      case Nil
      obtain t where t: "kalloc s = Ok 0 t" "kmem_pool t []" "mem t = mem s" using kalloc_pool_Nil D(1) Nil by blast
      have "walkpgdir d va True s = Ok 0 t" using False pde t(1) by (simp add: walkpgdir_def present_def)
      then show ?thesis using vm_ok_mem [OF ok t(3) kalloc_kend [OF D(1) t(1)] t(2)] by (intro exI [of _ 0] exI [of _ t]) simp
    next
      case (Cons p ql)
      obtain t where t: "kalloc s = Ok p t" "kmem_pool t ql" "mem t = mem s" "p \<noteq> 0" using kalloc_pool_Cons D(1) Cons by blast
      let ?u = "set_pte (slot d (pdx va)) (V2P p OR PTE_P OR PTE_W OR PTE_U) (t\<lparr>mem := memset (mem t) p 0 PGSIZE\<rparr>)"
      have al: "page_aligned p" using D(1) Cons by (auto simp: kmem_pool_def valid_page_def)
      note N = new_table [OF ok [unfolded Cons] t(2,3) kalloc_kend [OF D(1) t(1)] pdx_bound False refl]
      have "walkpgdir d va True s = Ok (slot p (ptx va)) ?u"
        using False pde t(1,4) by (simp add: walkpgdir_def present_def Let_def slot_word)
      then show ?thesis using N slot_nonzero [OF al t(4), of "ptx va"]
        by (intro exI [of _ "slot p (ptx va)"] exI [of _ ?u] exI [of _ ql]) simp
    qed
  qed
qed

section \<open>Mapping a range\<close>

definition pg :: "addr \<Rightarrow> nat \<Rightarrow> addr" where
  "pg a j = a + of_nat (4096 * j)"

lemma pg_Suc: "pg a (Suc j) = pg (a + PGSIZE) j"
  by (simp add: pg_def PGSIZE_def)

lemma unat_pg: "unat a + 4096 * j < 2 ^ 32 \<Longrightarrow> unat (pg a j) = unat a + 4096 * j"
proof -
  assume l: "unat a + 4096 * j < 2 ^ 32"
  then have "unat (of_nat (4096 * j) :: addr) = 4096 * j" by (subst unat_of_nat) simp
  then show ?thesis unfolding pg_def using l by (subst unat_add_u32) simp_all
qed

lemma pg_aligned:
  assumes "page_aligned a" and "unat a + 4096 * j < 2 ^ 32"
  shows "page_aligned (pg a j)" "PGROUNDDOWN (pg a j) = pg a j"
proof -
  show "page_aligned (pg a j)" using assms by (simp add: page_aligned_def unat_pg)
  then show "PGROUNDDOWN (pg a j) = pg a j" by (rule PGROUNDDOWN_aligned)
qed

lemma same_page: "PGROUNDDOWN v = PGROUNDDOWN w \<longleftrightarrow> pdx v = pdx w \<and> ptx v = ptx w"
proof
  assume "PGROUNDDOWN v = PGROUNDDOWN w"
  then have e: "unat v div 4096 = unat w div 4096" using unat_PGROUNDDOWN [of v] unat_PGROUNDDOWN [of w] by simp
  have "unat x div 2 ^ 22 = unat x div 4096 div 1024" for x :: addr by (simp add: div_mult2_eq [symmetric])
  then show "pdx v = pdx w \<and> ptx v = ptx w" using e by (simp add: unat_PDX unat_PTX)
next
  assume "pdx v = pdx w \<and> ptx v = ptx w"
  then show "PGROUNDDOWN v = PGROUNDDOWN w" by (intro PDX_PTX_inj) (simp_all add: word_unat_eq_iff)
qed

lemma pte_of_page: "PGROUNDDOWN v = PGROUNDDOWN w \<Longrightarrow> pte_of s d v = pte_of s d w"
  by (simp add: same_page pte_of_def)

lemma map_one:
  assumes ok: "vm_ok s d pl" and al: "page_aligned a" and un: "\<not> present (pte_of s d a)"
  shows "\<exists>t pl'. vm_ok t d pl' \<and>
    ((\<forall>k. mappages_loop (Suc k) d a lst pa perm s = Ok (- 1) t) \<and> pl' = [] \<and> (\<forall>v. pte_of t d v = pte_of s d v) \<or>
     (\<forall>k. mappages_loop (Suc k) d a lst pa perm s =
        (if a = lst then Ok 0 t else mappages_loop k d (a + PGSIZE) lst (pa + PGSIZE) perm t)) \<and>
     (\<forall>v. pte_of t d v = (if PGROUNDDOWN v = a then pa OR perm OR PTE_P else pte_of s d v)))"
proof -
  obtain pte t pl' where w: "walkpgdir d a True s = Ok pte t" "vm_ok t d pl'" "\<forall>v. pte_of t d v = pte_of s d v"
      "if pte = 0 then pl' = [] else present (pde_of t d (pdx a)) \<and> pte = slot (tab_of t d (pdx a)) (ptx a)"
    using walk_ok [OF ok] by blast
  show ?thesis
  proof (cases "pte = 0")
    case True
    then show ?thesis using w by (intro exI [of _ t] exI [of _ pl']) simp
  next
    case False
    then have pr: "present (pde_of t d (pdx a))" and pte: "pte = slot (tab_of t d (pdx a)) (ptx a)" using w(4) by simp_all
    have "pte_at t pte = pte_of t d a" using pr pte by (simp add: pte_at_def pte_of_def)
    then have np: "pte_at t pte AND PTE_P = 0" using un w(3) by (simp add: present_def)
    let ?u = "set_pte pte (pa OR perm OR PTE_P) t"
    note S = set_entry [OF w(2) pdx_bound ptx_bound [of a] pr, where w = "pa OR perm OR PTE_P", folded pte]
    have "mappages_loop (Suc k) d a lst pa perm s =
        (if a = lst then Ok 0 ?u else mappages_loop k d (a + PGSIZE) lst (pa + PGSIZE) perm ?u)" for k
      using w(1) False np by (simp add: Let_def)
    moreover have "pte_of ?u d v = (if PGROUNDDOWN v = a then pa OR perm OR PTE_P else pte_of s d v)" for v
      using S(2) [of v] w(3) same_page [of v a] PGROUNDDOWN_aligned [OF al] by simp
    ultimately show ?thesis using S(1) by (intro exI [of _ ?u] exI [of _ pl']) simp
  qed
qed

lemma mappages_loop_ok:
  assumes "vm_ok s d pl" and "page_aligned a" and "unat a + 4096 * n < 2 ^ 32" and "\<forall>j \<le> n. \<not> present (pte_of s d (pg a j))"
  shows "\<exists>r t pl'. mappages_loop (Suc n) d a (pg a n) pa perm s = Ok r t \<and> vm_ok t d pl' \<and> (r = 0 \<or> r = - 1 \<and> pl' = []) \<and>
    (r = 0 \<longrightarrow> (\<forall>j \<le> n. pte_of t d (pg a j) = pg pa j OR perm OR PTE_P)) \<and>
    (\<forall>v. (\<forall>j \<le> n. PGROUNDDOWN v \<noteq> pg a j) \<longrightarrow> pte_of t d v = pte_of s d v)"
  using assms
proof (induction n arbitrary: a pa s pl)
  case 0
  have a: "pg a 0 = a" "pg pa 0 = pa" by (simp_all add: pg_def)
  then obtain t pl' where t: "vm_ok t d pl'"
      "(\<forall>k. mappages_loop (Suc k) d a a pa perm s = Ok (- 1) t) \<and> pl' = [] \<and> (\<forall>v. pte_of t d v = pte_of s d v) \<or>
       (\<forall>k. mappages_loop (Suc k) d a a pa perm s = Ok 0 t) \<and> (\<forall>v. pte_of t d v = (if PGROUNDDOWN v = a then pa OR perm OR PTE_P else pte_of s d v))"
    using map_one [OF 0(1,2), of a pa perm] 0(4) by auto
  have pa: "PGROUNDDOWN a = a" by (rule PGROUNDDOWN_aligned [OF 0(2)])
  from t(2) show ?case
  proof (elim disjE conjE)
    assume "\<forall>k. mappages_loop (Suc k) d a a pa perm s = Ok (- 1) t" "pl' = []" "\<forall>v. pte_of t d v = pte_of s d v"
    then show ?thesis using t(1) a by (intro exI [of _ "- 1"] exI [of _ t] exI [of _ pl']) (simp del: mappages_loop.simps)
  next
    assume "\<forall>k. mappages_loop (Suc k) d a a pa perm s = Ok 0 t" "\<forall>v. pte_of t d v = (if PGROUNDDOWN v = a then pa OR perm OR PTE_P else pte_of s d v)"
    then show ?thesis using t(1) a pa by (intro exI [of _ 0] exI [of _ t] exI [of _ pl']) (simp del: mappages_loop.simps)
  qed
next
  case (Suc n)
  have a0: "pg a 0 = a" "pg pa 0 = pa" by (simp_all add: pg_def)
  have un: "unat (a + PGSIZE) = unat a + 4096" using unat_pg [of a 1] Suc.prems(3) by (simp add: pg_def PGSIZE_def)
  have al: "page_aligned (a + PGSIZE)" using Suc.prems(2) un by (simp add: page_aligned_def)
  have ne: "a \<noteq> pg a (Suc n)" using unat_pg [OF Suc.prems(3)] by (auto simp: word_unat_eq_iff)
  have pgne: "PGROUNDDOWN (pg a (Suc j)) \<noteq> a" if "j \<le> n" for j
  proof -
    have l: "unat a + 4096 * Suc j < 2 ^ 32" using Suc.prems(3) that by simp
    show ?thesis using pg_aligned(2) [OF Suc.prems(2) l] unat_pg [OF l] by (auto simp: word_unat_eq_iff)
  qed
  have "\<not> present (pte_of s d a)" using Suc.prems(4) a0 by force
  then obtain t pl' where t: "vm_ok t d pl'"
      "mappages_loop (Suc (Suc n)) d a (pg a (Suc n)) pa perm s = Ok (- 1) t \<and> pl' = [] \<and> (\<forall>v. pte_of t d v = pte_of s d v) \<or>
       mappages_loop (Suc (Suc n)) d a (pg a (Suc n)) pa perm s = mappages_loop (Suc n) d (a + PGSIZE) (pg (a + PGSIZE) n) (pa + PGSIZE) perm t \<and>
       (\<forall>v. pte_of t d v = (if PGROUNDDOWN v = a then pa OR perm OR PTE_P else pte_of s d v))"
    using map_one [OF Suc.prems(1,2), of "pg a (Suc n)" pa perm] ne unfolding pg_Suc by (auto simp del: mappages_loop.simps)
  from t(2) show ?case
  proof (elim disjE conjE)
    assume "mappages_loop (Suc (Suc n)) d a (pg a (Suc n)) pa perm s = Ok (- 1) t" "pl' = []" "\<forall>v. pte_of t d v = pte_of s d v"
    then show ?thesis using t(1) by (intro exI [of _ "- 1"] exI [of _ t] exI [of _ pl']) (simp del: mappages_loop.simps)
  next
    assume loop: "mappages_loop (Suc (Suc n)) d a (pg a (Suc n)) pa perm s = mappages_loop (Suc n) d (a + PGSIZE) (pg (a + PGSIZE) n) (pa + PGSIZE) perm t"
      and pt: "\<forall>v. pte_of t d v = (if PGROUNDDOWN v = a then pa OR perm OR PTE_P else pte_of s d v)"
    have "\<forall>j \<le> n. \<not> present (pte_of t d (pg (a + PGSIZE) j))" using Suc.prems(4) pt pgne by (simp flip: pg_Suc)
    then obtain r u ql where u: "mappages_loop (Suc n) d (a + PGSIZE) (pg (a + PGSIZE) n) (pa + PGSIZE) perm t = Ok r u" "vm_ok u d ql"
        "r = 0 \<or> r = - 1 \<and> ql = []" "r = 0 \<longrightarrow> (\<forall>j \<le> n. pte_of u d (pg (a + PGSIZE) j) = pg (pa + PGSIZE) j OR perm OR PTE_P)"
        "\<forall>v. (\<forall>j \<le> n. PGROUNDDOWN v \<noteq> pg (a + PGSIZE) j) \<longrightarrow> pte_of u d v = pte_of t d v"
      using Suc.IH [OF t(1) al, of "pa + PGSIZE"] Suc.prems(3) un by auto
    have ra: "PGROUNDDOWN a = a" by (rule PGROUNDDOWN_aligned [OF Suc.prems(2)])
    have first: "pte_of u d a = pa OR perm OR PTE_P" using u(5) pt ra pgne unfolding pg_Suc by (metis pg_aligned(2) pg_Suc)
    have "pte_of u d (pg a j) = pg pa j OR perm OR PTE_P" if "r = 0" "j \<le> Suc n" for j
      using that u(4) first a0 by (cases j) (simp_all add: pg_Suc)
    moreover have "pte_of u d v = pte_of s d v" if v: "\<forall>j \<le> Suc n. PGROUNDDOWN v \<noteq> pg a j" for v
    proof -
      have "\<forall>j \<le> n. PGROUNDDOWN v \<noteq> pg (a + PGSIZE) j" "PGROUNDDOWN v \<noteq> a" using v a0 by (auto simp flip: pg_Suc)
      then show ?thesis using u(5) pt by simp
    qed
    ultimately show ?thesis using loop u(1,2,3) by (intro exI [of _ r] exI [of _ u] exI [of _ ql]) (simp del: mappages_loop.simps)
  qed
qed

text \<open>A user address is translated to the kernel address of its page, if the page is present and open to the user.\<close>

lemma uva2ka_xlate:
  assumes ok: "vm_ok s d pl" and pr: "present (pde_of s d (pdx va))"
  shows "uva2ka d va s = (case xlate s d va of None \<Rightarrow> Ok 0 s | Some e \<Rightarrow> Ok (if e AND PTE_U = 0 then 0 else P2V (PTE_ADDR e)) s)"
proof -
  have al: "page_aligned (tab_of s d (pdx va))" "tab_of s d (pdx va) \<noteq> 0" using vm_okD(5) [OF ok pdx_bound pr] by auto
  have "pte_at s (d + 4 * PDX va) = pde_of s d (pdx va)" unfolding slot_word by (simp add: pte_at_def pde_of_def)
  then have "walkpgdir d va False s = Ok (slot (tab_of s d (pdx va)) (ptx va)) s"
    using pr by (simp add: walkpgdir_def tab_of_def present_def slot_word)
  moreover have "slot (tab_of s d (pdx va)) (ptx va) \<noteq> 0" by (rule slot_nonzero [OF al ptx_bound])
  moreover have "pte_at s (slot (tab_of s d (pdx va)) (ptx va)) = pte_of s d va" using pr by (simp add: pte_at_def pte_of_def)
  ultimately show ?thesis by (simp add: uva2ka_def xlate_def present_def)
qed

section \<open>Properties\<close>

text \<open>The pages that a range of bytes touches.\<close>

definition covers :: "addr \<Rightarrow> u32 \<Rightarrow> addr \<Rightarrow> bool" where
  "covers va sz v \<longleftrightarrow> PGROUNDDOWN va \<le> v \<and> PGROUNDDOWN v \<le> PGROUNDDOWN (va + sz - 1)"

lemma covers_pages:
  assumes "0 < sz" and "unat va + unat sz \<le> 2 ^ 32"
  defines "a \<equiv> PGROUNDDOWN va" and "n \<equiv> unat (PGROUNDDOWN (va + sz - 1) - PGROUNDDOWN va) div unat PGSIZE"
  shows "pg a n = PGROUNDDOWN (va + sz - 1)" and "unat a + 4096 * n < 2 ^ 32" and "covers va sz v \<longleftrightarrow> (\<exists>j \<le> n. PGROUNDDOWN v = pg a j)"
proof -
  let ?l = "PGROUNDDOWN (va + sz - 1)"
  have sz: "0 < unat sz" using assms(1) by (simp add: word_less_nat_alt)
  have "va + sz - 1 = va + (sz - 1)" by simp
  moreover have "unat (sz - 1) = unat sz - 1" using sz by (metis One_nat_def gr_implies_not0 unat_0 unat_1 unat_minus_one)
  ultimately have e: "unat (va + sz - 1) = unat va + (unat sz - 1)" using assms(2) sz by (simp only:) (subst unat_add_u32, simp_all)
  define A L where "A = unat va div 4096" and "L = unat (va + sz - 1) div 4096"
  have ua: "unat a = 4096 * A" and ul: "unat ?l = 4096 * L" by (simp_all add: a_def A_def L_def unat_PGROUNDDOWN)
  have AL: "A \<le> L" unfolding A_def L_def e by (rule div_le_mono) simp
  have "unat (?l - PGROUNDDOWN va) = 4096 * L - 4096 * A" using AL ua ul by (simp add: a_def unat_sub word_le_nat_alt)
  then have n: "n = L - A" by (simp add: n_def PGSIZE_def right_diff_distrib')
  have an: "unat a + 4096 * n = unat ?l" using AL by (simp add: ua ul n right_diff_distrib')
  show lt: "unat a + 4096 * n < 2 ^ 32" unfolding an by (rule unat_u32_lt)
  show "pg a n = ?l" using unat_pg [OF lt] an by (simp add: word_unat_eq_iff)
  define V where "V = unat v div 4096"
  have uv: "unat (PGROUNDDOWN v) = 4096 * V" by (simp add: V_def unat_PGROUNDDOWN)
  have "PGROUNDDOWN va \<le> v \<longleftrightarrow> A \<le> V"
    using ua unfolding a_def word_le_nat_alt V_def by (simp add: less_eq_div_iff_mult_less_eq mult.commute)
  then have c: "covers va sz v \<longleftrightarrow> A \<le> V \<and> V \<le> L" using uv ul by (simp add: covers_def word_le_nat_alt)
  have p: "PGROUNDDOWN v = pg a j \<longleftrightarrow> V = A + j" if "j \<le> n" for j
  proof -
    have "unat a + 4096 * j < 2 ^ 32" using lt that by (meson add_left_mono le_less_trans mult_le_mono2)
    then show ?thesis using unat_pg [of a j] uv ua by (auto simp: word_unat_eq_iff)
  qed
  show "covers va sz v \<longleftrightarrow> (\<exists>j \<le> n. PGROUNDDOWN v = pg a j)"
  proof
    assume "covers va sz v"
    then have "V - A \<le> n" "V = A + (V - A)" using c n by auto
    then show "\<exists>j \<le> n. PGROUNDDOWN v = pg a j" using p by blast
  next
    assume "\<exists>j \<le> n. PGROUNDDOWN v = pg a j"
    then obtain j where "j \<le> n" "V = A + j" using p by blast
    then show "covers va sz v" using c n AL by simp
  qed
qed

text \<open>
  C37. \<open>mappages\<close> on a well-formed page table and a range of unmapped pages always returns, without a panic.  It keeps the table well formed
  and every translation outside the range.  If it reports success, each page of the range is translated to the physical page at
  the same distance, with the permissions given; it reports failure only when no free page is left for a table.
\<close>

theorem mappages_correct:
  assumes "vm_ok s d pl" and "0 < sz" and "unat va + unat sz \<le> 2 ^ 32" and "\<forall>v. covers va sz v \<longrightarrow> xlate s d v = None"
  shows "\<exists>r t pl'. mappages d va sz pa perm s = Ok r t \<and> vm_ok t d pl' \<and> (r = 0 \<or> r = - 1 \<and> pl' = []) \<and>
    (\<forall>v. if covers va sz v
         then r = 0 \<longrightarrow> xlate t d v = Some ((pa + (PGROUNDDOWN v - PGROUNDDOWN va)) OR perm OR PTE_P)
         else xlate t d v = xlate s d v)"
proof -
  let ?a = "PGROUNDDOWN va"
  define n where "n = unat (PGROUNDDOWN (va + sz - 1) - PGROUNDDOWN va) div unat PGSIZE"
  note C = covers_pages [OF assms(2,3), folded n_def]
  have un: "\<not> present (pte_of s d (pg ?a j))" if j: "j \<le> n" for j
  proof -
    have "unat ?a + 4096 * j < 2 ^ 32" using C(2) j by (meson add_left_mono le_less_trans mult_le_mono2)
    then have "PGROUNDDOWN (pg ?a j) = pg ?a j" by (rule pg_aligned(2) [OF page_aligned_PGROUNDDOWN])
    then have "covers va sz (pg ?a j)" using C(3) j by auto
    then show ?thesis using assms(4) by (auto simp: xlate_def split: if_splits)
  qed
  obtain r t pl' where r: "mappages_loop (Suc n) d ?a (pg ?a n) pa perm s = Ok r t" "vm_ok t d pl'" "r = 0 \<or> r = - 1 \<and> pl' = []"
      "r = 0 \<longrightarrow> (\<forall>j \<le> n. pte_of t d (pg ?a j) = pg pa j OR perm OR PTE_P)"
      "\<forall>v. (\<forall>j \<le> n. PGROUNDDOWN v \<noteq> pg ?a j) \<longrightarrow> pte_of t d v = pte_of s d v"
    using mappages_loop_ok [OF assms(1) page_aligned_PGROUNDDOWN C(2)] un by blast
  have "mappages d va sz pa perm s = Ok r t" using r(1) unfolding mappages_def Let_def n_def [symmetric] C(1) .
  moreover have "if covers va sz v then r = 0 \<longrightarrow> xlate t d v = Some ((pa + (PGROUNDDOWN v - ?a)) OR perm OR PTE_P)
      else xlate t d v = xlate s d v" for v
  proof (cases "covers va sz v")
    case True
    then obtain j where j: "j \<le> n" "PGROUNDDOWN v = pg ?a j" using C(3) by blast
    have "unat ?a + 4096 * j < 2 ^ 32" using C(2) j(1) by (meson add_left_mono le_less_trans mult_le_mono2)
    then have "PGROUNDDOWN (pg ?a j) = PGROUNDDOWN v" using pg_aligned(2) [OF page_aligned_PGROUNDDOWN] j(2) by simp
    then have "pte_of t d v = pte_of t d (pg ?a j)" by (intro pte_of_page) simp
    moreover have "pg pa j = pa + (PGROUNDDOWN v - ?a)" using j(2) by (simp add: pg_def)
    ultimately show ?thesis using True r(4) j(1) or_present [of "(pa + (PGROUNDDOWN v - ?a)) OR perm"] by (auto simp: xlate_def or.assoc)
  next
    case False
    then show ?thesis using r(5) C(3) by (auto simp: xlate_def)
  qed
  ultimately show ?thesis using r(2,3) by blast
qed

text \<open>An empty page directory and two free pages.\<close>

definition demo_vm :: kmem_state where
  "demo_vm = demo_kmem\<lparr>mem := store32 (\<lambda>_. 0) 0x80401000 0x80402000, freelist := 0x80401000\<rparr>"

lemma demo_vm_pages:
  "page_aligned 0x80400000" "page_aligned 0x80401000" "page_aligned 0x80402000"
  by (simp_all add: page_aligned_def)

lemma demo_vm_load: "page_aligned q \<Longrightarrow> k < 1024 \<Longrightarrow> load32 (mem demo_vm) (slot q k) = (if q = 0x80401000 \<and> k = 0 then 0x80402000 else 0)"
proof -
  assume "page_aligned q" "k < 1024"
  then have "load32 (store32 (\<lambda>_. 0) (slot 0x80401000 0) 0x80402000) (slot q k) =
      (if 0x80401000 = q \<and> 0 = k then 0x80402000 else load32 (\<lambda>_. 0) (slot q k))"
    by (intro load_store_slot demo_vm_pages) simp_all
  then show ?thesis by (auto simp: demo_vm_def slot_def load32_def)
qed

lemma demo_vm_pde: "i < 1024 \<Longrightarrow> pde_of demo_vm 0x80400000 i = 0"
  using demo_vm_load [OF demo_vm_pages(1), of i] by (simp add: pde_of_def)

lemma demo_vm_ok: "vm_ok demo_vm 0x80400000 [0x80401000, 0x80402000]"
proof -
  have "load32 (mem demo_vm) 0x80401000 = 0x80402000" "load32 (mem demo_vm) 0x80402000 = 0"
    using demo_vm_load [OF demo_vm_pages(2), of 0] demo_vm_load [OF demo_vm_pages(3), of 0] by (simp_all add: slot_def)
  then have "kmem_pool demo_vm [0x80401000, 0x80402000]"
    by (simp add: kmem_pool_def) (simp add: demo_vm_def demo_kmem_def kmem_ready_def valid_page_def page_aligned_def V2P_def KERNBASE_def PHYSTOP_def)
  moreover have "valid_page demo_vm 0x80400000"
    by (simp add: demo_vm_def demo_kmem_def valid_page_def page_aligned_def V2P_def KERNBASE_def PHYSTOP_def)
  ultimately show ?thesis using demo_vm_pde by (simp add: vm_ok_def present_def)
qed

theorem mappages_correct_witness:
  "\<exists>r t. mappages 0x80400000 0x1000 0x2000 0x300000 PTE_W demo_vm = Ok r t \<and>
    (r = 0 \<longrightarrow> xlate t 0x80400000 0x2345 = Some (0x301000 OR PTE_W OR PTE_P)) \<and> xlate t 0x80400000 0x3000 = None"
proof -
  have none: "xlate demo_vm 0x80400000 v = None" for v
    using demo_vm_pde [of "pdx v"] by (simp add: xlate_def pte_of_def present_def)
  obtain r t pl' where r: "mappages 0x80400000 0x1000 0x2000 0x300000 PTE_W demo_vm = Ok r t"
      "\<forall>v. if covers 0x1000 0x2000 v
           then r = 0 \<longrightarrow> xlate t 0x80400000 v = Some ((0x300000 + (PGROUNDDOWN v - PGROUNDDOWN 0x1000)) OR PTE_W OR PTE_P)
           else xlate t 0x80400000 v = xlate demo_vm 0x80400000 v"
    using mappages_correct [OF demo_vm_ok, of "0x2000" "0x1000" "0x300000" PTE_W] none by auto
  have "covers 0x1000 0x2000 0x2345" "\<not> covers 0x1000 0x2000 0x3000" "PGROUNDDOWN 0x2345 - PGROUNDDOWN 0x1000 = 0x1000"
    by (simp_all add: covers_def PGROUNDDOWN_def PGSIZE_def)
  then show ?thesis using r(1) r(2) [rule_format, of "0x2345"] r(2) [rule_format, of "0x3000"] none
    by (intro exI [of _ r] exI [of _ t]) simp
qed

end
