(* ===== verification/Idt.thy ===== *)
theory Idt
  imports Ports
begin

unbundle bit_operations_syntax

text \<open>
  The interrupt descriptor table (\<^verbatim>\<open>tvinit\<close> and \<^verbatim>\<open>idtinit\<close> of \<^verbatim>\<open>trap.c\<close> with the gates of \<^verbatim>\<open>mmu.h\<close>) and the set-up of the
  serial chip (\<^verbatim>\<open>uartinit\<close> of \<^verbatim>\<open>uart.c\<close>) with the port accesses behind its output routine.  The entry points \<^verbatim>\<open>vectors\<close>,
  which the build generates, are a parameter.
\<close>

section \<open>Gates\<close>

record gatedesc =
  off_15_0 :: u16
  gate_cs :: u16
  gate_args :: "5 word"
  gate_rsv1 :: "3 word"
  gate_type :: "4 word"
  gate_s :: bool
  gate_dpl :: "2 word"
  gate_p :: bool
  off_31_16 :: u16

definition SETGATE :: "bool \<Rightarrow> u16 \<Rightarrow> u32 \<Rightarrow> 2 word \<Rightarrow> gatedesc" where
  "SETGATE istrap sel off d =
     \<lparr>off_15_0 = ucast (off AND 0xffff), gate_cs = sel, gate_args = 0, gate_rsv1 = 0,
      gate_type = (if istrap then STS_TG32 else STS_IG32), gate_s = False, gate_dpl = d, gate_p = True,
      off_31_16 = ucast (drop_bit 16 off)\<rparr>"

record tstate = kstate +
  idt :: "gatedesc list"
  idtr :: "u16 \<times> u32"

definition tvinit :: "(nat \<Rightarrow> u32) \<Rightarrow> 'z tstate_scheme \<Rightarrow> 'z tstate_scheme" where
  "tvinit vectors s =
     (let s = s\<lparr>idt := map (\<lambda>i. SETGATE False (of_nat (SEG_KCODE * 8)) (vectors i) 0) [0..<256]\<rparr>;
          s = s\<lparr>idt := (idt s)[unat T_SYSCALL := SETGATE True (of_nat (SEG_KCODE * 8)) (vectors (unat T_SYSCALL)) DPL_USER]\<rparr> in
      initlock L_ticks ''time'' s)"

text \<open>\<open>lidt\<close> puts the limit and the two halves of the address into the operand of the instruction.\<close>

definition lidt :: "addr \<Rightarrow> nat \<Rightarrow> u16 \<times> u32" where
  "lidt p sz =
     (let pd1 = (ucast p :: u16); pd2 = (ucast (drop_bit 16 p) :: u16) in
      (of_nat (sz - 1), ucast pd1 OR push_bit 16 (ucast pd2)))"

definition idtinit :: "addr \<Rightarrow> 'z tstate_scheme \<Rightarrow> 'z tstate_scheme" where
  "idtinit p s = s\<lparr>idtr := lidt p (256 * 8)\<rparr>"

text \<open>The address the CPU jumps to through a gate.\<close>

definition gate_off :: "gatedesc \<Rightarrow> u32" where
  "gate_off g = ucast (off_15_0 g) OR push_bit 16 (ucast (off_31_16 g))"

lemma halves: "(ucast (ucast (w AND 0xffff) :: u16) :: u32) OR push_bit 16 (ucast (ucast (drop_bit 16 w) :: u16)) = w"
proof -
  have m: "(0xffff :: u32) = mask 16" by (simp add: mask_eq_exp_minus_1)
  show ?thesis unfolding m by (rule bit_word_eqI) (auto simp: bit_simps)
qed

text \<open>
  Every trap enters the kernel's code segment at its own vector; only the system call can be raised by a user program, and
  only it leaves interrupts on.
\<close>

theorem tvinit_gates:
  assumes "i < 256"
  shows "length (idt (tvinit vectors s)) = 256 \<and> gate_off (idt (tvinit vectors s) ! i) = vectors i \<and>
    gate_cs (idt (tvinit vectors s) ! i) = 8 \<and> gate_p (idt (tvinit vectors s) ! i) \<and>
    (gate_dpl (idt (tvinit vectors s) ! i) = DPL_USER \<longleftrightarrow> i = unat T_SYSCALL) \<and>
    (gate_type (idt (tvinit vectors s) ! i) = STS_TG32 \<longleftrightarrow> i = unat T_SYSCALL)"
proof -
  have g: "idt (tvinit vectors s) ! i =
      (if i = 64 then SETGATE True 8 (vectors 64) DPL_USER else SETGATE False 8 (vectors i) 0)"
    using assms by (simp add: tvinit_def initlock_def upd_lock_def T_SYSCALL_def SEG_KCODE_def nth_list_update)
  have "gate_off (SETGATE t c v d) = v" for t c v d by (simp add: gate_off_def SETGATE_def halves)
  then show ?thesis unfolding g
    by (simp add: tvinit_def initlock_def upd_lock_def) (simp add: SETGATE_def DPL_USER_def STS_TG32_def STS_IG32_def T_SYSCALL_def)
qed

lemma idtinit_loads: "idtr (idtinit p s) = (0x7ff, p)"
proof -
  have "(ucast (ucast p :: u16) :: u32) OR push_bit 16 (ucast (ucast (drop_bit 16 p) :: u16)) = p"
    by (rule bit_word_eqI) (auto simp: bit_simps)
  then show ?thesis by (simp add: idtinit_def lidt_def)
qed

section \<open>The serial chip\<close>

definition COM1 :: u16 where "COM1 = 0x3f8"

text \<open>At most \<open>k\<close> reads of the line status until it reports an empty transmitter.\<close>

fun uart_ready :: "nat \<Rightarrow> 'z ports_scheme \<Rightarrow> (unit, 'z ports_scheme) res" where
  "uart_ready 0 h = Ok () h"
| "uart_ready (Suc k) h = bindR (inb (COM1 + 5) h) (\<lambda>v h. if v AND 0x20 = 0 then uart_ready k h else Ok () h)"

definition uart_send :: "bool \<Rightarrow> byte \<Rightarrow> 'z ports_scheme \<Rightarrow> (unit, 'z ports_scheme) res" where
  "uart_send present c h = (if \<not> present then Ok () h else bindR (uart_ready 128 h) (\<lambda>_ h. Ok () (outb (COM1 + 0) c h)))"

text \<open>The result is the flag \<^verbatim>\<open>uart\<close>.\<close>

definition uartinit :: "'z ports_scheme \<Rightarrow> (bool, 'z ports_scheme) res" where
  "uartinit h =
     (let h = outb (COM1 + 2) 0 h;
          h = outb (COM1 + 3) 0x80 h;
          h = outb (COM1 + 0) (of_nat (115200 div 9600)) h;
          h = outb (COM1 + 1) 0 h;
          h = outb (COM1 + 3) 0x03 h;
          h = outb (COM1 + 4) 0 h;
          h = outb (COM1 + 1) 0x01 h in
      bindR (inb (COM1 + 5) h) (\<lambda>v h.
      if v = 0xFF then Ok False h
      else bindR (inb (COM1 + 2) h) (\<lambda>_ h.
        bindR (inb (COM1 + 0) h) (\<lambda>_ h.
        let h = ioapicenable IRQ_COM1 0 h in
        bindR (forR (map of_char (''xv6...'' @ [CHR 0x0A])) (uart_send True) h) (\<lambda>_ h. Ok True h)))))"

text \<open>Sending a byte ends after at most 128 reads of the status, and then writes exactly that byte to the chip.\<close>

lemma uart_ready_ends:
  "k \<le> length (inb_in h (COM1 + 5)) \<Longrightarrow> \<exists>t. uart_ready k h = Ok () t \<and> io_log t = io_log h \<and>
     length (inb_in h (COM1 + 5)) \<le> length (inb_in t (COM1 + 5)) + k"
proof (induction k arbitrary: h)
  case (Suc k)
  then obtain v vs where v: "inb_in h (COM1 + 5) = v # vs" by (cases "inb_in h (COM1 + 5)") auto
  show ?case
  proof (cases "v AND 0x20 = 0")
    case True
    then show ?thesis using Suc.IH [of "h\<lparr>inb_in := (inb_in h)(COM1 + 5 := vs)\<rparr>"] Suc.prems v by (auto simp: inb_def)
  qed (use v in \<open>simp add: inb_def\<close>)
qed simp

lemma uart_send_ends:
  assumes "128 \<le> length (inb_in h (COM1 + 5))"
  shows "\<exists>t. uart_send True c h = Ok () t \<and> io_log t = io_log h @ [Outb COM1 c] \<and>
    length (inb_in h (COM1 + 5)) \<le> length (inb_in t (COM1 + 5)) + 128"
  using uart_ready_ends [OF assms] by (auto simp: uart_send_def outb_def)

lemma uart_sends_end:
  "128 * length cs \<le> length (inb_in h (COM1 + 5)) \<Longrightarrow>
   \<exists>t. forR cs (uart_send True) h = Ok () t \<and> io_log t = io_log h @ map (Outb COM1) cs"
proof (induction cs arbitrary: h)
  case (Cons c cs)
  have "128 \<le> length (inb_in h (COM1 + 5))" using Cons.prems by simp
  then obtain t where t: "uart_send True c h = Ok () t" "io_log t = io_log h @ [Outb COM1 c]"
      "length (inb_in h (COM1 + 5)) \<le> length (inb_in t (COM1 + 5)) + 128"
    using uart_send_ends [of h c] by blast
  moreover have "128 * length cs \<le> length (inb_in t (COM1 + 5))" using Cons.prems t(3) by simp
  ultimately show ?case using Cons.IH [of t] by auto
qed simp

text \<open>A missing chip is recognised by its status; a present one is set up, routed to the first CPU and greeted on.\<close>

lemma uartinit_absent: "inb_in h (COM1 + 5) = 0xFF # vs \<Longrightarrow> \<exists>t. uartinit h = Ok False t"
  by (simp add: uartinit_def Let_def outb_def inb_def)

lemma uartinit_present:
  assumes "inb_in h (COM1 + 5) = v # vs" and "v \<noteq> 0xFF" and "inb_in h (COM1 + 2) \<noteq> []" and "inb_in h COM1 \<noteq> []"
    and "128 * 7 \<le> length vs"
  shows "\<exists>t xs. uartinit h = Ok True t \<and> io_log t = io_log h @ xs @ map (\<lambda>c. Outb COM1 (of_char c)) (''xv6...'' @ [CHR 0x0A])"
proof -
  obtain a as b bs where ab: "inb_in h (COM1 + 2) = a # as" "inb_in h COM1 = b # bs"
    using assms(3,4) by (metis neq_Nil_conv)
  have d: "COM1 + 2 \<noteq> COM1 + 5" "COM1 \<noteq> COM1 + 5" "COM1 \<noteq> COM1 + 2" by (simp_all add: COM1_def)
  define g where "g = io_log_update (\<lambda>_. io_log h @ [Outb (COM1 + 2) 0, Outb (COM1 + 3) 0x80, Outb COM1 12, Outb (COM1 + 1) 0,
     Outb (COM1 + 3) 3, Outb (COM1 + 4) 0, Outb (COM1 + 1) 1]) h"
  define k where "k = g\<lparr>inb_in := (inb_in h)(COM1 + 5 := vs, COM1 + 2 := as, COM1 := bs)\<rparr>"
  have e: "uartinit h = bindR (forR (map of_char (''xv6...'' @ [CHR 0x0A])) (uart_send True) (ioapicenable IRQ_COM1 0 k)) (\<lambda>_ h. Ok True h)"
    unfolding uartinit_def Let_def using assms(1,2) ab d by (simp add: outb_def inb_def k_def g_def del: map_append)
  have l: "inb_in (ioapicenable IRQ_COM1 0 k) (COM1 + 5) = vs" using d
    by (simp add: ioapicenable_def ioapicwrite_def mmiow_def k_def)
  have "\<exists>xs. io_log (ioapicenable IRQ_COM1 0 k) = io_log h @ xs"
    by (simp add: ioapicenable_def ioapicwrite_def mmiow_def k_def g_def)
  then show ?thesis using uart_sends_end [of "map of_char (''xv6...'' @ [CHR 0x0A])" "ioapicenable IRQ_COM1 0 k"] assms(5)
    unfolding e l by (force simp: comp_def)
qed

end
