(* ===== verification/Grep.thy ===== *)
theory Grep
  imports Xv6Prelude
begin

text \<open>
  The \<^verbatim>\<open>grep\<close> program (\<^verbatim>\<open>grep.c\<close>): the matcher for patterns with \<^verbatim>\<open>^ . * $\<close> and the loop that cuts the
  input into lines.  A C string is the list of its characters before the terminating NUL, a pointer
  into it is the rest of the list.  The matcher is related to the language that a pattern denotes.
\<close>

section \<open>The matcher\<close>

function (sequential) matchhere :: "string \<Rightarrow> string \<Rightarrow> bool"
  and matchstar :: "char \<Rightarrow> string \<Rightarrow> string \<Rightarrow> bool" where
  "matchhere [] tx = True"
| "matchhere (c # re) tx =
     (if re \<noteq> [] \<and> hd re = CHR ''*'' then matchstar c (tl re) tx
      else if c = CHR ''$'' \<and> re = [] then tx = []
      else if tx \<noteq> [] \<and> (c = CHR ''.'' \<or> c = hd tx) then matchhere re (tl tx)
      else False)"
| "matchstar c re tx =
     (if matchhere re tx then True
      else if tx \<noteq> [] \<and> (hd tx = c \<or> c = CHR ''.'') then matchstar c re (tl tx)
      else False)"
  by pat_completeness auto
termination
  by (relation "measure (case_sum (\<lambda>(re, tx). 2 * (length re + length tx))
      (\<lambda>(c, re, tx). Suc (2 * (length re + length tx))))") (auto simp: neq_Nil_conv)

declare matchstar.simps [simp del]

text \<open>The loop of \<open>match\<close> tries every position, the end of the text included.\<close>

fun match_from :: "string \<Rightarrow> string \<Rightarrow> bool" where
  "match_from re [] = matchhere re []"
| "match_from re (t # ts) = (if matchhere re (t # ts) then True else match_from re ts)"

definition match :: "string \<Rightarrow> string \<Rightarrow> bool" where
  "match re tx = (if re \<noteq> [] \<and> hd re = CHR ''^'' then matchhere (tl re) tx else match_from re tx)"

section \<open>Lines\<close>

text \<open>
  \<^verbatim>\<open>strchr(p, '\n')\<close>: the line before the next newline and what follows it; a NUL in the data ends the search.
\<close>

fun cut_line :: "string \<Rightarrow> (string \<times> string) option" where
  "cut_line [] = None"
| "cut_line (c # cs) =
     (if c = CHR 0x00 then None else if c = CHR 0x0A then Some ([], cs)
      else case cut_line cs of None \<Rightarrow> None | Some (l, r) \<Rightarrow> Some (c # l, r))"

lemma cut_line_shorter: "cut_line b = Some (l, r) \<Longrightarrow> length r < length b"
  by (induction b arbitrary: l r) (auto split: if_splits option.splits)

text \<open>The inner loop: the lines that are printed, and the data from \<open>p\<close> on where it stops.\<close>

function grep_lines :: "string \<Rightarrow> string \<Rightarrow> string \<times> string" where
  "grep_lines pat p =
     (case cut_line p of None \<Rightarrow> ([], p)
      | Some (l, q) \<Rightarrow> ((if match pat l then l @ [CHR 0x0A] else []) @ fst (grep_lines pat q), snd (grep_lines pat q)))"
  by pat_completeness auto
termination
  by (relation "measure (length \<circ> snd)") (auto dest: cut_line_shorter)

declare grep_lines.simps [simp del]

text \<open>
  The outer loop.  \<open>kept\<close> is the data in \<open>buf\<close> before the next read, and the list holds what the successive
  calls of \<^verbatim>\<open>read\<close> deliver; an empty one (end of file) or its end stops the loop.  The result is the output.
\<close>

fun grep :: "string \<Rightarrow> string \<Rightarrow> string list \<Rightarrow> string" where
  "grep pat kept [] = []"
| "grep pat kept (r # rs) =
     (if r = [] then []
      else let buf = kept @ r; (out, p) = grep_lines pat buf;
               kept = (if length p = length buf then [] else p) in
        out @ grep pat kept rs)"

section \<open>The language of a pattern\<close>

datatype item = One char | Star char

text \<open>A pattern is a sequence of items, with a mark whether it is to end where the text ends.\<close>

fun items :: "string \<Rightarrow> item list \<times> bool" where
  "items [] = ([], False)"
| "items [c] = (if c = CHR ''$'' then ([], True) else ([One c], False))"
| "items (c # d # re) =
     (if d = CHR ''*'' then (Star c # fst (items re), snd (items re))
      else (One c # fst (items (d # re)), snd (items (d # re))))"

definition matches_char :: "char \<Rightarrow> char \<Rightarrow> bool" where
  "matches_char c x \<longleftrightarrow> c = CHR ''.'' \<or> x = c"

fun item_lang :: "item \<Rightarrow> string set" where
  "item_lang (One c) = {[x] | x. matches_char c x}"
| "item_lang (Star c) = {xs. \<forall>x \<in> set xs. matches_char c x}"

fun lang :: "item list \<Rightarrow> string set" where
  "lang [] = {[]}"
| "lang (i # is) = {u @ v | u v. u \<in> item_lang i \<and> v \<in> lang is}"

definition pm :: "item list \<Rightarrow> bool \<Rightarrow> string \<Rightarrow> bool" where
  "pm is e tx \<longleftrightarrow> (\<exists>u v. tx = u @ v \<and> u \<in> lang is \<and> (e \<longrightarrow> v = []))"

definition prefix_match :: "string \<Rightarrow> string \<Rightarrow> bool" where
  "prefix_match re tx = pm (fst (items re)) (snd (items re)) tx"

lemma items_cons:
  "items (c # re) = (if re \<noteq> [] \<and> hd re = CHR ''*'' then (Star c # fst (items (tl re)), snd (items (tl re)))
     else if c = CHR ''$'' \<and> re = [] then ([], True) else (One c # fst (items re), snd (items re)))"
  by (cases re) simp_all

lemma pm_cons: "pm (i # is) e tx \<longleftrightarrow> (\<exists>x w. tx = x @ w \<and> x \<in> item_lang i \<and> pm is e w)"
proof
  assume "pm (i # is) e tx"
  then obtain x u v where "tx = x @ u @ v" "x \<in> item_lang i" "u \<in> lang is" "e \<longrightarrow> v = []"
    unfolding pm_def lang.simps mem_Collect_eq by (metis append_assoc)
  then show "\<exists>x w. tx = x @ w \<and> x \<in> item_lang i \<and> pm is e w" unfolding pm_def by blast
next
  assume "\<exists>x w. tx = x @ w \<and> x \<in> item_lang i \<and> pm is e w"
  then obtain x u v where "tx = (x @ u) @ v" "x \<in> item_lang i" "u \<in> lang is" "e \<longrightarrow> v = []"
    unfolding pm_def by (metis append_assoc)
  then show "pm (i # is) e tx" unfolding pm_def lang.simps mem_Collect_eq by blast
qed

lemma pm_one: "pm (One c # is) e tx \<longleftrightarrow> tx \<noteq> [] \<and> matches_char c (hd tx) \<and> pm is e (tl tx)"
  by (cases tx) (fastforce simp: pm_cons intro: exI [of _ "[hd tx]"])+

lemma pm_star:
  "pm (Star c # is) e tx \<longleftrightarrow> pm is e tx \<or> tx \<noteq> [] \<and> matches_char c (hd tx) \<and> pm (Star c # is) e (tl tx)"
proof -
  have "(\<exists>x w. tx = x @ w \<and> (\<forall>y \<in> set x. matches_char c y) \<and> pm is e w) \<longleftrightarrow>
      pm is e tx \<or> (\<exists>y x w. tx = y # x @ w \<and> matches_char c y \<and> (\<forall>y \<in> set x. matches_char c y) \<and> pm is e w)"
    (is "?l \<longleftrightarrow> ?r")
  proof
    assume ?l
    then obtain x w where x: "tx = x @ w" "\<forall>y \<in> set x. matches_char c y" "pm is e w" by blast
    then show ?r by (cases x) auto
  next
    assume ?r
    then show ?l
    proof (elim disjE exE conjE)
      assume "pm is e tx"
      then show ?l by (intro exI [of _ "[]"] exI [of _ tx]) simp
    next
      fix y x w assume "tx = y # x @ w" "matches_char c y" "\<forall>y \<in> set x. matches_char c y" "pm is e w"
      then show ?l by (intro exI [of _ "y # x"] exI [of _ w]) simp
    qed
  qed
  then show ?thesis by (cases tx) (auto simp: pm_cons)
qed

lemma matcher_correct:
  "matchhere re tx = prefix_match re tx"
  "matchstar c re tx = prefix_match (c # CHR ''*'' # re) tx"
proof (induction re tx and c re tx rule: matchhere_matchstar.induct)
  case (1 tx)
  then show ?case by (auto simp: prefix_match_def pm_def)
next
  case (2 c re tx)
  show ?case
  proof (cases "re \<noteq> [] \<and> hd re = CHR ''*''")
    case True
    then have "c # re = c # CHR ''*'' # tl re" by (cases re) auto
    then show ?thesis using 2(1) True by (metis matchhere.simps(2))
  next
    case star: False
    show ?thesis
    proof (cases "c = CHR ''$'' \<and> re = []")
      case True
      then show ?thesis by (auto simp: prefix_match_def pm_def)
    next
      case False
      have "prefix_match (c # re) tx = pm (One c # fst (items re)) (snd (items re)) tx"
        unfolding prefix_match_def items_cons if_not_P [OF star] if_not_P [OF False] by simp
      moreover have "matchhere (c # re) tx \<longleftrightarrow> tx \<noteq> [] \<and> matches_char c (hd tx) \<and> matchhere re (tl tx)"
        unfolding matchhere.simps if_not_P [OF star] if_not_P [OF False] by (auto simp: matches_char_def)
      ultimately show ?thesis using 2(2) [OF star False] by (auto simp: pm_one matches_char_def prefix_match_def)
    qed
  qed
next
  case (3 c re tx)
  have "prefix_match (c # CHR ''*'' # re) = pm (Star c # fst (items re)) (snd (items re))" by (simp add: fun_eq_iff prefix_match_def)
  moreover have "matchstar c re tx \<longleftrightarrow> matchhere re tx \<or> tx \<noteq> [] \<and> matches_char c (hd tx) \<and> matchstar c re (tl tx)"
    by (subst matchstar.simps) (auto simp: matches_char_def)
  ultimately show ?case using 3 pm_star [of c "fst (items re)" "snd (items re)" tx]
    by (auto simp: matches_char_def prefix_match_def)
qed

lemma match_from_correct: "match_from re tx \<longleftrightarrow> (\<exists>u v. tx = u @ v \<and> prefix_match re v)"
proof (induction tx)
  case Nil
  then show ?case by (simp add: matcher_correct)
next
  case (Cons t ts)
  have "(\<exists>u v. t # ts = u @ v \<and> prefix_match re v) \<longleftrightarrow> prefix_match re (t # ts) \<or> (\<exists>u v. ts = u @ v \<and> prefix_match re v)"
    by (metis append_Cons append_Nil append_eq_Cons_conv)
  then show ?case using Cons by (simp add: matcher_correct)
qed

section \<open>Properties\<close>

text \<open>
  C34. The matcher decides the language of the pattern: \<open>match\<close> succeeds on a line exactly if some part of it (its beginning, if the
  pattern starts with \<^verbatim>\<open>^\<close>) is a word of the pattern, which reaches the end of the line if the pattern ends in \<^verbatim>\<open>$\<close>.
\<close>

theorem grep_match_language:
  "match re tx \<longleftrightarrow>
    (if re \<noteq> [] \<and> hd re = CHR ''^''
     then \<exists>u v. tx = u @ v \<and> u \<in> lang (fst (items (tl re))) \<and> (if snd (items (tl re)) then v = [] else True)
     else \<exists>w u v. tx = w @ u @ v \<and> u \<in> lang (fst (items re)) \<and> (if snd (items re) then v = [] else True))"
  unfolding match_def match_from_correct matcher_correct prefix_match_def pm_def by (auto split: if_splits)

text \<open>
  Input in one piece: for text that ends in a newline and holds no NUL, the output is exactly the matching lines.
\<close>

definition joined :: "string list \<Rightarrow> string" where
  "joined ls = concat (map (\<lambda>l. l @ [CHR 0x0A]) ls)"

lemma cut_line_append: "CHR 0x0A \<notin> set l \<Longrightarrow> CHR 0x00 \<notin> set l \<Longrightarrow> cut_line (l @ CHR 0x0A # r) = Some (l, r)"
  by (induction l) auto

lemma grep_lines_joined:
  "\<forall>l \<in> set ls. CHR 0x0A \<notin> set l \<and> CHR 0x00 \<notin> set l \<Longrightarrow> grep_lines pat (joined ls) = (joined (filter (match pat) ls), [])"
proof (induction ls)
  case Nil
  then show ?case by (simp add: joined_def grep_lines.simps)
next
  case (Cons l ls)
  have "cut_line (joined (l # ls)) = Some (l, joined ls)" using Cons.prems cut_line_append by (simp add: joined_def)
  then show ?case using Cons by (subst grep_lines.simps) (simp add: joined_def)
qed

lemma grep_whole:
  "ls \<noteq> [] \<Longrightarrow> \<forall>l \<in> set ls. CHR 0x0A \<notin> set l \<and> CHR 0x00 \<notin> set l \<Longrightarrow> grep pat [] [joined ls] = joined (filter (match pat) ls)"
  by (simp add: grep_lines_joined neq_Nil_conv) (auto simp: joined_def)

text \<open>
  A line that arrives in two reads is cut when no newline came with the first part: the text \<^verbatim>\<open>ab\<close> followed by a newline,
  delivered as \<^verbatim>\<open>a\<close> and the rest, is printed without its first character.
\<close>

theorem grep_partial_line:
  "grep ''b'' [] [''a'', ''b'' @ [CHR 0x0A]] = ''b'' @ [CHR 0x0A] \<and>
   grep ''b'' [] [''ab'' @ [CHR 0x0A]] = ''ab'' @ [CHR 0x0A]"
  by (simp add: grep_lines.simps match_def)

end
