(* ===== verification/Ulib.thy ===== *)
theory Ulib
  imports CString Grep
begin

text \<open>
  The user library: string and memory routines (\<^verbatim>\<open>ulib.c\<close>) and \<open>printf\<close> (\<^verbatim>\<open>printf.c\<close>), and the programs \<open>wc\<close>, \<open>cat\<close>, \<open>echo\<close>,
  \<open>kill\<close>, \<open>ln\<close>, \<open>rm\<close>, \<open>mkdir\<close> and the name formatting of \<open>ls\<close>, which use them.  A C string is the list of its characters before
  the NUL, a pointer into it the rest of the list; what goes through \<^verbatim>\<open>write\<close> is the text written, and what comes from
  \<^verbatim>\<open>read\<close> the list of the pieces it returns.  Signed arithmetic is that of 32-bit machine integers, with wrap-around.
\<close>

section \<open>Strings and memory\<close>

fun ustrcmp :: "string \<Rightarrow> string \<Rightarrow> int" where
  "ustrcmp [] [] = 0"
| "ustrcmp [] (b # q) = - of_char b"
| "ustrcmp (a # p) [] = of_char a"
| "ustrcmp (a # p) (b # q) = (if a = b then ustrcmp p q else of_char a - of_char b)"

fun ustrchr :: "string \<Rightarrow> char \<Rightarrow> string option" where
  "ustrchr [] c = None"
| "ustrchr (a # s) c = (if a = c then Some (a # s) else ustrchr s c)"

text \<open>\<open>ugets_loop k inp\<close> reads at most \<open>k\<close> characters: the line and the rest of the input, which ends where \<^verbatim>\<open>read\<close> fails.\<close>

fun ugets_loop :: "nat \<Rightarrow> string \<Rightarrow> string \<times> string" where
  "ugets_loop 0 inp = ([], inp)"
| "ugets_loop (Suc k) [] = ([], [])"
| "ugets_loop (Suc k) (c # inp) =
     (if c = CHR 0x0A \<or> c = CHR 0x0D then ([c], inp) else case ugets_loop k inp of (l, r) \<Rightarrow> (c # l, r))"

definition ugets :: "nat \<Rightarrow> string \<Rightarrow> string \<times> string" where
  "ugets mx inp = ugets_loop (mx - 1) inp"

fun atoi_loop :: "int \<Rightarrow> string \<Rightarrow> int" where
  "atoi_loop n [] = n"
| "atoi_loop n (c # s) =
     (if of_char (CHR ''0'') \<le> (of_char c :: int) \<and> (of_char c :: int) \<le> of_char (CHR ''9'')
      then atoi_loop (s32 (n * 10 + of_char c - of_char (CHR ''0''))) s else n)"

definition atoi :: "string \<Rightarrow> int" where
  "atoi s = atoi_loop 0 s"

definition umemset :: "memory \<Rightarrow> addr \<Rightarrow> u32 \<Rightarrow> u32 \<Rightarrow> memory" where
  "umemset m dst c n = stosb m dst c (unat n)"

text \<open>\<open>n\<close> is the number of rounds of the loop, 0 for a negative argument.\<close>

fun umemmove :: "memory \<Rightarrow> addr \<Rightarrow> addr \<Rightarrow> nat \<Rightarrow> memory" where
  "umemmove m dst src 0 = m"
| "umemmove m dst src (Suc n) = umemmove (m(dst := m src)) (dst + 1) (src + 1) n"

section \<open>Formatted output\<close>

function udigits :: "nat \<Rightarrow> nat \<Rightarrow> string" where
  "udigits base x =
     ''0123456789ABCDEF'' ! (x mod base) # (if base < 2 \<or> x div base = 0 then [] else udigits base (x div base))"
  by pat_completeness auto
termination
proof (relation "measure snd")
  fix base x :: nat assume "\<not> (base < 2 \<or> x div base = 0)"
  then have "1 < base" "0 < x" by (auto intro: Nat.gr0I)
  then show "((base, x div base), base, x) \<in> measure snd" by simp
qed simp

declare udigits.simps [simp del]

definition uprintint :: "u32 \<Rightarrow> nat \<Rightarrow> bool \<Rightarrow> string" where
  "uprintint xx base sign =
     (let neg = (sign \<and> sint xx < 0); x = (if neg then unat (- xx) else unat xx) in
      rev (udigits base x @ (if neg then ''-'' else [])))"

text \<open>
  The arguments: a word, or a string or the null pointer.  The flag says that the character before was the start of a
  directive.  \<open>None\<close>: fewer arguments than directives, or one of the other kind.
\<close>

datatype parg = P_int u32 | P_str "string option"

fun uprintf :: "bool \<Rightarrow> string \<Rightarrow> parg list \<Rightarrow> string option" where
  "uprintf st [] as = Some []"
| "uprintf False (c # fmt) as =
     (if c = CHR ''%'' then uprintf True fmt as else map_option ((#) c) (uprintf False fmt as))"
| "uprintf True (c # fmt) as =
     (if c = CHR ''d''
      then (case as of P_int w # as \<Rightarrow> map_option ((@) (uprintint w 10 True)) (uprintf False fmt as) | _ \<Rightarrow> None)
      else if c = CHR ''x'' \<or> c = CHR ''p''
      then (case as of P_int w # as \<Rightarrow> map_option ((@) (uprintint w 16 False)) (uprintf False fmt as) | _ \<Rightarrow> None)
      else if c = CHR ''s''
      then (case as of P_str po # as \<Rightarrow>
              map_option ((@) (case po of None \<Rightarrow> ''(null)'' | Some s \<Rightarrow> s)) (uprintf False fmt as) | _ \<Rightarrow> None)
      else if c = CHR ''c''
      then (case as of P_int w # as \<Rightarrow> map_option ((#) (char_of (unat w))) (uprintf False fmt as) | _ \<Rightarrow> None)
      else if c = CHR ''%'' then map_option ((#) c) (uprintf False fmt as)
      else map_option (\<lambda>t. CHR ''%'' # c # t) (uprintf False fmt as))"

abbreviation printf :: "string \<Rightarrow> parg list \<Rightarrow> string option" where
  "printf fmt as \<equiv> uprintf False fmt as"

section \<open>Programs\<close>

record wcount =
  wc_l :: int
  wc_w :: int
  wc_c :: int
  wc_inword :: bool

definition wc_char :: "wcount \<Rightarrow> char \<Rightarrow> wcount" where
  "wc_char s ch =
     (let s = s\<lparr>wc_c := s32 (wc_c s + 1)\<rparr>;
          s = (if ch = CHR 0x0A then s\<lparr>wc_l := s32 (wc_l s + 1)\<rparr> else s) in
      if ustrchr (CHR '' '' # CHR 0x0D # CHR 0x09 # CHR 0x0A # [CHR 0x0B]) ch \<noteq> None then s\<lparr>wc_inword := False\<rparr>
      else if \<not> wc_inword s then s\<lparr>wc_w := s32 (wc_w s + 1), wc_inword := True\<rparr> else s)"

text \<open>The pieces that \<^verbatim>\<open>read\<close> returns, and whether it then fails; the result is what is printed, and whether \<^verbatim>\<open>exit\<close> was called.\<close>

definition wc :: "string list \<Rightarrow> bool \<Rightarrow> string \<Rightarrow> string option \<times> bool" where
  "wc chunks err name =
     (let s = foldl (foldl wc_char) \<lparr>wc_l = 0, wc_w = 0, wc_c = 0, wc_inword = False\<rparr> chunks in
      if err then (printf (''wc: read error'' @ [CHR 0x0A]) [], True)
      else (printf (''%d %d %d %s'' @ [CHR 0x0A])
        [P_int (of_int (wc_l s)), P_int (of_int (wc_w s)), P_int (of_int (wc_c s)), P_str (Some name)], False))"

text \<open>The programs with the files they can open; the result is the list of the texts printed.\<close>

fun wc_files :: "(string \<Rightarrow> (string list \<times> bool) option) \<Rightarrow> string list \<Rightarrow> string option list" where
  "wc_files f [] = []"
| "wc_files f (a # as) =
     (case f a of None \<Rightarrow> [printf (''wc: cannot open %s'' @ [CHR 0x0A]) [P_str (Some a)]]
      | Some (chunks, err) \<Rightarrow> (case wc chunks err a of (out, x) \<Rightarrow> out # (if x then [] else wc_files f as)))"

definition wc_main :: "(string \<Rightarrow> (string list \<times> bool) option) \<Rightarrow> string list \<times> bool \<Rightarrow> string list \<Rightarrow> string option list" where
  "wc_main f inp argv = (if length argv \<le> 1 then [fst (wc (fst inp) (snd inp) [])] else wc_files f (tl argv))"

fun grep_files :: "(string \<Rightarrow> string list option) \<Rightarrow> string \<Rightarrow> string list \<Rightarrow> string option list" where
  "grep_files f pat [] = []"
| "grep_files f pat (a # as) =
     (case f a of None \<Rightarrow> [printf (''grep: cannot open %s'' @ [CHR 0x0A]) [P_str (Some a)]]
      | Some chunks \<Rightarrow> Some (grep pat [] chunks) # grep_files f pat as)"

definition grep_main :: "(string \<Rightarrow> string list option) \<Rightarrow> string list \<Rightarrow> string list \<Rightarrow> string option list" where
  "grep_main f inp argv =
     (if length argv \<le> 1 then [printf (''usage: grep pattern [file ...]'' @ [CHR 0x0A]) []]
      else if length argv \<le> 2 then [Some (grep (argv ! 1) [] inp)]
      else grep_files f (argv ! 1) (drop 2 argv))"

text \<open>\<open>cat\<close>, with what each \<^verbatim>\<open>write\<close> returns.\<close>

fun cat :: "(string \<times> int) list \<Rightarrow> bool \<Rightarrow> string \<times> bool" where
  "cat [] err = (if err then ''cat: read error'' @ [CHR 0x0A] else [], err)"
| "cat ((piece, k) # rest) err =
     (if k \<noteq> int (length piece) then (take (nat k) piece @ ''cat: write error'' @ [CHR 0x0A], True)
      else case cat rest err of (out, x) \<Rightarrow> (piece @ out, x))"

fun cat_files :: "(string \<Rightarrow> ((string \<times> int) list \<times> bool) option) \<Rightarrow> string list \<Rightarrow> string option list" where
  "cat_files f [] = []"
| "cat_files f (a # as) =
     (case f a of None \<Rightarrow> [printf (''cat: cannot open %s'' @ [CHR 0x0A]) [P_str (Some a)]]
      | Some (ps, err) \<Rightarrow> (case cat ps err of (out, x) \<Rightarrow> Some out # (if x then [] else cat_files f as)))"

definition cat_main :: "(string \<Rightarrow> ((string \<times> int) list \<times> bool) option) \<Rightarrow> (string \<times> int) list \<times> bool \<Rightarrow> string list \<Rightarrow> string option list" where
  "cat_main f inp argv = (if length argv \<le> 1 then [Some (fst (cat (fst inp) (snd inp)))] else cat_files f (tl argv))"

fun echo_args :: "string list \<Rightarrow> string option" where
  "echo_args [] = Some []"
| "echo_args (a # as) =
     (case printf ''%s%s'' [P_str (Some a), P_str (Some (if as \<noteq> [] then '' '' else [CHR 0x0A]))] of None \<Rightarrow> None
      | Some t \<Rightarrow> map_option ((@) t) (echo_args as))"

text \<open>The calls that a program makes, each with its continuation.\<close>

datatype uprog =
    U_exit
  | U_print int "string option" uprog
  | U_kill int uprog
  | U_link string string "int \<Rightarrow> uprog"
  | U_unlink string "int \<Rightarrow> uprog"
  | U_mkdir string "int \<Rightarrow> uprog"

text \<open>The arguments include the name of the program.\<close>

definition kill_main :: "string list \<Rightarrow> uprog" where
  "kill_main argv =
     (if length argv < 2 then U_print 2 (printf (''usage: kill pid...'' @ [CHR 0x0A]) []) U_exit
      else foldr (\<lambda>a. U_kill (atoi a)) (tl argv) U_exit)"

definition ln_main :: "string list \<Rightarrow> uprog" where
  "ln_main argv =
     (if length argv \<noteq> 3 then U_print 2 (printf (''Usage: ln old new'' @ [CHR 0x0A]) []) U_exit
      else U_link (argv ! 1) (argv ! 2) (\<lambda>r.
        if r < 0 then U_print 2 (printf (''link %s %s: failed'' @ [CHR 0x0A]) [P_str (Some (argv ! 1)), P_str (Some (argv ! 2))]) U_exit
        else U_exit))"

fun rm_loop :: "string list \<Rightarrow> uprog" where
  "rm_loop [] = U_exit"
| "rm_loop (a # as) = U_unlink a (\<lambda>r.
     if r < 0 then U_print 2 (printf (''rm: %s failed to delete'' @ [CHR 0x0A]) [P_str (Some a)]) U_exit else rm_loop as)"

definition rm_main :: "string list \<Rightarrow> uprog" where
  "rm_main argv =
     (if length argv < 2 then U_print 2 (printf (''Usage: rm files...'' @ [CHR 0x0A]) []) U_exit else rm_loop (tl argv))"

fun mkdir_loop :: "string list \<Rightarrow> uprog" where
  "mkdir_loop [] = U_exit"
| "mkdir_loop (a # as) = U_mkdir a (\<lambda>r.
     if r < 0 then U_print 2 (printf (''mkdir: %s failed to create'' @ [CHR 0x0A]) [P_str (Some a)]) U_exit else mkdir_loop as)"

definition mkdir_main :: "string list \<Rightarrow> uprog" where
  "mkdir_main argv =
     (if length argv < 2 then U_print 2 (printf (''Usage: mkdir files...'' @ [CHR 0x0A]) []) U_exit else mkdir_loop (tl argv))"

definition fmtname :: "string \<Rightarrow> string" where
  "fmtname path =
     (let p = rev (takeWhile (\<lambda>c. c \<noteq> CHR ''/'') (rev path)) in
      if length p \<ge> 14 then p else p @ replicate (14 - length p) (CHR '' ''))"

section \<open>Numbers\<close>

abbreviation digit :: "char \<Rightarrow> bool" where
  "digit c \<equiv> 48 \<le> (of_char c :: int) \<and> (of_char c :: int) \<le> 57"

lemma digit_char: "d < 10 \<Longrightarrow> of_char (''0123456789ABCDEF'' ! d) = (48 + int d :: int)"
  by (auto simp: less_Suc_eq eval_nat_numeral)

lemma atoi_udigits:
  "int x < 2 ^ 31 \<Longrightarrow> atoi_loop 0 (rev (udigits 10 x) @ rest) = atoi_loop (int x) rest"
proof (induction x arbitrary: rest rule: less_induct)
  case (less x)
  let ?d = "''0123456789ABCDEF'' ! (x mod 10)"
  have d: "of_char ?d = (48 + int (x mod 10) :: int)" by (rule digit_char) simp
  have step: "atoi_loop (int (x div 10)) (?d # rest) = atoi_loop (int x) rest"
  proof -
    have "int (x div 10) * 10 + int (x mod 10) = int x" by (simp add: zdiv_int zmod_int)
    moreover have "s32 (int x) = int x" using less.prems by (intro s32_id) auto
    moreover have "x mod 10 \<le> 9" using mod_less_divisor [of 10 x] by linarith
    ultimately show ?thesis using d by simp
  qed
  show ?case
  proof (cases "x div 10 = 0")
    case True
    then have "udigits 10 x = [?d]" by (subst udigits.simps) simp
    then show ?thesis using step True by simp
  next
    case False
    then have "udigits 10 x = ?d # udigits 10 (x div 10)" by (subst udigits.simps) simp
    moreover have "x div 10 < x" "int (x div 10) < 2 ^ 31" using False less.prems by auto
    ultimately show ?thesis using less.IH [of "x div 10" "?d # rest"] step by simp
  qed
qed

lemma udigits_length:
  assumes "1 < base"
  shows "x < base ^ Suc k \<Longrightarrow> length (udigits base x) \<le> Suc k"
proof (induction k arbitrary: x)
  case 0
  then show ?case by (subst udigits.simps) simp
next
  case (Suc k)
  then have "x div base < base ^ Suc k" using assms by (simp add: less_mult_imp_div_less mult.commute)
  then show ?case using Suc.IH [of "x div base"] by (subst udigits.simps) simp
qed

lemma sint_nonneg:
  assumes "0 \<le> sint (w :: u32)"
  shows "int (unat w) = sint w" "sint w < 2 ^ 31"
proof -
  show l: "sint w < 2 ^ 31" using sint_less [of w] by simp
  have "uint (word_of_int (sint w) :: u32) = sint w" unfolding uint_word_of_int using assms l by simp
  then show "int (unat w) = sint w" by simp
qed

lemma atoi_end: "rest = [] \<or> \<not> digit (hd rest) \<Longrightarrow> atoi_loop n rest = n"
  by (cases rest) auto

lemma uprintint_length:
  assumes "base = 10 \<or> base = 16"
  shows "length (uprintint w base sign) \<le> 11"
proof -
  have L: "length (udigits base (unat v)) \<le> 10" for v :: u32
  proof -
    have "unat v < 2 ^ 32" by (rule unat_u32_lt)
    also have "(2 :: nat) ^ 32 \<le> base ^ Suc 9" using assms by auto
    finally show ?thesis using udigits_length [of base "unat v" 9] assms by auto
  qed
  show ?thesis using L [of w] L [of "- w"] by (simp add: uprintint_def Let_def)
qed

lemma printf_atoi_text:
  assumes "rest = [] \<or> \<not> digit (hd rest)"
  shows "atoi (uprintint w 10 True @ rest) = (if 0 \<le> sint w then sint w else 0)"
proof (cases "0 \<le> sint w")
  case True
  then show ?thesis using sint_nonneg [OF True] atoi_udigits [of "unat w" rest] atoi_end [OF assms]
    by (simp add: uprintint_def atoi_def)
next
  case False
  then show ?thesis by (simp add: uprintint_def atoi_def)
qed

text \<open>
  C40. A number printed by \<open>printf\<close> with \<^verbatim>\<open>%d\<close> and read by \<open>atoi\<close> is the same number when it is not negative, whatever
  follows it that is not a digit, and 0 when it is negative.  The text fits the buffer of \<open>printint\<close>.
\<close>

theorem printf_atoi:
  assumes "rest = [] \<or> \<not> digit (hd rest)"
  shows "\<exists>t. printf ''%d'' [P_int w] = Some t \<and> length t \<le> 16 \<and> atoi (t @ rest) = (if 0 \<le> sint w then sint w else 0)"
  using uprintint_length [of 10 w True] printf_atoi_text [OF assms] by simp

theorem printf_atoi_witness:
  "\<exists>t. printf ''%d'' [P_int 2026] = Some t \<and> length t \<le> 16 \<and> atoi (t @ '' files'') = 2026"
  using printf_atoi [of "'' files''" 2026] by simp

section \<open>Word count\<close>

abbreviation blank :: "char \<Rightarrow> bool" where
  "blank c \<equiv> c \<in> {CHR '' '', CHR 0x0D, CHR 0x09, CHR 0x0A, CHR 0x0B}"

text \<open>The places where a word starts.\<close>

definition word_starts :: "string \<Rightarrow> nat set" where
  "word_starts t = {i. i < length t \<and> \<not> blank (t ! i) \<and> (i = 0 \<or> blank (t ! (i - 1)))}"

definition wc_start :: wcount where
  "wc_start = \<lparr>wc_l = 0, wc_w = 0, wc_c = 0, wc_inword = False\<rparr>"

lemma word_starts_snoc:
  "word_starts (t @ [c]) = (if \<not> blank c \<and> (t = [] \<or> blank (last t)) then insert (length t) (word_starts t) else word_starts t)"
proof -
  have "t \<noteq> [] \<Longrightarrow> last t = t ! (length t - 1)" by (rule last_conv_nth)
  then show ?thesis unfolding word_starts_def
    by (intro set_eqI) (simp add: nth_append less_Suc_eq; cases "t = []"; force)
qed

lemma word_starts_card: "finite (word_starts t)" "card (word_starts t) \<le> length t" "length t \<notin> word_starts t"
proof -
  have s: "word_starts t \<subseteq> {..<length t}" by (auto simp: word_starts_def)
  then show "finite (word_starts t)" by (rule finite_subset) simp
  show "card (word_starts t) \<le> length t" using card_mono [OF _ s] by simp
  show "length t \<notin> word_starts t" using s by auto
qed

lemma wc_char_eq:
  "wc_char s c =
     \<lparr>wc_l = (if c = CHR 0x0A then s32 (wc_l s + 1) else wc_l s),
       wc_w = (if \<not> blank c \<and> \<not> wc_inword s then s32 (wc_w s + 1) else wc_w s),
       wc_c = s32 (wc_c s + 1), wc_inword = (\<not> blank c)\<rparr>"
  by (cases s) (auto simp: wc_char_def Let_def)

lemma s32_Suc: "Suc n < 2 ^ 31 \<Longrightarrow> s32 (int n + 1) = int n + 1"
  by (intro s32_id) auto

lemma wc_counts:
  "length t < 2 ^ 31 \<Longrightarrow> foldl wc_char wc_start t =
     \<lparr>wc_l = int (count_list t (CHR 0x0A)), wc_w = int (card (word_starts t)), wc_c = int (length t),
       wc_inword = (t \<noteq> [] \<and> \<not> blank (last t))\<rparr>"
proof (induction t rule: rev_induct)
  case Nil
  then show ?case by (simp add: wc_start_def word_starts_def)
next
  case (snoc c t)
  have IH: "foldl wc_char wc_start t =
     \<lparr>wc_l = int (count_list t (CHR 0x0A)), wc_w = int (card (word_starts t)), wc_c = int (length t),
       wc_inword = (t \<noteq> [] \<and> \<not> blank (last t))\<rparr>" using snoc by simp
  have n: "Suc (length t) < 2 ^ 31" using snoc.prems by simp
  moreover have "count_list t (CHR 0x0A) \<le> length t" by (rule count_le_length)
  ultimately have "s32 (int (length t) + 1) = int (length t) + 1"
      "s32 (int (count_list t (CHR 0x0A)) + 1) = int (count_list t (CHR 0x0A)) + 1"
      "s32 (int (card (word_starts t)) + 1) = int (card (word_starts t)) + 1"
    using word_starts_card(2) [of t] by (intro s32_Suc; linarith)+
  moreover have "foldl wc_char wc_start (t @ [c]) = wc_char (foldl wc_char wc_start t) c" by simp
  ultimately show ?case
    unfolding IH wc_char_eq word_starts_snoc using word_starts_card [of t] by (cases "t = []") simp_all
qed

text \<open>
  C39. \<open>wc\<close> prints three numbers and the name: the newlines, the words and the characters of the file, however \<^verbatim>\<open>read\<close> cuts the
  file into pieces and also when a word or a line crosses from one piece into the next.
\<close>

theorem wc_correct:
  assumes "length (concat chunks) < 2 ^ 31"
  shows "\<exists>l w c. wc chunks False name = (Some (l @ '' '' @ w @ '' '' @ c @ '' '' @ name @ [CHR 0x0A]), False) \<and>
    atoi l = int (count_list (concat chunks) (CHR 0x0A)) \<and> atoi w = int (card (word_starts (concat chunks))) \<and>
    atoi c = int (length (concat chunks))"
proof -
  let ?t = "concat chunks" and ?p = "\<lambda>n. uprintint (of_int (int n)) 10 True"
  have read: "atoi (?p n) = int n" if "n \<le> length ?t" for n
  proof -
    have "n < 2 ^ 31" using that assms by linarith
    then have "sint (of_nat n :: u32) = int n" using sint_small [of "of_nat n"] by (simp add: unat_of_nat)
    then show ?thesis using printf_atoi_text [of "[]" "of_nat n"] by simp
  qed
  have fold: "foldl (foldl wc_char) s cs = foldl wc_char s (concat cs)" for s cs
    by (induction cs arbitrary: s) simp_all
  have s: "foldl (foldl wc_char) wc_start chunks =
     \<lparr>wc_l = int (count_list ?t (CHR 0x0A)), wc_w = int (card (word_starts ?t)), wc_c = int (length ?t),
       wc_inword = (?t \<noteq> [] \<and> \<not> blank (last ?t))\<rparr>" unfolding fold by (rule wc_counts [OF assms])
  have "wc chunks False name = (Some (?p (count_list ?t (CHR 0x0A)) @ '' '' @ ?p (card (word_starts ?t)) @ '' '' @
      ?p (length ?t) @ '' '' @ name @ [CHR 0x0A]), False)"
    unfolding wc_def wc_start_def [symmetric] s by simp
  then show ?thesis using read [OF count_le_length] read [OF word_starts_card(2)] read [OF order_refl] by blast
qed

theorem wc_correct_witness:
  "\<exists>l w c. wc [''one t'', ''wo'' @ [CHR 0x0A]] False ''f'' = (Some (l @ '' '' @ w @ '' '' @ c @ '' '' @ ''f'' @ [CHR 0x0A]), False) \<and>
    atoi l = 1 \<and> atoi w = 2 \<and> atoi c = 8"
proof -
  have "word_starts (''one two'' @ [CHR 0x0A]) = {0, 4}"
    by (auto simp: word_starts_def less_Suc_eq eval_nat_numeral)
  then have "card (word_starts (''one two'' @ [CHR 0x0A])) = 2" by simp
  then show ?thesis using wc_correct [of "[''one t'', ''wo'' @ [CHR 0x0A]]" "''f''"] by simp
qed

section \<open>The other routines\<close>

lemma ustrcmp_eq: "ustrcmp p q = 0 \<longleftrightarrow> p = q" if "CHR 0x00 \<notin> set p" "CHR 0x00 \<notin> set q"
  using that
proof (induction p q rule: ustrcmp.induct)
  case (2 b q)
  then show ?case using of_char_eq_iff [of b "CHR 0x00", where 'a = int] by auto
next
  case (3 a p)
  then show ?case using of_char_eq_iff [of a "CHR 0x00", where 'a = int] by auto
qed auto

lemma ugets_cut:
  "fst (ugets mx inp) @ snd (ugets mx inp) = inp" "length (fst (ugets mx inp)) \<le> mx - 1"
proof -
  have "fst (ugets_loop k inp) @ snd (ugets_loop k inp) = inp \<and> length (fst (ugets_loop k inp)) \<le> k" for k
    by (induction k inp rule: ugets_loop.induct) (auto split: prod.splits)
  then show "fst (ugets mx inp) @ snd (ugets mx inp) = inp" "length (fst (ugets mx inp)) \<le> mx - 1"
    by (simp_all add: ugets_def)
qed

lemma cat_copies: "\<forall>(p, k) \<in> set ps. k = int (length p) \<Longrightarrow> cat ps False = (concat (map fst ps), False)"
  by (induction ps) auto

lemma echo_joins: "as \<noteq> [] \<Longrightarrow> echo_args as = Some (concat (map (\<lambda>a. a @ '' '') (butlast as)) @ last as @ [CHR 0x0A])"
  by (induction as) auto

lemma fmtname_width: "14 \<le> length (fmtname path)"
  by (auto simp: fmtname_def Let_def)

text \<open>
  The copy runs upwards only: it is right when no byte of the source is overwritten before it is read.  Unlike the kernel's
  \<open>memmove\<close> it is wrong when the target overlaps the source from above.
\<close>

lemma umemmove_frame: "(\<And>i. i < n \<Longrightarrow> a \<noteq> dst + of_nat i) \<Longrightarrow> umemmove m dst src n a = m a"
proof (induction n arbitrary: m dst src)
  case (Suc n)
  have "a \<noteq> dst + 1 + of_nat i" if "i < n" for i using Suc.prems [of "Suc i"] that by (simp add: add.assoc)
  then show ?case using Suc.IH Suc.prems [of 0] by simp
qed simp

lemma of_nat_addr_nz: "0 < k \<Longrightarrow> k < 2 ^ 32 \<Longrightarrow> (of_nat k :: addr) \<noteq> 0"
  by (auto simp: word_unat_eq_iff unat_of_nat)

lemma umemmove_upwards:
  assumes "\<And>i j. i < j \<Longrightarrow> j < n \<Longrightarrow> dst + of_nat i \<noteq> src + of_nat j" and "n \<le> 2 ^ 32" and "i < n"
  shows "umemmove m dst src n (dst + of_nat i) = m (src + of_nat i)"
  using assms
proof (induction n arbitrary: m dst src i)
  case (Suc n)
  show ?case
  proof (cases i)
    case 0
    have "dst \<noteq> dst + 1 + of_nat k" if "k < n" for k
      using of_nat_addr_nz [of "Suc k"] that Suc.prems(2) by (simp add: add.assoc)
    then show ?thesis using 0 by (simp add: umemmove_frame)
  next
    case k: (Suc k)
    have "dst + 1 + of_nat i \<noteq> src + 1 + of_nat j" if "i < j" "j < n" for i j
      using Suc.prems(1) [of "Suc i" "Suc j"] that by (simp add: add.assoc)
    then have "umemmove (m(dst := m src)) (dst + 1) (src + 1) n (dst + 1 + of_nat k) = (m(dst := m src)) (src + 1 + of_nat k)"
      using k Suc.prems(2,3) by (intro Suc.IH) auto
    then show ?thesis using k Suc.prems(1) [of 0 "Suc k"] Suc.prems(3) by (simp add: add.assoc)
  qed
qed simp

theorem umemmove_overlap: "umemmove m (a + 1) a 2 (a + 2) = m a"
  by (simp add: numeral_2_eq_2 add.assoc)

end
