(* ===== verification/Spec2Isabelle.thy ===== *)
theory Spec2Isabelle
  imports Tty FileIO Shell Ide Mp Umalloc Pgtab Idt Ulib
begin

text \<open>
  A verification library for the xv6 teaching kernel in \<^verbatim>\<open>src/xv6-public\<close>, which this repository extends by the system calls
  \<^verbatim>\<open>setnice\<close>, \<^verbatim>\<open>getnice\<close> and \<^verbatim>\<open>ps\<close>.  File names below are relative to that directory.

  \<^bold>\<open>The program.\<close>  The kernel is a set of layers, each calling those below it: spin locks over the CPUs (\<^verbatim>\<open>spinlock.c\<close>), the page
  allocator (\<^verbatim>\<open>kalloc.c\<close>), the process table with its scheduler and sleep/wakeup (\<^verbatim>\<open>proc.c\<close>), sleep locks (\<^verbatim>\<open>sleeplock.c\<close>), the
  buffer cache (\<^verbatim>\<open>bio.c\<close>) over a disk driver (\<^verbatim>\<open>memide.c\<close> or \<^verbatim>\<open>ide.c\<close>), the redo log (\<^verbatim>\<open>log.c\<close>), inodes, files and directories
  (\<^verbatim>\<open>fs.c\<close>), pipes and open files (\<^verbatim>\<open>pipe.c\<close>, \<^verbatim>\<open>file.c\<close>), program loading (\<^verbatim>\<open>exec.c\<close>), system calls and traps (\<^verbatim>\<open>syscall.c\<close>,
  \<^verbatim>\<open>sysfile.c\<close>, \<^verbatim>\<open>sysproc.c\<close>, \<^verbatim>\<open>trap.c\<close>).  Beside them stand the console (\<^verbatim>\<open>console.c\<close>, \<^verbatim>\<open>uart.c\<close>, \<^verbatim>\<open>kbd.c\<close>), the interrupt
  controllers (\<^verbatim>\<open>picirq.c\<close>, \<^verbatim>\<open>ioapic.c\<close>, \<^verbatim>\<open>lapic.c\<close>, \<^verbatim>\<open>mp.c\<close>), and user programs.

  \<^bold>\<open>State and outcomes.\<close>  The global variables of the kernel are one chain of records, one per layer, each extending the one
  below (\<open>mach\<close>, \<open>kmem_state\<close>, \<open>pstate\<close>, \<open>sstate\<close>, \<open>bstate\<close>, \<open>lstate\<close>, \<open>cstate\<close>, \<open>fstate\<close>, \<open>xstate\<close>, \<open>kstate\<close>, \<open>tstate\<close>); an
  operation works on every extension of the record it needs.  A C function is a definition of the same name that takes the
  state and returns an outcome: \<open>Ok\<close> with a result and a state, \<open>Panic\<close> with a message, \<open>Swtch\<close> when the caller gives up the CPU
  in \<^verbatim>\<open>sched\<close>, \<open>Spin\<close> when it waits for a lock or a device.  What a function does after it got the CPU back is a definition
  of its own with suffix \<open>_resume\<close>, so that any interleaving can be written as a sequence of calls.  Undefined behaviour that the
  code can reach is a \<open>Panic\<close> with a message that is not in the source.  Unsigned machine integers keep their width
  as \<open>word\<close>; signed ones that are counted or computed with (the nesting depth of \<^verbatim>\<open>pushcli\<close>, the outstanding calls of the log and
  its room check, process ids, lengths) are \<open>int\<close> with the wrap-around written out by \<open>s32\<close>.  Reference counts, table
  indices and block numbers, which tables of fixed size bound, are plain \<open>int\<close> or \<open>nat\<close>.

  \<^bold>\<open>Theories.\<close>
  \<^item> \<open>Xv6Prelude\<close>, \<open>Bytes\<close>, \<open>Ring\<close>, \<open>Dll\<close>: outcomes, memory, table scans; little-endian fields; ring buffers with free-running
    counters (locales \<open>ring\<close> and \<open>bounded_queue\<close>, interpreted for pipes and the console input); circular doubly linked lists.
  \<^item> \<open>Spinlock\<close>, \<open>CString\<close>, \<open>Mmu\<close>, \<open>Kalloc\<close>: locks exclude each other and interrupts nest; the string routines meet their
    specifications, overlap included; address arithmetic; the free list never hands out a page twice (locale \<open>page_pool\<close>).
  \<^item> \<open>ProcTable\<close>, \<open>Sched\<close>, \<open>Calm\<close>: niceness, kill, slot allocation; no lost wakeup, with the order in which \<open>sleep\<close>
    changes its locks, a fair round of the scheduler; the vocabulary in which the upper layers take a lock, wake and sleep.
  \<^item> \<open>Sleeplock\<close>, \<open>Bio\<close>, \<open>Bcache\<close>: the cache refines the map from block numbers to contents and keeps its recency list.
  \<^item> \<open>Log\<close>, \<open>LogCrash\<close>, \<open>Tx\<close>: the history of disk writes makes every crash point a prefix; transactions and recovery are atomic;
    \<open>begin_op\<close> reserves entries of the header in memory.
  \<^item> \<open>Inode\<close>, \<open>Blocks\<close>, \<open>FileMap\<close>, \<open>Fs\<close>, \<open>FileIO\<close>: the block bitmap, inodes on disk, the block map of a file, and reading and
    writing as operations on the byte string of a file.
  \<^item> \<open>Vm\<close>, \<open>Pgtab\<close>: page tables in memory, and \<open>mappages\<close> as an update of the translation they define.
  \<^item> \<open>Pipe\<close>, \<open>File\<close>, \<open>Exec\<close>, \<open>ProcLife\<close>, \<open>Sysfile\<close>, \<open>Trap\<close>: pipes as byte streams; open files, \<^verbatim>\<open>exec\<close>, \<^verbatim>\<open>fork\<close>, \<^verbatim>\<open>exit\<close> and
    \<^verbatim>\<open>wait\<close>, every system call, and the trap dispatch.
  \<^item> \<open>Console\<close>, \<open>Tty\<close>: the line editor with its echo and the process listing, formatted output, the bounds of the screen.
  \<^item> \<open>Ports\<close>, \<open>Ide\<close>, \<open>Mp\<close>, \<open>Idt\<close>: device registers as lists of values to be read and a record of writes; the disk queue, the
    table of processors, the interrupt descriptor table and the serial chip.
  \<^item> \<open>Grep\<close>, \<open>Shell\<close>, \<open>Umalloc\<close>, \<open>Ulib\<close>: the matcher and the language of its patterns, the parser of the shell, the storage
    allocator (locale \<open>block_allocator\<close>), the user library with \<open>wc\<close> and the other small programs.

  \<^bold>\<open>Interfaces.\<close>  \<open>page_pool\<close> is interpreted on \<open>kalloc\<close> and \<open>kfree\<close>, \<open>ring\<close> on the buffers of pipes and of the console,
  \<open>bounded_queue\<close> on the pipe operations, \<open>block_allocator\<close> on \<open>malloc\<close> and \<open>free\<close>.

  \<^bold>\<open>Bounds.\<close>  Loops over arrays run over lists of indices and need no bound.  \<open>mappages_loop\<close> is given one round per page of the
  range, \<open>fetchstr_scan\<close> one per byte below the end of the process, the searches of \<open>malloc\<close> and \<open>free\<close> two passes over as many
  blocks as the heap has units, the parser of the shell a depth of calls that grows with the line; the theorems on these functions
  show that the result is there, so that the bounds are enough.  A loop that polls a device ends with \<open>Spin\<close> when the list of
  values is used up.

  \<^bold>\<open>Parameters.\<close>  Linker symbols (\<^verbatim>\<open>data\<close>, \<^verbatim>\<open>end\<close>), the generated entry points \<^verbatim>\<open>vectors\<close>, the values that devices return, and for
  user programs the results of system calls are arguments or fields of the state.

  \<^bold>\<open>What the code does otherwise than it says.\<close>  \<open>kill_zero_next_killed\<close> and \<open>allocproc_failed_pid\<close> (\<open>Sched\<close>) on slots that keep
  the marks of earlier processes, \<open>grep_partial_line\<close> (\<open>Grep\<close>), \<open>malloc_overflow\<close> (\<open>Umalloc\<close>), \<open>mkfs_log_too_small\<close> (\<open>Tx\<close>), \<open>ide_error_stale\<close> (\<open>Ide\<close>),
  \<open>umemmove_overlap\<close> (\<open>Ulib\<close>), and the second half of \<open>mpinit_correct\<close> (\<open>Mp\<close>).

  \<^bold>\<open>Not modelled.\<close>  Assembly and boot (\<^verbatim>\<open>bootasm.S\<close>, \<^verbatim>\<open>entry.S\<close>, \<^verbatim>\<open>swtch.S\<close>, \<^verbatim>\<open>trapasm.S\<close>, \<^verbatim>\<open>bootmain.c\<close>, \<^verbatim>\<open>main.c\<close>): their effect is the
  switch outcome and the frames in the state.  The image builder \<^verbatim>\<open>mkfs.c\<close>, a program of the host.  The test programs, the
  endless loop of \<^verbatim>\<open>init.c\<close>, the listing of \<^verbatim>\<open>ls.c\<close> apart from its name formatting, and the opening of the console at the start of
  the shell.  \<^verbatim>\<open>panic\<close> itself, which is an outcome.  The homework programs and course reports.  Weak memory ordering: steps of
  different CPUs interleave as whole calls between lock operations.
\<close>

end
